(* ===== verification/Prelude.thy ===== *)
theory Prelude
  imports Main "HOL-Library.Word"
begin

unbundle bit_operations_syntax

text \<open>
  Shared vocabulary of the development: the C integer types of the i386 kernel, C characters and
  NUL-terminated strings, the arguments of the printf family, and the part of the machine state
  every kernel component touches: the nested interrupt lock of include/asm/lock.h and the sequence
  of calls made to printk.  The generic lemmas on words and lists that the component theories share
  are collected at the end.
\<close>

section \<open>C types\<close>

type_synonym u8 = "8 word"      \<comment> \<open>unsigned char\<close>
type_synonym u16 = "16 word"    \<comment> \<open>unsigned short\<close>
type_synonym u32 = "32 word"    \<comment> \<open>unsigned int, unsigned long and pointers on i386\<close>
type_synonym u64 = "64 word"    \<comment> \<open>unsigned long long\<close>

named_theorems lock_simps \<open>how the interrupt lock and the printk trace act on the machine record\<close>
named_theorems c_arith \<open>ranges and conversions of C integers\<close>

text \<open>
  A C \<open>int\<close> is a HOL \<open>int\<close>; where a computation of the source can leave the 32-bit range the
  wrap-around of the generated code is written with \<open>s32\<close>.
\<close>

definition s32 :: "int \<Rightarrow> int" where
  "s32 i = signed_take_bit 31 i"

definition int_range :: "int \<Rightarrow> bool" where
  "int_range i \<longleftrightarrow> - (2 ^ 31) \<le> i \<and> i < 2 ^ 31"

lemma s32_id [c_arith]: "int_range i \<Longrightarrow> s32 i = i"
  by (simp add: s32_def int_range_def signed_take_bit_int_eq_self)

lemma s32_range: "int_range (s32 i)"
  using signed_take_bit_int_greater_eq_minus_exp [of 31 i] signed_take_bit_int_less_exp [of 31 i]
  by (simp add: s32_def int_range_def)

section \<open>Characters and strings\<close>

text \<open>
  A byte of text is a HOL \<open>char\<close>.  C's \<open>char\<close> is signed on i386: \<open>char_val\<close> is its value in an
  expression, \<open>byte_of\<close> the unsigned byte.  A NUL-terminated string is the list of the characters
  from the pointer on; reading at the end of the list gives the terminating NUL.
\<close>

definition byte_of :: "char \<Rightarrow> nat" where
  "byte_of c = of_char c"

definition char_val :: "char \<Rightarrow> int" where
  "char_val c = (if byte_of c < 128 then int (byte_of c) else int (byte_of c) - 256)"

definition nul :: char where
  "nul = CHR 0x00"

definition peek :: "string \<Rightarrow> char" where
  "peek s = (case s of [] \<Rightarrow> nul | c # _ \<Rightarrow> c)"

lemma byte_of_less [simp]: "byte_of c < 256"
  using nat_of_char_less_256 [of c] by (simp add: byte_of_def)

lemma peek_simps [simp]: "peek [] = nul" "peek (c # s) = c"
  by (simp_all add: peek_def)

lemma byte_of_nul [simp]: "byte_of nul = 0"
  by (simp add: byte_of_def nul_def)

lemma byte_of_char_of [simp]: "n < 256 \<Longrightarrow> byte_of (char_of n) = n"
  by (simp add: byte_of_def)

lemma char_of_byte_of [simp]: "char_of (byte_of c) = c"
  by (simp add: byte_of_def)

lemma byte_of_eq_iff: "byte_of c = byte_of d \<longleftrightarrow> c = d"
  by (metis char_of_byte_of)

lemma char_of_0 [simp]: "char_of (0 :: nat) = nul"
  by (metis byte_of_char_of byte_of_eq_iff byte_of_nul zero_less_numeral)

section \<open>Arguments of the printf family and the printk trace\<close>

text \<open>
  One element per argument fetched by \<open>va_arg\<close>: a 32-bit slot (int, long or a pointer that is not
  read through), a 64-bit slot (long long), or a pointer to a string, \<open>None\<close> being the null pointer.
\<close>

datatype varg = VInt u32 | VLL u64 | VStr "string option"

type_synonym kcall = "string \<times> varg list"    \<comment> \<open>a call of printk: the format and its arguments\<close>

section \<open>The interrupt lock\<close>

text \<open>
  \<open>klock\<close> is \<open>_kernel_lock\<close> (init/main.c), \<open>intr\<close> the interrupt flag of EFLAGS.  \<open>ktrace\<close> is the
  sequence of the calls to printk the code has made so far; what such a call does to the log and to
  the consoles is the subject of the theory of kernel/printk.c.  \<open>kports\<close> is the sequence of the writes
  to I/O ports, as pairs of port and value (include/asm/io.h); \<open>kbochs\<close> is the flag
  \<open>bochs_debug_enabled\<close> of kernel/bochs.c.
\<close>

record kcpu =
  klock :: u32
  intr :: bool
  ktrace :: "kcall list"
  kports :: "(u16 \<times> u32) list"
  kbochs :: bool

definition lock_kernel :: "'a kcpu_scheme \<Rightarrow> 'a kcpu_scheme" where
  "lock_kernel s = s\<lparr>intr := False, klock := klock s + 1\<rparr>"

definition unlock_kernel :: "'a kcpu_scheme \<Rightarrow> 'a kcpu_scheme" where
  "unlock_kernel s =
     (let s = s\<lparr>klock := klock s - 1\<rparr> in if klock s = 0 then s\<lparr>intr := True\<rparr> else s)"

text \<open>
  \<open>lock_flags\<close> saves the flags before it locks, \<open>unlock_flags\<close> unlocks and puts the saved flags back.
\<close>

definition lock_flags :: "'a kcpu_scheme \<Rightarrow> bool \<times> 'a kcpu_scheme" where
  "lock_flags s = (intr s, lock_kernel s)"

definition unlock_flags :: "bool \<Rightarrow> 'a kcpu_scheme \<Rightarrow> 'a kcpu_scheme" where
  "unlock_flags flags s = (unlock_kernel s)\<lparr>intr := flags\<rparr>"

definition say :: "string \<Rightarrow> varg list \<Rightarrow> 'a kcpu_scheme \<Rightarrow> 'a kcpu_scheme" where
  "say fmt args s = s\<lparr>ktrace := ktrace s @ [(fmt, args)]\<rparr>"

definition outp :: "u16 \<Rightarrow> u32 \<Rightarrow> 'a kcpu_scheme \<Rightarrow> 'a kcpu_scheme" where
  "outp port v s = s\<lparr>kports := kports s @ [(port, v)]\<rparr>"

text \<open>The prefixes of include/kernel/kernel.h that give a message its level.\<close>

definition kern_emerg :: string where "kern_emerg = ''<0>''"
definition kern_err :: string where "kern_err = ''<3>''"
definition kern_debug :: string where "kern_debug = ''<7>''"

definition newline :: string where "newline = [char_of (10::nat)]"

lemma lock_unlock_nested [lock_simps]:
  "0 < klock s \<Longrightarrow> klock s + 1 \<noteq> 0 \<Longrightarrow> \<not> intr s \<Longrightarrow> unlock_kernel (lock_kernel s) = s"
  by (auto simp: lock_kernel_def unlock_kernel_def Let_def)

lemma lock_kernel_sel [lock_simps]:
  "klock (lock_kernel s) = klock s + 1" "intr (lock_kernel s) = False"
  "ktrace (lock_kernel s) = ktrace s" "kports (lock_kernel s) = kports s" "kbochs (lock_kernel s) = kbochs s"
  "kcpu.more (lock_kernel s) = kcpu.more s"
  by (simp_all add: lock_kernel_def)

lemma unlock_kernel_sel [lock_simps]:
  "klock (unlock_kernel s) = klock s - 1"
  "intr (unlock_kernel s) = (klock s = 1 \<or> intr s)"
  "ktrace (unlock_kernel s) = ktrace s" "kports (unlock_kernel s) = kports s" "kbochs (unlock_kernel s) = kbochs s"
  "kcpu.more (unlock_kernel s) = kcpu.more s"
  by (auto simp: unlock_kernel_def Let_def)

lemma say_sel [lock_simps]:
  "klock (say f a s) = klock s" "intr (say f a s) = intr s"
  "ktrace (say f a s) = ktrace s @ [(f, a)]" "kports (say f a s) = kports s" "kbochs (say f a s) = kbochs s"
  "kcpu.more (say f a s) = kcpu.more s"
  by (simp_all add: say_def)

lemma outp_sel [lock_simps]:
  "klock (outp p v s) = klock s" "intr (outp p v s) = intr s" "ktrace (outp p v s) = ktrace s"
  "kports (outp p v s) = kports s @ [(p, v)]" "kbochs (outp p v s) = kbochs s"
  "kcpu.more (outp p v s) = kcpu.more s"
  by (simp_all add: outp_def)

section \<open>Shared lemmas\<close>

lemma unat_bounds [simp]:
  "unat (a :: u8) < 256" "unat (b :: u16) < 65536" "unat (c :: u32) < 4294967296"
  "unat (d :: u64) < 18446744073709551616"
  using unsigned_less [of a] unsigned_less [of b] unsigned_less [of c] unsigned_less [of d]
  by simp_all

lemma unat_add_nowrap [c_arith]:
  fixes a b :: "'a::len word"
  shows "unat a + unat b < 2 ^ LENGTH('a) \<Longrightarrow> unat (a + b) = unat a + unat b"
  by (simp add: unat_word_ariths)

lemma unat_sub_nowrap [c_arith]:
  fixes a b :: "'a::len word"
  shows "unat b \<le> unat a \<Longrightarrow> unat (a - b) = unat a - unat b"
  by (simp add: unat_sub word_le_nat_alt)

lemma unat_ucast_up [c_arith]:
  fixes x :: "'a::len word"
  assumes "LENGTH('a) \<le> LENGTH('b)"
  shows "unat (ucast x :: 'b::len word) = unat x"
proof -
  have "unat x < 2 ^ LENGTH('a)" by simp
  also have "(2 :: nat) ^ LENGTH('a) \<le> 2 ^ LENGTH('b)" using assms by (simp add: power_increasing)
  finally have "unat x < 2 ^ LENGTH('b)" .
  then show ?thesis by (simp add: unsigned_ucast_eq take_bit_nat_eq_self)
qed

lemma sint_small: "unat (a :: u32) < 2 ^ 31 \<Longrightarrow> sint a = int (unat a)"
proof -
  assume a: "unat a < 2 ^ 31"
  define n where "n = unat a"
  have n: "n < 2 ^ 31" using a n_def by simp
  have "sint a = signed_take_bit 31 (uint a)" by (simp add: sint_uint)
  also have "\<dots> = signed_take_bit 31 (int n)" by (simp add: n_def)
  also have "\<dots> = int n" by (rule signed_take_bit_int_eq_self) (use n in simp_all)
  finally show ?thesis unfolding n_def .
qed

lemma uint_eq_sint [c_arith]:
  fixes w :: "'a::len word"
  assumes "0 \<le> sint w"
  shows "uint w = sint w"
proof -
  have "uint w = take_bit LENGTH('a) (sint w)" by (rule uint_sint)
  moreover have "sint w < 2 ^ LENGTH('a)"
    using sint_less [of w] by (rule less_le_trans) (simp add: power_increasing)
  ultimately show ?thesis using assms by (simp add: take_bit_int_eq_self)
qed

lemma unat_of_nat_small [c_arith]:
  "n < 2 ^ LENGTH('a) \<Longrightarrow> unat (of_nat n :: 'a::len word) = n"
  by (simp add: unat_of_nat)

end
