(* ===== verification/Links.thy ===== *)
theory Links
  imports Prelude
begin

text \<open>
  Doubly linked rings of nodes in a typed store.  kernel/task.c keeps three of them in the same
  structure, with three pairs of link fields: the list of all tasks, the run list and the wait queues.
  The locale states what a pair of fields has to satisfy and proves, once, what the two edits the code
  makes do: linking a node in before the head (\<open>attach\<close>, and \<open>pair\<close> for the first one) and taking a
  node out (\<open>detach\<close>).
\<close>

type_synonym 'n store = "u32 \<Rightarrow> 'n"

definition edit :: "u32 \<Rightarrow> ('n \<Rightarrow> 'n) \<Rightarrow> 'n store \<Rightarrow> 'n store" where
  "edit a f st = st(a := f (st a))"

lemma edit_apply: "edit a f st b = (if b = a then f (st a) else st b)"
  by (simp add: edit_def)

locale dlink =
  fixes nx pv :: "'n \<Rightarrow> u32" and put_nx put_pv :: "u32 \<Rightarrow> 'n \<Rightarrow> 'n"
  assumes nx_put_nx: "nx (put_nx v n) = v"
    and pv_put_nx: "pv (put_nx v n) = pv n"
    and nx_put_pv: "nx (put_pv v n) = nx n"
    and pv_put_pv: "pv (put_pv v n) = v"
begin

lemmas field_laws = nx_put_nx pv_put_nx nx_put_pv pv_put_pv

fun linked :: "'n store \<Rightarrow> u32 list \<Rightarrow> bool" where
  "linked st (a # b # xs) \<longleftrightarrow> nx (st a) = b \<and> pv (st b) = a \<and> linked st (b # xs)"
| "linked st _ \<longleftrightarrow> True"

definition ring :: "'n store \<Rightarrow> u32 list \<Rightarrow> bool" where
  "ring st ys \<longleftrightarrow> ys \<noteq> [] \<and> distinct ys \<and> 0 \<notin> set ys \<and> linked st (ys @ [hd ys])"

definition attach :: "u32 \<Rightarrow> u32 \<Rightarrow> 'n store \<Rightarrow> 'n store" where
  "attach h t st =
     (let st = edit (pv (st h)) (put_nx t) st;
          st = edit t (put_pv (pv (st h))) st;
          st = edit h (put_pv t) st
      in edit t (put_nx h) st)"

definition pair :: "u32 \<Rightarrow> u32 \<Rightarrow> 'n store \<Rightarrow> 'n store" where
  "pair h t st =
     (let st = edit h (put_nx t) st;
          st = edit h (put_pv t) st;
          st = edit t (put_nx h) st
      in edit t (put_pv h) st)"

definition detach :: "u32 \<Rightarrow> 'n store \<Rightarrow> 'n store" where
  "detach t st =
     (let st = edit (pv (st t)) (put_nx (nx (st t))) st
      in edit (nx (st t)) (put_pv (pv (st t))) st)"

lemma linked_append: "linked st (xs @ a # ys) \<longleftrightarrow> linked st (xs @ [a]) \<and> linked st (a # ys)"
proof (induction xs)
  case (Cons x xs)
  then show ?case by (cases xs) auto
qed simp

lemmas linked_appendI = linked_append [THEN iffD2, OF conjI]

lemma linked_appendD: "linked st (xs @ a # ys) \<Longrightarrow> linked st (xs @ [a]) \<and> linked st (a # ys)"
  using linked_append [of st xs a ys] by blast

lemma linked_cong:
  "linked st xs \<Longrightarrow> \<forall>a\<in>set (butlast xs). nx (st' a) = nx (st a) \<Longrightarrow>
   \<forall>a\<in>set (tl xs). pv (st' a) = pv (st a) \<Longrightarrow> linked st' xs"
  by (induction st xs rule: linked.induct) auto

lemma ring_cong:
  assumes "ring st ys" "\<forall>a\<in>set ys. nx (st' a) = nx (st a) \<and> pv (st' a) = pv (st a)"
  shows "ring st' ys"
proof -
  obtain h zs where ys: "ys = h # zs" using assms(1) by (cases ys) (auto simp: ring_def)
  have "linked st (ys @ [hd ys])" using assms(1) by (simp add: ring_def)
  then have "linked st' (ys @ [hd ys])"
    by (rule linked_cong) (use assms(2) ys in auto)
  then show ?thesis using assms(1) by (simp add: ring_def)
qed

lemma ring_next:
  assumes "ring st (xs @ a # b # ys)"
  shows "nx (st a) = b"
proof -
  have "linked st ((xs @ a # b # ys) @ [hd (xs @ a # b # ys)])" using assms unfolding ring_def by blast
  then have "linked st (xs @ a # (b # ys @ [hd (xs @ a # b # ys)]))" by simp
  then have "linked st (a # b # ys @ [hd (xs @ a # b # ys)])" by (blast dest: linked_appendD)
  then show ?thesis by simp
qed

lemma ring_last:
  assumes "ring st (h # xs)"
  shows "nx (st (last (h # xs))) = h" and "pv (st h) = last (h # xs)"
proof -
  obtain zs l where zs: "h # xs = zs @ [l]" by (metis rev_exhaust list.distinct(1))
  have "linked st ((h # xs) @ [h])" using assms unfolding ring_def by simp
  then have "linked st (zs @ l # [h])" unfolding zs by simp
  then have "linked st [l, h]" by (blast dest: linked_appendD)
  then show "nx (st (last (h # xs))) = h" and "pv (st h) = last (h # xs)" unfolding zs by simp_all
qed

lemma ring_attach:
  assumes r: "ring st (h # ys)" and t: "t \<notin> set (h # ys)" "t \<noteq> 0"
  shows "ring (attach h t st) (h # ys @ [t])"
proof -
  obtain zs l where zs: "h # ys = zs @ [l]" by (metis rev_exhaust list.distinct(1))
  have pvh: "pv (st h) = l" using ring_last(2) [OF r] unfolding zs by simp
  have l: "l \<in> set (h # ys)" unfolding zs by simp
  have tl: "t \<noteq> l" using l t(1) by blast
  have dist: "distinct (h # ys)" using r by (simp add: ring_def)
  have "linked st ((h # ys) @ [h])" using r unfolding ring_def by simp
  then have "linked st (zs @ [l] @ [h])" unfolding zs by simp
  then have lk: "linked st (h # ys)" unfolding zs using linked_append [of st zs l "[h]"] by simp
  let ?f = "attach h t st"
  have ev: "nx (?f a) = (if a = t then h else if a = l then t else nx (st a))"
    "pv (?f a) = (if a = h then t else if a = t then l else pv (st a))" for a
    using t tl pvh by (auto simp: attach_def Let_def edit_apply field_laws)
  have bl: "butlast (h # ys) = zs" unfolding zs by simp
  have "l \<notin> set zs" "t \<notin> set zs" using dist t(1) unfolding zs by auto
  then have "\<forall>a\<in>set (butlast (h # ys)). nx (?f a) = nx (st a)" unfolding bl using ev by auto
  moreover have "\<forall>a\<in>set (tl (h # ys)). pv (?f a) = pv (st a)" using ev dist t(1) by auto
  ultimately have "linked ?f (h # ys)" by (rule linked_cong [OF lk])
  then have l1: "linked ?f (zs @ [l])" unfolding zs .
  have lin: "linked ?f [l, t, h]" using ev tl t by auto
  have "linked ?f (zs @ l # [t, h])" using l1 lin by (rule linked_appendI)
  moreover have "zs @ l # [t, h] = (h # ys @ [t]) @ [h]" using zs by simp
  ultimately show ?thesis using r t unfolding ring_def by auto
qed

lemma ring_pair:
  assumes "h \<noteq> 0" "t \<noteq> 0" "h \<noteq> t"
  shows "ring (pair h t st) [h, t]"
  using assms by (simp add: ring_def pair_def Let_def edit_apply field_laws)

lemma attach_other:
  assumes r: "ring st (h # ys)" and a: "a \<notin> set (h # ys)" "a \<noteq> t"
  shows "attach h t st a = st a"
proof -
  have "last (h # ys) \<in> set (h # ys)" by (rule last_in_set) simp
  then show ?thesis using a ring_last(2) [OF r] by (auto simp: attach_def Let_def edit_apply)
qed

lemma ring_detach:
  assumes r: "ring st (h # xs @ t # ys)"
  shows "ring (detach t st) (h # xs @ ys)"
proof -
  obtain zs l where zs: "h # xs = zs @ [l]" by (metis rev_exhaust list.distinct(1))
  obtain n ms where ms: "ys @ [h] = n # ms" by (cases "ys @ [h]") auto
  have dist: "distinct (h # xs @ t # ys)" using r by (simp add: ring_def)
  have eq: "(h # xs @ t # ys) @ [h] = zs @ l # t # n # ms"
    using zs ms by (metis append.assoc append_Cons append_Nil)
  have lk: "linked st (zs @ l # t # n # ms)" using r eq unfolding ring_def by simp
  then have lk2: "linked st (zs @ [l])" "linked st (l # t # n # ms)" using linked_appendD by blast+
  then have f: "nx (st l) = t" "pv (st t) = l" "nx (st t) = n" "pv (st n) = t" "linked st (n # ms)" by auto
  have n: "n \<in> set (ys @ [h])" and l: "l \<in> set (h # xs)" unfolding zs ms by simp_all
  have tl: "t \<noteq> l" "t \<noteq> n" using dist n l by auto
  let ?f = "detach t st"
  have ev: "nx (?f a) = (if a = l then n else nx (st a))" "pv (?f a) = (if a = n then l else pv (st a))" for a
    using tl f by (auto simp: detach_def Let_def edit_apply field_laws)
  have dz: "distinct (zs @ [l])" using dist unfolding zs [symmetric] by auto
  have pre: "linked ?f (zs @ [l])"
  proof (rule linked_cong [OF lk2(1)])
    show "\<forall>a\<in>set (butlast (zs @ [l])). nx (?f a) = nx (st a)" using ev dz by auto
    have "n \<notin> set (tl (zs @ [l]))"
      unfolding zs [symmetric] using n dist by auto
    then show "\<forall>a\<in>set (tl (zs @ [l])). pv (?f a) = pv (st a)" using ev by auto
  qed
  have bl: "butlast (n # ms) = ys" unfolding ms [symmetric] by simp
  have lys: "l \<notin> set ys" using l dist by auto
  have tms: "n \<notin> set ms"
  proof (cases ys)
    case Nil
    then show ?thesis using ms by simp
  next
    case (Cons y yy)
    then show ?thesis using ms dist by auto
  qed
  have post: "linked ?f (n # ms)"
    by (rule linked_cong [OF f(5)]) (use ev bl lys tms in auto)
  have "linked ?f (zs @ l # n # ms)"
    using pre by (rule linked_appendI) (use post ev in simp)
  moreover have "zs @ l # n # ms = (h # xs @ ys) @ [h]"
    using zs ms by (metis append.assoc append_Cons append_Nil)
  ultimately show ?thesis using r unfolding ring_def by auto
qed

lemma detach_other:
  assumes r: "ring st (h # xs @ t # ys)" and a: "a \<notin> set (h # xs @ ys)"
  shows "detach t st a = st a"
proof -
  obtain zs l where zs: "h # xs = zs @ [l]" by (metis rev_exhaust list.distinct(1))
  obtain n ms where ms: "ys @ [h] = n # ms" by (cases "ys @ [h]") auto
  have eq: "(h # xs @ t # ys) @ [h] = zs @ l # t # n # ms"
    using zs ms by (metis append.assoc append_Cons append_Nil)
  have lk: "linked st (zs @ l # t # n # ms)" using r eq unfolding ring_def by simp
  then have f: "pv (st t) = l" "nx (st t) = n" using linked_appendD [OF lk] by auto
  have n: "n \<in> set (ys @ [h])" and l: "l \<in> set (h # xs)" unfolding zs ms by simp_all
  have dist: "distinct (h # xs @ t # ys)" using r by (simp add: ring_def)
  have "a \<noteq> l" "a \<noteq> n" "t \<noteq> l" using n l a dist by auto
  then show ?thesis using f by (simp add: detach_def Let_def edit_apply)
qed

end

end
