(* ===== verification/Machine.thy ===== *)
theory Machine
  imports Prelude "HOL-Library.Signed_Division"
begin

text \<open>
  The flat byte memory of the machine: a function from 32-bit addresses to bytes, with the
  little-endian loads and stores of 16-bit and 32-bit fields, and the byte loops memset and memcpy of
  init/main.c.  \<open>span a n\<close> is the set of the \<open>n\<close> addresses from \<open>a\<close> on; the frame lemmas say that a
  store changes its span only and that a load depends on its span only.
\<close>

type_synonym mem = "u32 \<Rightarrow> u8"

named_theorems mem_simps \<open>loads after stores, and the bytes a store leaves alone\<close>

section \<open>Loads and stores\<close>

definition load16 :: "mem \<Rightarrow> u32 \<Rightarrow> u16" where
  "load16 m a = ucast (m a) OR push_bit 8 (ucast (m (a + 1)))"

definition store16 :: "mem \<Rightarrow> u32 \<Rightarrow> u16 \<Rightarrow> mem" where
  "store16 m a v = m(a := ucast v, a + 1 := ucast (drop_bit 8 v))"

definition load32 :: "mem \<Rightarrow> u32 \<Rightarrow> u32" where
  "load32 m a = ucast (m a) OR push_bit 8 (ucast (m (a + 1)))
     OR push_bit 16 (ucast (m (a + 2))) OR push_bit 24 (ucast (m (a + 3)))"

definition store32 :: "mem \<Rightarrow> u32 \<Rightarrow> u32 \<Rightarrow> mem" where
  "store32 m a v = m(a := ucast v, a + 1 := ucast (drop_bit 8 v),
     a + 2 := ucast (drop_bit 16 v), a + 3 := ucast (drop_bit 24 v))"

definition span :: "u32 \<Rightarrow> nat \<Rightarrow> u32 set" where
  "span a n = (\<lambda>i. a + of_nat i) ` {..<n}"

section \<open>memset and memcpy\<close>

text \<open>\<open>for (i=0;i<n;i++) ss[i] = c\<close>; the last argument is the number of rounds left.\<close>

primrec memset_loop :: "u32 \<Rightarrow> u8 \<Rightarrow> nat \<Rightarrow> mem \<Rightarrow> nat \<Rightarrow> mem" where
  "memset_loop s c i m 0 = m"
| "memset_loop s c i m (Suc k) = memset_loop s c (i + 1) (m(s + of_nat i := c)) k"

definition memset :: "u32 \<Rightarrow> u8 \<Rightarrow> u32 \<Rightarrow> mem \<Rightarrow> mem" where
  "memset s c n m = memset_loop s c 0 m (unat n)"

primrec memcpy_loop :: "u32 \<Rightarrow> u32 \<Rightarrow> nat \<Rightarrow> mem \<Rightarrow> nat \<Rightarrow> mem" where
  "memcpy_loop d s i m 0 = m"
| "memcpy_loop d s i m (Suc k) = memcpy_loop d s (i + 1) (m(d + of_nat i := m (s + of_nat i))) k"

definition memcpy :: "u32 \<Rightarrow> u32 \<Rightarrow> u32 \<Rightarrow> mem \<Rightarrow> mem" where
  "memcpy d s n m = memcpy_loop d s 0 m (unat n)"

section \<open>Spans\<close>

lemma span_mem: "i < n \<Longrightarrow> a + of_nat i \<in> span a n"
  by (simp add: span_def)

lemma span4: "span a 4 = {a, a + 1, a + 2, a + 3}"
proof -
  have "{..<4} = {0, 1, 2, 3 :: nat}" by auto
  then show ?thesis by (auto simp: span_def)
qed

lemma span2: "span a 2 = {a, a + 1}"
proof -
  have "{..<2} = {0, 1 :: nat}" by auto
  then show ?thesis by (auto simp: span_def)
qed

lemma span_mono: "n \<le> k \<Longrightarrow> span a n \<subseteq> span a k"
  by (auto simp: span_def)

lemma span_shift: "i + n \<le> k \<Longrightarrow> span (a + of_nat i) n \<subseteq> span a k"
proof
  fix x assume "i + n \<le> k" and "x \<in> span (a + of_nat i) n"
  then obtain j where "j < n" and "x = a + of_nat (i + j)" by (auto simp: span_def add.assoc)
  with \<open>i + n \<le> k\<close> show "x \<in> span a k" using span_mem [of "i + j" k a] by simp
qed

lemma in_span_iff:
  assumes "unat a + n \<le> 2 ^ 32"
  shows "x \<in> span a n \<longleftrightarrow> unat a \<le> unat x \<and> unat x < unat a + n"
proof
  assume "x \<in> span a n"
  then obtain i where "i < n" and x: "x = a + of_nat i" by (auto simp: span_def)
  then have "unat x = unat a + i"
    using assms by (simp add: unat_word_ariths unat_of_nat)
  with \<open>i < n\<close> show "unat a \<le> unat x \<and> unat x < unat a + n" by simp
next
  assume b: "unat a \<le> unat x \<and> unat x < unat a + n"
  then have "x = a + of_nat (unat x - unat a)" by (simp add: of_nat_diff)
  moreover have "unat x - unat a < n" using b by linarith
  ultimately show "x \<in> span a n" unfolding span_def by blast
qed

lemma span_disjoint:
  assumes "unat a + n \<le> unat b" and "unat b + k \<le> 2 ^ 32"
  shows "span a n \<inter> span b k = {}"
  using assms by (auto simp: in_span_iff)

section \<open>Loads after stores\<close>

lemma u32_split: "ucast (ucast (v :: u32) :: u8) OR push_bit 8 (ucast (ucast (drop_bit 8 v) :: u8))
    OR push_bit 16 (ucast (ucast (drop_bit 16 v) :: u8))
    OR push_bit 24 (ucast (ucast (drop_bit 24 v) :: u8)) = v"
proof (rule bit_word_eqI)
  fix n
  assume "n < LENGTH(32)"
  then show "bit (ucast (ucast v :: u8) OR push_bit 8 (ucast (ucast (drop_bit 8 v) :: u8))
      OR push_bit 16 (ucast (ucast (drop_bit 16 v) :: u8))
      OR push_bit 24 (ucast (ucast (drop_bit 24 v) :: u8)) :: u32) n = bit v n"
    by (cases "n < 8"; cases "n < 16"; cases "n < 24") (auto simp: bit_simps)
qed

lemma u16_split: "ucast (ucast (v :: u16) :: u8) OR push_bit 8 (ucast (ucast (drop_bit 8 v) :: u8)) = v"
  by (rule bit_word_eqI) (auto simp: bit_simps)

lemma store32_same [mem_simps]: "load32 (store32 m a v) a = v"
  by (simp add: load32_def store32_def u32_split)

lemma store16_same [mem_simps]: "load16 (store16 m a v) a = v"
  by (simp add: load16_def store16_def u16_split)

lemma store32_other: "x \<notin> span a 4 \<Longrightarrow> store32 m a v x = m x"
  by (simp add: store32_def span4)

lemma store16_other: "x \<notin> span a 2 \<Longrightarrow> store16 m a v x = m x"
  by (simp add: store16_def span2)

lemma load32_cong: "(\<And>x. x \<in> span a 4 \<Longrightarrow> m x = m' x) \<Longrightarrow> load32 m a = load32 m' a"
  by (simp add: load32_def span4)

lemma load16_cong: "(\<And>x. x \<in> span a 2 \<Longrightarrow> m x = m' x) \<Longrightarrow> load16 m a = load16 m' a"
  by (simp add: load16_def span2)

lemma load32_store32_other [mem_simps]:
  "span b 4 \<inter> span a 4 = {} \<Longrightarrow> load32 (store32 m a v) b = load32 m b"
  by (rule load32_cong, rule store32_other, blast)

lemma load16_store32_other [mem_simps]:
  "span b 2 \<inter> span a 4 = {} \<Longrightarrow> load16 (store32 m a v) b = load16 m b"
  by (rule load16_cong, rule store32_other, blast)

lemma load32_store16_other [mem_simps]:
  "span b 4 \<inter> span a 2 = {} \<Longrightarrow> load32 (store16 m a v) b = load32 m b"
  by (rule load32_cong, rule store16_other, blast)

lemma load16_store16_other [mem_simps]:
  "span b 2 \<inter> span a 2 = {} \<Longrightarrow> load16 (store16 m a v) b = load16 m b"
  by (rule load16_cong, rule store16_other, blast)

section \<open>The byte loops\<close>

lemma memset_loop_bytes:
  "memset_loop s c i m k x = (if \<exists>j<k. x = s + of_nat (i + j) then c else m x)"
proof (induction k arbitrary: i m)
  case (Suc k)
  have "(\<exists>j<Suc k. x = s + of_nat (i + j)) \<longleftrightarrow> x = s + of_nat i \<or> (\<exists>j<k. x = s + of_nat (i + 1 + j))"
    by (auto simp: less_Suc_eq_0_disj)
  then show ?case using Suc.IH by auto
qed simp

lemma memset_bytes: "memset s c n m x = (if x \<in> span s (unat n) then c else m x)"
  by (auto simp: memset_def memset_loop_bytes span_def)

lemma memcpy_loop_other:
  "(\<And>j. j < k \<Longrightarrow> x \<noteq> d + of_nat (i + j)) \<Longrightarrow> memcpy_loop d s i m k x = m x"
proof (induction k arbitrary: i m)
  case (Suc k)
  have "x \<noteq> d + of_nat i" using Suc.prems [of 0] by simp
  moreover have "memcpy_loop d s (i + 1) (m(d + of_nat i := m (s + of_nat i))) k x
      = (m(d + of_nat i := m (s + of_nat i))) x"
    by (rule Suc.IH) (use Suc.prems [of "Suc j" for j] in simp)
  ultimately show ?case by simp
qed simp

text \<open>
  Copying upwards byte by byte is right for disjoint regions, and for overlapping regions whose
  destination starts below the source.
\<close>

lemma memcpy_loop_bytes:
  assumes "unat d + (i + k) \<le> 2 ^ 32" and "unat s + (i + k) \<le> 2 ^ 32"
    and "unat d \<le> unat s \<or> unat s + (i + k) \<le> unat d" and "j < k"
  shows "memcpy_loop d s i m k (d + of_nat (i + j)) = m (s + of_nat (i + j))"
  using assms
proof (induction k arbitrary: i m j)
  case (Suc k)
  let ?m = "m(d + of_nat i := m (s + of_nat i))"
  have addr: "unat (d + of_nat n) = unat d + n" "unat (s + of_nat n) = unat s + n" if "n < i + Suc k" for n
    using Suc.prems that by (simp_all add: unat_word_ariths unat_of_nat)
  show ?case
  proof (cases j)
    case 0
    have "memcpy_loop d s (i + 1) ?m k (d + of_nat i) = ?m (d + of_nat i)"
    proof (rule memcpy_loop_other)
      fix j' assume "j' < k"
      then have "unat (d + of_nat i) < unat (d + of_nat (i + 1 + j'))"
        unfolding addr(1) [of i, simplified] using addr(1) [of "i + 1 + j'"] by linarith
      then show "d + of_nat i \<noteq> d + of_nat (i + 1 + j')" by (metis less_irrefl)
    qed
    with 0 show ?thesis by simp
  next
    case (Suc j')
    have "memcpy_loop d s (i + 1) ?m k (d + of_nat (i + 1 + j')) = ?m (s + of_nat (i + 1 + j'))"
      by (rule Suc.IH) (use Suc.prems Suc in auto)
    moreover have "unat (s + of_nat (i + 1 + j')) \<noteq> unat (d + of_nat i)"
      using addr(2) [of "i + 1 + j'"] addr(1) [of i] Suc.prems Suc by linarith
    then have "s + of_nat (i + 1 + j') \<noteq> d + of_nat i" by metis
    ultimately show ?thesis using Suc by simp
  qed
qed simp

lemma memcpy_copies:
  assumes "unat d + unat n \<le> 2 ^ 32" and "unat s + unat n \<le> 2 ^ 32"
    and "unat d \<le> unat s \<or> unat s + unat n \<le> unat d" and "i < unat n"
  shows "memcpy d s n m (d + of_nat i) = m (s + of_nat i)"
  using memcpy_loop_bytes [of d 0 "unat n" s i m] assms by (simp add: memcpy_def)

lemma memcpy_other: "x \<notin> span d (unat n) \<Longrightarrow> memcpy d s n m x = m x"
  by (auto simp: memcpy_def span_def intro!: memcpy_loop_other)

section \<open>Properties\<close>

text \<open>
  memcpy copies exactly \<open>n\<close> bytes and touches no other, for disjoint regions and for
  overlapping ones whose destination lies below the source (the scrolling of the console relies on it);
  memset sets exactly the \<open>n\<close> bytes of its region.
\<close>

theorem memcpy_memset_correct:
  assumes "unat d + unat n \<le> 2 ^ 32" and "unat s + unat n \<le> 2 ^ 32"
    and "unat d \<le> unat s \<or> unat s + unat n \<le> unat d"
  shows "(\<forall>i < unat n. memcpy d s n m (d + of_nat i) = m (s + of_nat i))
    \<and> (\<forall>x. x \<notin> span d (unat n) \<longrightarrow> memcpy d s n m x = m x)
    \<and> (\<forall>x. memset d c n m x = (if x \<in> span d (unat n) then c else m x))"
  using memcpy_copies [OF assms] memcpy_other memset_bytes by metis

theorem memcpy_memset_correct_witness:
  "let m = (\<lambda>_. 0)(101 := 1, 102 := 2, 103 := 3) in
    (\<forall>i < unat (3 :: u32). memcpy 100 101 3 m (100 + of_nat i) = m (101 + of_nat i))
    \<and> (\<forall>x. x \<notin> span 100 (unat (3 :: u32)) \<longrightarrow> memcpy 100 101 3 m x = m x)
    \<and> (\<forall>x. memset 100 7 3 m x = (if x \<in> span 100 (unat (3 :: u32)) then 7 else m x))"
  unfolding Let_def by (rule memcpy_memset_correct) simp_all

end
