(* ===== verification/Extents.thy ===== *)
theory Extents
  imports Machine
begin

text \<open>
  The address-ordered free lists of kernel/memory.c, abstractly and in memory.  An extent is a pair of
  a start and a length; \<open>ext_ok g lo hi\<close> says that a list of extents is sorted, lies between
  \<open>lo\<close> and \<open>hi\<close>, has no extent shorter than \<open>g\<close> and a gap between any two neighbours (the list is
  fully coalesced).  \<open>ext_insert\<close> returns an extent to the list, \<open>ext_take\<close> takes one from the top of
  the first extent that is large enough.  \<open>seg\<close> relates such a list to a chain of nodes in memory; the
  locale \<open>free_list\<close> is the interface of a node's size field, and its lemmas serve the page list and
  the block list alike.
\<close>

section \<open>Extents\<close>

type_synonym ext = "nat \<times> nat"

primrec ext_ok :: "nat \<Rightarrow> nat \<Rightarrow> nat \<Rightarrow> ext list \<Rightarrow> bool" where
  "ext_ok g lo hi [] \<longleftrightarrow> True"
| "ext_ok g lo hi (e # es) \<longleftrightarrow>
     lo \<le> fst e \<and> g \<le> snd e \<and> fst e + snd e \<le> hi \<and> ext_ok g (fst e + snd e + 1) hi es"

definition ext_set :: "ext list \<Rightarrow> nat set" where
  "ext_set es = (\<Union>e\<in>set es. {fst e..<fst e + snd e})"

definition ext_sum :: "ext list \<Rightarrow> nat" where
  "ext_sum es = sum_list (map snd es)"

text \<open>\<open>attach\<close> puts an extent after the list \<open>before\<close>, merging it with the last one when they touch.\<close>

definition attach :: "ext list \<Rightarrow> nat \<Rightarrow> nat \<Rightarrow> ext list" where
  "attach before c n =
     (if before \<noteq> [] \<and> fst (last before) + snd (last before) = c
      then butlast before @ [(fst (last before), snd (last before) + n)]
      else before @ [(c, n)])"

definition ext_insert :: "nat \<Rightarrow> nat \<Rightarrow> ext list \<Rightarrow> ext list" where
  "ext_insert c n es =
     (let before = takeWhile (\<lambda>e. fst e \<le> c) es; after = dropWhile (\<lambda>e. fst e \<le> c) es
      in case after of
           [] \<Rightarrow> attach before c n
         | e # es' \<Rightarrow>
             if c + n = fst e then attach before c (n + snd e) @ es' else attach before c n @ after)"

primrec ext_take :: "nat \<Rightarrow> nat \<Rightarrow> ext list \<Rightarrow> (nat \<times> ext list) option" where
  "ext_take r slack [] = None"
| "ext_take r slack (e # es) =
     (if r + slack \<le> snd e
      then Some (fst e + (snd e - r), if snd e - r = 0 then es else (fst e, snd e - r) # es)
      else map_option (apsnd (Cons e)) (ext_take r slack es))"

section \<open>Lists of extents\<close>

lemma ext_set_simps [simp]:
  "ext_set [] = {}" "ext_set (e # es) = {fst e..<fst e + snd e} \<union> ext_set es"
  "ext_set (xs @ ys) = ext_set xs \<union> ext_set ys"
  by (auto simp: ext_set_def)

lemma ext_sum_simps [simp]:
  "ext_sum [] = 0" "ext_sum (e # es) = snd e + ext_sum es" "ext_sum (xs @ ys) = ext_sum xs + ext_sum ys"
  by (simp_all add: ext_sum_def)

lemma ext_ok_mono: "ext_ok g lo hi es \<Longrightarrow> lo' \<le> lo \<Longrightarrow> hi \<le> hi' \<Longrightarrow> g' \<le> g \<Longrightarrow> ext_ok g' lo' hi' es"
  by (induction es arbitrary: lo lo') fastforce+

lemma ext_ok_bound: "ext_ok g lo hi es \<Longrightarrow> ext_set es \<subseteq> {lo..<hi}"
  by (induction es arbitrary: lo) fastforce+

lemma ext_ok_mem: "ext_ok g lo hi es \<Longrightarrow> e \<in> set es \<Longrightarrow> lo \<le> fst e \<and> g \<le> snd e \<and> fst e + snd e \<le> hi"
  by (induction es arbitrary: lo) fastforce+

text \<open>No extent of a coalesced list starts where another one ends.\<close>

lemma ext_ok_start_gap:
  "ext_ok g lo hi es \<Longrightarrow> f \<in> set es \<Longrightarrow> 0 < fst f \<Longrightarrow> fst f - 1 \<notin> ext_set es"
proof (induction es arbitrary: lo)
  case (Cons e es)
  have b: "ext_set es \<subseteq> {fst e + snd e + 1..<hi}" by (rule ext_ok_bound [of g]) (use Cons.prems(1) in simp)
  show ?case
  proof (cases "f = e")
    case True
    with b Cons.prems(3) show ?thesis by fastforce
  next
    case False
    then have f: "f \<in> set es" using Cons.prems(2) by simp
    then have "fst e + snd e + 1 \<le> fst f" using Cons.prems(1) ext_ok_mem by fastforce
    moreover have "fst f - 1 \<notin> ext_set es" using Cons.IH [of "fst e + snd e + 1"] Cons.prems f by simp
    ultimately show ?thesis unfolding ext_set_simps(2) Un_iff atLeastLessThan_iff by linarith
  qed
qed simp

text \<open>The end of a list: where the next extent may start at the earliest.\<close>

definition ext_end :: "nat \<Rightarrow> ext list \<Rightarrow> nat" where
  "ext_end lo es = (if es = [] then lo else fst (last es) + snd (last es) + 1)"

lemma ext_end_simps [simp]:
  "ext_end lo [] = lo" "ext_end lo (xs @ [e]) = fst e + snd e + 1"
  "ext_end lo (e # es) = ext_end (fst e + snd e + 1) es"
  by (simp_all add: ext_end_def)

lemma ext_ok_append:
  "ext_ok g lo hi (xs @ ys) \<longleftrightarrow> ext_ok g lo hi xs \<and> ext_ok g (ext_end lo xs) hi ys"
  by (induction xs arbitrary: lo) auto

lemma ext_end_ge: "ext_ok g lo hi es \<Longrightarrow> lo \<le> ext_end lo es"
  by (induction es arbitrary: lo) fastforce+

lemma ext_ok_below: "ext_ok g lo hi es \<Longrightarrow> e \<in> set es \<Longrightarrow> fst e + snd e < ext_end lo es"
proof (induction es arbitrary: lo)
  case (Cons f es)
  have "fst f + snd f + 1 \<le> ext_end (fst f + snd f + 1) es"
    using Cons.prems(1) ext_end_ge [of g _ hi es] by simp
  then show ?case using Cons by auto
qed simp

lemma ext_set_below_end: "ext_ok g lo hi es \<Longrightarrow> ext_set es \<subseteq> {lo..<ext_end lo es}"
proof (induction es arbitrary: lo)
  case (Cons e es)
  have "ext_end lo (e # es) \<ge> fst e + snd e + 1"
    using Cons.prems ext_end_ge [of g "fst e + snd e + 1" hi es] by simp
  then show ?case using Cons.IH [of "fst e + snd e + 1"] Cons.prems by fastforce
qed simp

lemma ext_ok_cut: "ext_ok g lo hi es \<Longrightarrow> ext_end lo es \<le> hi' + 1 \<Longrightarrow> ext_ok g lo hi' es"
proof (induction es arbitrary: lo)
  case (Cons e es)
  then have "fst e + snd e + 1 \<le> ext_end (fst e + snd e + 1) es" using ext_end_ge [of g _ hi es] by simp
  then show ?case using Cons by simp
qed simp

text \<open>A fully coalesced list is determined by its set.\<close>

lemma ext_ok_gap: "ext_ok g lo hi es \<Longrightarrow> 0 < g \<Longrightarrow> x < lo \<Longrightarrow> x \<notin> ext_set es"
  using ext_ok_bound by fastforce

lemma ext_ok_Cons_eq:
  assumes "ext_ok g lo hi (e # es)" "ext_ok g lo' hi' (f # fs)" "0 < g"
    and "ext_set (e # es) = ext_set (f # fs)"
  shows "fst e \<le> fst f \<and> (fst e = fst f \<longrightarrow> snd e \<le> snd f)"
proof
  have "fst f \<in> ext_set (e # es)" unfolding assms(4) using assms by auto
  then show le: "fst e \<le> fst f"
    using assms ext_ok_bound [of g "fst e + snd e + 1" hi es] by (auto simp: subset_iff)
  show "fst e = fst f \<longrightarrow> snd e \<le> snd f"
  proof (intro impI leI notI)
    assume "fst e = fst f" and "snd f < snd e"
    then have "fst f + snd f \<in> ext_set (e # es)" by auto
    moreover have "fst f + snd f \<notin> ext_set (f # fs)"
      using ext_ok_bound [of g "fst f + snd f + 1" hi' fs] assms(2) by fastforce
    ultimately show False using assms(4) by blast
  qed
qed

lemma ext_ok_Nil_iff: "ext_ok g lo hi es \<Longrightarrow> 0 < g \<Longrightarrow> ext_set es = {} \<longleftrightarrow> es = []"
  by (cases es) auto

lemma ext_ok_unique:
  assumes "ext_ok g lo hi es" "ext_ok g lo' hi' fs" "0 < g" "ext_set es = ext_set fs"
  shows "es = fs"
  using assms
proof (induction es arbitrary: lo lo' fs)
  case Nil
  then show ?case using ext_ok_Nil_iff [of g lo' hi' fs] by simp
next
  case (Cons e es)
  then have "fs \<noteq> []" by auto
  then obtain f fs' where fs: "fs = f # fs'" by (cases fs) auto
  have le: "fst e \<le> fst f \<and> (fst e = fst f \<longrightarrow> snd e \<le> snd f)"
    by (rule ext_ok_Cons_eq) (use Cons.prems fs in blast)+
  have ge: "fst f \<le> fst e \<and> (fst f = fst e \<longrightarrow> snd f \<le> snd e)"
    by (rule ext_ok_Cons_eq) (use Cons.prems fs in \<open>blast intro: sym\<close>)+
  have ef: "fst e = fst f" "snd e = snd f" using le ge by auto
  have es: "ext_ok g (fst e + snd e + 1) hi es" "ext_ok g (fst e + snd e + 1) hi' fs'"
    using Cons.prems fs ef by simp_all
  have "ext_set es = ext_set (e # es) - {..fst e + snd e}"
    using ext_ok_bound [OF es(1)] by (auto simp: subset_iff)
  also have "\<dots> = ext_set (f # fs') - {..fst e + snd e}" using Cons.prems(4) fs by metis
  also have "\<dots> = ext_set fs'"
    using ext_ok_bound [OF es(2)] ef by (auto simp: subset_iff)
  finally have "es = fs'" using Cons.IH [OF es] Cons.prems(3) by simp
  then show ?case using fs ef by (simp add: prod_eq_iff)
qed

section \<open>Returning an extent\<close>

lemma last_split: "xs \<noteq> [] \<Longrightarrow> \<exists>ys e. xs = ys @ [e]"
  by (metis append_butlast_last_id)

lemma attach_simps:
  "attach [] c n = [(c, n)]"
  "attach (xs @ [e]) c n =
     (if fst e + snd e = c then xs @ [(fst e, snd e + n)] else xs @ [e, (c, n)])"
  by (simp_all add: attach_def)

lemma ext_set_attach [simp]: "ext_set (attach xs c n) = ext_set xs \<union> {c..<c + n}"
  by (cases xs rule: rev_cases) (auto simp: attach_simps)

lemma ext_sum_attach [simp]: "ext_sum (attach xs c n) = ext_sum xs + n"
  by (cases xs rule: rev_cases) (auto simp: attach_simps)

lemma ext_end_attach [simp]: "ext_end lo (attach xs c n) = c + n + 1"
  by (cases xs rule: rev_cases) (auto simp: attach_simps ext_end_def)

lemma ext_ok_attach:
  assumes "ext_ok g lo hi xs" "ext_end lo xs \<le> c + 1" "lo \<le> c" "g \<le> n" "c + n \<le> hi"
  shows "ext_ok g lo hi (attach xs c n)"
  using assms by (cases xs rule: rev_cases) (auto simp: attach_simps ext_ok_append)

lemma ext_insert_split:
  assumes "\<forall>e\<in>set xs. fst e \<le> c" and "ys = [] \<or> c < fst (hd ys)"
  shows "ext_insert c n (xs @ ys) =
    (case ys of [] \<Rightarrow> attach xs c n
     | e # es \<Rightarrow> if c + n = fst e then attach xs c (n + snd e) @ es else attach xs c n @ ys)"
proof -
  have "takeWhile (\<lambda>e. fst e \<le> c) (xs @ ys) = xs" "dropWhile (\<lambda>e. fst e \<le> c) (xs @ ys) = ys"
    using assms by (cases ys; simp add: takeWhile_append dropWhile_append)+
  then show ?thesis by (simp add: ext_insert_def Let_def)
qed

lemma split_at:
  obtains xs ys where "es = xs @ ys" "\<forall>e\<in>set xs. fst e \<le> (c :: nat)" "ys = [] \<or> c < fst (hd ys)"
proof
  show "es = takeWhile (\<lambda>e. fst e \<le> c) es @ dropWhile (\<lambda>e. fst e \<le> c) es" by simp
  show "\<forall>e\<in>set (takeWhile (\<lambda>e. fst e \<le> c) es). fst e \<le> c" by (auto dest: set_takeWhileD)
  show "dropWhile (\<lambda>e. fst e \<le> c) es = [] \<or> c < fst (hd (dropWhile (\<lambda>e. fst e \<le> c) es))"
    using hd_dropWhile [of "\<lambda>e. fst e \<le> c" es] unfolding not_le by blast
qed

lemma ext_set_insert: "ext_set (ext_insert c n es) = {c..<c + n} \<union> ext_set es"
proof -
  obtain xs ys where s: "es = xs @ ys" "\<forall>e\<in>set xs. fst e \<le> c" "ys = [] \<or> c < fst (hd ys)"
    by (rule split_at)
  show ?thesis unfolding s(1) ext_insert_split [OF s(2,3)] by (auto split: list.splits)
qed

lemma ext_sum_insert: "ext_sum (ext_insert c n es) = n + ext_sum es"
proof -
  obtain xs ys where s: "es = xs @ ys" "\<forall>e\<in>set xs. fst e \<le> c" "ys = [] \<or> c < fst (hd ys)"
    by (rule split_at)
  show ?thesis unfolding s(1) ext_insert_split [OF s(2,3)] by (auto split: list.splits)
qed

text \<open>What a region outside the list looks like from the place where it goes in.\<close>

lemma ext_split_disjoint:
  assumes ok: "ext_ok g lo hi (xs @ ys)" and "0 < g" "0 < n" "lo \<le> c"
    and le: "\<forall>e\<in>set xs. fst e \<le> c" and gt: "ys = [] \<or> c < fst (hd ys)"
    and dis: "{c..<c + n} \<inter> ext_set (xs @ ys) = {}"
  shows "ext_end lo xs \<le> c + 1" and "ys = [] \<or> c + n \<le> fst (hd ys)"
proof -
  have c: "c \<notin> ext_set xs" using dis \<open>0 < n\<close> by fastforce
  show "ext_end lo xs \<le> c + 1"
  proof (cases xs rule: rev_cases)
    case (snoc zs e)
    then have "fst e \<le> c" using le by simp
    with snoc c show ?thesis by simp
  qed (use \<open>lo \<le> c\<close> in simp)
  show "ys = [] \<or> c + n \<le> fst (hd ys)"
  proof (cases ys)
    case (Cons e es)
    then have "fst e \<in> ext_set ys" "c < fst e" using ok gt \<open>0 < g\<close> by (auto simp: ext_ok_append)
    then have "fst e \<in> ext_set (xs @ ys)" by simp
    with dis have "fst e \<notin> {c..<c + n}" by blast
    with Cons \<open>c < fst e\<close> show ?thesis by simp
  qed simp
qed

text \<open>An extent that ends where the region starts is the last one before the gap.\<close>

lemma split_at_last:
  assumes "ext_ok g lo hi (xs @ ys)" "\<forall>e\<in>set xs. fst e \<le> c" "ys = [] \<or> c < fst (hd ys)"
    and "e \<in> set (xs @ ys)" "fst e + snd e = c"
  shows "xs \<noteq> [] \<and> fst (last xs) + snd (last xs) = c"
proof -
  obtain as bs where ab: "xs @ ys = as @ e # bs" using assms(4) split_list by metis
  then have ok: "ext_ok g lo hi as" "ext_end lo as \<le> fst e" "ext_ok g (c + 1) hi bs"
    using assms(1,5) by (simp_all add: ext_ok_append)
  have "fst f \<le> c" if "f \<in> set as" for f
    using that ok(1,2) assms(5)
  proof (induction as arbitrary: lo)
    case (Cons a as)
    have "ext_end (fst a + snd a + 1) as \<ge> fst a + snd a + 1"
      using Cons.prems(2) ext_end_ge [of g "fst a + snd a + 1" hi as] by simp
    then show ?case using Cons by auto
  qed simp
  moreover have "c < fst f" if "f \<in> set bs" for f using that ext_ok_mem [OF ok(3)] by fastforce
  moreover from this have "takeWhile (\<lambda>f. fst f \<le> c) bs = []" by (cases bs) force+
  ultimately have "takeWhile (\<lambda>f. fst f \<le> c) (as @ e # bs) = as @ [e]"
    using assms(5) by (simp add: takeWhile_append2)
  moreover have "takeWhile (\<lambda>f. fst f \<le> c) (xs @ ys) = xs"
    using assms(2,3) by (cases ys) (auto simp: takeWhile_append)
  ultimately have "xs = as @ [e]" using ab by simp
  then show ?thesis using assms(5) by simp
qed

lemma ext_ok_insert:
  assumes ok: "ext_ok g lo hi es" and "0 < g" "g \<le> n" "lo \<le> c" "c + n \<le> hi"
    and dis: "{c..<c + n} \<inter> ext_set es = {}"
  shows "ext_ok g lo hi (ext_insert c n es)"
proof -
  obtain xs ys where s: "es = xs @ ys" "\<forall>e\<in>set xs. fst e \<le> c" "ys = [] \<or> c < fst (hd ys)"
    by (rule split_at)
  have e: "ext_end lo xs \<le> c + 1" and f: "ys = [] \<or> c + n \<le> fst (hd ys)"
    using ext_split_disjoint [of g lo hi xs ys n c] assms s by auto
  have xs: "ext_ok g lo hi xs" and ys: "ext_ok g (ext_end lo xs) hi ys"
    using ok s(1) by (simp_all add: ext_ok_append)
  show ?thesis
  proof (cases ys)
    case Nil
    then show ?thesis unfolding s(1) ext_insert_split [OF s(2,3)]
      using ext_ok_attach [OF xs e] assms by simp
  next
    case (Cons a as)
    have "ext_ok g (fst a + snd a + 1) hi as" "fst a + snd a \<le> hi" "g \<le> snd a" using ys Cons by simp_all
    then show ?thesis unfolding s(1) ext_insert_split [OF s(2,3)]
      using ext_ok_attach [OF xs e, of n] ext_ok_attach [OF xs e, of "n + snd a"] assms Cons f
      by (auto simp: ext_ok_append add.assoc [symmetric])
  qed
qed

section \<open>Taking an extent\<close>

lemma ext_take_None: "ext_take r slack es = None \<longleftrightarrow> (\<forall>e\<in>set es. snd e < r + slack)"
  by (induction es) (auto simp: not_le)

text \<open>\<open>ext_take\<close> is first fit: it takes the top of the first extent that is long enough.\<close>

lemma ext_take_find:
  "ext_take r slack es = Some (a, es') \<Longrightarrow>
    \<exists>e. find (\<lambda>e. r + slack \<le> snd e) es = Some e \<and> a = fst e + (snd e - r)"
  by (induction es arbitrary: es') (auto split: if_splits)

lemma ext_take_sum: "ext_take r slack es = Some (a, es') \<Longrightarrow> ext_sum es = r + ext_sum es'"
  by (induction es arbitrary: es') (auto split: if_splits)

lemma ext_take_ok:
  assumes "ext_take r slack es = Some (a, es')" "ext_ok g lo hi es" "g \<le> slack \<or> g \<le> 1"
  shows "ext_ok g lo hi es'"
  using assms
proof (induction es arbitrary: es' lo)
  case (Cons e es)
  then show ?case
    by (auto split: if_splits elim!: ext_ok_mono)
qed simp

lemma ext_take_set:
  assumes "ext_take r slack es = Some (a, es')" "ext_ok g lo hi es" "0 < g"
  shows "{a..<a + r} \<subseteq> ext_set es \<and> ext_set es' = ext_set es - {a..<a + r}"
  using assms
proof (induction es arbitrary: es' lo)
  case (Cons e es)
  have ok: "ext_ok g (fst e + snd e + 1) hi es" using Cons.prems by simp
  note b = ext_ok_bound [OF ok]
  show ?case
  proof (cases "r + slack \<le> snd e")
    case True
    with Cons.prems b show ?thesis by (fastforce split: if_splits)
  next
    case False
    with Cons.prems obtain fs where t: "ext_take r slack es = Some (a, fs)" and "es' = e # fs"
      by auto
    moreover have "{a..<a + r} \<subseteq> ext_set es \<and> ext_set fs = ext_set es - {a..<a + r}"
      using Cons.IH [OF t ok] Cons.prems(3) .
    moreover have "{a..<a + r} \<inter> {fst e..<fst e + snd e} = {}"
      using b calculation by fastforce
    ultimately show ?thesis by auto
  qed
qed simp

lemma ext_take_split:
  assumes "ext_take r slack es = Some (a, es')"
  obtains xs e ys where "es = xs @ e # ys" "\<forall>f\<in>set xs. snd f < r + slack" "r + slack \<le> snd e"
    "a = fst e + (snd e - r)" "es' = xs @ (if snd e - r = 0 then ys else (fst e, snd e - r) # ys)"
  using assms
proof (induction es arbitrary: es' thesis)
  case (Cons f es)
  show ?case
  proof (cases "r + slack \<le> snd f")
    case True
    with Cons.prems show ?thesis by (intro Cons.prems(1) [of "[]" f es]) (auto split: if_splits)
  next
    case False
    with Cons.prems obtain fs where t: "ext_take r slack es = Some (a, fs)" "es' = f # fs" by auto
    show ?thesis
    proof (rule Cons.IH [OF _ t(1)])
      fix xs e ys
      assume "es = xs @ e # ys" "\<forall>f\<in>set xs. snd f < r + slack" "r + slack \<le> snd e" "a = fst e + (snd e - r)"
        "fs = xs @ (if snd e - r = 0 then ys else (fst e, snd e - r) # ys)"
      with False t(2) show thesis by (intro Cons.prems(1) [of "f # xs" e ys]) auto
    qed
  qed
qed simp

lemma ext_take_bounds:
  assumes "ext_take r slack es = Some (a, es')" "ext_ok g lo hi es"
  shows "lo \<le> a" "a + r \<le> hi"
proof -
  obtain xs e ys where e: "es = xs @ e # ys" "r + slack \<le> snd e" "a = fst e + (snd e - r)"
    using assms(1) by (elim ext_take_split) auto
  then show "lo \<le> a" "a + r \<le> hi" using ext_ok_mem [OF assms(2), of e] by auto
qed

text \<open>Taking an extent and returning it gives back the list: a full round trip.\<close>

lemma ext_take_insert:
  assumes t: "ext_take r slack es = Some (a, es')" and ok: "ext_ok g lo hi es"
    and g: "0 < g" "g \<le> slack \<or> g \<le> 1" "g \<le> r"
  shows "ext_insert a r es' = es"
proof -
  note s = ext_take_set [OF t ok g(1)]
  have sub: "{a..<a + r} \<subseteq> {lo..<hi}" using s ext_ok_bound [OF ok] by blast
  then have "lo \<le> a" "a + r \<le> hi" using g by (auto simp: subset_iff dest: spec [of _ "a + r - 1"])
  then have "ext_ok g lo hi (ext_insert a r es')"
    using ext_ok_insert [OF ext_take_ok [OF t ok g(2)]] s g by auto
  then show ?thesis
    by (rule ext_ok_unique [OF _ ok g(1)]) (use s in \<open>auto simp: ext_set_insert\<close>)
qed

section \<open>Chains of nodes in memory\<close>

text \<open>
  Both \<open>struct freepage\<close> and \<open>struct freeblock\<close> are eight bytes: a size field at offset 0 and the
  pointer \<open>next\<close> at offset 4.
\<close>

definition nxt :: "mem \<Rightarrow> u32 \<Rightarrow> u32" where
  "nxt m a = load32 m (a + 4)"

definition set_nxt :: "mem \<Rightarrow> u32 \<Rightarrow> u32 \<Rightarrow> mem" where
  "set_nxt m a b = store32 m (a + 4) b"

text \<open>
  The search \<open>q = head; p = q->next; while (!((p == 0) || (p > cur))) { q = p; p = q->next; }\<close> that
  page_release and mem_free have in common; it returns \<open>q\<close> and \<open>p\<close>, and \<open>None\<close> if it never ends.
\<close>

partial_function (option) find_gap :: "mem \<Rightarrow> u32 \<Rightarrow> u32 \<Rightarrow> u32 \<Rightarrow> (u32 \<times> u32) option" where
  "find_gap m cur q p =
     (if p = 0 \<or> cur < p then Some (q, p) else find_gap m cur p (nxt m p))"

text \<open>The address of the unit with number \<open>p\<close>.\<close>

definition node :: "nat \<Rightarrow> nat \<Rightarrow> u32" where
  "node u p = of_nat (u * p)"

text \<open>
  \<open>seg rd u m a es b\<close>: from the pointer \<open>a\<close> the nodes of the extents \<open>es\<close> follow one another and
  lead to \<open>b\<close>.  \<open>u\<close> is the number of bytes of a unit, \<open>rd\<close> reads a node's size in units.
\<close>

primrec seg :: "(mem \<Rightarrow> u32 \<Rightarrow> nat) \<Rightarrow> nat \<Rightarrow> mem \<Rightarrow> u32 \<Rightarrow> ext list \<Rightarrow> u32 \<Rightarrow> bool" where
  "seg rd u m a [] b \<longleftrightarrow> a = b"
| "seg rd u m a (e # es) b \<longleftrightarrow>
     a = node u (fst e) \<and> rd m a = snd e \<and> seg rd u m (nxt m a) es b"

text \<open>The addresses that belong to the extents, and the first node of a list.\<close>

definition ext_bytes :: "nat \<Rightarrow> ext list \<Rightarrow> u32 set" where
  "ext_bytes u es = {x. unat x div u \<in> ext_set es}"

definition seg_start :: "nat \<Rightarrow> ext list \<Rightarrow> u32" where
  "seg_start u es = (case es of [] \<Rightarrow> 0 | e # _ \<Rightarrow> node u (fst e))"

text \<open>
  \<open>last_node\<close> is the node before the gap, the head of the list when the gap comes first.
\<close>

definition last_node :: "nat \<Rightarrow> u32 \<Rightarrow> ext list \<Rightarrow> u32" where
  "last_node u h xs = (if xs = [] then h else node u (fst (last xs)))"

lemma seg_start_simps [simp]: "seg_start u [] = 0" "seg_start u (e # es) = node u (fst e)"
  by (simp_all add: seg_start_def)

lemma last_node_simps [simp]:
  "last_node u h [] = h" "last_node u h (xs @ [e]) = node u (fst e)"
  "last_node u h (e # xs) = last_node u (node u (fst e)) xs"
  by (simp_all add: last_node_def)

lemma ext_bytes_simps [simp]:
  "ext_bytes u [] = {}" "ext_bytes u (xs @ ys) = ext_bytes u xs \<union> ext_bytes u ys"
  by (auto simp: ext_bytes_def)

lemma ext_bytes_Cons: "ext_bytes u (e # es) = ext_bytes u [e] \<union> ext_bytes u es"
  by (auto simp: ext_bytes_def)

lemma ext_bytes_disjoint: "ext_set es \<inter> ext_set fs = {} \<Longrightarrow> ext_bytes u es \<inter> ext_bytes u fs = {}"
  by (auto simp: ext_bytes_def)

lemma seg_append: "seg rd u m a (xs @ ys) b \<longleftrightarrow> (\<exists>c. seg rd u m a xs c \<and> seg rd u m c ys b)"
  by (induction xs arbitrary: a) auto

lemma seg_startD: "seg rd u m a es 0 \<Longrightarrow> a = seg_start u es"
  by (cases es) auto

lemma set_nxt_same [mem_simps]: "nxt (set_nxt m a b) a = b"
  by (simp add: nxt_def set_nxt_def store32_same)

lemma set_nxt_other: "x \<notin> span (a + 4) 4 \<Longrightarrow> set_nxt m a b x = m x"
  by (simp add: set_nxt_def store32_other)

lemma nxt_cong: "(\<And>x. x \<in> span (a + 4) 4 \<Longrightarrow> m x = m' x) \<Longrightarrow> nxt m a = nxt m' a"
  unfolding nxt_def by (rule load32_cong)

lemma span8: "span a 8 = span a 4 \<union> span (a + 4) 4"
proof -
  have "span a 8 = (\<lambda>i. a + of_nat i) ` ({..<4} \<union> (\<lambda>i. 4 + i) ` {..<4})"
    unfolding span_def by (rule arg_cong [of _ _ "(`) _"]) (auto simp: image_iff lessThan_def, presburger)
  then show ?thesis by (simp add: span_def image_Un image_image add.assoc)
qed

text \<open>
  Steps B3 and B4 of the release algorithm, with the outcomes of its two tests as arguments: merge with
  the node \<open>p\<close> after the gap, merge with the node \<open>q\<close> before it.
\<close>

definition splice :: "(mem \<Rightarrow> u32 \<Rightarrow> nat) \<Rightarrow> (mem \<Rightarrow> u32 \<Rightarrow> nat \<Rightarrow> mem) \<Rightarrow> mem \<Rightarrow> u32 \<Rightarrow> u32 \<Rightarrow> u32
    \<Rightarrow> nat \<Rightarrow> bool \<Rightarrow> bool \<Rightarrow> mem" where
  "splice rd wr m q p cur n right left =
     (let (n, m) = if right then (n + rd m p, set_nxt m cur (nxt m p)) else (n, set_nxt m cur p)
      in if left then let m = wr m q (rd m q + n) in set_nxt m q (nxt m cur)
         else wr (set_nxt m q cur) cur n)"

locale free_list =
  fixes rd :: "mem \<Rightarrow> u32 \<Rightarrow> nat" and wr :: "mem \<Rightarrow> u32 \<Rightarrow> nat \<Rightarrow> mem"
    and unit :: nat and g :: nat and hi :: nat
  assumes rd_local: "(\<And>x. x \<in> span a 4 \<Longrightarrow> m x = m' x) \<Longrightarrow> rd m a = rd m' a"
    and rd_wr: "n < hi \<Longrightarrow> rd (wr m a n) a = n"
    and wr_other: "x \<notin> span a 4 \<Longrightarrow> wr m a n x = m x"
    and unit_fits: "unit * hi \<le> 2 ^ 32"
    and node_fits: "8 \<le> unit * g"
begin

lemma positive: "0 < unit" "0 < g"
  using node_fits by (auto intro: gr0I)

lemma node_addr: "g \<le> n \<Longrightarrow> p + n \<le> hi \<Longrightarrow> unat (node unit p) = unit * p"
proof -
  assume "g \<le> n" "p + n \<le> hi"
  then have "unit * p + unit * g \<le> unit * hi" by (metis add_le_mono1 add_mono le_refl mult_le_mono2 distrib_left order_trans)
  then show ?thesis using unit_fits node_fits unfolding node_def by (intro unat_of_nat_small) simp
qed

lemma node_span: "g \<le> n \<Longrightarrow> p + n \<le> hi \<Longrightarrow> span (node unit p) 8 \<subseteq> ext_bytes unit [(p, n)]"
proof
  fix x :: u32
  assume n: "g \<le> n" "p + n \<le> hi" and x: "x \<in> span (node unit p) 8"
  have a: "unat (node unit p) = unit * p" using node_addr n .
  have e: "unit * p + 8 \<le> unit * (p + n)"
    using le_trans [OF node_fits mult_le_mono2 [OF n(1)]] by (simp add: distrib_left)
  also have "\<dots> \<le> 2 ^ 32" using n unit_fits by (meson le_trans mult_le_mono2)
  finally have "unit * p \<le> unat x \<and> unat x < unit * p + 8" using x in_span_iff [of "node unit p" 8 x] a by simp
  with e have "unit * p \<le> unat x" "unat x < unit * (p + n)" by linarith+
  then show "x \<in> ext_bytes unit [(p, n)]"
    using positive by (simp add: ext_bytes_def less_eq_div_iff_mult_less_eq less_mult_imp_div_less mult.commute)
qed

text \<open>A chain depends on the nodes of its extents only.\<close>

lemma seg_cong_nodes:
  assumes "\<And>e x. e \<in> set es \<Longrightarrow> x \<in> span (node unit (fst e)) 8 \<Longrightarrow> m x = m' x"
  shows "seg rd unit m a es b \<longleftrightarrow> seg rd unit m' a es b"
  using assms
proof (induction es arbitrary: a)
  case (Cons e es)
  show ?case
  proof (cases "a = node unit (fst e)")
    case True
    have eq: "m x = m' x" if "x \<in> span a 4 \<or> x \<in> span (a + 4) 4" for x
      by (rule Cons.prems [of e]) (use that True span8 in auto)
    have "rd m a = rd m' a" by (rule rd_local) (use eq in blast)
    moreover have "nxt m a = nxt m' a" by (rule nxt_cong) (use eq in blast)
    moreover have "seg rd unit m (nxt m a) es b \<longleftrightarrow> seg rd unit m' (nxt m a) es b"
      by (rule Cons.IH) (use Cons.prems in auto)
    ultimately show ?thesis by simp
  qed simp
qed simp

lemma seg_cong:
  assumes "ext_ok g lo hi es" "\<And>x. x \<in> ext_bytes unit es \<Longrightarrow> m x = m' x"
  shows "seg rd unit m a es b \<longleftrightarrow> seg rd unit m' a es b"
proof (rule seg_cong_nodes)
  fix e x assume e: "e \<in> set es" and x: "x \<in> span (node unit (fst e)) 8"
  have "x \<in> ext_bytes unit [e]"
    using node_span [of "snd e" "fst e"] ext_ok_mem [OF assms(1) e] x by auto
  then have "x \<in> ext_bytes unit es" using e by (auto simp: ext_bytes_def ext_set_def)
  then show "m x = m' x" by (rule assms(2))
qed

lemma find_gap_seg:
  assumes "ext_ok g lo hi (xs @ ys)" "0 < lo" "seg rd unit m a (xs @ ys) 0"
    and "\<forall>e\<in>set xs. fst e \<le> c" "ys = [] \<or> c < fst (hd ys)" "c < hi"
  shows "find_gap m (node unit c) q a = Some (last_node unit q xs, seg_start unit ys)"
  using assms
proof (induction xs arbitrary: a q lo)
  case Nil
  show ?case
  proof (cases ys)
    case Nil
    with \<open>seg rd unit m a ([] @ ys) 0\<close> show ?thesis by (subst find_gap.simps) simp
  next
    case (Cons e es)
    have b: "unat (node unit (fst e)) = unit * fst e"
      using node_addr [of "snd e" "fst e"] Nil.prems Cons by simp
    have "unat (node unit c) \<le> unit * c" unfolding node_def unat_of_nat by (rule mod_less_eq_dividend)
    also have "unit * c < unit * fst e" using Nil.prems Cons positive by simp
    finally have "(node unit c) < node unit (fst e)" by (simp add: word_less_nat_alt b)
    with Nil.prems Cons show ?thesis by (subst find_gap.simps) simp
  qed
next
  case (Cons e es)
  have b: "unat (node unit (fst e)) = unit * fst e"
    using node_addr [of "snd e" "fst e"] Cons.prems by simp
  have "unit * c < 2 ^ 32" using Cons.prems(6) unit_fits positive
    by (meson less_le_trans mult_less_mono2)
  then have c: "unat (node unit c) = unit * c" unfolding node_def by (intro unat_of_nat_small) simp
  have a: "a = node unit (fst e)" using Cons.prems by simp
  have "unat a \<noteq> 0" using a b Cons.prems positive by simp
  then have "a \<noteq> 0" by auto
  moreover have "\<not> node unit c < a" using a b c Cons.prems by (simp add: word_less_nat_alt)
  moreover have "find_gap m (node unit c) a (nxt m a) = Some (last_node unit a es, seg_start unit ys)"
    by (rule Cons.IH [of "fst e + snd e + 1"]) (use Cons.prems in auto)
  ultimately show ?case using a by (subst find_gap.simps) simp
qed

lemma head_span: "unat h + 8 \<le> unit * lo \<Longrightarrow> ext_set es \<subseteq> {lo..} \<Longrightarrow> span h 8 \<inter> ext_bytes unit es = {}"
proof -
  assume h: "unat h + 8 \<le> unit * lo" and es: "ext_set es \<subseteq> {lo..}"
  have "x \<notin> ext_bytes unit es" if "x \<in> span h 8" for x
  proof
    assume "x \<in> ext_bytes unit es"
    then have "lo \<le> unat x div unit" using es by (auto simp: ext_bytes_def)
    then have "unit * lo \<le> unat x"
      using positive by (simp add: less_eq_div_iff_mult_less_eq mult.commute)
    moreover obtain i where "i < 8" "x = h + of_nat i" using \<open>x \<in> span h 8\<close> by (auto simp: span_def)
    then have "unat x \<le> unat h + i"
      by (simp add: unat_word_ariths unat_of_nat)
    ultimately show False using h \<open>i < 8\<close> by linarith
  qed
  then show ?thesis by blast
qed

lemma nodes_apart:
  assumes "ext_set [e] \<inter> ext_set [f] = {}" "g \<le> snd e" "fst e + snd e \<le> hi" "g \<le> snd f" "fst f + snd f \<le> hi"
  shows "span (node unit (fst e)) 8 \<inter> span (node unit (fst f)) 8 = {}"
  using node_span [of "snd e" "fst e"] node_span [of "snd f" "fst f"] assms
    ext_bytes_disjoint [of "[e]" "[f]" unit] by auto

lemma wr_frame: "x \<notin> span a 8 \<Longrightarrow> wr m a n x = m x"
  using wr_other span8 by blast

lemma nxt_frame: "x \<notin> span a 8 \<Longrightarrow> set_nxt m a b x = m x"
  using set_nxt_other span8 by blast

lemma halves_apart: "span a 4 \<inter> span (a + 4) 4 = {}"
proof -
  have "a + of_nat i \<noteq> a + 4 + of_nat j" if "i < 4" "j < 4" for i j
  proof
    assume "a + of_nat i = a + 4 + of_nat j"
    then have "(of_nat i :: u32) = of_nat (4 + j)" by (simp add: add.assoc)
    then have "unat (of_nat i :: u32) = unat (of_nat (4 + j) :: u32)" by (rule arg_cong)
    moreover have "unat (of_nat i :: u32) = i" "unat (of_nat (4 + j) :: u32) = 4 + j"
      using that by (intro unat_of_nat_small; simp)+
    ultimately show False using that by linarith
  qed
  then show ?thesis by (fastforce simp: span_def)
qed

lemma wr_nxt: "nxt (wr m a n) a = nxt m a"
  by (rule nxt_cong, rule wr_other) (use halves_apart in blast)

lemma rd_set_nxt: "rd (set_nxt m a b) a = rd m a"
  by (rule rd_local, rule set_nxt_other) (use halves_apart in blast)

lemma wr_nxt_other: "span a 8 \<inter> span b 8 = {} \<Longrightarrow> nxt (wr m a n) b = nxt m b"
  by (rule nxt_cong, rule wr_frame) (use span8 in blast)

lemma rd_nxt_other: "span a 8 \<inter> span b 8 = {} \<Longrightarrow> rd (set_nxt m a v) b = rd m b"
  by (rule rd_local, rule nxt_frame) (use span8 in blast)

lemma rd_wr_other: "span a 8 \<inter> span b 8 = {} \<Longrightarrow> rd (wr m a n) b = rd m b"
  by (rule rd_local, rule wr_frame) (use span8 in blast)

lemma set_nxt_nxt_other: "span a 8 \<inter> span b 8 = {} \<Longrightarrow> nxt (set_nxt m a v) b = nxt m b"
  by (rule nxt_cong, rule nxt_frame) (use span8 in blast)

text \<open>Changing the last node of a chain.\<close>

lemma seg_relink:
  assumes "ext_ok g lo hi (zs @ [e])" "seg rd unit m a (zs @ [e]) p"
    and "\<And>x. x \<in> ext_bytes unit zs \<Longrightarrow> m x = m' x"
    and "rd m' (node unit (fst e)) = k" "nxt m' (node unit (fst e)) = b"
  shows "seg rd unit m' a (zs @ [(fst e, k)]) b"
proof -
  have "ext_ok g lo hi zs" using assms(1) by (simp add: ext_ok_append)
  moreover have "seg rd unit m a zs (node unit (fst e))" using assms(2) by (auto simp: seg_append)
  ultimately have "seg rd unit m' a zs (node unit (fst e))" using seg_cong assms(3) by blast
  then show ?thesis using assms(4,5) by (auto simp: seg_append)
qed

text \<open>Step B4, when the extents \<open>xs\<close> lie below the released region and \<open>ys\<close> above it.\<close>

lemma attach_chain:
  assumes xs: "ext_ok g lo hi xs" "ext_end lo xs \<le> c + 1" "seg rd unit m (nxt m h) xs p"
    and c: "lo \<le> c" "0 < lo" "g \<le> n" "c + n \<le> hi"
    and ys: "ext_ok g (c + n + 1) hi ys" "seg rd unit m (nxt m (node unit c)) ys b"
    and h: "unat h + 8 \<le> unit * lo"
    and left: "left \<longleftrightarrow> xs \<noteq> [] \<and> fst (last xs) + snd (last xs) = c"
    and q: "q = last_node unit h xs" and cur: "cur = node unit c"
    and m': "m' = (if left then let m = wr m q (rd m q + n) in set_nxt m q (nxt m cur)
        else wr (set_nxt m q cur) cur n)"
  shows "seg rd unit m' (nxt m' h) (attach xs c n @ ys) b"
    and "x \<notin> span (h + 4) 4 \<union> ext_bytes unit xs \<union> ext_bytes unit [(c, n)] \<Longrightarrow> m' x = m x"
proof -
  have frame: "m' x = m x" if "x \<notin> span (q + 4) 4" "left \<Longrightarrow> x \<notin> span q 4" "\<not> left \<Longrightarrow> x \<notin> span cur 8" for x
    using that m' by (auto simp: Let_def wr_other set_nxt_other span8 split: if_splits)
  have ys_set: "ext_set ys \<subseteq> {c + n + 1..}" using ext_ok_bound [OF ys(1)] by auto
  have xs_set: "ext_set xs \<subseteq> {lo..<c + 1}" using ext_set_below_end [OF xs(1)] xs(2) by fastforce
  have cur8: "span cur 8 \<subseteq> ext_bytes unit [(c, n)]" using node_span [of n c] c cur by simp
  have hs: "span h 8 \<inter> ext_bytes unit xs = {}" "span h 8 \<inter> ext_bytes unit ys = {}"
    "span h 8 \<inter> span cur 8 = {}"
  proof -
    have "ext_set xs \<subseteq> {lo..}" "ext_set ys \<subseteq> {lo..}" "ext_set [(c, n)] \<subseteq> {lo..}"
      using xs_set ys_set c by fastforce+
    from this [THEN head_span [OF h]] cur8
    show "span h 8 \<inter> ext_bytes unit xs = {}" "span h 8 \<inter> ext_bytes unit ys = {}"
      "span h 8 \<inter> span cur 8 = {}" by blast+
  qed
  have cy: "ext_bytes unit [(c, n)] \<inter> ext_bytes unit ys = {}"
    by (rule ext_bytes_disjoint) (use ys_set in fastforce)
  show "seg rd unit m' (nxt m' h) (attach xs c n @ ys) b"
  proof (cases xs rule: rev_cases)
    case Nil
    have q: "q = h" "\<not> left" using q left Nil by auto
    have "m' x = m x" if "x \<in> ext_bytes unit ys" for x
      by (rule frame) (use that q hs cy cur8 span8 in blast)+
    then have "seg rd unit m' (nxt m (node unit c)) ys b"
      using ys(2) seg_cong [OF ys(1), of m' m] by blast
    then show ?thesis
      using Nil m' q hs cur rd_wr [of n] c by (simp add: attach_simps wr_nxt wr_nxt_other set_nxt_same
        set_nxt_nxt_other Int_commute)
  next
    case (snoc zs e)
    have q: "q = node unit (fst e)" and l: "left \<longleftrightarrow> fst e + snd e = c" using q left snoc by auto
    have ze: "ext_ok g lo hi zs" "ext_end lo zs \<le> fst e" "g \<le> snd e" "fst e + snd e \<le> hi" "fst e + snd e \<le> c"
      using xs(1,2) snoc by (auto simp: ext_ok_append)
    have rdq: "rd m q = snd e" using xs(3) snoc q by (auto simp: seg_append)
    have qe: "span q 8 \<subseteq> ext_bytes unit [e]" using node_span [of "snd e" "fst e"] ze q by simp
    have dis: "ext_bytes unit zs \<inter> ext_bytes unit [e] = {}" "ext_bytes unit xs \<inter> ext_bytes unit [(c, n)] = {}"
      "ext_bytes unit xs \<inter> ext_bytes unit ys = {}"
      by (rule ext_bytes_disjoint, use ext_set_below_end [OF ze(1)] ze ys_set
        ext_set_below_end [OF xs(1)] xs(2) snoc in fastforce)+
    have e: "ext_bytes unit xs = ext_bytes unit zs \<union> ext_bytes unit [e]" using snoc by simp
    have qc: "span q 8 \<inter> span cur 8 = {}" "span cur 8 \<inter> span q 8 = {}" using qe cur8 dis(2) e by blast+
    have zs: "m x = m' x" if "x \<in> ext_bytes unit zs" for x
      by (rule frame [symmetric]) (use that qe cur8 dis e span8 in blast)+
    have "m' x = m x" if "x \<in> ext_bytes unit ys" for x
      by (rule frame) (use that qe cur8 dis e cy span8 in blast)+
    then have "seg rd unit m' (nxt m (node unit c)) ys b"
      using ys(2) seg_cong [OF ys(1), of m' m] by blast
    moreover have "nxt m' h = nxt m h"
      by (rule nxt_cong, rule frame) (use hs qe e span8 in blast)+
    moreover have "seg rd unit m' (nxt m h) (zs @ [(fst e, if left then snd e + n else snd e)])
        (if left then nxt m cur else cur)"
    proof (rule seg_relink [OF _ _ zs])
      have "snd e + n < hi" if left
        using that l c ze ext_end_ge [OF ze(1)] by linarith
      then show "rd m' (node unit (fst e)) = (if left then snd e + n else snd e)"
        using m' q rdq qc by (simp add: Let_def rd_set_nxt rd_wr rd_wr_other)
      show "nxt m' (node unit (fst e)) = (if left then nxt m cur else cur)"
        using m' q qc by (simp add: Let_def set_nxt_same wr_nxt_other)
    qed (use xs snoc in auto)
    moreover have "rd m' cur = n \<and> nxt m' cur = nxt m cur" if "\<not> left"
      using that m' qc rd_wr [of n] c by (simp add: wr_nxt set_nxt_nxt_other)
    ultimately show ?thesis
      using snoc cur l by (auto simp: attach_simps seg_append split: if_splits)
  qed
  show "x \<notin> span (h + 4) 4 \<union> ext_bytes unit xs \<union> ext_bytes unit [(c, n)] \<Longrightarrow> m' x = m x"
  proof (rule frame)
    assume x: "x \<notin> span (h + 4) 4 \<union> ext_bytes unit xs \<union> ext_bytes unit [(c, n)]"
    have q8: "span q 8 \<subseteq> ext_bytes unit xs" if "xs \<noteq> []"
      using that xs(1) q by (cases xs rule: rev_cases) (auto simp: ext_ok_append dest!: node_span)
    show "x \<notin> span (q + 4) 4" using x q8 q span8 by (cases "xs = []") auto
    show "x \<notin> span q 4" if left using x q8 left that span8 by blast
    show "x \<notin> span cur 8" using x cur8 by blast
  qed
qed

text \<open>Steps B3 and B4 together insert the region into the list.\<close>

lemma insert_chain:
  assumes ok: "ext_ok g lo hi es" "seg rd unit m (nxt m h) es 0"
    and c: "lo \<le> c" "0 < lo" "g \<le> n" "c + n \<le> hi" "{c..<c + n} \<inter> ext_set es = {}"
    and h: "unat h + 8 \<le> unit * lo"
    and es: "es = xs @ ys" "\<forall>e\<in>set xs. fst e \<le> c" "ys = [] \<or> c < fst (hd ys)"
    and right: "right \<longleftrightarrow> ys \<noteq> [] \<and> c + n = fst (hd ys)"
    and left: "left \<longleftrightarrow> xs \<noteq> [] \<and> fst (last xs) + snd (last xs) = c"
    and m': "m' = splice rd wr m (last_node unit h xs) (seg_start unit ys) (node unit c) n right left"
  shows "seg rd unit m' (nxt m' h) (ext_insert c n es) 0"
    and "x \<notin> span (h + 4) 4 \<union> ext_bytes unit es \<union> ext_bytes unit [(c, n)] \<Longrightarrow> m' x = m x"
proof -
  let ?cur = "node unit c"
  define n' where "n' = (if right then n + snd (hd ys) else n)"
  define zs where "zs = (if right then tl ys else ys)"
  define m1 where "m1 = set_nxt m ?cur (seg_start unit zs)"
  have okx: "ext_ok g lo hi xs" and oky: "ext_ok g (ext_end lo xs) hi ys"
    using ok(1) es(1) by (simp_all add: ext_ok_append)
  have "0 < g" "0 < n" using positive c by simp_all
  note s = ext_split_disjoint [OF ok(1) [unfolded es(1)] \<open>0 < g\<close> \<open>0 < n\<close> c(1) es(2,3) c(5) [unfolded es(1)]]
  have segx: "seg rd unit m (nxt m h) xs (seg_start unit ys)" and segy: "seg rd unit m (seg_start unit ys) ys 0"
    using ok(2) es(1) by (auto simp: seg_append dest: seg_startD)
  have all: "g \<le> n' \<and> c + n' \<le> hi \<and> ext_ok g (c + n' + 1) hi zs \<and> seg rd unit m (seg_start unit zs) zs 0"
  proof (cases right)
    case True
    then obtain e es' where y: "ys = e # es'" "c + n = fst e" using right by (cases ys) auto
    then have "c + n' = fst e + snd e" "zs = es'" "g \<le> n'" using True c by (simp_all add: n'_def zs_def)
    moreover have "seg rd unit m (nxt m (node unit (fst e))) es' 0" using segy y by simp
    then have "seg rd unit m (seg_start unit es') es' 0" by (metis seg_startD)
    ultimately show ?thesis using oky y by simp
  next
    case False
    then have "n' = n" "zs = ys" by (simp_all add: n'_def zs_def)
    moreover have "ext_ok g (c + n + 1) hi ys" using oky False right s(2) by (cases ys) auto
    ultimately show ?thesis using c segy by simp
  qed
  then have n': "g \<le> n'" "c + n' \<le> hi" and okz: "ext_ok g (c + n' + 1) hi zs"
    and segz: "seg rd unit m (seg_start unit zs) zs 0" by blast+
  have m1_eq: "m1 = (if right then set_nxt m ?cur (nxt m (seg_start unit ys)) else set_nxt m ?cur (seg_start unit ys))"
    unfolding m1_def zs_def using right segy by (cases ys) (auto dest: seg_startD)
  have cur8: "span ?cur 8 \<subseteq> ext_bytes unit [(c, n)]" using node_span c by simp
  have fr: "m1 x = m x" if "x \<notin> span ?cur 8" for x unfolding m1_def using that nxt_frame by blast
  have cs: "ext_bytes unit [(c, n)] \<inter> ext_bytes unit es = {}"
    by (rule ext_bytes_disjoint) (use c(5) in simp)
  have xe: "ext_bytes unit xs \<subseteq> ext_bytes unit es" and ze: "ext_bytes unit zs \<subseteq> ext_bytes unit es"
    using es(1) by (cases ys; auto simp: zs_def ext_bytes_def)+
  have hd: "span h 8 \<inter> ext_bytes unit [(c, n)] = {}" by (rule head_span [OF h]) (use c in auto)
  have nh: "nxt m1 h = nxt m h" by (rule nxt_cong, rule fr) (use hd cur8 span8 in blast)
  have 1: "seg rd unit m1 (nxt m1 h) xs (seg_start unit ys)"
    unfolding nh using segx seg_cong [OF okx, of m1 m] fr cur8 cs xe by blast
  have 2: "seg rd unit m1 (nxt m1 ?cur) zs 0"
    unfolding m1_def set_nxt_same
    using segz seg_cong [OF okz, of m1 m] fr cur8 cs ze unfolding m1_def by blast
  have rds: "rd m (seg_start unit ys) = snd (hd ys)" if right using that right segy by (cases ys) auto
  have m'_eq: "m' = (if left then let m = wr m1 (last_node unit h xs) (rd m1 (last_node unit h xs) + n')
        in set_nxt m (last_node unit h xs) (nxt m ?cur) else wr (set_nxt m1 (last_node unit h xs) ?cur) ?cur n')"
    unfolding m' splice_def m1_eq n'_def using rds by (auto simp: Let_def)
  note A = attach_chain [OF okx s(1) 1 c(1,2) n' okz 2 h left refl refl m'_eq]
  have "ext_insert c n es = attach xs c n' @ zs"
    unfolding es(1) ext_insert_split [OF es(2,3)] using right
    by (cases ys) (auto simp: n'_def zs_def)
  with A(1) show "seg rd unit m' (nxt m' h) (ext_insert c n es) 0" by simp
  show "x \<notin> span (h + 4) 4 \<union> ext_bytes unit es \<union> ext_bytes unit [(c, n)] \<Longrightarrow> m' x = m x"
  proof -
    assume x: "x \<notin> span (h + 4) 4 \<union> ext_bytes unit es \<union> ext_bytes unit [(c, n)]"
    have "ext_bytes unit [(c, n')] \<subseteq> ext_bytes unit [(c, n)] \<union> ext_bytes unit es"
      using right es(1) unfolding n'_def by (cases ys) (auto simp: ext_bytes_def)
    with x xe have "m' x = m1 x" using A(2) [of x] by blast
    also have "\<dots> = m x" using fr x cur8 by blast
    finally show ?thesis .
  qed
qed

text \<open>Taking a part from the top of a node, and unlinking the node when nothing is left of it.\<close>

lemma take_chain:
  assumes ok: "ext_ok g lo hi es" "0 < lo" "seg rd unit m (nxt m h) es 0" "unat h + 8 \<le> unit * lo"
    and es: "es = xs @ e # ys" and r: "r \<le> snd e"
    and m1: "m1 = wr m (node unit (fst e)) (snd e - r)"
    and m2: "m2 = (if snd e - r = 0 then set_nxt m1 (last_node unit h xs) (nxt m1 (node unit (fst e))) else m1)"
  shows "seg rd unit m2 (nxt m2 h) (xs @ (if snd e - r = 0 then ys else (fst e, snd e - r) # ys)) 0"
    and "x \<notin> span (h + 4) 4 \<union> ext_bytes unit es \<Longrightarrow> m2 x = m x"
proof -
  have e: "g \<le> snd e" "fst e + snd e \<le> hi" "lo \<le> fst e" "ext_end lo xs \<le> fst e"
    and okx: "ext_ok g lo hi xs" and oky: "ext_ok g (fst e + snd e + 1) hi ys"
    using ok(1) es ext_end_ge [of g lo hi xs] by (simp_all add: ext_ok_append)
  have a8: "span (node unit (fst e)) 8 \<subseteq> ext_bytes unit [e]" using node_span [OF e(1,2)] by simp
  have hs: "span h 8 \<inter> ext_bytes unit es = {}"
    by (rule head_span [OF ok(4)]) (use ext_ok_bound [OF ok(1)] in auto)
  have es_bytes: "ext_bytes unit es = ext_bytes unit xs \<union> ext_bytes unit [e] \<union> ext_bytes unit ys"
    using es ext_bytes_Cons by (metis ext_bytes_simps(2) sup_assoc)
  have xe: "ext_bytes unit xs \<inter> ext_bytes unit [e] = {}" "ext_bytes unit xs \<inter> ext_bytes unit ys = {}"
    "ext_bytes unit [e] \<inter> ext_bytes unit ys = {}"
    by (rule ext_bytes_disjoint, use ext_set_below_end [OF okx] e(4) ext_ok_bound [OF oky] in fastforce)+
  have fr1: "m1 x = m x" if "x \<notin> span (node unit (fst e)) 4" for x unfolding m1 by (rule wr_other [OF that])
  have rd1: "rd m1 (node unit (fst e)) = snd e - r"
    unfolding m1 by (rule rd_wr) (use e ok(2) in linarith)
  have n1: "nxt m1 (node unit (fst e)) = nxt m (node unit (fst e))" unfolding m1 by (rule wr_nxt)
  have h1: "nxt m1 h = nxt m h" by (rule nxt_cong, rule fr1) (use hs a8 es_bytes span8 in blast)
  have sx: "seg rd unit m (nxt m h) xs (node unit (fst e))" and sy: "seg rd unit m (nxt m (node unit (fst e))) ys 0"
    using ok(3) es by (auto simp: seg_append)
  have m1y: "m1 x = m x" if "x \<in> ext_bytes unit xs \<union> ext_bytes unit ys" for x
    by (rule fr1) (use that xe a8 span8 in blast)
  have sx1: "seg rd unit m1 (nxt m1 h) xs (node unit (fst e))" and sy1: "seg rd unit m1 (nxt m1 (node unit (fst e))) ys 0"
    unfolding h1 n1 using sx sy seg_cong [OF okx, of m1 m] seg_cong [OF oky, of m1 m] m1y by auto
  have q8: "xs = [] \<or> span (last_node unit h xs) 8 \<subseteq> ext_bytes unit xs"
    using okx by (cases xs rule: rev_cases) (auto simp: ext_ok_append dest!: node_span)
  have fr2: "m2 x = m1 x" if "x \<notin> span (last_node unit h xs + 4) 4" for x
    using that by (simp add: m2 set_nxt_other)
  show "x \<notin> span (h + 4) 4 \<union> ext_bytes unit es \<Longrightarrow> m2 x = m x"
  proof -
    assume x: "x \<notin> span (h + 4) 4 \<union> ext_bytes unit es"
    have "m2 x = m1 x" by (rule fr2) (use x q8 es_bytes span8 in \<open>cases xs rule: rev_cases; auto\<close>)
    also have "\<dots> = m x" by (rule fr1) (use x a8 es_bytes span8 in blast)
    finally show ?thesis .
  qed
  show "seg rd unit m2 (nxt m2 h) (xs @ (if snd e - r = 0 then ys else (fst e, snd e - r) # ys)) 0"
  proof (cases "snd e - r = 0")
    case False
    then show ?thesis using m2 sx1 sy1 rd1 by (auto simp: seg_append)
  next
    case True
    have "m2 x = m1 x" if "x \<in> ext_bytes unit ys" for x
      by (rule fr2) (use that q8 xe hs es_bytes span8 in \<open>cases xs rule: rev_cases; auto\<close>)
    then have y2: "seg rd unit m2 (nxt m1 (node unit (fst e))) ys 0"
      using sy1 seg_cong [OF oky, of m2 m1] by blast
    show ?thesis
    proof (cases xs rule: rev_cases)
      case Nil
      then show ?thesis using True y2 m2 by (simp add: set_nxt_same)
    next
      case (snoc zs f)
      have f: "ext_ok g lo hi zs" "ext_end lo zs \<le> fst f" using okx snoc by (simp_all add: ext_ok_append)
      have zf: "ext_bytes unit zs \<inter> ext_bytes unit [f] = {}"
        by (rule ext_bytes_disjoint) (use ext_set_below_end [OF f(1)] f(2) in fastforce)
      have f8: "span (node unit (fst f)) 8 \<subseteq> ext_bytes unit [f]"
        using okx snoc node_span [of "snd f" "fst f"] by (simp add: ext_ok_append)
      have xs: "ext_bytes unit xs = ext_bytes unit zs \<union> ext_bytes unit [f]" using snoc by simp
      have "m1 x = m2 x" if "x \<in> ext_bytes unit zs" for x
        by (rule fr2 [symmetric]) (use that zf f8 snoc span8 in auto)
      moreover have "nxt m2 (node unit (fst f)) = nxt m1 (node unit (fst e))"
        using True m2 snoc by (simp add: set_nxt_same)
      moreover have "rd m2 (node unit (fst f)) = snd f"
        using True m2 snoc sx1 by (simp add: rd_set_nxt) (auto simp: seg_append)
      moreover have "nxt m2 h = nxt m1 h"
        by (rule nxt_cong, rule fr2) (use snoc f8 hs es_bytes xs span8 in auto)
      ultimately have "seg rd unit m2 (nxt m2 h) (zs @ [(fst f, snd f)]) (nxt m1 (node unit (fst e)))"
        using seg_relink [of lo zs f m1 "nxt m1 h" "node unit (fst e)" m2 "snd f"
          "nxt m1 (node unit (fst e))"] okx sx1 snoc by auto
      with y2 snoc True show ?thesis by (auto simp: seg_append)
    qed
  qed
qed

text \<open>Merging with the node before leaves the size field of the released region alone.\<close>

lemma splice_keeps_size:
  assumes "left" "span q 8 \<inter> span cur 8 = {}"
  shows "rd (splice rd wr m q p cur n right left) cur = rd m cur"
  using assms by (simp add: splice_def Let_def rd_nxt_other rd_wr_other rd_set_nxt)

end

end
