(* ===== verification/Ctype.thy ===== *)
theory Ctype
  imports Prelude
begin

text \<open>
  Character classes: the table of kernel/ctype.c and the macros of include/kernel/ctype.h.  The
  lemmas give each class used by the parsers as a range of byte values.
\<close>

section \<open>The table\<close>

definition ct_U :: u8 where "ct_U = 0x01"
definition ct_L :: u8 where "ct_L = 0x02"
definition ct_D :: u8 where "ct_D = 0x04"
definition ct_C :: u8 where "ct_C = 0x08"
definition ct_P :: u8 where "ct_P = 0x10"
definition ct_S :: u8 where "ct_S = 0x20"
definition ct_X :: u8 where "ct_X = 0x40"
definition ct_SP :: u8 where "ct_SP = 0x80"

lemmas ct_bits = ct_U_def ct_L_def ct_D_def ct_C_def ct_P_def ct_S_def ct_X_def ct_SP_def

definition ctype_table :: "u8 list" where
  "ctype_table =
    [ct_C, ct_C, ct_C, ct_C, ct_C, ct_C, ct_C, ct_C,
     ct_C, ct_C OR ct_S, ct_C OR ct_S, ct_C OR ct_S, ct_C OR ct_S, ct_C OR ct_S, ct_C, ct_C,
     ct_C, ct_C, ct_C, ct_C, ct_C, ct_C, ct_C, ct_C,
     ct_C, ct_C, ct_C, ct_C, ct_C, ct_C, ct_C, ct_C,
     ct_S OR ct_SP, ct_P, ct_P, ct_P, ct_P, ct_P, ct_P, ct_P,
     ct_P, ct_P, ct_P, ct_P, ct_P, ct_P, ct_P, ct_P,
     ct_D, ct_D, ct_D, ct_D, ct_D, ct_D, ct_D, ct_D,
     ct_D, ct_D, ct_P, ct_P, ct_P, ct_P, ct_P, ct_P,
     ct_P, ct_U OR ct_X, ct_U OR ct_X, ct_U OR ct_X, ct_U OR ct_X, ct_U OR ct_X, ct_U OR ct_X, ct_U,
     ct_U, ct_U, ct_U, ct_U, ct_U, ct_U, ct_U, ct_U,
     ct_U, ct_U, ct_U, ct_U, ct_U, ct_U, ct_U, ct_U,
     ct_U, ct_U, ct_U, ct_P, ct_P, ct_P, ct_P, ct_P,
     ct_P, ct_L OR ct_X, ct_L OR ct_X, ct_L OR ct_X, ct_L OR ct_X, ct_L OR ct_X, ct_L OR ct_X, ct_L,
     ct_L, ct_L, ct_L, ct_L, ct_L, ct_L, ct_L, ct_L,
     ct_L, ct_L, ct_L, ct_L, ct_L, ct_L, ct_L, ct_L,
     ct_L, ct_L, ct_L, ct_P, ct_P, ct_P, ct_P, ct_C,
     0, 0, 0, 0, 0, 0, 0, 0, 0, 0, 0, 0, 0, 0, 0, 0,
     0, 0, 0, 0, 0, 0, 0, 0, 0, 0, 0, 0, 0, 0, 0, 0,
     ct_S OR ct_SP, ct_P, ct_P, ct_P, ct_P, ct_P, ct_P, ct_P, ct_P, ct_P, ct_P, ct_P, ct_P, ct_P, ct_P, ct_P,
     ct_P, ct_P, ct_P, ct_P, ct_P, ct_P, ct_P, ct_P, ct_P, ct_P, ct_P, ct_P, ct_P, ct_P, ct_P, ct_P,
     ct_U, ct_U, ct_U, ct_U, ct_U, ct_U, ct_U, ct_U, ct_U, ct_U, ct_U, ct_U, ct_U, ct_U, ct_U, ct_U,
     ct_U, ct_U, ct_U, ct_U, ct_U, ct_U, ct_U, ct_P, ct_U, ct_U, ct_U, ct_U, ct_U, ct_U, ct_U, ct_L,
     ct_L, ct_L, ct_L, ct_L, ct_L, ct_L, ct_L, ct_L, ct_L, ct_L, ct_L, ct_L, ct_L, ct_L, ct_L, ct_L,
     ct_L, ct_L, ct_L, ct_L, ct_L, ct_L, ct_L, ct_P, ct_L, ct_L, ct_L, ct_L, ct_L, ct_L, ct_L, ct_L]"

section \<open>The classes\<close>

definition ismask :: "char \<Rightarrow> u8" where
  "ismask c = ctype_table ! byte_of c"

definition isalnum :: "char \<Rightarrow> bool" where "isalnum c \<longleftrightarrow> ismask c AND (ct_U OR ct_L OR ct_D) \<noteq> 0"
definition isalpha :: "char \<Rightarrow> bool" where "isalpha c \<longleftrightarrow> ismask c AND (ct_U OR ct_L) \<noteq> 0"
definition iscntrl :: "char \<Rightarrow> bool" where "iscntrl c \<longleftrightarrow> ismask c AND ct_C \<noteq> 0"
definition isdigit :: "char \<Rightarrow> bool" where "isdigit c \<longleftrightarrow> ismask c AND ct_D \<noteq> 0"
definition isgraph :: "char \<Rightarrow> bool" where
  "isgraph c \<longleftrightarrow> ismask c AND (ct_P OR ct_U OR ct_L OR ct_D) \<noteq> 0"
definition islower :: "char \<Rightarrow> bool" where "islower c \<longleftrightarrow> ismask c AND ct_L \<noteq> 0"
definition isprint :: "char \<Rightarrow> bool" where
  "isprint c \<longleftrightarrow> ismask c AND (ct_P OR ct_U OR ct_L OR ct_D OR ct_SP) \<noteq> 0"
definition ispunct :: "char \<Rightarrow> bool" where "ispunct c \<longleftrightarrow> ismask c AND ct_P \<noteq> 0"
definition isspace :: "char \<Rightarrow> bool" where "isspace c \<longleftrightarrow> ismask c AND ct_S \<noteq> 0"
definition isupper :: "char \<Rightarrow> bool" where "isupper c \<longleftrightarrow> ismask c AND ct_U \<noteq> 0"
definition isxdigit :: "char \<Rightarrow> bool" where "isxdigit c \<longleftrightarrow> ismask c AND (ct_D OR ct_X) \<noteq> 0"

text \<open>\<open>unsigned char\<close> arithmetic wraps at 256; \<open>'A' - 'a'\<close> is \<open>-32\<close>.\<close>

definition tolower :: "char \<Rightarrow> char" where
  "tolower c = (if isupper c then char_of ((byte_of c + 32) mod 256) else c)"

definition toupper :: "char \<Rightarrow> char" where
  "toupper c = (if islower c then char_of ((byte_of c + 256 - 32) mod 256) else c)"

section \<open>The classes as ranges\<close>

lemma length_ctype_table [simp]: "length ctype_table = 256"
  by (simp add: ctype_table_def)

fun ctype_all :: "nat \<Rightarrow> (nat \<Rightarrow> u8 \<Rightarrow> bool) \<Rightarrow> u8 list \<Rightarrow> bool" where
  "ctype_all n P [] = True"
| "ctype_all n P (m # ms) = (P n m \<and> ctype_all (n + 1) P ms)"

lemma ctype_all_nth: "ctype_all n P ms \<Longrightarrow> i < length ms \<Longrightarrow> P (n + i) (ms ! i)"
proof (induction ms arbitrary: n i)
  case (Cons m ms)
  then show ?case using Cons.IH [of "n + 1" "i - 1"] by (cases i) auto
qed simp

lemma ctype_tableI:
  assumes "ctype_all 0 (\<lambda>n m. (m AND k \<noteq> 0) = p n) ctype_table"
  shows "(ismask c AND k \<noteq> 0) = p (byte_of c)"
  using ctype_all_nth [OF assms, of "byte_of c"] by (simp add: ismask_def)

lemma isdigit_iff: "isdigit c \<longleftrightarrow> 48 \<le> byte_of c \<and> byte_of c \<le> 57"
  unfolding isdigit_def
  by (rule ctype_tableI [where p = "\<lambda>n. 48 \<le> n \<and> n \<le> 57"]) (simp add: ctype_table_def ct_bits)

lemma isxdigit_iff:
  "isxdigit c \<longleftrightarrow> 48 \<le> byte_of c \<and> byte_of c \<le> 57 \<or> 65 \<le> byte_of c \<and> byte_of c \<le> 70
     \<or> 97 \<le> byte_of c \<and> byte_of c \<le> 102"
  unfolding isxdigit_def
  by (rule ctype_tableI [where p = "\<lambda>n. 48 \<le> n \<and> n \<le> 57 \<or> 65 \<le> n \<and> n \<le> 70 \<or> 97 \<le> n \<and> n \<le> 102"])
    (simp add: ctype_table_def ct_bits)

lemma islower_iff:
  "islower c \<longleftrightarrow> 97 \<le> byte_of c \<and> byte_of c \<le> 122 \<or> 223 \<le> byte_of c \<and> byte_of c \<noteq> 247"
  unfolding islower_def
  by (rule ctype_tableI [where p = "\<lambda>n. 97 \<le> n \<and> n \<le> 122 \<or> 223 \<le> n \<and> n \<noteq> 247"])
    (simp add: ctype_table_def ct_bits)

lemma isspace_iff:
  "isspace c \<longleftrightarrow> 9 \<le> byte_of c \<and> byte_of c \<le> 13 \<or> byte_of c = 32 \<or> byte_of c = 160"
  unfolding isspace_def
  by (rule ctype_tableI [where p = "\<lambda>n. 9 \<le> n \<and> n \<le> 13 \<or> n = 32 \<or> n = 160"])
    (simp add: ctype_table_def ct_bits)

lemma isupper_iff:
  "isupper c \<longleftrightarrow> 65 \<le> byte_of c \<and> byte_of c \<le> 90
     \<or> 192 \<le> byte_of c \<and> byte_of c \<le> 222 \<and> byte_of c \<noteq> 215"
  unfolding isupper_def
  by (rule ctype_tableI [where p = "\<lambda>n. 65 \<le> n \<and> n \<le> 90 \<or> 192 \<le> n \<and> n \<le> 222 \<and> n \<noteq> 215"])
    (simp add: ctype_table_def ct_bits)

lemma byte_of_toupper_ascii:
  "97 \<le> byte_of c \<Longrightarrow> byte_of c \<le> 122 \<Longrightarrow> byte_of (toupper c) = byte_of c - 32"
  by (simp add: toupper_def islower_iff mod_if)

lemma toupper_id: "\<not> islower c \<Longrightarrow> toupper c = c"
  by (simp add: toupper_def)

lemma not_digit_nul [simp]: "\<not> isdigit nul" "\<not> isxdigit nul" "\<not> isspace nul"
  by (simp_all add: isdigit_iff isxdigit_iff isspace_iff)

end
