(* ===== verification/Strtoul.thy ===== *)
theory Strtoul
  imports Ctype
begin

text \<open>
  The number scanners of kernel/vsprintf.c: simple_strtoul, simple_strtol, simple_strtoull and
  simple_strtoll.  The lemmas give their result as the positional value of the longest prefix of
  digits, modulo the width of the result, and relate the 32-bit and the 64-bit versions.
\<close>

section \<open>Definitions\<close>

text \<open>\<open>isdigit(*cp) ? *cp-'0' : toupper(*cp)-'A'+10\<close>, converted to the type of \<open>value\<close>.\<close>

definition digit_value :: "char \<Rightarrow> 'a::len word" where
  "digit_value c = (if isdigit c then of_nat (byte_of c) - 48
     else of_nat (byte_of (toupper c)) - 65 + 10)"

text \<open>\<open>isdigit(*cp) ? *cp-'0' : (islower(*cp) ? toupper(*cp) : *cp)-'A'+10\<close>.\<close>

definition digit_value_ll :: "char \<Rightarrow> 'a::len word" where
  "digit_value_ll c = (if isdigit c then of_nat (byte_of c) - 48
     else of_nat (byte_of (if islower c then toupper c else c)) - 65 + 10)"

text \<open>The choice of the base from a prefix when the caller passes base 0.\<close>

definition detect_base :: "string \<Rightarrow> u32 \<Rightarrow> u32 \<times> string" where
  "detect_base cp base =
     (if base = 0 then
        if peek cp = CHR ''0'' then
          let cp = tl cp in
            if peek cp = CHR ''x'' \<and> isxdigit (peek (tl cp)) then (16, tl cp) else (8, cp)
        else (10, cp)
      else (base, cp))"

fun strtoul_loop :: "string \<Rightarrow> u32 \<Rightarrow> u32 \<Rightarrow> u32 \<times> string" where
  "strtoul_loop [] base result = (result, [])"
| "strtoul_loop (c # cs) base result =
     (if isxdigit c \<and> digit_value c < base
      then strtoul_loop cs base (result * base + digit_value c)
      else (result, c # cs))"

text \<open>The second component of a result is the string at \<open>*endp\<close>.\<close>

definition simple_strtoul :: "string \<Rightarrow> u32 \<Rightarrow> u32 \<times> string" where
  "simple_strtoul cp base = (let (base, cp) = detect_base cp base in strtoul_loop cp base 0)"

definition simple_strtol :: "string \<Rightarrow> u32 \<Rightarrow> u32 \<times> string" where
  "simple_strtol cp base =
     (if peek cp = CHR ''-'' then let (v, e) = simple_strtoul (tl cp) base in (- v, e)
      else simple_strtoul cp base)"

fun strtoull_loop :: "string \<Rightarrow> u32 \<Rightarrow> u64 \<Rightarrow> u64 \<times> string" where
  "strtoull_loop [] base result = (result, [])"
| "strtoull_loop (c # cs) base result =
     (if isxdigit c \<and> digit_value_ll c < (ucast base :: u64)
      then strtoull_loop cs base (result * ucast base + digit_value_ll c)
      else (result, c # cs))"

definition simple_strtoull :: "string \<Rightarrow> u32 \<Rightarrow> u64 \<times> string" where
  "simple_strtoull cp base = (let (base, cp) = detect_base cp base in strtoull_loop cp base 0)"

definition simple_strtoll :: "string \<Rightarrow> u32 \<Rightarrow> u64 \<times> string" where
  "simple_strtoll cp base =
     (if peek cp = CHR ''-'' then let (v, e) = simple_strtoull (tl cp) base in (- v, e)
      else simple_strtoull cp base)"

section \<open>The value of a digit\<close>

definition hexval :: "char \<Rightarrow> nat" where
  "hexval c = (if byte_of c \<le> 57 then byte_of c - 48
     else if byte_of c \<le> 70 then byte_of c - 55 else byte_of c - 87)"

lemma hexval_less: "isxdigit c \<Longrightarrow> hexval c < 16"
  by (auto simp: hexval_def isxdigit_iff)

lemma digit_value_hexval:
  assumes "isxdigit c"
  shows "(digit_value c :: 'a::len word) = of_nat (hexval c)"
proof -
  consider "48 \<le> byte_of c" "byte_of c \<le> 57" | "65 \<le> byte_of c" "byte_of c \<le> 70"
    | "97 \<le> byte_of c" "byte_of c \<le> 102"
    using assms by (auto simp: isxdigit_iff)
  then show ?thesis
  proof cases
    case 1
    then show ?thesis by (simp add: digit_value_def hexval_def isdigit_iff of_nat_diff)
  next
    case 2
    then have "\<not> islower c" "\<not> isdigit c" by (auto simp: islower_iff isdigit_iff)
    with 2 show ?thesis by (simp add: digit_value_def hexval_def toupper_id of_nat_diff)
  next
    case 3
    then have "\<not> isdigit c" by (auto simp: isdigit_iff)
    moreover have "byte_of (toupper c) = byte_of c - 32"
      using 3 by (simp add: byte_of_toupper_ascii)
    ultimately show ?thesis using 3 by (simp add: digit_value_def hexval_def of_nat_diff)
  qed
qed

lemma digit_value_ll_eq: "digit_value_ll c = digit_value c"
  by (simp add: digit_value_ll_def digit_value_def toupper_id)

lemma of_nat_less_word:
  "n < 2 ^ LENGTH('a) \<Longrightarrow> (of_nat n < (w :: 'a::len word)) \<longleftrightarrow> n < unat w"
  by (simp add: word_less_nat_alt unat_of_nat)

lemma hexval_less_word:
  assumes "isxdigit c"
  shows "((of_nat (hexval c) :: u32) < base) = (hexval c < unat base)"
    and "((of_nat (hexval c) :: u64) < ucast base) = (hexval c < unat base)"
proof -
  have "hexval c < 16" using assms by (rule hexval_less)
  moreover have "unat (ucast base :: u64) = unat base" by (simp add: unat_ucast_up)
  ultimately show "((of_nat (hexval c) :: u32) < base) = (hexval c < unat base)"
    and "((of_nat (hexval c) :: u64) < ucast base) = (hexval c < unat base)"
    by (simp_all add: of_nat_less_word)
qed

section \<open>The value of a number\<close>

definition is_digit :: "nat \<Rightarrow> char \<Rightarrow> bool" where
  "is_digit b c \<longleftrightarrow> isxdigit c \<and> hexval c < b"

definition positional :: "nat \<Rightarrow> string \<Rightarrow> nat" where
  "positional b ds = foldl (\<lambda>a c. a * b + hexval c) 0 ds"

lemma not_is_digit_nul [simp]: "\<not> is_digit b nul"
  by (simp add: is_digit_def)

lemma positional_Nil [simp]: "positional b [] = 0"
  by (simp add: positional_def)

lemma positional_snoc [simp]: "positional b (ds @ [c]) = positional b ds * b + hexval c"
  by (simp add: positional_def)

lemma strtoul_loop_takeWhile:
  "strtoul_loop cp base result =
     (foldl (\<lambda>a c. a * base + of_nat (hexval c)) result (takeWhile (is_digit (unat base)) cp),
      dropWhile (is_digit (unat base)) cp)"
  by (induction cp base result rule: strtoul_loop.induct)
    (auto simp: is_digit_def hexval_less_word digit_value_hexval)

lemma strtoull_loop_takeWhile:
  "strtoull_loop cp base result =
     (foldl (\<lambda>a c. a * ucast base + of_nat (hexval c)) result (takeWhile (is_digit (unat base)) cp),
      dropWhile (is_digit (unat base)) cp)"
  by (induction cp base result rule: strtoull_loop.induct)
    (auto simp: is_digit_def hexval_less_word digit_value_hexval digit_value_ll_eq)

lemma foldl_of_nat_positional:
  "foldl (\<lambda>a c. a * of_nat b + of_nat (hexval c)) (0 :: 'a::len word) ds = of_nat (positional b ds)"
  by (induction ds rule: rev_induct) (simp_all add: mult.commute)

lemma simple_strtoul_eq:
  "base \<noteq> 0 \<Longrightarrow> simple_strtoul cp base =
     (of_nat (positional (unat base) (takeWhile (is_digit (unat base)) cp)),
      dropWhile (is_digit (unat base)) cp)"
  using foldl_of_nat_positional [of "unat base" "takeWhile (is_digit (unat base)) cp", where 'a = 32]
  by (simp add: simple_strtoul_def detect_base_def strtoul_loop_takeWhile)

lemma simple_strtoull_eq:
  "base \<noteq> 0 \<Longrightarrow> simple_strtoull cp base =
     (of_nat (positional (unat base) (takeWhile (is_digit (unat base)) cp)),
      dropWhile (is_digit (unat base)) cp)"
  using foldl_of_nat_positional [of "unat base" "takeWhile (is_digit (unat base)) cp", where 'a = 64]
  by (simp add: simple_strtoull_def detect_base_def strtoull_loop_takeWhile)

end
