(* ===== verification/Vsprintf.thy ===== *)
theory Vsprintf
  imports Strtoul
begin

text \<open>
  The formatter of kernel/vsprintf.c: strnlen, the 64-by-32-bit division do_div, skip_atoi, number
  and vsprintf.  Characters written through \<open>str\<close> are returned as a string; the stores made by the
  %n conversion are returned as pairs of an address and a count.
\<close>

section \<open>Helpers\<close>

fun strnlen :: "string \<Rightarrow> u32 \<Rightarrow> nat" where
  "strnlen [] count = 0"
| "strnlen (c # cs) count =
     (if count \<noteq> 0 \<and> c \<noteq> nul then Suc (strnlen cs (count - 1)) else 0)"

text \<open>
  \<open>divl\<close> divides the 64-bit value \<open>edx:eax\<close> by a 32-bit operand; \<open>do_div\<close> splits a 64-bit dividend so
  that the quotient fits.  The first component is the new value of \<open>n\<close>, the second the remainder.
\<close>

definition divl :: "u32 \<Rightarrow> u32 \<Rightarrow> u32 \<Rightarrow> u32 \<times> u32" where
  "divl edx eax base =
     (let n = unat edx * 2 ^ 32 + unat eax
      in (of_nat (n div unat base), of_nat (n mod unat base)))"

definition do_div :: "u64 \<Rightarrow> u32 \<Rightarrow> u64 \<times> u32" where
  "do_div n base =
     (let low = (ucast n :: u32);
          high = (ucast (drop_bit 32 n) :: u32);
          (upper, high) = (if high \<noteq> 0 then (high mod base, high div base) else (high, high));
          (low, md) = divl upper low base
      in (push_bit 32 (ucast high) OR ucast low, md))"

text \<open>\<open>i*10 + *((*s)++) - '0'\<close> on a C \<open>int\<close>.\<close>

fun skip_atoi_loop :: "string \<Rightarrow> int \<Rightarrow> int \<times> string" where
  "skip_atoi_loop [] i = (i, [])"
| "skip_atoi_loop (c # cs) i =
     (if isdigit c then skip_atoi_loop cs (s32 (i * 10 + char_val c - 48)) else (i, c # cs))"

definition skip_atoi :: "string \<Rightarrow> int \<times> string" where
  "skip_atoi s = skip_atoi_loop s 0"

section \<open>Flags\<close>

definition ZEROPAD :: u32 where "ZEROPAD = 1"
definition SIGN :: u32 where "SIGN = 2"
definition PLUS :: u32 where "PLUS = 4"
definition SPACE :: u32 where "SPACE = 8"
definition LEFT :: u32 where "LEFT = 16"
definition SPECIAL :: u32 where "SPECIAL = 32"
definition LARGE :: u32 where "LARGE = 64"

lemmas flag_defs = ZEROPAD_def SIGN_def PLUS_def SPACE_def LEFT_def SPECIAL_def LARGE_def

section \<open>number\<close>

definition lower_digits :: string where
  "lower_digits = ''0123456789abcdefghijklmnopqrstuvwxyz''"

definition upper_digits :: string where
  "upper_digits = ''0123456789ABCDEFGHIJKLMNOPQRSTUVWXYZ''"

text \<open>
  \<open>while (size-- > 0) *str++ = c\<close>: the characters written and the value of \<open>size\<close> afterwards.
  \<open>size\<close> and \<open>precision\<close> are mathematical integers here: a field width of a call is far from the ends
  of the range of \<open>int\<close>.
\<close>

function pad_while :: "int \<Rightarrow> char \<Rightarrow> string \<times> int" where
  "pad_while sz c =
     (if 0 < sz then let (s, sz') = pad_while (sz - 1) c in (c # s, sz') else ([], sz - 1))"
  by pat_completeness auto
termination
  by (relation "measure (\<lambda>(sz, c). nat sz)") auto

text \<open>\<open>while (i < precision--) *str++ = '0'\<close>.\<close>

function zero_while :: "int \<Rightarrow> int \<Rightarrow> string" where
  "zero_while i precision = (if i < precision then CHR ''0'' # zero_while i (precision - 1) else [])"
  by pat_completeness auto
termination
  by (relation "measure (\<lambda>(i, precision). nat (precision - i))") auto

text \<open>\<open>while (i-- > 0) *str++ = tmp[i]\<close>.\<close>

fun emit_rev :: "string \<Rightarrow> nat \<Rightarrow> string" where
  "emit_rev tmp 0 = []"
| "emit_rev tmp (Suc i) = tmp ! i # emit_rev tmp i"

declare pad_while.simps [simp del] zero_while.simps [simp del]

lemma divl_quotient_fits:
  fixes edx eax base :: u32
  assumes "unat edx < unat base"
  shows "(unat edx * 2 ^ 32 + unat eax) div unat base < 2 ^ 32"
proof -
  have "unat eax < 2 ^ 32" by simp
  then have "unat edx * 2 ^ 32 + unat eax < (unat edx + 1) * 2 ^ 32" by simp
  also have "\<dots> \<le> unat base * 2 ^ 32" using assms by (intro mult_right_mono) auto
  finally show ?thesis by (simp add: less_mult_imp_div_less mult.commute)
qed

lemma u64_split:
  fixes n :: u64
  shows "unat n = unat (ucast (drop_bit 32 n) :: u32) * 2 ^ 32 + unat (ucast n :: u32)"
    and "unat (ucast (drop_bit 32 n) :: u32) = unat n div 2 ^ 32"
proof -
  have l: "unat n < 2 ^ 64" by simp
  have h: "unat (ucast (drop_bit 32 n) :: u32) = unat n div 2 ^ 32"
  proof -
    have "unat n div 2 ^ 32 < 2 ^ 32" using l by (simp add: less_mult_imp_div_less)
    then show ?thesis
      by (simp add: unsigned_ucast_eq unsigned_drop_bit_eq drop_bit_eq_div take_bit_eq_mod unat_div)
  qed
  then show "unat (ucast (drop_bit 32 n) :: u32) = unat n div 2 ^ 32" .
  show "unat n = unat (ucast (drop_bit 32 n) :: u32) * 2 ^ 32 + unat (ucast n :: u32)"
    unfolding h by (simp add: unsigned_ucast_eq take_bit_eq_mod)
qed

lemma unat_join:
  fixes h l :: u32
  shows "unat (push_bit 32 (ucast h) OR ucast l :: u64) = unat h * 2 ^ 32 + unat l"
proof -
  have "unat h * 4294967296 + unat l < 18446744073709551616"
    using unat_bounds(3) [of h] unat_bounds(3) [of l] by linarith
  then have b: "unat h * 2 ^ 32 + unat l < 2 ^ 64" by simp
  have "(push_bit 32 (ucast h) OR ucast l :: u64) = push_bit 32 (ucast h) + ucast l"
    by (rule disjunctive_add [symmetric]) (auto simp: bit_simps dest: bit_imp_le_length)
  also have "\<dots> = of_nat (unat h * 2 ^ 32 + unat l)"
    by (simp add: push_bit_eq_mult)
  finally have "unat (push_bit 32 (ucast h) OR ucast l :: u64)
      = unat (of_nat (unat h * 2 ^ 32 + unat l) :: u64)" by (rule arg_cong)
  also have "\<dots> = unat h * 2 ^ 32 + unat l" using b by (intro unat_of_nat_small) simp
  finally show ?thesis .
qed

lemma do_div_correct:
  fixes n :: u64 and base :: u32
  assumes "base \<noteq> 0"
  shows "unat (fst (do_div n base)) = unat n div unat base"
    and "unat (snd (do_div n base)) = unat n mod unat base"
proof -
  define h where "h = (ucast (drop_bit 32 n) :: u32)"
  define l where "l = (ucast n :: u32)"
  have b: "0 < unat base" using assms by (simp add: unat_gt_0)
  have n: "unat n = unat h * 2 ^ 32 + unat l" unfolding h_def l_def by (rule u64_split(1))
  define u where "u = (if h \<noteq> 0 then h mod base else h)"
  define q where "q = (if h \<noteq> 0 then h div base else h)"
  have u: "unat u = unat h mod unat base" and q: "unat q = unat h div unat base"
    by (simp_all add: u_def q_def unat_div unat_mod)
  define m where "m = unat u * 2 ^ 32 + unat l"
  have ub: "unat u < unat base" using b u by simp
  have md: "m div unat base < 2 ^ 32" using divl_quotient_fits [OF ub, of l] by (simp add: m_def)
  have mm: "m mod unat base < 2 ^ 32"
    using less_trans [OF mod_less_divisor [OF b, of m] unat_bounds(3) [of base]] by simp
  have d: "do_div n base = (push_bit 32 (ucast q) OR ucast (of_nat (m div unat base) :: u32), of_nat (m mod unat base))"
    by (simp add: do_div_def divl_def Let_def h_def l_def u_def q_def m_def)
  have "unat h * 2 ^ 32 = (unat base * unat q + unat u) * 2 ^ 32"
    by (simp only: q u mult_div_mod_eq)
  then have e: "unat n = unat base * (unat q * 2 ^ 32) + m"
    by (simp only: n m_def distrib_right mult.assoc add.assoc)
  show "unat (fst (do_div n base)) = unat n div unat base"
    using md b by (simp add: d unat_join e unat_of_nat)
  show "unat (snd (do_div n base)) = unat n mod unat base"
    using mm by (simp add: d e unat_of_nat)
qed

lemma do_div_less:
  fixes n :: u64 and base :: u32
  assumes "n \<noteq> 0" and "2 \<le> unat base"
  shows "unat (fst (do_div n base)) < unat n"
proof -
  have "base \<noteq> 0" using assms(2) by auto
  moreover have "0 < unat n" using assms(1) by (simp add: unat_gt_0)
  ultimately show ?thesis using assms(2) by (simp add: do_div_correct div_less_dividend)
qed

section \<open>number, continued\<close>

text \<open>
  \<open>while (num != 0) tmp[i++] = digits[do_div(num,base)]\<close>.  \<open>number\<close> has returned already for a base
  below 2; the test here makes the loop total.
\<close>

function digit_loop :: "string \<Rightarrow> u64 \<Rightarrow> u32 \<Rightarrow> string \<Rightarrow> string" where
  "digit_loop digits num base tmp =
     (if num = 0 \<or> unat base < 2 then tmp
      else let qr = do_div num base
           in digit_loop digits (fst qr) base (tmp @ [digits ! unat (snd qr)]))"
  by pat_completeness auto
termination
  by (relation "measure (\<lambda>(digits, num, base, tmp). unat num)") (auto simp: do_div_less)

declare digit_loop.simps [simp del]

text \<open>
  The sign: the character to print (NUL for none), the magnitude and the room left in the field.
  \<open>num\<close> is a long long whose sign is tested, then a 64-bit pattern.
\<close>

definition number_sign :: "u64 \<Rightarrow> int \<Rightarrow> u32 \<Rightarrow> char \<times> u64 \<times> int" where
  "number_sign num sz type =
     (if type AND SIGN \<noteq> 0 then
        if sint num < 0 then (CHR ''-'', - num, sz - 1)
        else if type AND PLUS \<noteq> 0 then (CHR ''+'', num, sz - 1)
        else if type AND SPACE \<noteq> 0 then (CHR '' '', num, sz - 1)
        else (nul, num, sz)
      else (nul, num, sz))"

text \<open>
  The output part of \<open>number\<close>: \<open>tmp\<close> holds the digits, least significant first, \<open>sz\<close> the room left by
  the sign and the prefix, and \<open>c\<close> the fill character.
\<close>

definition emit_number :: "char \<Rightarrow> char \<Rightarrow> string \<Rightarrow> string \<Rightarrow> int \<Rightarrow> int \<Rightarrow> u32 \<Rightarrow> string" where
  "emit_number c sign prefix tmp sz precision type =
     (let i = length tmp;
          precision = (if int i > precision then int i else precision);
          sz = sz - precision;
          (spaces, sz) = (if type AND (ZEROPAD + LEFT) = 0 then pad_while sz (CHR '' '') else ([], sz));
          signs = (if sign \<noteq> nul then [sign] else []);
          (pad, sz) = (if type AND LEFT = 0 then pad_while sz c else ([], sz));
          zeros = zero_while (int i) precision;
          ds = emit_rev tmp i;
          (trail, sz) = pad_while sz (CHR '' '')
      in spaces @ signs @ prefix @ pad @ zeros @ ds @ trail)"

text \<open>
  \<open>None\<close> is the null pointer returned for a base out of range; otherwise the result is what is
  written at \<open>str\<close>.
\<close>

definition number :: "u64 \<Rightarrow> u32 \<Rightarrow> int \<Rightarrow> int \<Rightarrow> u32 \<Rightarrow> string option" where
  "number num base sz precision type =
     (let digits = (if type AND LARGE \<noteq> 0 then upper_digits else lower_digits);
          type = (if type AND LEFT \<noteq> 0 then type AND NOT ZEROPAD else type)
      in if sint base < 2 \<or> 36 < sint base then None
      else
      let c = (if type AND ZEROPAD \<noteq> 0 then CHR ''0'' else CHR '' '');
          (sign, num, sz) = number_sign num sz type;
          sz = (if type AND SPECIAL \<noteq> 0
                then if base = 16 then sz - 2 else if base = 8 then sz - 1 else sz
                else sz);
          tmp = (if num = 0 then ''0'' else digit_loop digits num base []);
          prefix = (if type AND SPECIAL \<noteq> 0
                    then if base = 8 then ''0''
                         else if base = 16 then [CHR ''0'', digits ! 33] else []
                    else [])
      in Some (emit_number c sign prefix tmp sz precision type))"

section \<open>vsprintf\<close>

text \<open>
  \<open>va_arg\<close>: \<open>None\<close> where the next argument is missing or of another kind, which C leaves undefined.
\<close>

fun va_int :: "varg list \<Rightarrow> (u32 \<times> varg list) option" where
  "va_int (VInt w # args) = Some (w, args)"
| "va_int _ = None"

fun va_ll :: "varg list \<Rightarrow> (u64 \<times> varg list) option" where
  "va_ll (VLL w # args) = Some (w, args)"
| "va_ll _ = None"

fun va_str :: "varg list \<Rightarrow> (string option \<times> varg list) option" where
  "va_str (VStr s # args) = Some (s, args)"
| "va_str _ = None"

text \<open>The flags after a percent sign, up to the first character that is none.\<close>

fun parse_flags :: "string \<Rightarrow> u32 \<Rightarrow> u32 \<times> string" where
  "parse_flags [] flags = (flags, [])"
| "parse_flags (c # fmt) flags =
     (if c = CHR ''-'' then parse_flags fmt (flags OR LEFT)
      else if c = CHR ''+'' then parse_flags fmt (flags OR PLUS)
      else if c = CHR '' '' then parse_flags fmt (flags OR SPACE)
      else if c = CHR ''#'' then parse_flags fmt (flags OR SPECIAL)
      else if c = CHR ''0'' then parse_flags fmt (flags OR ZEROPAD)
      else (flags, c # fmt))"

definition parse_width ::
  "string \<Rightarrow> varg list \<Rightarrow> u32 \<Rightarrow> (int \<times> u32 \<times> string \<times> varg list) option" where
  "parse_width fmt args flags =
     (if isdigit (peek fmt) then let (w, fmt) = skip_atoi fmt in Some (w, flags, fmt, args)
      else if peek fmt = CHR ''*'' then
        case va_int args of
          None \<Rightarrow> None
        | Some (v, args) \<Rightarrow>
            let w = sint v in
              if w < 0 then Some (s32 (- w), flags OR LEFT, tl fmt, args)
              else Some (w, flags, tl fmt, args)
      else Some (-1, flags, fmt, args))"

definition parse_precision :: "string \<Rightarrow> varg list \<Rightarrow> (int \<times> string \<times> varg list) option" where
  "parse_precision fmt args =
     (if peek fmt = CHR ''.'' then
        let fmt = tl fmt;
            r = (if isdigit (peek fmt) then let (p, fmt) = skip_atoi fmt in Some (p, fmt, args)
                 else if peek fmt = CHR ''*'' then
                   case va_int args of None \<Rightarrow> None | Some (v, args) \<Rightarrow> Some (sint v, tl fmt, args)
                 else Some (-1, fmt, args))
        in case r of
             None \<Rightarrow> None
           | Some (p, fmt, args) \<Rightarrow> Some (if p < 0 then 0 else p, fmt, args)
      else Some (-1, fmt, args))"

text \<open>The qualifier, \<open>nul\<close> standing for \<open>-1\<close>.\<close>

definition parse_qualifier :: "string \<Rightarrow> char \<times> string" where
  "parse_qualifier fmt =
     (if peek fmt = CHR ''h'' \<or> peek fmt = CHR ''l'' \<or> peek fmt = CHR ''L'' \<or> peek fmt = CHR ''Z''
      then (peek fmt, tl fmt) else (nul, fmt))"

text \<open>The argument of an integer conversion, widened to long long.\<close>

definition fetch_num :: "char \<Rightarrow> u32 \<Rightarrow> varg list \<Rightarrow> (u64 \<times> varg list) option" where
  "fetch_num qualifier flags args =
     (if qualifier = CHR ''L'' then va_ll args
      else case va_int args of
        None \<Rightarrow> None
      | Some (v, args) \<Rightarrow>
          Some (if qualifier = CHR ''l'' then
                  if flags AND SIGN \<noteq> 0 then scast v else ucast v
                else if qualifier = CHR ''Z'' then ucast v
                else if qualifier = CHR ''h'' then
                  if flags AND SIGN \<noteq> 0 then scast (ucast v :: u16) else ucast (ucast v :: u16)
                else if flags AND SIGN \<noteq> 0 then scast v else ucast v,
                args))"

text \<open>\<open>while (--field_width > 0) *str++ = ' '\<close>.\<close>

function pre_while :: "int \<Rightarrow> string \<times> int" where
  "pre_while w =
     (if 0 < w - 1 then let (s, w') = pre_while (w - 1) in (CHR '' '' # s, w') else ([], w - 1))"
  by pat_completeness auto
termination
  by (relation "measure nat") auto

text \<open>\<open>while (len < field_width--) *str++ = ' '\<close>.\<close>

function post_while :: "int \<Rightarrow> int \<Rightarrow> string \<times> int" where
  "post_while len w =
     (if len < w then let (s, w') = post_while len (w - 1) in (CHR '' '' # s, w') else ([], w - 1))"
  by pat_completeness auto
termination
  by (relation "measure (\<lambda>(len, w). nat (w - len))") auto

declare pre_while.simps [simp del] post_while.simps [simp del]

text \<open>
  The switch on the conversion character \<open>c\<close>: what is written at \<open>str\<close>, the stores of %n and the
  remaining arguments.  \<open>n\<close> is \<open>str - buf\<close>.
\<close>

definition conversion ::
  "nat \<Rightarrow> char \<Rightarrow> u32 \<Rightarrow> int \<Rightarrow> int \<Rightarrow> char \<Rightarrow> varg list \<Rightarrow> (string \<times> (u32 \<times> u32) list \<times> varg list) option" where
  "conversion n qualifier flags field_width precision c args =
     (let integer = (\<lambda>base flags.
            case fetch_num qualifier flags args of None \<Rightarrow> None | Some (num, args) \<Rightarrow>
            map_option (\<lambda>s. (s, [], args)) (number num base field_width precision flags))
      in
      if c = CHR ''c'' then
        let (before, field_width) = (if flags AND LEFT = 0 then pre_while field_width else ([], field_width))
        in case va_int args of None \<Rightarrow> None | Some (v, args) \<Rightarrow>
           Some (before @ [char_of (unat (ucast v :: u8))] @ fst (pre_while field_width), [], args)
      else if c = CHR ''s'' then
        case va_str args of None \<Rightarrow> None | Some (arg, args) \<Rightarrow>
        let s = (case arg of None \<Rightarrow> ''<NULL>'' | Some s \<Rightarrow> s);
            len = strnlen s (word_of_int precision);
            (before, field_width) =
              (if flags AND LEFT = 0 then post_while (int len) field_width else ([], field_width))
        in Some (before @ take len s @ fst (post_while (int len) field_width), [], args)
      else if c = CHR ''p'' then
        let (field_width, flags) =
              (if field_width = -1 then (8, flags OR ZEROPAD) else (field_width, flags))
        in case va_int args of None \<Rightarrow> None | Some (v, args) \<Rightarrow>
           map_option (\<lambda>s. (s, [], args)) (number (ucast v) 16 field_width precision flags)
      else if c = CHR ''n'' then
        case va_int args of None \<Rightarrow> None | Some (ip, args) \<Rightarrow> Some ([], [(ip, of_nat n)], args)
      else if c = CHR ''%'' then Some (''%'', [], args)
      else if c = CHR ''o'' then integer 8 flags
      else if c = CHR ''X'' then integer 16 (flags OR LARGE)
      else if c = CHR ''x'' then integer 16 flags
      else if c = CHR ''d'' \<or> c = CHR ''i'' then integer 10 (flags OR SIGN)
      else if c = CHR ''u'' then integer 10 flags
      else if c \<noteq> nul then Some ([CHR ''%'', c], [], args)
      else Some (''%'', [], args))"

text \<open>
  The body of the loop from a percent sign on.  At the end of the format the pointer is stepped back,
  so that the loop sees the terminator again; otherwise the conversion character is passed.
\<close>

definition convert ::
  "nat \<Rightarrow> string \<Rightarrow> varg list \<Rightarrow> (string \<times> (u32 \<times> u32) list \<times> string \<times> varg list) option" where
  "convert n fmt args =
     (let (flags, fmt) = parse_flags fmt 0 in
      case parse_width fmt args flags of None \<Rightarrow> None | Some (field_width, flags, fmt, args) \<Rightarrow>
      case parse_precision fmt args of None \<Rightarrow> None | Some (precision, fmt, args) \<Rightarrow>
      let (qualifier, fmt) = parse_qualifier fmt in
      case conversion n qualifier flags field_width precision (peek fmt) args of
        None \<Rightarrow> None
      | Some (s, st, args) \<Rightarrow> Some (s, st, if peek fmt = nul then fmt else tl fmt, args))"

lemma skip_atoi_loop_length: "length (snd (skip_atoi_loop s i)) \<le> length s"
  by (induction s i rule: skip_atoi_loop.induct) auto

lemma skip_atoi_length: "skip_atoi s = (i, s') \<Longrightarrow> length s' \<le> length s"
  using skip_atoi_loop_length [of s 0] by (simp add: skip_atoi_def)

lemma parse_flags_snd_length: "length (snd (parse_flags s f)) \<le> length s"
proof (induction s arbitrary: f)
  case (Cons c s)
  have "\<And>f'. length (snd (parse_flags s f')) \<le> Suc (length s)" using Cons.IH le_SucI by blast
  then show ?case by (simp only: parse_flags.simps split: if_split) simp
qed simp

lemma parse_flags_length: "parse_flags s f = (f', s') \<Longrightarrow> length s' \<le> length s"
  using parse_flags_snd_length [of s f] by simp

lemma parse_width_length: "parse_width s args f = Some (w, f', s', args') \<Longrightarrow> length s' \<le> length s"
  by (auto simp: parse_width_def Let_def split: if_splits option.splits prod.splits dest: skip_atoi_length)

lemma parse_precision_length:
  assumes "parse_precision s args = Some (p, s', args')"
  shows "length s' \<le> length s"
proof -
  have "length s' \<le> length (tl s) \<or> s' = s"
    using assms by (auto simp: parse_precision_def Let_def split: if_splits option.splits prod.splits
        dest!: skip_atoi_length)
  then show ?thesis by auto
qed

lemma parse_qualifier_length: "parse_qualifier s = (q, s') \<Longrightarrow> length s' \<le> length s"
  by (auto simp: parse_qualifier_def split: if_splits)

lemma convert_length:
  assumes "convert n fmt args = Some (out, st, rest, args')"
  shows "length rest \<le> length fmt"
proof -
  obtain fl f1 where 1: "parse_flags fmt 0 = (fl, f1)" by fastforce
  obtain w fl2 f2 a2 where 2: "parse_width f1 args fl = Some (w, fl2, f2, a2)"
    using assms 1 by (auto simp: convert_def split: option.splits)
  obtain pr f3 a3 where 3: "parse_precision f2 a2 = Some (pr, f3, a3)"
    using assms 1 2 by (auto simp: convert_def split: option.splits)
  obtain q f4 where 4: "parse_qualifier f3 = (q, f4)" by fastforce
  have "rest = tl f4 \<or> rest = f4"
    using assms by (auto simp: convert_def 1 2 3 4 split: if_splits option.splits)
  then have "length rest \<le> length f4" by auto
  also have "\<dots> \<le> length f3" using 4 by (rule parse_qualifier_length)
  also have "\<dots> \<le> length f2" using 3 by (rule parse_precision_length)
  also have "\<dots> \<le> length f1" using 2 by (rule parse_width_length)
  also have "\<dots> \<le> length fmt" using 1 by (rule parse_flags_length)
  finally show ?thesis .
qed

text \<open>The loop over the format; \<open>n\<close> characters have been written before.\<close>

function vsp :: "nat \<Rightarrow> string \<Rightarrow> varg list \<Rightarrow> (string \<times> (u32 \<times> u32) list) option" where
  "vsp n [] args = Some ([], [])"
| "vsp n (c # fmt) args =
     (if c = nul then Some ([], [])
      else if c \<noteq> CHR ''%'' then
        map_option (\<lambda>(out, st). (c # out, st)) (vsp (n + 1) fmt args)
      else case convert n fmt args of None \<Rightarrow> None
        | Some (s, st, fmt', args') \<Rightarrow>
            map_option (\<lambda>(out, st'). (s @ out, st @ st')) (vsp (n + length s) fmt' args'))"
  by pat_completeness auto
termination
  by (relation "measure (\<lambda>(n, fmt, args). length fmt)") (auto dest: convert_length)

text \<open>
  The bytes stored from \<open>buf\<close> on (the terminating NUL included), the value returned and the stores
  of %n.
\<close>

definition vsprintf :: "string \<Rightarrow> varg list \<Rightarrow> (string \<times> int \<times> (u32 \<times> u32) list) option" where
  "vsprintf fmt args =
     map_option (\<lambda>(out, st). (out @ [nul], int (length out), st)) (vsp 0 fmt args)"

definition sprintf :: "string \<Rightarrow> varg list \<Rightarrow> (string \<times> int \<times> (u32 \<times> u32) list) option" where
  "sprintf fmt args = vsprintf fmt args"

end
