(* ===== verification/Panic.thy ===== *)
theory Panic
  imports Vsprintf
begin

text \<open>
  kernel/panic.c and kernel/bochs.c: the two ways the kernel stops itself.  \<open>panic\<close> formats its
  message, takes the kernel lock for good and halts; its value is the state the machine is left in.
  The register and stack dump of the source is skipped by its \<open>goto halt\<close>.  A message that does not
  fit the 1024-byte buffer is outside the model (\<open>None\<close>), as is one vsprintf cannot format.
  An operation that may stop the kernel returns \<open>Inl\<close> of that state, or \<open>Inr\<close> of its result.
\<close>

type_synonym ('v, 's) kresult = "('s + 'v \<times> 's) option"

definition panic_buf_size :: nat where "panic_buf_size = 1024"

definition bochs_debug :: "'a kcpu_scheme \<Rightarrow> 'a kcpu_scheme" where
  "bochs_debug s =
     (if kbochs s
      then outp 0x8A00 0x8AE0 (say (kern_emerg @ ''bochs: returning to debugger'' @ newline) [] s)
      else s)"

text \<open>\<open>r\<close> is the value \<open>inw(0x8a00)\<close> reads back.\<close>

definition bochs_init :: "u16 \<Rightarrow> 'a kcpu_scheme \<Rightarrow> 'a kcpu_scheme" where
  "bochs_init r s =
     (let s = outp 0x8a00 0x8a00 s
      in if r = 0x8a00
         then (say (''Bochs iodebug capability found and enabled'' @ newline) [] s)\<lparr>kbochs := True\<rparr>
         else s)"

definition panic :: "string \<Rightarrow> varg list \<Rightarrow> 'a kcpu_scheme \<Rightarrow> ('v, 'a kcpu_scheme) kresult" where
  "panic fmt args s =
     (case vsprintf fmt args of
        None \<Rightarrow> None
      | Some (out, _, _) \<Rightarrow>
          if panic_buf_size < length out then None
          else
            (let buf = takeWhile (\<lambda>c. c \<noteq> nul) out;
                 s = lock_kernel s;
                 s = say (kern_emerg @ newline) [] s;
                 s = say (kern_emerg @ ''*** Kernel panic: %s ***'' @ newline) [VStr (Some buf)] s;
                 s = say (kern_emerg @ newline) [] s;
                 s = say (kern_emerg @ ''*** System Halted ***'' @ newline) [] s;
                 s = say (kern_emerg @ ''*** It is now safe to power off your system ***'' @ newline) [] s
             in Some (Inl (bochs_debug s))))"

definition assert_fail :: "string \<Rightarrow> string \<Rightarrow> u32 \<Rightarrow> string \<Rightarrow> 'a kcpu_scheme
    \<Rightarrow> ('v, 'a kcpu_scheme) kresult" where
  "assert_fail assertion file line func s =
     (let s = say (kern_emerg @ ''ASSERTION FAILURE: the assertion `%s' failed.'' @ newline)
                [VStr (Some assertion)] s;
          s = say (kern_emerg @ ''                   at %s:%d in %s'' @ newline)
                [VStr (Some file), VInt line, VStr (Some func)] s
      in panic ''Assertion failure'' [] s)"

section \<open>Messages without conversions\<close>

lemma vsp_plain: "CHR ''%'' \<notin> set fmt \<Longrightarrow> nul \<notin> set fmt \<Longrightarrow> vsp n fmt args = Some (fmt, [])"
  by (induction fmt arbitrary: n) auto

lemma takeWhile_nul: "nul \<notin> set s \<Longrightarrow> takeWhile (\<lambda>c. c \<noteq> nul) (s @ [nul]) = s"
  by (induction s) auto

text \<open>The state a panic with a plain message leaves behind.\<close>

definition halted_by :: "string \<Rightarrow> 'a kcpu_scheme \<Rightarrow> 'a kcpu_scheme" where
  "halted_by msg s =
     bochs_debug ((lock_kernel s)\<lparr>ktrace := ktrace s @
       [(kern_emerg @ newline, []),
        (kern_emerg @ ''*** Kernel panic: %s ***'' @ newline, [VStr (Some msg)]),
        (kern_emerg @ newline, []),
        (kern_emerg @ ''*** System Halted ***'' @ newline, []),
        (kern_emerg @ ''*** It is now safe to power off your system ***'' @ newline, [])]\<rparr>)"

lemma panic_plain:
  assumes "CHR ''%'' \<notin> set msg" "nul \<notin> set msg" "length msg < panic_buf_size"
  shows "panic msg [] s = Some (Inl (halted_by msg s))"
  using assms
  by (simp add: panic_def vsprintf_def vsp_plain Let_def takeWhile_nul halted_by_def lock_kernel_def say_def)

end
