(* ===== verification/Pages.thy ===== *)
theory Pages
  imports Extents Panic
begin

text \<open>
  The page allocator of kernel/memory.c.  Free pages are kept in a list of runs, each run's length and
  link stored in its first page; \<open>pages_head\<close> is a static node outside the managed memory.  The
  invariant \<open>pages_ok\<close> relates the bytes of that list to a list of extents of page numbers, and every
  operation is shown to act on the extents as the abstract allocator does.
\<close>

section \<open>State and fields\<close>

text \<open>
  \<open>ph\<close> and \<open>bh\<close> are the addresses the linker gives \<open>pages_head\<close> and \<open>blocks_head\<close>, \<open>npages\<close> is the
  variable \<open>pages\<close>.
\<close>

record kmem = kcpu +
  mem :: mem
  npages :: u32
  ph :: u32
  bh :: u32

definition page_to_addr :: "u16 \<Rightarrow> u32" where
  "page_to_addr page = ucast page * 4096"

definition addr_to_page :: "u32 \<Rightarrow> u16" where
  "addr_to_page addr = word_of_int (sint addr sdiv 4096)"

definition memory_file :: string where "memory_file = ''memory.c''"

section \<open>Start-up and reports\<close>

partial_function (option) printpages_loop :: "u32 \<Rightarrow> 'a kmem_scheme \<Rightarrow> 'a kmem_scheme option" where
  "printpages_loop p s =
     (if p = 0 then Some s
      else printpages_loop (nxt (mem s) p)
        (say (kern_debug @ ''  Start = page %d, length = %d pages, next = page %d'' @ newline)
          [VInt (ucast (addr_to_page p)), VInt (ucast (load16 (mem s) p)),
           VInt (ucast (addr_to_page (nxt (mem s) p)))] s))"

definition printpages :: "'a kmem_scheme \<Rightarrow> 'a kmem_scheme option" where
  "printpages s =
     printpages_loop (ph s) (say (kern_debug @ ''Current free pages list:'' @ newline) [] s)"

definition kalloc_init :: "u32 \<Rightarrow> u32 \<Rightarrow> 'a kmem_scheme \<Rightarrow> 'a kmem_scheme option" where
  "kalloc_init memory_start memory_end s =
     (let m = set_nxt (mem s) (ph s) memory_start;
          m = store16 m (nxt m (ph s)) (ucast ((memory_end - memory_start) div 4096));
          m = set_nxt m (nxt m (ph s)) 0
      in case printpages (s\<lparr>mem := m\<rparr>) of
           None \<Rightarrow> None
         | Some s \<Rightarrow> Some (s\<lparr>npages := memory_end div 4096\<rparr>))"

partial_function (option) free_pages_loop :: "mem \<Rightarrow> u32 \<Rightarrow> u32 \<Rightarrow> u32 option" where
  "free_pages_loop m p free =
     (if p = 0 then Some free else free_pages_loop m (nxt m p) (free + ucast (load16 m p) * 4096))"

partial_function (option) free_blocks_loop :: "mem \<Rightarrow> u32 \<Rightarrow> u32 \<Rightarrow> u32 option" where
  "free_blocks_loop m b free =
     (if b = 0 then Some free else free_blocks_loop m (nxt m b) (free + load32 m b))"

definition show_memory :: "'a kmem_scheme \<Rightarrow> 'a kmem_scheme option" where
  "show_memory s =
     (case free_pages_loop (mem s) (ph s) 0 of
        None \<Rightarrow> None
      | Some free \<Rightarrow> (case free_blocks_loop (mem s) (bh s) free of
          None \<Rightarrow> None
        | Some free \<Rightarrow>
            Some (say (''Free Memory: %ldk/%ldk'' @ newline)
              [VInt (free div 1024), VInt (word_of_int (sint (npages s * 4096) sdiv 1024))] s)))"

section \<open>Taking pages\<close>

definition page_allocate :: "'a kmem_scheme \<Rightarrow> (u16, 'a kmem_scheme) kresult" where
  "page_allocate s =
     (let m = mem s; a = nxt m (ph s)
      in if a = 0 then panic ''Out of pages to allocate'' [] s
         else if load16 m a = 0
           then assert_fail ''pages_head.next->pages != 0'' memory_file 102 ''page_allocate'' s
         else
           (let page_number = addr_to_page a;
                page_number = page_number + (load16 m a - 1);
                m = store16 m a (load16 m a - 1);
                m = (if load16 m a = 0 then set_nxt m (ph s) (nxt m a) else m)
            in Some (Inr (page_number, s\<lparr>mem := m\<rparr>))))"

text \<open>
  The loop of page_allocate_consecutive: it returns \<open>cur\<close> (0 when the list is exhausted), the page
  number and the memory.
\<close>

partial_function (option) consecutive_loop ::
    "u16 \<Rightarrow> u32 \<Rightarrow> u32 \<Rightarrow> u16 \<Rightarrow> mem \<Rightarrow> (u32 \<times> u16 \<times> mem) option" where
  "consecutive_loop count cur prev page_number m =
     (if cur = 0 then Some (cur, page_number, m)
      else if count \<le> load16 m cur then
        (let m = store16 m cur (load16 m cur - count);
             page_number = page_number + load16 m cur;
             m = (if load16 m cur = 0 then set_nxt m prev (nxt m cur) else m)
         in Some (cur, page_number, m))
      else consecutive_loop count (nxt m cur) cur (addr_to_page (nxt m cur)) m)"

definition page_allocate_consecutive ::
    "u16 \<Rightarrow> 'a kmem_scheme \<Rightarrow> (u16, 'a kmem_scheme) kresult" where
  "page_allocate_consecutive count s =
     (let m = mem s; a = nxt m (ph s)
      in if \<not> 0 < count then assert_fail ''count > 0'' memory_file 119 ''page_allocate_consecutive'' s
         else if a = 0 then panic ''Out of pages to allocate'' [] s
         else if load16 m a = 0
           then assert_fail ''pages_head.next->pages != 0'' memory_file 126 ''page_allocate_consecutive'' s
         else case consecutive_loop count a (ph s) (addr_to_page a) m of
           None \<Rightarrow> None
         | Some (cur, page_number, m) \<Rightarrow>
             if cur = 0
             then panic ''Not enough consecutive pages to complete alloc'' [] (s\<lparr>mem := m\<rparr>)
             else Some (Inr (page_number, s\<lparr>mem := m\<rparr>)))"

section \<open>Returning a page\<close>

definition page_release :: "u16 \<Rightarrow> 'a kmem_scheme \<Rightarrow> 'a kmem_scheme option" where
  "page_release page s =
     (let cur = page_to_addr page; m = mem s
      in case find_gap m cur (ph s) (nxt m (ph s)) of
           None \<Rightarrow> None
         | Some (q, p) \<Rightarrow>
             let (n, m) =
                   (if uint page + 1 = uint (addr_to_page p) \<and> p \<noteq> 0
                    then (1 + load16 m p, set_nxt m cur (nxt m p)) else (1, set_nxt m cur p));
                 m = (if uint (addr_to_page q) + uint (load16 m q) = uint page
                      then let m = store16 m q (load16 m q + n) in set_nxt m q (nxt m cur)
                      else store16 (set_nxt m q cur) cur n)
             in Some (s\<lparr>mem := m\<rparr>))"

section \<open>The list in memory\<close>

definition pg_size :: "mem \<Rightarrow> u32 \<Rightarrow> nat" where
  "pg_size m a = unat (load16 m a)"

definition pg_set_size :: "mem \<Rightarrow> u32 \<Rightarrow> nat \<Rightarrow> mem" where
  "pg_set_size m a n = store16 m a (of_nat n)"

interpretation pg: free_list pg_size pg_set_size 4096 1 65536
proof
  fix a :: u32 and m m' :: mem
  assume eq: "\<And>x. x \<in> span a 4 \<Longrightarrow> m x = m' x"
  show "pg_size m a = pg_size m' a"
    unfolding pg_size_def by (rule arg_cong [of _ _ unat], rule load16_cong) (use eq span4 span2 in auto)
next
  fix m :: mem and a x :: u32 and n :: nat
  show "x \<notin> span a 4 \<Longrightarrow> pg_set_size m a n x = m x"
    unfolding pg_set_size_def by (rule store16_other) (use span4 span2 in auto)
  show "n < 65536 \<Longrightarrow> pg_size (pg_set_size m a n) a = n"
    by (simp add: pg_size_def pg_set_size_def store16_same unat_of_nat_small)
qed simp_all

text \<open>
  \<open>pages_ok lo ps s\<close>: the free list of the state \<open>s\<close> is the list of runs \<open>ps\<close>, all of them from page
  \<open>lo\<close> on, sorted and fully coalesced; \<open>pages_head\<close> lies below page \<open>lo\<close> and its own count is 0.
\<close>

definition pages_ok :: "nat \<Rightarrow> ext list \<Rightarrow> 'a kmem_scheme \<Rightarrow> bool" where
  "pages_ok lo ps s \<longleftrightarrow> 0 < lo \<and> unat (ph s) + 8 \<le> 4096 * lo \<and> load16 (mem s) (ph s) = 0
     \<and> ext_ok 1 lo 65536 ps \<and> seg pg_size 4096 (mem s) (nxt (mem s) (ph s)) ps 0"

text \<open>\<open>mem_only A s s'\<close>: nothing but bytes of \<open>A\<close> differs between the two states.\<close>

definition mem_only :: "u32 set \<Rightarrow> 'a kmem_scheme \<Rightarrow> 'a kmem_scheme \<Rightarrow> bool" where
  "mem_only A s s' \<longleftrightarrow> (\<exists>m. s' = s\<lparr>mem := m\<rparr> \<and> (\<forall>x. x \<notin> A \<longrightarrow> m x = mem s x))"

definition page_list_bytes :: "ext list \<Rightarrow> 'a kmem_scheme \<Rightarrow> u32 set" where
  "page_list_bytes ps s = span (ph s + 4) 4 \<union> ext_bytes 4096 ps"

lemma word_unat_eqI: "unat a = unat b \<Longrightarrow> a = b"
  by (rule unsigned_word_eqI)

lemma addr_to_page_unat: "unat a < 2 ^ 28 \<Longrightarrow> unat (addr_to_page a) = unat a div 4096"
proof -
  assume a: "unat a < 2 ^ 28"
  define n where "n = unat a"
  have "sint a = int n" unfolding n_def by (rule sint_small) (use a in simp)
  then have "sint a sdiv 4096 = int (n div 4096)"
    by (cases "n = 0") (simp_all add: signed_divide_int_def zdiv_int)
  then have "addr_to_page a = of_nat (n div 4096)" unfolding addr_to_page_def by simp
  moreover have "n div 4096 < 65536" using a n_def by (simp add: less_mult_imp_div_less)
  ultimately show ?thesis unfolding n_def [symmetric] by (simp add: unat_of_nat_small)
qed

lemma node_page: "p < 65536 \<Longrightarrow> unat (node 4096 p) = 4096 * p"
  unfolding node_def by (rule unat_of_nat_small) simp

lemma addr_to_page_node: "p < 65536 \<Longrightarrow> addr_to_page (node 4096 p) = of_nat p"
  by (rule word_unat_eqI) (simp add: addr_to_page_unat node_page unat_of_nat_small)

lemma page_to_addr_node: "page_to_addr page = node 4096 (unat page)"
proof (rule word_unat_eqI)
  have "unat page * 4096 < 4294967296" using unat_bounds(2) [of page] by linarith
  then show "unat (page_to_addr page) = unat (node 4096 (unat page))"
    by (simp add: node_page page_to_addr_def unat_word_ariths unat_ucast_up mult.commute)
qed

section \<open>What the operations do to the list\<close>

lemma pages_okD:
  assumes "pages_ok lo ps s"
  shows "0 < lo" "unat (ph s) + 8 \<le> 4096 * lo" "load16 (mem s) (ph s) = 0" "ext_ok 1 lo 65536 ps"
    "seg pg_size 4096 (mem s) (nxt (mem s) (ph s)) ps 0"
  using assms by (simp_all add: pages_ok_def)

lemma head_count:
  assumes "mem_only (page_list_bytes fs s) s s'" "unat (ph s) + 8 \<le> 4096 * lo" "ext_set fs \<subseteq> {lo..}"
  shows "load16 (mem s') (ph s) = load16 (mem s) (ph s)"
proof (rule load16_cong)
  fix x assume "x \<in> span (ph s) 2"
  then have x: "x \<in> span (ph s) 4" using span_mono [of 2 4 "ph s"] by auto
  then have "x \<notin> span (ph s + 4) 4" "x \<notin> ext_bytes 4096 fs"
    using pg.halves_apart [of "ph s"] pg.head_span [OF assms(2,3)] span8 by blast+
  then show "mem s' x = mem s x" using assms(1) by (auto simp: mem_only_def page_list_bytes_def)
qed

lemma pages_ok_cong: "mem s' = mem s \<Longrightarrow> ph s' = ph s \<Longrightarrow> pages_ok lo ps s' \<longleftrightarrow> pages_ok lo ps s"
  by (simp add: pages_ok_def)

text \<open>The state of the allocator after a change of its list.\<close>

lemma pages_okI:
  assumes "pages_ok lo ps s" "mem_only (page_list_bytes fs s) s s'" "ext_set fs \<subseteq> {lo..}"
    "ext_ok 1 lo 65536 ps'" "seg pg_size 4096 (mem s') (nxt (mem s') (ph s)) ps' 0"
  shows "pages_ok lo ps' s'"
proof -
  have "ph s' = ph s" using assms(2) by (auto simp: mem_only_def)
  moreover have "load16 (mem s') (ph s) = 0"
    using head_count [OF assms(2) _ assms(3)] pages_okD [OF assms(1)] by simp
  ultimately show ?thesis using assms pages_okD [OF assms(1)] by (simp add: pages_ok_def)
qed

section \<open>Taking pages\<close>

text \<open>The memory operations of the code in terms of the node interface.\<close>

lemma load16_pg: "load16 m a = of_nat (pg_size m a)"
  by (simp add: pg_size_def)

lemma load16_eq_0: "load16 m a = 0 \<longleftrightarrow> pg_size m a = 0"
  by (simp add: pg_size_def unat_eq_zero)

lemma store16_sub:
  "c \<le> load16 m a \<Longrightarrow> store16 m a (load16 m a - c) = pg_set_size m a (pg_size m a - unat c)"
  unfolding pg_set_size_def pg_size_def
  by (simp add: of_nat_diff word_le_nat_alt)

lemma addr_to_page_0 [simp]: "addr_to_page 0 = 0"
  by (simp add: addr_to_page_def)

lemma node_nonzero: "0 < p \<Longrightarrow> p < 65536 \<Longrightarrow> node 4096 p \<noteq> 0"
  using node_page [of p] by (metis mult_is_0 not_gr0 unat_0 zero_neq_numeral)

lemma load16_le: "count \<le> load16 m a \<longleftrightarrow> unat count \<le> pg_size m a"
  by (simp add: pg_size_def word_le_nat_alt)

lemma consecutive_loop_None:
  assumes "ext_ok 1 lo 65536 es" "0 < lo" "seg pg_size 4096 m cur es 0" "\<forall>e\<in>set es. snd e < unat count"
  shows "consecutive_loop count cur prev (addr_to_page cur) m = Some (0, 0, m)"
  using assms
proof (induction es arbitrary: cur prev lo)
  case (Cons e es)
  have "cur \<noteq> 0" using node_nonzero [of "fst e"] Cons.prems by auto
  moreover have "\<not> count \<le> load16 m cur" using Cons.prems unfolding load16_le by auto
  moreover have "consecutive_loop count (nxt m cur) cur (addr_to_page (nxt m cur)) m = Some (0, 0, m)"
    by (rule Cons.IH [of "fst e + snd e + 1"]) (use Cons.prems in auto)
  ultimately show ?case by (subst consecutive_loop.simps) simp
qed (simp add: consecutive_loop.simps)

text \<open>The memory after taking \<open>count\<close> pages from the run \<open>e\<close> whose predecessor is \<open>prev\<close>.\<close>

definition taken :: "mem \<Rightarrow> u32 \<Rightarrow> ext \<Rightarrow> nat \<Rightarrow> mem" where
  "taken m prev e n =
     (let m = pg_set_size m (node 4096 (fst e)) (snd e - n)
      in if snd e - n = 0 then set_nxt m prev (nxt m (node 4096 (fst e))) else m)"

lemma consecutive_loop_Some:
  assumes "ext_ok 1 lo 65536 (xs @ e # ys)" "0 < lo" "seg pg_size 4096 m cur (xs @ e # ys) 0"
    and "\<forall>f\<in>set xs. snd f < unat count" "unat count \<le> snd e"
  shows "consecutive_loop count cur prev (addr_to_page cur) m =
    Some (node 4096 (fst e), of_nat (fst e + (snd e - unat count)), taken m (last_node 4096 prev xs) e (unat count))"
  using assms
proof (induction xs arbitrary: cur prev lo)
  case Nil
  have b: "0 < fst e" "fst e < 65536" "snd e < 65536" using Nil.prems by auto
  have cur: "cur = node 4096 (fst e)" and sz: "pg_size m cur = snd e" using Nil.prems by auto
  have le: "count \<le> load16 m cur" using Nil.prems sz by (simp add: load16_le)
  define M where "M = pg_set_size m cur (snd e - unat count)"
  have M: "store16 m cur (load16 m cur - count) = M"
    unfolding M_def sz [symmetric] by (rule store16_sub [OF le])
  have sz': "pg_size M cur = snd e - unat count" unfolding M_def using pg.rd_wr b by simp
  have l: "load16 M cur = of_nat (snd e - unat count)" "load16 M cur = 0 \<longleftrightarrow> snd e - unat count = 0"
    using load16_pg [of M cur] load16_eq_0 [of M cur] unfolding sz' by blast+
  have "cur \<noteq> 0" using cur node_nonzero [OF b(1,2)] by simp
  moreover have "addr_to_page cur + load16 M cur = of_nat (fst e + (snd e - unat count))"
    unfolding l(1) unfolding cur addr_to_page_node [OF b(2)] by simp
  moreover have "(if load16 M cur = 0 then set_nxt M prev (nxt M cur) else M) = taken m prev e (unat count)"
    unfolding taken_def Let_def l(2) cur [symmetric] unfolding M_def ..
  ultimately show ?case unfolding cur [symmetric]
    using le by (subst consecutive_loop.simps) (simp only: M Let_def if_True if_False simp_thms last_node_simps)
next
  case (Cons f xs)
  have "cur \<noteq> 0" using node_nonzero [of "fst f"] Cons.prems by auto
  moreover have "\<not> count \<le> load16 m cur" using Cons.prems unfolding load16_le by auto
  moreover have "consecutive_loop count (nxt m cur) cur (addr_to_page (nxt m cur)) m =
    Some (node 4096 (fst e), of_nat (fst e + (snd e - unat count)), taken m (last_node 4096 cur xs) e (unat count))"
    by (rule Cons.IH [of "fst f + snd f + 1"]) (use Cons.prems in auto)
  moreover have "cur = node 4096 (fst f)" using Cons.prems by simp
  ultimately show ?case by (subst consecutive_loop.simps) simp
qed

lemma taken_pages_ok:
  assumes ok: "pages_ok lo ps s" and t: "ext_take n 0 ps = Some (p, ps')" and n: "0 < n"
    and split: "ps = xs @ e # ys" "n \<le> snd e" "ps' = xs @ (if snd e - n = 0 then ys else (fst e, snd e - n) # ys)"
  shows "pages_ok lo ps' (s\<lparr>mem := taken (mem s) (last_node 4096 (ph s) xs) e n\<rparr>)"
    and "mem_only (page_list_bytes ps s) s (s\<lparr>mem := taken (mem s) (last_node 4096 (ph s) xs) e n\<rparr>)"
proof -
  note d = pages_okD [OF ok]
  let ?s = "s\<lparr>mem := taken (mem s) (last_node 4096 (ph s) xs) e n\<rparr>"
  note c = pg.take_chain [OF d(4,1,5,2) split(1,2) refl refl]
  have m: "mem ?s = (if snd e - n = 0 then set_nxt (pg_set_size (mem s) (node 4096 (fst e)) (snd e - n))
      (last_node 4096 (ph s) xs) (nxt (pg_set_size (mem s) (node 4096 (fst e)) (snd e - n)) (node 4096 (fst e)))
      else pg_set_size (mem s) (node 4096 (fst e)) (snd e - n))"
    by (simp add: taken_def Let_def)
  show only: "mem_only (page_list_bytes ps s) s ?s"
    unfolding mem_only_def page_list_bytes_def using c(2) by (intro exI [of _ "mem ?s"]) (simp add: m)
  have ok': "ext_ok 1 lo 65536 ps'" using ext_take_ok [OF t d(4)] by simp
  show "pages_ok lo ps' ?s"
    by (rule pages_okI [OF ok only _ ok']) (use ext_ok_bound [OF d(4)] c(1) split(3) in \<open>auto simp: m\<close>)
qed

definition out_of_pages :: string where "out_of_pages = ''Out of pages to allocate''"
definition not_enough_pages :: string where
  "not_enough_pages = ''Not enough consecutive pages to complete alloc''"

lemma panic_out_of_pages: "panic ''Out of pages to allocate'' [] s = Some (Inl (halted_by out_of_pages s))"
  unfolding out_of_pages_def by (rule panic_plain) (simp_all add: nul_def panic_buf_size_def)

lemma panic_not_enough:
  "panic ''Not enough consecutive pages to complete alloc'' [] s = Some (Inl (halted_by not_enough_pages s))"
  unfolding not_enough_pages_def by (rule panic_plain) (simp_all add: nul_def panic_buf_size_def)

lemma head_link:
  assumes "pages_ok lo ps s"
  shows "nxt (mem s) (ph s) = 0 \<longleftrightarrow> ps = []"
    and "ps \<noteq> [] \<Longrightarrow> load16 (mem s) (nxt (mem s) (ph s)) \<noteq> 0"
proof -
  note d = pages_okD [OF assms]
  show "nxt (mem s) (ph s) = 0 \<longleftrightarrow> ps = []"
    using d node_nonzero [of "fst (hd ps)"] by (cases ps) auto
  show "ps \<noteq> [] \<Longrightarrow> load16 (mem s) (nxt (mem s) (ph s)) \<noteq> 0"
    using d by (cases ps) (auto simp: load16_eq_0)
qed

lemma consecutive_spec:
  assumes ok: "pages_ok lo ps s" and c: "0 < count"
  shows "case ext_take (unat count) 0 ps of
      None \<Rightarrow> page_allocate_consecutive count s =
        Some (Inl (halted_by (if ps = [] then out_of_pages else not_enough_pages) s))
    | Some (p, ps') \<Rightarrow> \<exists>s'. page_allocate_consecutive count s = Some (Inr (of_nat p, s'))
        \<and> pages_ok lo ps' s' \<and> mem_only (page_list_bytes ps s) s s'"
proof (cases "ext_take (unat count) 0 ps")
  case None
  note d = pages_okD [OF ok]
  have "consecutive_loop count (nxt (mem s) (ph s)) (ph s) (addr_to_page (nxt (mem s) (ph s))) (mem s) =
      Some (0, 0, mem s)"
    by (rule consecutive_loop_None [OF d(4,1,5)]) (use None in \<open>simp add: ext_take_None\<close>)
  then show ?thesis
    using None c head_link [OF ok] unfolding page_allocate_consecutive_def Let_def
    by (cases "ps = []") (simp_all add: panic_out_of_pages panic_not_enough)
next
  case (Some r)
  note d = pages_okD [OF ok]
  obtain p ps' where r: "ext_take (unat count) 0 ps = Some (p, ps')" using Some by (cases r) auto
  then obtain xs e ys where sp: "ps = xs @ e # ys" "\<forall>f\<in>set xs. snd f < unat count" "unat count \<le> snd e"
    "p = fst e + (snd e - unat count)"
    "ps' = xs @ (if snd e - unat count = 0 then ys else (fst e, snd e - unat count) # ys)"
    by (elim ext_take_split) auto
  have "consecutive_loop count (nxt (mem s) (ph s)) (ph s) (addr_to_page (nxt (mem s) (ph s))) (mem s) =
      Some (node 4096 (fst e), of_nat p, taken (mem s) (last_node 4096 (ph s) xs) e (unat count))"
    unfolding sp(4) by (rule consecutive_loop_Some [OF _ d(1)]) (use d sp in simp_all)
  moreover have "node 4096 (fst e) \<noteq> 0"
    using ext_ok_mem [OF d(4), of e] d(1) sp(1) by (intro node_nonzero) auto
  ultimately have "page_allocate_consecutive count s =
      Some (Inr (of_nat p, s\<lparr>mem := taken (mem s) (last_node 4096 (ph s) xs) e (unat count)\<rparr>))"
    using c head_link [OF ok] sp(1) unfolding page_allocate_consecutive_def Let_def by simp
  moreover have "0 < unat count" using c by (simp add: word_less_nat_alt)
  ultimately show ?thesis using taken_pages_ok [OF ok r _ sp(1,3,5)] unfolding r by auto
qed

text \<open>Taking one page is taking a run of length one.\<close>

lemma page_allocate_eq:
  assumes ok: "pages_ok lo ps s"
  shows "page_allocate s = page_allocate_consecutive 1 s"
proof (cases ps)
  case Nil
  then show ?thesis using head_link [OF ok]
    by (simp add: page_allocate_def page_allocate_consecutive_def)
next
  case (Cons e es)
  note d = pages_okD [OF ok]
  let ?a = "nxt (mem s) (ph s)" and ?m = "store16 (mem s) (nxt (mem s) (ph s)) (load16 (mem s) (nxt (mem s) (ph s)) - 1)"
  have a: "?a \<noteq> 0" "load16 (mem s) ?a \<noteq> 0" using head_link [OF ok] Cons by auto
  have e: "1 \<le> snd e" "fst e + snd e \<le> 65536" "?a = node 4096 (fst e)" "lo \<le> fst e" using d Cons by auto
  have le: "1 \<le> load16 (mem s) ?a" using a(2) by (simp add: word_le_nat_alt unat_gt_0 Suc_le_eq)
  have "span ?a 8 \<subseteq> ext_bytes 4096 [e]" using pg.node_span [OF e(1,2)] e(3) by simp
  moreover have "span (ph s) 8 \<inter> ext_bytes 4096 [e] = {}"
    by (rule pg.head_span [OF d(2)]) (use e in auto)
  ultimately have "nxt ?m (ph s) = ?a"
    unfolding store16_sub [OF le] by (intro pg.wr_nxt_other) blast
  then show ?thesis
    using a le by (simp add: page_allocate_def page_allocate_consecutive_def consecutive_loop.simps Let_def store16_same)
qed

section \<open>Returning a page\<close>

lemma release_splice:
  "(let (n, m) = (if right then (1 + load16 m p, set_nxt m cur (nxt m p)) else (1, set_nxt m cur p))
    in if left then let m = store16 m q (load16 m q + n) in set_nxt m q (nxt m cur)
       else store16 (set_nxt m q cur) cur n) =
   splice pg_size pg_set_size m q p cur 1 right left"
  by (simp add: splice_def pg_set_size_def pg_size_def ac_simps)

lemma page_of_head:
  assumes "unat (h :: u32) + 8 \<le> 4096 * lo" "lo \<le> p" "p < 65536"
  shows "unat (addr_to_page h) < p"
proof -
  have "unat h < 2 ^ 28" and "unat h < lo * 4096" using assms by simp_all
  then show ?thesis using assms less_mult_imp_div_less [of "unat h" lo 4096] by (simp add: addr_to_page_unat)
qed

text \<open>Sums of unsigned C values, promoted to \<open>int\<close>.\<close>

lemma uint_plus_iff: "uint a + int n = uint b \<longleftrightarrow> unat a + n = unat b"
  unfolding uint_nat by (metis of_nat_add of_nat_eq_iff)

lemma uint_sum_iff: "uint a + uint b = uint c \<longleftrightarrow> unat a + unat b = unat c"
  unfolding uint_nat by (metis of_nat_add of_nat_eq_iff)

lemma page_release_spec:
  assumes ok: "pages_ok lo ps s" and page: "lo \<le> unat page" "unat page \<notin> ext_set ps"
  shows "\<exists>s'. page_release page s = Some s' \<and> pages_ok lo (ext_insert (unat page) 1 ps) s'
    \<and> mem_only (page_list_bytes ps s \<union> ext_bytes 4096 [(unat page, 1)]) s s'"
proof -
  note d = pages_okD [OF ok]
  let ?c = "unat page" and ?m = "mem s"
  obtain xs ys where sp: "ps = xs @ ys" "\<forall>e\<in>set xs. fst e \<le> ?c" "ys = [] \<or> ?c < fst (hd ys)"
    using split_at [of ps "unat page"] by blast
  let ?q = "last_node 4096 (ph s) xs" and ?p = "seg_start 4096 ys" and ?cur = "node 4096 ?c"
  have c: "?c < 65536" by simp
  then have c1: "?c \<le> 65535" by linarith
  have gap: "find_gap ?m ?cur (ph s) (nxt ?m (ph s)) = Some (?q, ?p)"
    by (rule pg.find_gap_seg [OF _ d(1) _ sp(2,3) c]) (use d sp(1) in simp_all)
  define right where "right \<longleftrightarrow> ys \<noteq> [] \<and> ?c + 1 = fst (hd ys)"
  define left where "left \<longleftrightarrow> xs \<noteq> [] \<and> fst (last xs) + snd (last xs) = ?c"
  have right: "(uint page + 1 = uint (addr_to_page ?p) \<and> ?p \<noteq> 0) \<longleftrightarrow> right"
  proof (cases ys)
    case (Cons e es)
    then have e: "0 < fst e" "fst e < 65536" using ext_ok_mem [OF d(4), of e] d(1) sp(1) by auto
    have "unat (addr_to_page ?p) = fst e"
      using Cons e by (simp add: addr_to_page_node unat_of_nat_small)
    then have "unat page + 1 = unat (addr_to_page ?p) \<longleftrightarrow> ?c + 1 = fst e" by simp
    then show ?thesis using Cons node_nonzero [OF e] uint_plus_iff [of page 1 "addr_to_page ?p"] by (simp add: right_def)
  qed (simp add: right_def)
  have left: "uint (addr_to_page ?q) + uint (load16 (set_nxt ?m ?cur b) ?q) = uint page \<longleftrightarrow> left" for b
  proof -
    have cur8: "span ?cur 8 \<subseteq> ext_bytes 4096 [(?c, 1)]" by (rule pg.node_span) (use c1 in simp_all)
    have dis: "span ?cur 8 \<inter> span ?q 8 = {}"
    proof (cases xs rule: rev_cases)
      case Nil
      have "span (ph s) 8 \<inter> ext_bytes 4096 [(?c, 1)] = {}" by (rule pg.head_span [OF d(2)]) (use page in auto)
      with Nil cur8 show ?thesis by auto
    next
      case (snoc zs e)
      then have e: "1 \<le> snd e" "fst e + snd e \<le> 65536" using ext_ok_mem [OF d(4), of e] sp(1) by auto
      have "?c \<notin> ext_set [e]" using page(2) snoc sp(1) by simp
      with snoc pg.nodes_apart [of "(?c, 1)" e] e c1 show ?thesis by simp
    qed
    have sz: "load16 (set_nxt ?m ?cur b) ?q = load16 ?m ?q"
      using pg.rd_nxt_other [OF dis] unfolding pg_size_def by (rule word_unat_eqI)
    have "unat (addr_to_page ?q) + unat (load16 ?m ?q) = ?c \<longleftrightarrow> left"
    proof (cases xs rule: rev_cases)
      case Nil
      then show ?thesis using page_of_head [OF d(2) page(1) c] d(3) by (simp add: left_def)
    next
      case (snoc zs e)
      then have "fst e < 65536" "pg_size ?m (node 4096 (fst e)) = snd e"
        using ext_ok_mem [OF d(4), of e] sp(1) d(5) by (auto simp: seg_append)
      then show ?thesis using snoc
        by (simp add: left_def addr_to_page_node pg_size_def unat_of_nat_small)
    qed
    then show ?thesis unfolding sz uint_sum_iff .
  qed
  let ?s = "s\<lparr>mem := splice pg_size pg_set_size ?m ?q ?p ?cur 1 right left\<rparr>"
  have rel: "page_release page s = Some ?s"
    unfolding page_release_def Let_def page_to_addr_node gap option.case prod.case right
      release_splice [symmetric, unfolded Let_def] using left
    by (cases right) simp_all
  have dis: "{?c..<?c + 1} \<inter> ext_set ps = {}" using page(2) by auto
  note ins = pg.insert_chain [OF d(4,5) page(1) d(1) _ _ dis d(2) sp right_def left_def refl]
  have only: "mem_only (page_list_bytes ps s \<union> ext_bytes 4096 [(?c, 1)]) s ?s"
    unfolding mem_only_def page_list_bytes_def using ins(2) c1
    by (intro exI [of _ "mem ?s"]) auto
  have "page_list_bytes ps s \<union> ext_bytes 4096 [(?c, 1)] = page_list_bytes (ps @ [(?c, 1)]) s"
    by (auto simp: page_list_bytes_def)
  with only have only': "mem_only (page_list_bytes (ps @ [(?c, 1)]) s) s ?s" by simp
  have "pages_ok lo (ext_insert ?c 1 ps) ?s"
    by (rule pages_okI [OF ok only'])
      (use ext_ok_bound [OF d(4)] page c1 ins(1) ext_ok_insert [OF d(4) _ _ page(1) _ dis] in auto)
  with rel only show ?thesis by blast
qed

section \<open>Reports\<close>

definition page_format :: string where
  "page_format = kern_debug @ ''  Start = page %d, length = %d pages, next = page %d'' @ newline"

text \<open>The lines printpages writes for the runs \<open>es\<close>; the last one has 0 for its successor.\<close>

primrec page_lines :: "ext list \<Rightarrow> kcall list" where
  "page_lines [] = []"
| "page_lines (e # es) =
     (page_format, [VInt (of_nat (fst e)), VInt (of_nat (snd e)),
        VInt (of_nat (case es of [] \<Rightarrow> 0 | f # _ \<Rightarrow> fst f))]) # page_lines es"

lemma ucast_of_nat_page: "n < 65536 \<Longrightarrow> (ucast (of_nat n :: u16) :: u32) = of_nat n"
  by (rule word_unat_eqI) (simp add: unat_ucast_up unat_of_nat_small)

lemma seg_next_page:
  assumes "ext_ok 1 lo 65536 es" "0 < lo" "seg pg_size 4096 m a es 0"
  shows "(ucast (addr_to_page a) :: u32) = of_nat (case es of [] \<Rightarrow> 0 | f # _ \<Rightarrow> fst f)"
  using assms by (cases es) (auto simp: addr_to_page_node ucast_of_nat_page)

lemma printpages_loop_seg:
  assumes "ext_ok 1 lo 65536 es" "0 < lo" "seg pg_size 4096 (mem s) a es 0"
  shows "printpages_loop a s = Some (s\<lparr>ktrace := ktrace s @ page_lines es\<rparr>)"
  using assms
proof (induction es arbitrary: a s lo)
  case (Cons e es)
  have e: "0 < fst e" "fst e < 65536" "snd e < 65536" "a = node 4096 (fst e)" "pg_size (mem s) a = snd e"
    using Cons.prems by auto
  have tl: "ext_ok 1 (fst e + snd e + 1) 65536 es" "seg pg_size 4096 (mem s) (nxt (mem s) a) es 0"
    using Cons.prems by auto
  have nx: "(ucast (addr_to_page (nxt (mem s) a)) :: u32) = of_nat (case es of [] \<Rightarrow> 0 | f # _ \<Rightarrow> fst f)"
    by (rule seg_next_page [OF tl(1) _ tl(2)]) simp
  have "a \<noteq> 0" using e node_nonzero by simp
  moreover have "(ucast (addr_to_page a) :: u32) = of_nat (fst e)" using e by (simp add: addr_to_page_node ucast_of_nat_page)
  moreover have "(ucast (load16 (mem s) a) :: u32) = of_nat (snd e)" using e by (simp add: load16_pg ucast_of_nat_page)
  moreover define s1 where "s1 = say page_format [VInt (of_nat (fst e)), VInt (of_nat (snd e)),
    VInt (of_nat (case es of [] \<Rightarrow> 0 | f # _ \<Rightarrow> fst f))] s"
  moreover have "printpages_loop (nxt (mem s) a) s1 = Some (s1\<lparr>ktrace := ktrace s1 @ page_lines es\<rparr>)"
    by (rule Cons.IH [OF tl(1)]) (use tl(2) in \<open>simp_all add: s1_def say_def\<close>)
  ultimately show ?case
    using nx by (subst printpages_loop.simps) (simp add: say_def page_format_def)
qed (simp add: printpages_loop.simps)

text \<open>The lines for the whole list, the head first.\<close>

definition page_report :: "u32 \<Rightarrow> ext list \<Rightarrow> kcall list" where
  "page_report h es =
     (kern_debug @ ''Current free pages list:'' @ newline, []) #
     (page_format, [VInt (ucast (addr_to_page h)), VInt 0,
        VInt (of_nat (case es of [] \<Rightarrow> 0 | f # _ \<Rightarrow> fst f))]) # page_lines es"

lemma printpages_spec:
  assumes ok: "pages_ok lo ps s" and "ph s \<noteq> 0"
  shows "printpages s = Some (s\<lparr>ktrace := ktrace s @ page_report (ph s) ps\<rparr>)"
proof -
  note d = pages_okD [OF ok]
  show ?thesis
    using assms(2) d(3) seg_next_page [OF d(4,1,5)]
      printpages_loop_seg [of lo ps "s\<lparr>ktrace := ktrace s @ take 2 (page_report (ph s) ps)\<rparr>", OF d(4,1)] d(5)
    unfolding printpages_def page_report_def
    by (subst printpages_loop.simps) (simp add: say_def page_format_def numeral_2_eq_2)
qed

section \<open>Start-up\<close>

text \<open>The largest number of pages the 16-bit count of a run can hold is 65535.\<close>

lemma kalloc_init_spec:
  assumes "unat ms = 4096 * lo" "unat me = 4096 * hi" "0 < lo" "lo < hi" "hi \<le> 65536"
    and head: "ph s \<noteq> 0" "unat (ph s) + 8 \<le> 4096 * lo" "load16 (mem s) (ph s) = 0"
  shows "\<exists>s'. kalloc_init ms me s = Some s' \<and> pages_ok lo [(lo, hi - lo)] s'
    \<and> unat (npages s') = hi \<and> ph s' = ph s \<and> bh s' = bh s
    \<and> (\<forall>x. x \<notin> span (ph s + 4) 4 \<union> ext_bytes 4096 [(lo, hi - lo)] \<longrightarrow> mem s' x = mem s x)"
proof -
  let ?h = "ph s"
  define w where "w = (me - ms) div 4096"
  define m0 where "m0 = set_nxt (mem s) ?h ms"
  define m1 where "m1 = store16 m0 ms (ucast w)"
  define s1 where "s1 = s\<lparr>mem := set_nxt m1 ms 0\<rparr>"
  have ms: "ms = node 4096 lo" by (rule word_unat_eqI) (use assms in \<open>simp add: node_page\<close>)
  have "unat (me - ms) = 4096 * (hi - lo)"
    using unat_sub_nowrap [of ms me] assms by (simp add: diff_mult_distrib2)
  then have w: "unat w = hi - lo" unfolding w_def by (simp add: unat_div_distrib)
  have m1: "m1 = pg_set_size m0 ms (hi - lo)"
    unfolding m1_def pg_set_size_def w [symmetric] by simp
  have ok: "ext_ok 1 lo 65536 [(lo, hi - lo)]" using assms by simp
  have ms8: "span ms 8 \<subseteq> ext_bytes 4096 [(lo, hi - lo)]" unfolding ms by (rule pg.node_span) (use assms in simp_all)
  have hd: "span ?h 8 \<inter> ext_bytes 4096 [(lo, hi - lo)] = {}" by (rule pg.head_span [OF head(2)]) auto
  then have dis: "span ms 8 \<inter> span ?h 8 = {}" using ms8 by blast
  have n0: "nxt m0 ?h = ms" by (simp add: m0_def set_nxt_same)
  then have n1: "nxt m1 ?h = ms" unfolding m1 using pg.wr_nxt_other [OF dis] by simp
  have fr: "mem s1 x = mem s x" if "x \<notin> span (?h + 4) 4 \<union> ext_bytes 4096 [(lo, hi - lo)]" for x
  proof -
    have "x \<notin> span ms 8" "x \<notin> span (?h + 4) 4" using that ms8 by blast+
    then show ?thesis by (simp add: s1_def m1 m0_def pg.nxt_frame pg.wr_frame set_nxt_other)
  qed
  have only: "mem_only (page_list_bytes [(lo, hi - lo)] s) s s1"
    unfolding mem_only_def page_list_bytes_def using fr by (intro exI [of _ "mem s1"]) (simp add: s1_def)
  have chain: "seg pg_size 4096 (mem s1) (nxt (mem s1) ?h) [(lo, hi - lo)] 0"
    using dis n1 assms pg.rd_wr [of "hi - lo" m0 ms] ms
    by (simp add: s1_def pg.set_nxt_nxt_other pg.rd_set_nxt m1 set_nxt_same)
  have h1: "ph s1 = ?h" by (simp add: s1_def)
  have "load16 (mem s1) ?h = 0"
  proof -
    have "ext_set [(lo, hi - lo)] \<subseteq> {lo..}" by auto
    from head_count [OF only head(2) this] show ?thesis using head(3) by simp
  qed
  then have ok1: "pages_ok lo [(lo, hi - lo)] s1"
    unfolding pages_ok_def h1 using ok chain head(2) assms(3) by blast
  define s2 where "s2 = s1\<lparr>ktrace := ktrace s1 @ page_report (ph s1) [(lo, hi - lo)], npages := me div 4096\<rparr>"
  have "kalloc_init ms me s = (case printpages s1 of None \<Rightarrow> None | Some s \<Rightarrow> Some (s\<lparr>npages := me div 4096\<rparr>))"
    unfolding kalloc_init_def Let_def m0_def [symmetric] n0 w_def [symmetric] m1_def [symmetric] n1 s1_def ..
  also have "\<dots> = Some s2"
    using printpages_spec [OF ok1] head(1) h1 by (simp add: s2_def)
  finally have k: "kalloc_init ms me s = Some s2" .
  have "pages_ok lo [(lo, hi - lo)] s2" using ok1 pages_ok_cong [of s2 s1] by (simp add: s2_def)
  moreover have "unat (npages s2) = hi" using assms by (simp add: s2_def unat_div_distrib)
  moreover have "mem s2 = mem s1" "ph s2 = ph s" "bh s2 = bh s" by (simp_all add: s2_def s1_def)
  ultimately show ?thesis using k fr by auto
qed

lemma panic_assertion: "panic ''Assertion failure'' [] s = Some (Inl (halted_by ''Assertion failure'' s))"
  by (rule panic_plain) (simp_all add: nul_def panic_buf_size_def)

text \<open>When the number of pages is a multiple of 65536 the count stored in the first run is 0.\<close>

lemma kalloc_init_empty_run:
  assumes "unat ms = 4096 * lo" "0 < lo" "unat ms + 8 \<le> 2 ^ 32" "ucast ((me - ms) div 4096) = (0 :: u16)"
    and head: "ph s \<noteq> 0" "unat (ph s) + 8 \<le> 4096 * lo"
  shows "\<exists>s'. kalloc_init ms me s = Some s' \<and> nxt (mem s') (ph s') = ms \<and> load16 (mem s') ms = 0"
proof -
  let ?h = "ph s"
  define m0 where "m0 = set_nxt (mem s) ?h ms"
  define m1 where "m1 = pg_set_size m0 ms 0"
  define s1 where "s1 = s\<lparr>mem := set_nxt m1 ms 0\<rparr>"
  have "ms \<noteq> 0" using assms(1,2) by (metis mult_is_0 not_gr0 unat_0 zero_neq_numeral)
  have dis: "span ms 8 \<inter> span ?h 8 = {}"
    using span_disjoint [of ?h 8 ms 8] head(2) assms by (simp add: Int_commute)
  have n0: "nxt m0 ?h = ms" by (simp add: m0_def set_nxt_same)
  then have n1: "nxt m1 ?h = ms" unfolding m1_def using pg.wr_nxt_other [OF dis] by simp
  have f: "nxt (mem s1) ?h = ms" "nxt (mem s1) ms = 0" "load16 (mem s1) ms = 0"
    using dis n1 pg.rd_wr [of 0 m0 ms] pg.rd_set_nxt [of m1 ms 0]
    by (simp_all add: s1_def pg.set_nxt_nxt_other set_nxt_same load16_eq_0 m1_def)
  have step: "p \<noteq> 0 \<Longrightarrow> \<exists>tr. printpages_loop p (s1\<lparr>ktrace := t\<rparr>) =
      printpages_loop (nxt (mem s1) p) (s1\<lparr>ktrace := tr\<rparr>)" for p t
    by (subst printpages_loop.simps) (auto simp: say_def)
  obtain t1 where "printpages s1 = printpages_loop ?h (s1\<lparr>ktrace := t1\<rparr>)"
    by (auto simp: printpages_def say_def s1_def)
  moreover obtain t2 where "printpages_loop ?h (s1\<lparr>ktrace := t1\<rparr>) = printpages_loop ms (s1\<lparr>ktrace := t2\<rparr>)"
    using step [OF head(1)] f(1) by metis
  moreover obtain t3 where "printpages_loop ms (s1\<lparr>ktrace := t2\<rparr>) = printpages_loop 0 (s1\<lparr>ktrace := t3\<rparr>)"
    using step [OF \<open>ms \<noteq> 0\<close>] f(2) by metis
  ultimately have "\<exists>tr. printpages s1 = Some (s1\<lparr>ktrace := tr\<rparr>)"
    by (auto simp: printpages_loop.simps [of 0])
  then obtain tr where tr: "printpages s1 = Some (s1\<lparr>ktrace := tr\<rparr>)" ..
  have "kalloc_init ms me s = (case printpages s1 of None \<Rightarrow> None | Some s \<Rightarrow> Some (s\<lparr>npages := me div 4096\<rparr>))"
    unfolding kalloc_init_def Let_def m0_def [symmetric] n0 assms(4) s1_def m1_def pg_set_size_def
    using n1 unfolding m1_def pg_set_size_def by simp
  then show ?thesis using tr f by (simp add: s1_def)
qed

section \<open>Properties\<close>

text \<open>
  A machine of one run of four pages at one megabyte, \<open>pages_head\<close> at 0x1000 and \<open>blocks_head\<close> at
  0x1010, on which the hypotheses of the properties are discharged.
\<close>

definition four_pages :: kmem where
  "four_pages = \<lparr>klock = 0, intr = True, ktrace = [], kports = [], kbochs = False,
     mem = (\<lambda>_. 0)(0x1006 := 0x10, 0x100000 := 4), npages = 260, ph = 0x1000, bh = 0x1010\<rparr>"

lemma four_pages_sel:
  "ph four_pages = 0x1000" "bh four_pages = 0x1010" "klock four_pages = 0"
  "mem four_pages = (\<lambda>_. 0)(0x1006 := 0x10, 0x100000 := 4)"
  by (simp_all add: four_pages_def)

lemma four_pages_ok: "pages_ok 256 [(256, 4)] four_pages"
  by (simp add: pages_ok_def four_pages_sel node_def nxt_def load32_def load16_def pg_size_def)

text \<open>
  Property C5.  page_allocate_consecutive is a first-fit allocator on the set of free pages: it takes the
  first run of the list that has \<open>count\<close> pages and returns the number of the first of the last \<open>count\<close>
  pages of that run; these pages and no others leave the free list, the list stays sorted and
  coalesced, and the only bytes it changes are in free pages or in the link of \<open>pages_head\<close>; when no run
  is long enough it stops the kernel with the message of the source.
\<close>

theorem page_allocate_consecutive_correct:
  assumes "pages_ok lo ps s" and "0 < count"
  shows "case find (\<lambda>e. unat count \<le> snd e) ps of
      Some e \<Rightarrow> \<exists>p ps' s'. p = fst e + (snd e - unat count) \<and> page_allocate_consecutive count s = Some (Inr (of_nat p, s'))
        \<and> {p..<p + unat count} \<subseteq> ext_set ps \<and> ext_set ps' = ext_set ps - {p..<p + unat count}
        \<and> pages_ok lo ps' s' \<and> mem_only (page_list_bytes ps s) s s'
    | None \<Rightarrow> page_allocate_consecutive count s =
        Some (Inl (halted_by (if ps = [] then out_of_pages else not_enough_pages) s))"
proof (cases "ext_take (unat count) 0 ps")
  case None
  then have "find (\<lambda>e. unat count \<le> snd e) ps = None" by (auto simp: ext_take_None find_None_iff)
  with None show ?thesis using consecutive_spec [OF assms] by simp
next
  case (Some r)
  then obtain p ps' where r: "ext_take (unat count) 0 ps = Some (p, ps')" by (cases r) auto
  obtain e where e: "find (\<lambda>e. unat count \<le> snd e) ps = Some e" "p = fst e + (snd e - unat count)"
    using ext_take_find [OF r] by auto
  note set = ext_take_set [OF r pages_okD(4) [OF assms(1)]]
  obtain s' where s': "page_allocate_consecutive count s = Some (Inr (of_nat p, s'))" "pages_ok lo ps' s'"
      "mem_only (page_list_bytes ps s) s s'"
    using consecutive_spec [OF assms] r by auto
  show ?thesis
    unfolding e(1) option.case
    by (rule exI [of _ p], rule exI [of _ ps'], rule exI [of _ s']) (use s' set e(2) in simp)
qed

theorem page_allocate_consecutive_correct_witness:
  "\<exists>ps' s'. page_allocate_consecutive 3 four_pages = Some (Inr (257, s'))
      \<and> ext_set ps' = {256..<260} - {257..<260}
      \<and> pages_ok 256 ps' s' \<and> mem_only (page_list_bytes [(256, 4)] four_pages) four_pages s'"
  using page_allocate_consecutive_correct [OF four_pages_ok, of 3] by simp

text \<open>
  page_allocate takes one page of the first run, exactly as page_allocate_consecutive
  does for a count of one; in particular both stop the kernel in the same state when no page is left.
\<close>

theorem page_allocate_is_consecutive:
  assumes "pages_ok lo ps s"
  shows "page_allocate s = page_allocate_consecutive 1 s"
  using page_allocate_eq [OF assms] .

theorem page_allocate_is_consecutive_witness:
  "page_allocate four_pages = page_allocate_consecutive 1 four_pages"
  by (rule page_allocate_is_consecutive [OF four_pages_ok])

text \<open>
  Property C6.  page_release returns for every page that is not free: the page joins the free set, no
  other page does, the list is again sorted with no two adjacent runs (so that all coalescing has been
  done), and no byte outside the free pages, the released page and the head's link is changed.
\<close>

theorem page_release_correct:
  assumes "pages_ok lo ps s" and "lo \<le> unat page" and "unat page \<notin> ext_set ps"
  shows "\<exists>ps' s'. page_release page s = Some s' \<and> pages_ok lo ps' s'
    \<and> ext_set ps' = insert (unat page) (ext_set ps)
    \<and> mem_only (page_list_bytes ps s \<union> ext_bytes 4096 [(unat page, 1)]) s s'"
proof -
  have "{unat page..<unat page + 1} = {unat page}" by auto
  then have "ext_set (ext_insert (unat page) 1 ps) = insert (unat page) (ext_set ps)"
    by (simp add: ext_set_insert)
  then show ?thesis using page_release_spec [OF assms] by blast
qed

theorem page_release_correct_witness:
  "\<exists>ps' s'. page_release 300 four_pages = Some s' \<and> pages_ok 256 ps' s'
    \<and> ext_set ps' = insert (unat (300 :: u16)) (ext_set [(256, 4)])
    \<and> mem_only (page_list_bytes [(256, 4)] four_pages \<union> ext_bytes 4096 [(unat (300 :: u16), 1)]) four_pages s'"
  by (rule page_release_correct [OF four_pages_ok]) simp_all

text \<open>
  Releasing the page that page_allocate returned gives back the very same free list,
  wherever the page came from: allocation followed by release is the identity on the list.
\<close>

theorem page_allocate_release_roundtrip:
  assumes ok: "pages_ok lo ps s" and "ps \<noteq> []"
  shows "\<exists>p s1 s2. page_allocate s = Some (Inr (p, s1)) \<and> unat p \<in> ext_set ps
    \<and> page_release p s1 = Some s2 \<and> pages_ok lo ps s2"
proof -
  note d = pages_okD [OF ok]
  have "ext_take 1 0 ps \<noteq> None"
    using d(4) \<open>ps \<noteq> []\<close> by (cases ps) (auto simp: ext_take_None)
  then obtain p ps' where t: "ext_take 1 0 ps = Some (p, ps')" by auto
  then obtain s1 where a: "page_allocate s = Some (Inr (of_nat p, s1))" and ok1: "pages_ok lo ps' s1"
    using consecutive_spec [OF ok, of 1] page_allocate_eq [OF ok] by auto
  have set: "{p..<p + 1} \<subseteq> ext_set ps" "ext_set ps' = ext_set ps - {p..<p + 1}"
    using ext_take_set [OF t d(4)] by simp_all
  then have p: "lo \<le> p" "p < 65536" "p \<in> ext_set ps" "p \<notin> ext_set ps'"
    using ext_ok_bound [OF d(4)] by (auto simp: subset_iff)
  then have u: "unat (of_nat p :: u16) = p" by (intro unat_of_nat_small) simp
  have "ext_insert p 1 ps' = ps" by (rule ext_take_insert [OF t d(4)]) simp_all
  then show ?thesis using page_release_spec [OF ok1, of "of_nat p"] a p u by auto
qed

theorem page_allocate_release_roundtrip_witness:
  "\<exists>p s1 s2. page_allocate four_pages = Some (Inr (p, s1)) \<and> unat p \<in> ext_set [(256, 4)]
    \<and> page_release p s1 = Some s2 \<and> pages_ok 256 [(256, 4)] s2"
  by (rule page_allocate_release_roundtrip [OF four_pages_ok]) simp

text \<open>
  kalloc_init, given page-aligned bounds of fewer than 65536 pages, terminates and
  leaves one run from the first to the last page, whatever the memory held before; it writes only the
  head's link and free memory, and records the total number of pages.
\<close>

theorem kalloc_init_establishes:
  assumes "unat ms = 4096 * lo" "unat me = 4096 * hi" "0 < lo" "lo < hi" "hi \<le> 65536"
    and "ph s \<noteq> 0" "unat (ph s) + 8 \<le> 4096 * lo" "load16 (mem s) (ph s) = 0"
  shows "\<exists>s'. kalloc_init ms me s = Some s' \<and> pages_ok lo [(lo, hi - lo)] s' \<and> unat (npages s') = hi
    \<and> (\<forall>x. x \<notin> page_list_bytes [(lo, hi - lo)] s \<longrightarrow> mem s' x = mem s x)"
  using kalloc_init_spec [OF assms] unfolding page_list_bytes_def by auto

theorem kalloc_init_establishes_witness:
  "\<exists>s'. kalloc_init 0x100000 0x1000000 four_pages = Some s' \<and> pages_ok 256 [(256, 4096 - 256)] s'
    \<and> unat (npages s') = 4096
    \<and> (\<forall>x. x \<notin> page_list_bytes [(256, 4096 - 256)] four_pages \<longrightarrow> mem s' x = mem four_pages x)"
  by (rule kalloc_init_establishes) (simp_all add: four_pages_sel load16_def)

text \<open>
  Property C37.  The page count of a run is 16 bits wide: on a machine whose memory above
  \<open>memory_start\<close> is a multiple of 65536 pages (256 megabytes), kalloc_init stores a count of 0, and the
  first page_allocate stops the kernel with an assertion failure although all the memory is free.
\<close>

theorem kalloc_init_count_truncated:
  assumes "unat ms = 4096 * lo" "0 < lo" "unat ms + 8 \<le> 2 ^ 32" "ucast ((me - ms) div 4096) = (0 :: u16)"
    and "ph s \<noteq> 0" "unat (ph s) + 8 \<le> 4096 * lo"
  shows "\<exists>s' h. kalloc_init ms me s = Some s' \<and> page_allocate s' = Some (Inl h)"
proof -
  obtain s' where k: "kalloc_init ms me s = Some s'" "nxt (mem s') (ph s') = ms" "load16 (mem s') ms = 0"
    using kalloc_init_empty_run [OF assms] by blast
  moreover have "ms \<noteq> 0" using assms(1,2) by (metis mult_is_0 not_gr0 unat_0 zero_neq_numeral)
  ultimately show ?thesis
    by (simp add: page_allocate_def assert_fail_def panic_assertion)
qed

theorem kalloc_init_count_truncated_witness:
  "\<exists>s' h. kalloc_init 0x100000 0x10100000 four_pages = Some s' \<and> page_allocate s' = Some (Inl h)"
  by (rule kalloc_init_count_truncated [where lo = 256]) (simp_all add: four_pages_sel)

end
