(* ===== verification/Kalloc.thy ===== *)
theory Kalloc
  imports Pages
begin

text \<open>
  The block allocator of kernel/memory.c: kalloc, kfree and mem_free over an address-ordered, coalesced
  list of free blocks that takes whole pages from the page allocator when it runs out.  The invariant
  \<open>heap_ok\<close> joins the two free lists; \<open>abs_kalloc\<close> is the abstract allocator kalloc is shown to refine.
\<close>

declare One_nat_def [simp del]    \<comment> \<open>the unit of the block list is 1\<close>

section \<open>The code\<close>

definition sizeof_freeblock :: u32 where "sizeof_freeblock = 8"
definition sizeof_blockheader :: u32 where "sizeof_blockheader = 4"

partial_function (option) printblocks_loop :: "u32 \<Rightarrow> 'a kmem_scheme \<Rightarrow> 'a kmem_scheme option" where
  "printblocks_loop p s =
     (if p = 0 then Some s
      else printblocks_loop (nxt (mem s) p)
        (say (kern_debug @ ''  Start = 0x%x, size = 0x%x, next = 0x%x'' @ newline)
          [VInt p, VInt (load32 (mem s) p), VInt (nxt (mem s) p)] s))"

definition printblocks :: "'a kmem_scheme \<Rightarrow> 'a kmem_scheme option" where
  "printblocks s =
     (let s = say (kern_debug @ ''Current free blocks list:'' @ newline) [] s;
          s = lock_kernel s
      in map_option unlock_kernel (printblocks_loop (bh s) s))"

text \<open>\<open>while (c > 0) { page_release(addr_to_page(start)); start += page_size; c--; }\<close>\<close>

primrec release_pages :: "nat \<Rightarrow> u32 \<Rightarrow> 'a kmem_scheme \<Rightarrow> 'a kmem_scheme option" where
  "release_pages 0 start s = Some s"
| "release_pages (Suc c) start s =
     (case page_release (addr_to_page start) s of
        None \<Rightarrow> None
      | Some s \<Rightarrow> release_pages c (start + 4096) s)"

definition mem_free :: "u32 \<Rightarrow> u32 \<Rightarrow> bool \<Rightarrow> 'a kmem_scheme \<Rightarrow> 'a kmem_scheme option" where
  "mem_free cur n freepages s =
     (let m = mem s
      in case find_gap m cur (bh s) (nxt m (bh s)) of
           None \<Rightarrow> None
         | Some (q, p) \<Rightarrow>
             let (n, m) =
                   (if cur + n = p \<and> p \<noteq> 0
                    then (n + load32 m p, set_nxt m cur (nxt m p)) else (n, set_nxt m cur p));
                 m = (if q + load32 m q = cur
                      then let m = store32 m q (load32 m q + n) in set_nxt m q (nxt m cur)
                      else store32 (set_nxt m q cur) cur n);
                 s = s\<lparr>mem := m\<rparr>
             in if freepages \<and> 4096 \<le> load32 m cur
                then let start = (cur + 4096 - 1) AND NOT (4096 - 1);
                         size' = load32 m cur - (start - cur);
                         c = size' div 4096
                     in release_pages (unat c) start s
                else Some s)"

text \<open>
  The search of kalloc.  When it reaches the end of the list it takes pages, frees them into the list
  and starts again from the head; the result is the pair \<open>q\<close>, \<open>p\<close> of the block found.
\<close>

partial_function (option) kalloc_loop :: "u32 \<Rightarrow> u32 \<Rightarrow> u32 \<Rightarrow> u32 \<Rightarrow> 'a kmem_scheme
    \<Rightarrow> ('a kmem_scheme + (u32 \<times> u32) \<times> 'a kmem_scheme) option" where
  "kalloc_loop n realsize q p s =
     (if p = 0 then
        (let pages = (realsize + 4095) div 4096;
             s = say (kern_debug @ ''XXX: pages=%d n=%d realsize=%d'' @ newline)
                   [VInt pages, VInt n, VInt realsize] s
         in case page_allocate_consecutive (ucast pages) s of
              None \<Rightarrow> None
            | Some (Inl h) \<Rightarrow> Some (Inl h)
            | Some (Inr (page, s)) \<Rightarrow>
                (case mem_free (page_to_addr page) (pages * 4096) False s of
                   None \<Rightarrow> None
                 | Some s \<Rightarrow> kalloc_loop n realsize (bh s) (nxt (mem s) (bh s)) s))
      else if load32 (mem s) p < realsize + sizeof_freeblock then kalloc_loop n realsize p (nxt (mem s) p) s
      else Some (Inr ((q, p), s)))"

definition kalloc :: "u32 \<Rightarrow> 'a kmem_scheme \<Rightarrow> (u32, 'a kmem_scheme) kresult" where
  "kalloc n s =
     (let realsize = n + sizeof_blockheader;
          s = lock_kernel s;
          s = say (kern_debug @ ''start of kalloc(%d) freeblock=%x'' @ newline)
                [VInt n, VInt sizeof_freeblock] s
      in case printblocks s of
           None \<Rightarrow> None
         | Some s \<Rightarrow>
             (case kalloc_loop n realsize (bh s) (nxt (mem s) (bh s)) s of
                None \<Rightarrow> None
              | Some (Inl h) \<Rightarrow> Some (Inl h)
              | Some (Inr ((q, p), s)) \<Rightarrow>
                  let m = mem s;
                      k = load32 m p - realsize;
                      m = (if k = 0 then set_nxt m q (nxt m p) else store32 m p k);
                      h = p + k;
                      m = store32 m h n;
                      s = say (kern_debug @ ''kalloc for realsize=%x'' @ newline) [VInt realsize] (s\<lparr>mem := m\<rparr>)
                  in case printblocks s of
                       None \<Rightarrow> None
                     | Some s \<Rightarrow>
                         let s = say (kern_debug @ ''kalloc returns %lx'' @ newline)
                                   [VInt (h + sizeof_blockheader)] s
                         in Some (Inr (h + sizeof_blockheader, unlock_kernel s))))"

definition kfree :: "u32 \<Rightarrow> 'a kmem_scheme \<Rightarrow> 'a kmem_scheme option" where
  "kfree a s =
     (let h = a - sizeof_blockheader;
          n = load32 (mem s) h + sizeof_blockheader
      in mem_free h n True s)"

section \<open>The list in memory\<close>

definition bl_size :: "mem \<Rightarrow> u32 \<Rightarrow> nat" where
  "bl_size m a = unat (load32 m a)"

definition bl_set_size :: "mem \<Rightarrow> u32 \<Rightarrow> nat \<Rightarrow> mem" where
  "bl_set_size m a n = store32 m a (of_nat n)"

interpretation bl: free_list bl_size bl_set_size 1 8 "2 ^ 28"
proof
  fix a :: u32 and m m' :: mem
  assume eq: "\<And>x. x \<in> span a 4 \<Longrightarrow> m x = m' x"
  show "bl_size m a = bl_size m' a"
    unfolding bl_size_def by (rule arg_cong [of _ _ unat], rule load32_cong) (use eq in auto)
next
  fix m :: mem and a x :: u32 and n :: nat
  show "x \<notin> span a 4 \<Longrightarrow> bl_set_size m a n x = m x"
    unfolding bl_set_size_def by (rule store32_other)
  show "n < 2 ^ 28 \<Longrightarrow> bl_size (bl_set_size m a n) a = n"
    by (simp add: bl_size_def bl_set_size_def store32_same unat_of_nat_small)
qed simp_all

definition blocks_ok :: "nat \<Rightarrow> ext list \<Rightarrow> 'a kmem_scheme \<Rightarrow> bool" where
  "blocks_ok lo bs s \<longleftrightarrow> 0 < lo \<and> unat (bh s) + 8 \<le> 4096 * lo \<and> load32 (mem s) (bh s) = 0
     \<and> ext_ok 8 (4096 * lo) (2 ^ 28) bs \<and> seg bl_size 1 (mem s) (nxt (mem s) (bh s)) bs 0"

definition heap_ok :: "nat \<Rightarrow> ext list \<Rightarrow> ext list \<Rightarrow> 'a kmem_scheme \<Rightarrow> bool" where
  "heap_ok lo ps bs s \<longleftrightarrow> pages_ok lo ps s \<and> blocks_ok lo bs s \<and> span (ph s) 8 \<inter> span (bh s) 8 = {}
     \<and> ext_bytes 4096 ps \<inter> ext_bytes 1 bs = {}"

text \<open>The bytes the two lists may be written in.\<close>

definition heap_bytes :: "ext list \<Rightarrow> ext list \<Rightarrow> 'a kmem_scheme \<Rightarrow> u32 set" where
  "heap_bytes ps bs s = span (ph s) 8 \<union> span (bh s) 8 \<union> ext_bytes 4096 ps \<union> ext_bytes 1 bs"

section \<open>Frames\<close>

text \<open>
  \<open>heap_step A s s'\<close>: from \<open>s\<close> to \<open>s'\<close> only bytes of \<open>A\<close> change, and messages may have been logged.
\<close>

definition heap_step :: "u32 set \<Rightarrow> 'a kmem_scheme \<Rightarrow> 'a kmem_scheme \<Rightarrow> bool" where
  "heap_step A s s' \<longleftrightarrow> (\<exists>m t. s' = s\<lparr>mem := m, ktrace := t\<rparr> \<and> (\<forall>x. x \<notin> A \<longrightarrow> m x = mem s x))"

lemma heap_step_refl: "heap_step A s s"
  unfolding heap_step_def by (intro exI [of _ "mem s"] exI [of _ "ktrace s"]) simp

lemma heap_step_trans:
  assumes "heap_step A s s'" "heap_step B s' s''" "A \<subseteq> C" "B \<subseteq> C"
  shows "heap_step C s s''"
proof -
  obtain m t m' t' where "s' = s\<lparr>mem := m, ktrace := t\<rparr>" "\<forall>x. x \<notin> A \<longrightarrow> m x = mem s x"
      "s'' = s'\<lparr>mem := m', ktrace := t'\<rparr>" "\<forall>x. x \<notin> B \<longrightarrow> m' x = mem s' x"
    using assms unfolding heap_step_def by blast
  moreover have "x \<notin> A \<and> x \<notin> B" if "x \<notin> C" for x using assms(3,4) that by blast
  ultimately have "s'' = s\<lparr>mem := m', ktrace := t'\<rparr>" "\<forall>x. x \<notin> C \<longrightarrow> m' x = mem s x" by simp_all
  then show ?thesis unfolding heap_step_def by blast
qed

lemma heap_step_sel:
  "heap_step A s s' \<Longrightarrow> ph s' = ph s \<and> bh s' = bh s \<and> klock s' = klock s \<and> intr s' = intr s
    \<and> kports s' = kports s \<and> kbochs s' = kbochs s \<and> npages s' = npages s \<and> kmem.more s' = kmem.more s"
  by (auto simp: heap_step_def)

lemma heap_step_mem: "heap_step A s s' \<Longrightarrow> x \<notin> A \<Longrightarrow> mem s' x = mem s x"
  by (auto simp: heap_step_def)

lemma mem_only_step: "mem_only A s s' \<Longrightarrow> heap_step A s s'"
  unfolding mem_only_def heap_step_def by (metis kcpu.surjective kcpu.update_convs(3) kmem.update_convs(1))

lemma heap_step_say: "heap_step A s (say f a s)"
  unfolding heap_step_def by (intro exI [of _ "mem s"] exI [of _ "ktrace s @ [(f, a)]"]) (simp add: say_def)

lemma say_kmem [simp]: "mem (say f a s) = mem s" "ph (say f a s) = ph s" "bh (say f a s) = bh s"
  by (simp_all add: say_def)

lemma blocks_okD:
  assumes "blocks_ok lo bs s"
  shows "0 < lo" "unat (bh s) + 8 \<le> 4096 * lo" "load32 (mem s) (bh s) = 0"
    "ext_ok 8 (4096 * lo) (2 ^ 28) bs" "seg bl_size 1 (mem s) (nxt (mem s) (bh s)) bs 0"
  using assms by (simp_all add: blocks_ok_def)

lemma heap_okD:
  assumes "heap_ok lo ps bs s"
  shows "pages_ok lo ps s" "blocks_ok lo bs s" "span (ph s) 8 \<inter> span (bh s) 8 = {}"
    "ext_bytes 4096 ps \<inter> ext_bytes 1 bs = {}"
  using assms by (simp_all add: heap_ok_def)

lemma pages_ok_frame:
  assumes ok: "pages_ok lo ps s" and s: "heap_step A s s'" and dis: "(span (ph s) 8 \<union> ext_bytes 4096 ps) \<inter> A = {}"
  shows "pages_ok lo ps s'"
proof -
  note d = pages_okD [OF ok]
  have m: "mem s x = mem s' x" if "x \<in> span (ph s) 8 \<union> ext_bytes 4096 ps" for x
  proof -
    have "x \<notin> A" using that dis by blast
    then show ?thesis using heap_step_mem [OF s] by simp
  qed
  have "nxt (mem s) (ph s) = nxt (mem s') (ph s)" by (rule nxt_cong, rule m) (simp add: span8)
  moreover have "load16 (mem s) (ph s) = load16 (mem s') (ph s)"
    by (rule load16_cong, rule m) (use span_mono [of 2 8 "ph s"] in auto)
  moreover have "seg pg_size 4096 (mem s) a ps 0 \<longleftrightarrow> seg pg_size 4096 (mem s') a ps 0" for a
    by (rule pg.seg_cong [OF d(4)]) (use m in blast)
  ultimately show ?thesis using d heap_step_sel [OF s] by (simp add: pages_ok_def)
qed

lemma blocks_ok_frame:
  assumes ok: "blocks_ok lo bs s" and s: "heap_step A s s'" and dis: "(span (bh s) 8 \<union> ext_bytes 1 bs) \<inter> A = {}"
  shows "blocks_ok lo bs s'"
proof -
  note d = blocks_okD [OF ok]
  have m: "mem s x = mem s' x" if "x \<in> span (bh s) 8 \<union> ext_bytes 1 bs" for x
  proof -
    have "x \<notin> A" using that dis by blast
    then show ?thesis using heap_step_mem [OF s] by simp
  qed
  have "nxt (mem s) (bh s) = nxt (mem s') (bh s)" by (rule nxt_cong, rule m) (simp add: span8)
  moreover have "load32 (mem s) (bh s) = load32 (mem s') (bh s)"
    by (rule load32_cong, rule m) (simp add: span8)
  moreover have "seg bl_size 1 (mem s) a bs 0 \<longleftrightarrow> seg bl_size 1 (mem s') a bs 0" for a
    by (rule bl.seg_cong [OF d(4)]) (use m in blast)
  ultimately show ?thesis using d heap_step_sel [OF s] by (simp add: blocks_ok_def)
qed

text \<open>The invariants of the heap depend on the bytes of the heap only.\<close>

lemma heap_ok_agree:
  fixes s :: "'a kmem_scheme" and s' :: "'b kmem_scheme"
  assumes ok: "heap_ok lo ps bs s" and sel: "ph s' = ph s" "bh s' = bh s"
    and m: "\<And>x. x \<in> heap_bytes ps bs s \<Longrightarrow> mem s' x = mem s x"
  shows "heap_ok lo ps bs s'"
proof -
  let ?t = "s\<lparr>mem := mem s'\<rparr>" and ?A = "- heap_bytes ps bs s"
  have st: "heap_step ?A s ?t"
    unfolding heap_step_def by (intro exI [of _ "mem s'"] exI [of _ "ktrace s"]) (simp add: m)
  have "pages_ok lo ps ?t" by (rule pages_ok_frame [OF heap_okD(1) [OF ok] st]) (auto simp: heap_bytes_def)
  moreover have "blocks_ok lo bs ?t" by (rule blocks_ok_frame [OF heap_okD(2) [OF ok] st]) (auto simp: heap_bytes_def)
  ultimately show ?thesis
    using heap_okD(3,4) [OF ok] sel by (simp add: heap_ok_def pages_ok_def blocks_ok_def)
qed

text \<open>Each head lies outside the managed memory.\<close>

lemma heads_outside:
  assumes "heap_ok lo ps bs s"
  shows "span (ph s) 8 \<inter> ext_bytes 1 bs = {}" "span (bh s) 8 \<inter> ext_bytes 4096 ps = {}"
    "span (ph s) 8 \<inter> ext_bytes 4096 ps = {}" "span (bh s) 8 \<inter> ext_bytes 1 bs = {}"
proof -
  note d = pages_okD [OF heap_okD(1) [OF assms]] blocks_okD [OF heap_okD(2) [OF assms]]
  have "ext_set ps \<subseteq> {lo..}" "ext_set bs \<subseteq> {4096 * lo..}"
    using ext_ok_bound [OF d(4)] ext_ok_bound [OF d(9)] by auto
  then show "span (ph s) 8 \<inter> ext_bytes 1 bs = {}" "span (bh s) 8 \<inter> ext_bytes 4096 ps = {}"
    "span (ph s) 8 \<inter> ext_bytes 4096 ps = {}" "span (bh s) 8 \<inter> ext_bytes 1 bs = {}"
    using d(2,7) by (simp_all add: pg.head_span bl.head_span [where lo = "4096 * lo"])
qed

section \<open>mem_free\<close>

lemma node1_unat: "p < 2 ^ 28 \<Longrightarrow> unat (node 1 p) = p"
  unfolding node_def by (simp add: unat_of_nat_small)

lemma node1_add: "node 1 p + of_nat n = node 1 (p + n)"
  by (simp add: node_def)

lemma node1_eq_iff: "p \<le> 2 ^ 28 \<Longrightarrow> q \<le> 2 ^ 28 \<Longrightarrow> node 1 p = node 1 q \<longleftrightarrow> p = q"
proof
  assume "p \<le> 2 ^ 28" "q \<le> 2 ^ 28" "node 1 p = node 1 q"
  then have "unat (of_nat p :: u32) = unat (of_nat q :: u32)" by (simp add: node_def)
  then show "p = q" using \<open>p \<le> 2 ^ 28\<close> \<open>q \<le> 2 ^ 28\<close> by (simp add: unat_of_nat_small)
qed simp

lemma node1_nonzero: "0 < p \<Longrightarrow> p \<le> 2 ^ 28 \<Longrightarrow> node 1 p \<noteq> 0"
  using node1_eq_iff [of p 0] by (simp add: node_def)

lemma load32_bl: "load32 m a = of_nat (bl_size m a)"
  by (simp add: bl_size_def)

lemma free_splice:
  "(let (n, m) = (if right then (of_nat n + load32 m p, set_nxt m cur (nxt m p)) else (of_nat n, set_nxt m cur p))
    in if left then let m = store32 m q (load32 m q + n) in set_nxt m q (nxt m cur)
       else store32 (set_nxt m q cur) cur n) =
   splice bl_size bl_set_size m q p cur n right left"
  by (simp add: splice_def bl_set_size_def bl_size_def ac_simps)

text \<open>The second step of mem_free, which hands whole pages back to the page allocator.\<close>

definition free_whole_pages :: "u32 \<Rightarrow> bool \<Rightarrow> 'a kmem_scheme \<Rightarrow> 'a kmem_scheme option" where
  "free_whole_pages cur freepages s =
     (if freepages \<and> 4096 \<le> load32 (mem s) cur
      then let start = (cur + 4096 - 1) AND NOT (4096 - 1);
               size' = load32 (mem s) cur - (start - cur);
               c = size' div 4096
           in release_pages (unat c) start s
      else Some s)"

lemma mem_free_spec:
  assumes ok: "blocks_ok lo bs s" and c: "4096 * lo \<le> c" "8 \<le> n" "c + n \<le> 2 ^ 28"
    and dis: "{c..<c + n} \<inter> ext_set bs = {}"
  shows "\<exists>s1. mem_free (node 1 c) (of_nat n) fp s = free_whole_pages (node 1 c) fp s1
    \<and> blocks_ok lo (ext_insert c n bs) s1
    \<and> mem_only (span (bh s + 4) 4 \<union> ext_bytes 1 bs \<union> ext_bytes 1 [(c, n)]) s s1
    \<and> ((\<exists>e\<in>set bs. fst e + snd e = c) \<longrightarrow> load32 (mem s1) (node 1 c) = load32 (mem s) (node 1 c))"
proof -
  note d = blocks_okD [OF ok]
  let ?m = "mem s"
  obtain xs ys where sp: "bs = xs @ ys" "\<forall>e\<in>set xs. fst e \<le> c" "ys = [] \<or> c < fst (hd ys)"
    using split_at [of bs c] by blast
  let ?q = "last_node 1 (bh s) xs" and ?p = "seg_start 1 ys" and ?cur = "node 1 c"
  have lo: "0 < 4096 * lo" using d(1) by simp
  have cb: "c < 2 ^ 28" using c by linarith
  have gap: "find_gap ?m ?cur (bh s) (nxt ?m (bh s)) = Some (?q, ?p)"
    by (rule bl.find_gap_seg [OF _ lo _ sp(2,3) cb]) (use d sp(1) in simp_all)
  define right where "right \<longleftrightarrow> ys \<noteq> [] \<and> c + n = fst (hd ys)"
  define left where "left \<longleftrightarrow> xs \<noteq> [] \<and> fst (last xs) + snd (last xs) = c"
  have right: "(?cur + of_nat n = ?p \<and> ?p \<noteq> 0) \<longleftrightarrow> right"
  proof (cases ys)
    case (Cons e es)
    then have e: "0 < fst e" "fst e \<le> 2 ^ 28" using ext_ok_mem [OF d(4), of e] lo sp(1) by auto
    show ?thesis using Cons node1_nonzero [OF e] node1_eq_iff [OF c(3) e(2)] by (simp add: right_def node1_add)
  qed (simp add: right_def)
  have cur8: "span ?cur 8 \<subseteq> ext_bytes 1 [(c, n)]" by (rule bl.node_span) (use c in simp_all)
  have apart: "span ?cur 8 \<inter> span ?q 8 = {}"
  proof (cases xs rule: rev_cases)
    case Nil
    have "span (bh s) 8 \<inter> ext_bytes 1 [(c, n)] = {}"
      by (rule bl.head_span [where lo = "4096 * lo"]) (use d(2) c in auto)
    with Nil cur8 show ?thesis by auto
  next
    case (snoc zs e)
    then have e: "8 \<le> snd e" "fst e + snd e \<le> 2 ^ 28" using ext_ok_mem [OF d(4), of e] sp(1) by auto
    have "ext_set [e] \<subseteq> ext_set bs" "ext_set [(c, n)] = {c..<c + n}" using snoc sp(1) by auto
    then have "ext_set [e] \<inter> ext_set [(c, n)] = {}" using dis by blast
    with snoc bl.nodes_apart [of e "(c, n)"] e c show ?thesis by (simp add: Int_commute)
  qed
  have left: "?q + load32 (set_nxt ?m ?cur b) ?q = ?cur \<longleftrightarrow> left" for b
  proof -
    have sz: "load32 (set_nxt ?m ?cur b) ?q = load32 ?m ?q"
      using bl.rd_nxt_other [OF apart] unfolding bl_size_def by (rule word_unat_eqI)
    show ?thesis unfolding sz
    proof (cases xs rule: rev_cases)
      case Nil
      have "bh s \<noteq> ?cur" using d(2) c(1) node1_unat [OF cb] by auto
      then show "?q + load32 ?m ?q = ?cur \<longleftrightarrow> left" using Nil d(3) by (simp add: left_def)
    next
      case (snoc zs e)
      then have e: "fst e + snd e \<le> 2 ^ 28" "bl_size ?m (node 1 (fst e)) = snd e"
        using ext_ok_mem [OF d(4), of e] sp(1) d(5) by (auto simp: seg_append)
      then show "?q + load32 ?m ?q = ?cur \<longleftrightarrow> left"
        using snoc node1_eq_iff [OF e(1), of c] cb by (simp add: left_def load32_bl node1_add)
    qed
  qed
  let ?s = "s\<lparr>mem := splice bl_size bl_set_size ?m ?q ?p ?cur n right left\<rparr>"
  have free: "mem_free ?cur (of_nat n) fp s = free_whole_pages ?cur fp ?s"
    unfolding mem_free_def Let_def gap option.case prod.case right free_whole_pages_def
      free_splice [symmetric, unfolded Let_def] using left
    by (cases right) simp_all
  note ins = bl.insert_chain [OF d(4,5) c(1) lo c(2,3) dis _ sp right_def left_def refl]
  have only: "mem_only (span (bh s + 4) 4 \<union> ext_bytes 1 bs \<union> ext_bytes 1 [(c, n)]) s ?s"
    unfolding mem_only_def using ins(2) d(2) by (intro exI [of _ "mem ?s"]) auto
  have "load32 (mem ?s) (bh s) = load32 ?m (bh s)"
  proof (rule load32_cong)
    fix x assume x: "x \<in> span (bh s) 4"
    have "ext_set (bs @ [(c, n)]) \<subseteq> {4096 * lo..}" using ext_ok_bound [OF d(4)] c(1) by auto
    then have "span (bh s) 8 \<inter> ext_bytes 1 (bs @ [(c, n)]) = {}"
      by (intro bl.head_span [where lo = "4096 * lo"]) (use d(2) in simp_all)
    then have "x \<notin> span (bh s + 4) 4 \<union> ext_bytes 1 bs \<union> ext_bytes 1 [(c, n)]"
      using x bl.halves_apart [of "bh s"] span8 [of "bh s"] by auto
    then show "mem ?s x = ?m x" by (rule heap_step_mem [OF mem_only_step [OF only]])
  qed
  then have "blocks_ok lo (ext_insert c n bs) ?s"
    using d ins(1) ext_ok_insert [OF d(4) _ c(2,1,3) dis] by (simp add: blocks_ok_def)
  moreover have "load32 (mem ?s) ?cur = load32 ?m ?cur" if "\<exists>e\<in>set bs. fst e + snd e = c"
  proof -
    from that obtain e where "e \<in> set (xs @ ys)" "fst e + snd e = c" using sp(1) by auto
    then have left unfolding left_def using split_at_last [OF _ sp(2,3)] d(4) sp(1) by blast
    then show ?thesis
      using bl.splice_keeps_size [of left ?q ?cur ?m ?p n right] apart
      unfolding bl_size_def by (auto simp: Int_commute intro: word_unat_eqI)
  qed
  ultimately show ?thesis using free only by blast
qed

section \<open>The abstract allocator\<close>

text \<open>
  \<open>abs_search\<close> moves runs of pages into the block list until some block can hold \<open>r\<close> bytes and a
  freeblock besides; \<open>abs_kalloc\<close> takes the \<open>r\<close> bytes from the top of the first such block.
\<close>

definition pages_for :: "nat \<Rightarrow> nat" where
  "pages_for r = (r + 4095) div 4096"

function abs_search :: "nat \<Rightarrow> ext list \<Rightarrow> ext list \<Rightarrow> (ext list \<times> ext list) option" where
  "abs_search r ps bs =
     (if ext_take r 8 bs \<noteq> None then Some (ps, bs)
      else if pages_for r = 0 then None
      else case ext_take (pages_for r) 0 ps of
             None \<Rightarrow> None
           | Some (p, ps') \<Rightarrow> abs_search r ps' (ext_insert (p * 4096) (pages_for r * 4096) bs))"
  by pat_completeness auto
termination
  by (relation "measure (\<lambda>(r, ps, bs). ext_sum ps)") (auto dest: ext_take_sum)

declare abs_search.simps [simp del]

definition abs_kalloc :: "nat \<Rightarrow> ext list \<Rightarrow> ext list \<Rightarrow> (nat \<times> ext list \<times> ext list) option" where
  "abs_kalloc r ps bs =
     (case abs_search r ps bs of
        None \<Rightarrow> None
      | Some (ps', bs') \<Rightarrow> map_option (\<lambda>(a, bs''). (a, ps', bs'')) (ext_take r 8 bs'))"

lemma page_range: "x div 4096 \<in> {p..<p + k} \<longleftrightarrow> x \<in> {p * 4096..<p * 4096 + k * 4096}" for x :: nat
proof -
  have "p \<le> x div 4096 \<longleftrightarrow> p * 4096 \<le> x" by (simp add: less_eq_div_iff_mult_less_eq)
  moreover have "x div 4096 < p + k \<longleftrightarrow> x < (p + k) * 4096" by (simp add: div_less_iff_less_mult)
  ultimately show ?thesis by (simp add: add_mult_distrib)
qed

lemma ext_bytes_page: "ext_bytes 4096 [(p, k)] = ext_bytes 1 [(p * 4096, k * 4096)]"
  using page_range [of _ p k] by (auto simp: ext_bytes_def)

lemma ext_bytes_insert: "ext_bytes u (ext_insert c n es) = ext_bytes u [(c, n)] \<union> ext_bytes u es"
  by (auto simp: ext_bytes_def ext_set_insert)

lemma ext_bytes_take:
  assumes "ext_take n slack ps = Some (p, ps')" "ext_ok g lo hi ps" "0 < g"
  shows "ext_bytes u ps = ext_bytes u ps' \<union> ext_bytes u [(p, n)]" "ext_bytes u ps' \<inter> ext_bytes u [(p, n)] = {}"
  using ext_take_set [OF assms] by (auto simp: ext_bytes_def)

lemma bytes_apart:
  assumes "ext_bytes 4096 ps \<inter> ext_bytes 1 bs = {}" "x \<in> ext_set bs" "x < 2 ^ 32"
  shows "x div 4096 \<notin> ext_set ps"
proof
  assume "x div 4096 \<in> ext_set ps"
  moreover have "unat (of_nat x :: u32) = x" using assms(3) by (intro unat_of_nat_small) simp
  ultimately have "(of_nat x :: u32) \<in> ext_bytes 4096 ps \<inter> ext_bytes 1 bs"
    using assms(2) by (simp add: ext_bytes_def)
  with assms(1) show False by blast
qed

text \<open>No byte is lost or gained when pages move to the block list.\<close>

lemma abs_search_bytes:
  "abs_search r ps bs = Some (ps', bs') \<Longrightarrow> ext_ok 1 lo 65536 ps \<Longrightarrow>
   ext_bytes 4096 ps' \<union> ext_bytes 1 bs' = ext_bytes 4096 ps \<union> ext_bytes 1 bs \<and> ext_bytes 4096 ps' \<subseteq> ext_bytes 4096 ps"
proof (induction r ps bs rule: abs_search.induct)
  case (1 r ps bs)
  show ?case
  proof (cases "ext_take r 8 bs \<noteq> None \<or> pages_for r = 0")
    case True
    with "1.prems" show ?thesis by (subst (asm) abs_search.simps) (auto split: if_splits)
  next
    case False
    with "1.prems"(1) obtain p qs where t: "ext_take (pages_for r) 0 ps = Some (p, qs)"
      and s: "abs_search r qs (ext_insert (p * 4096) (pages_for r * 4096) bs) = Some (ps', bs')"
      by (subst (asm) abs_search.simps) (auto split: if_splits option.splits)
    have "ext_ok 1 lo 65536 qs" using ext_take_ok [OF t "1.prems"(2)] by simp
    then have "ext_bytes 4096 ps' \<union> ext_bytes 1 bs' =
        ext_bytes 4096 qs \<union> ext_bytes 1 (ext_insert (p * 4096) (pages_for r * 4096) bs) \<and> ext_bytes 4096 ps' \<subseteq> ext_bytes 4096 qs"
      using "1.IH" [OF _ _ t refl s] False by auto
    moreover have "ext_bytes 4096 ps = ext_bytes 4096 qs \<union> ext_bytes 1 [(p * 4096, pages_for r * 4096)]"
      using ext_bytes_take(1) [OF t "1.prems"(2) zero_less_one, of 4096] unfolding ext_bytes_page .
    ultimately show ?thesis unfolding ext_bytes_insert by (simp add: Un_ac) blast
  qed
qed

lemma abs_search_ready: "abs_search r ps bs = Some (ps', bs') \<Longrightarrow> ext_take r 8 bs' \<noteq> None"
proof (induction r ps bs rule: abs_search.induct)
  case (1 r ps bs)
  show ?case
  proof (cases "ext_take r 8 bs \<noteq> None \<or> pages_for r = 0")
    case True
    with "1.prems" show ?thesis by (subst (asm) abs_search.simps) (auto split: if_splits)
  next
    case False
    with "1.prems"(1) obtain p qs where t: "ext_take (pages_for r) 0 ps = Some (p, qs)"
      and s: "abs_search r qs (ext_insert (p * 4096) (pages_for r * 4096) bs) = Some (ps', bs')"
      by (subst (asm) abs_search.simps) (auto split: if_splits option.splits)
    show ?thesis using "1.IH" [OF _ _ t refl s] False by auto
  qed
qed

section \<open>The search\<close>

lemma heads_ok_step: "heap_ok lo ps bs s \<Longrightarrow> heap_step {} s s' \<Longrightarrow> heap_ok lo ps bs s'"
  using pages_ok_frame [of lo ps s "{}" s'] blocks_ok_frame [of lo bs s "{}" s'] heap_step_sel [of "{}" s s']
  by (auto simp: heap_ok_def)

text \<open>One round of the refill: pages are taken and freed into the block list.\<close>

lemma refill_spec:
  assumes ok: "heap_ok lo ps bs s" and k: "0 < k" "k < 65536"
    and t: "ext_take k 0 ps = Some (p, ps')"
  shows "\<exists>s1 s2. page_allocate_consecutive (of_nat k) s = Some (Inr (of_nat p, s1))
    \<and> mem_free (page_to_addr (of_nat p)) (of_nat k * 4096) False s1 = Some s2
    \<and> heap_ok lo ps' (ext_insert (p * 4096) (k * 4096) bs) s2 \<and> heap_step (heap_bytes ps bs s) s s2"
proof -
  note h = heap_okD [OF ok] and out = heads_outside [OF ok]
  note d = pages_okD [OF h(1)] and b = blocks_okD [OF h(2)]
  have uk: "unat (of_nat k :: u16) = k" using k by (intro unat_of_nat_small) simp
  then have "(0 :: u16) < of_nat k" using k by (simp add: word_less_nat_alt)
  then obtain s1 where a: "page_allocate_consecutive (of_nat k) s = Some (Inr (of_nat p, s1))"
    and ok1: "pages_ok lo ps' s1" and only1: "mem_only (page_list_bytes ps s) s s1"
    using consecutive_spec [OF h(1), of "of_nat k"] unfolding uk t by auto
  note st1 = mem_only_step [OF only1]
  note sel1 = heap_step_sel [OF st1]
  have hp: "span (ph s + 4) 4 \<subseteq> span (ph s) 8" "span (bh s + 4) 4 \<subseteq> span (bh s) 8" using span8 by blast+
  have b1: "blocks_ok lo bs s1"
    by (rule blocks_ok_frame [OF h(2) st1]) (use h(3,4) out hp in \<open>unfold page_list_bytes_def; blast\<close>)
  have set: "{p..<p + k} \<subseteq> ext_set ps" "ext_set ps' = ext_set ps - {p..<p + k}"
    using ext_take_set [OF t d(4)] by simp_all
  have "p \<in> {lo..<65536}" "p + k - 1 \<in> {lo..<65536}"
    using set(1) ext_ok_bound [OF d(4)] k by (auto simp: subset_iff)
  then have pk: "lo \<le> p" "p < 65536" "p + k \<le> 65536" using k by auto
  have dis: "{p * 4096..<p * 4096 + k * 4096} \<inter> ext_set bs = {}"
  proof -
    have "x div 4096 \<notin> ext_set ps" if "x \<in> ext_set bs" for x
      by (rule bytes_apart [OF h(4) that]) (use ext_ok_bound [OF b(4)] that in auto)
    then have "x \<notin> ext_set bs" if "x \<in> {p * 4096..<p * 4096 + k * 4096}" for x
      using page_range [of x p k] that set(1) by blast
    then show ?thesis by blast
  qed
  have addr: "page_to_addr (of_nat p) = node 1 (p * 4096)"
    using pk(2) by (simp add: page_to_addr_node unat_of_nat_small node_def mult.commute)
  have size: "of_nat k * 4096 = (of_nat (k * 4096) :: u32)" by simp
  obtain s2 where f: "mem_free (page_to_addr (of_nat p)) (of_nat k * 4096) False s1 = Some s2"
    and b2: "blocks_ok lo (ext_insert (p * 4096) (k * 4096) bs) s2"
    and only2: "mem_only (span (bh s1 + 4) 4 \<union> ext_bytes 1 bs \<union> ext_bytes 1 [(p * 4096, k * 4096)]) s1 s2"
    using mem_free_spec [OF b1 _ _ _ dis, of False] pk k unfolding addr size
    by (auto simp: free_whole_pages_def)
  have reg: "ext_bytes 4096 ps = ext_bytes 4096 ps' \<union> ext_bytes 1 [(p * 4096, k * 4096)]"
    "ext_bytes 4096 ps' \<inter> ext_bytes 1 [(p * 4096, k * 4096)] = {}"
    using ext_bytes_take [OF t d(4) zero_less_one, of 4096] unfolding ext_bytes_page by blast+
  note st2 = mem_only_step [OF only2]
  have p2: "pages_ok lo ps' s2"
    by (rule pages_ok_frame [OF ok1 st2]) (use h(3,4) out hp reg sel1 in auto)
  have "heap_ok lo ps' (ext_insert (p * 4096) (k * 4096) bs) s2"
    using p2 b2 h(3,4) heap_step_sel [OF st2] sel1 reg unfolding heap_ok_def ext_bytes_insert by auto
  moreover have "heap_step (heap_bytes ps bs s) s s2"
    by (rule heap_step_trans [OF st1 st2]) (use hp reg sel1 in \<open>auto simp: heap_bytes_def page_list_bytes_def\<close>)
  ultimately show ?thesis using a f by blast
qed

lemma load32_less: "load32 m a < w \<longleftrightarrow> bl_size m a < unat w"
  by (simp add: bl_size_def word_less_nat_alt)

lemma kalloc_loop_skip:
  assumes "ext_ok 8 lo (2 ^ 28) (xs @ ys)" "0 < lo" "seg bl_size 1 (mem s) p (xs @ ys) 0"
    and "\<forall>f\<in>set xs. snd f < unat (realsize + sizeof_freeblock)"
  shows "kalloc_loop n realsize q p s = kalloc_loop n realsize (last_node 1 q xs) (seg_start 1 ys) s"
  using assms
proof (induction xs arbitrary: p q lo)
  case Nil
  then have "p = seg_start 1 ys" using seg_startD [of bl_size 1 "mem s" p ys] by simp
  then show ?case by simp
next
  case (Cons f xs)
  have p: "p = node 1 (fst f)" "bl_size (mem s) p = snd f" "0 < fst f" "fst f \<le> 2 ^ 28" using Cons.prems by auto
  have "kalloc_loop n realsize q p s = kalloc_loop n realsize p (nxt (mem s) p) s"
    using p Cons.prems(4) node1_nonzero [OF p(3,4)] by (subst kalloc_loop.simps) (simp add: load32_less)
  also have "\<dots> = kalloc_loop n realsize (last_node 1 p xs) (seg_start 1 ys) s"
    by (rule Cons.IH [of "fst f + snd f + 1"]) (use Cons.prems in auto)
  finally show ?case using p by simp
qed

text \<open>What the search of kalloc does, against the abstract search.\<close>

definition search_ok :: "nat \<Rightarrow> u32 \<Rightarrow> nat \<Rightarrow> ext list \<Rightarrow> ext list \<Rightarrow> 'a kmem_scheme \<Rightarrow> bool" where
  "search_ok lo n r ps bs s \<longleftrightarrow>
     (case abs_search r ps bs of
        None \<Rightarrow> \<exists>h. kalloc_loop n (of_nat r) (bh s) (nxt (mem s) (bh s)) s = Some (Inl h)
      | Some (ps', bs') \<Rightarrow> \<exists>s' xs e ys.
          kalloc_loop n (of_nat r) (bh s) (nxt (mem s) (bh s)) s = Some (Inr ((last_node 1 (bh s) xs, node 1 (fst e)), s'))
          \<and> heap_ok lo ps' bs' s' \<and> heap_step (heap_bytes ps bs s) s s'
          \<and> bs' = xs @ e # ys \<and> (\<forall>f\<in>set xs. snd f < r + 8) \<and> r + 8 \<le> snd e)"

lemma kalloc_loop_spec:
  assumes "heap_ok lo ps bs s" "0 < r" "r \<le> 65535 * 4096"
  shows "search_ok lo n r ps bs s"
  using assms
proof (induction r ps bs arbitrary: s rule: abs_search.induct)
  case (1 r ps bs)
  note h = heap_okD [OF "1.prems"(1)]
  note b = blocks_okD [OF h(2)]
  let ?rs = "of_nat r :: u32"
  have lo: "0 < 4096 * lo" using b(1) by simp
  have ur: "unat ?rs = r" "unat (?rs + sizeof_freeblock) = r + 8"
    using "1.prems"(2,3) by (simp_all add: unat_of_nat_small unat_word_ariths sizeof_freeblock_def)
  show ?case
  proof (cases "ext_take r 8 bs")
    case (Some x)
    obtain a bs2 where x: "ext_take r 8 bs = Some (a, bs2)" using Some by (cases x) auto
    then obtain xs e ys where sp: "bs = xs @ e # ys" "\<forall>f\<in>set xs. snd f < r + 8" "r + 8 \<le> snd e"
      by (elim ext_take_split) auto
    have e: "fst e \<le> 2 ^ 28" "0 < fst e" using ext_ok_mem [OF b(4), of e] lo sp(1) by auto
    have "bl_size (mem s) (node 1 (fst e)) = snd e" using b(5) sp(1) by (auto simp: seg_append)
    moreover have "kalloc_loop n ?rs (bh s) (nxt (mem s) (bh s)) s = kalloc_loop n ?rs (last_node 1 (bh s) xs) (seg_start 1 (e # ys)) s"
      by (rule kalloc_loop_skip [OF _ lo]) (use b sp ur in simp_all)
    ultimately have "kalloc_loop n ?rs (bh s) (nxt (mem s) (bh s)) s = Some (Inr ((last_node 1 (bh s) xs, node 1 (fst e)), s))"
      using node1_nonzero [OF e(2,1)] sp(3) ur by (simp add: kalloc_loop.simps [of n ?rs _ "node 1 (fst e)"] load32_less)
    moreover have ab: "abs_search r ps bs = Some (ps, bs)" using x by (subst abs_search.simps) simp
    ultimately show ?thesis
      unfolding search_ok_def ab option.case prod.case using sp "1.prems"(1) heap_step_refl by blast
  next
    case None
    have k: "0 < pages_for r" "pages_for r < 65536"
      using "1.prems"(2,3) by (auto simp: pages_for_def div_less_iff_less_mult)
    have pg: "(?rs + 4095) div 4096 = of_nat (pages_for r)"
      by (rule word_unat_eqI) (use "1.prems"(2,3) k in \<open>simp add: unat_div_distrib unat_word_ariths unat_of_nat_small pages_for_def\<close>)
    have uc: "ucast (of_nat (pages_for r) :: u32) = (of_nat (pages_for r) :: u16)"
      using k by (intro word_unat_eqI) (simp add: unsigned_ucast_eq take_bit_nat_eq_self unat_of_nat_small)
    have skip: "kalloc_loop n ?rs (bh s) (nxt (mem s) (bh s)) s = kalloc_loop n ?rs (last_node 1 (bh s) bs) (seg_start 1 []) s"
      by (rule kalloc_loop_skip [OF _ lo]) (use b None ur in \<open>simp_all add: ext_take_None\<close>)
    define s0 where "s0 = say (kern_debug @ ''XXX: pages=%d n=%d realsize=%d'' @ newline)
        [VInt (of_nat (pages_for r)), VInt n, VInt ?rs] s"
    have s0: "heap_ok lo ps bs s0" "mem s0 = mem s" "bh s0 = bh s" "ph s0 = ph s"
      and st0: "heap_step {} s s0"
      using heads_ok_step [OF "1.prems"(1) heap_step_say] by (simp_all add: s0_def heap_step_say)
    have loop: "kalloc_loop n ?rs (bh s) (nxt (mem s) (bh s)) s =
        (case page_allocate_consecutive (of_nat (pages_for r)) s0 of
           None \<Rightarrow> None
         | Some (Inl h) \<Rightarrow> Some (Inl h)
         | Some (Inr (page, s)) \<Rightarrow>
             (case mem_free (page_to_addr page) (of_nat (pages_for r) * 4096) False s of
                None \<Rightarrow> None
              | Some s \<Rightarrow> kalloc_loop n ?rs (bh s) (nxt (mem s) (bh s)) s))"
      unfolding skip seg_start_simps
      by (subst kalloc_loop.simps) (simp only: pg uc Let_def s0_def if_True simp_thms)
    have nz: "(0 :: u16) < of_nat (pages_for r)"
      using k by (simp add: word_less_nat_alt unat_of_nat_small)
    have uk: "unat (of_nat (pages_for r) :: u16) = pages_for r" using k by (simp add: unat_of_nat_small)
    show ?thesis
    proof (cases "ext_take (pages_for r) 0 ps")
      case None': None
      then obtain h where "page_allocate_consecutive (of_nat (pages_for r)) s0 = Some (Inl h)"
        using consecutive_spec [OF heap_okD(1) [OF s0(1)] nz] unfolding uk by simp
      then have "kalloc_loop n ?rs (bh s) (nxt (mem s) (bh s)) s = Some (Inl h)" using loop by simp
      moreover have "abs_search r ps bs = None" using None None' k by (subst abs_search.simps) simp
      ultimately show ?thesis unfolding search_ok_def by simp
    next
      case (Some x)
      obtain p qs where x: "ext_take (pages_for r) 0 ps = Some (p, qs)" using Some by (cases x) auto
      let ?bs = "ext_insert (p * 4096) (pages_for r * 4096) bs"
      obtain s1 s2 where a: "page_allocate_consecutive (of_nat (pages_for r)) s0 = Some (Inr (of_nat p, s1))"
        and f: "mem_free (page_to_addr (of_nat p)) (of_nat (pages_for r) * 4096) False s1 = Some s2"
        and ok2: "heap_ok lo qs ?bs s2" and st2: "heap_step (heap_bytes ps bs s0) s0 s2"
        using refill_spec [OF s0(1) k x] by blast
      have eq: "kalloc_loop n ?rs (bh s) (nxt (mem s) (bh s)) s = kalloc_loop n ?rs (bh s2) (nxt (mem s2) (bh s2)) s2"
        using loop a f by simp
      have ab: "abs_search r ps bs = abs_search r qs ?bs" using None x k by (subst abs_search.simps) simp
      have IH: "search_ok lo n r qs ?bs s2" using "1.IH" [OF _ _ x refl ok2 "1.prems"(2,3)] None k by simp
      have hb: "heap_bytes ps bs s0 = heap_bytes ps bs s" using s0 by (simp add: heap_bytes_def)
      have s02: "heap_step (heap_bytes ps bs s) s s2"
        using heap_step_trans [OF st0 st2] hb by simp
      note sel = heap_step_sel [OF s02]
      have d: "ext_ok 1 lo 65536 ps" using pages_okD [OF h(1)] by simp
      have sub: "heap_bytes qs ?bs s2 \<subseteq> heap_bytes ps bs s"
        using ext_bytes_take(1) [OF x d zero_less_one, of 4096] sel
        unfolding heap_bytes_def ext_bytes_insert ext_bytes_page by auto
      show ?thesis
        using IH unfolding search_ok_def ab eq using sel heap_step_trans [OF s02 _ order_refl sub]
        by (fastforce split: option.splits)
    qed
  qed
qed

section \<open>kalloc\<close>

lemma printblocks_loop_seg:
  assumes "ext_ok 8 lo (2 ^ 28) es" "0 < lo" "seg bl_size 1 (mem s) a es 0"
  shows "\<exists>t. printblocks_loop a s = Some (s\<lparr>ktrace := t\<rparr>)"
  using assms
proof (induction es arbitrary: a s lo)
  case Nil
  then show ?case by (intro exI [of _ "ktrace s"]) (simp add: printblocks_loop.simps)
next
  case (Cons e es)
  have a: "a = node 1 (fst e)" "0 < fst e" "fst e \<le> 2 ^ 28" using Cons.prems by auto
  define s1 where "s1 = say (kern_debug @ ''  Start = 0x%x, size = 0x%x, next = 0x%x'' @ newline)
      [VInt a, VInt (load32 (mem s) a), VInt (nxt (mem s) a)] s"
  have "printblocks_loop a s = printblocks_loop (nxt (mem s) a) s1"
    using a node1_nonzero [OF a(2,3)] by (subst printblocks_loop.simps) (simp add: s1_def)
  moreover have "\<exists>t. printblocks_loop (nxt (mem s) a) s1 = Some (s1\<lparr>ktrace := t\<rparr>)"
    by (rule Cons.IH [of "fst e + snd e + 1"]) (use Cons.prems in \<open>auto simp: s1_def\<close>)
  ultimately show ?case by (auto simp: s1_def say_def)
qed

lemma printblocks_spec:
  assumes ok: "blocks_ok lo bs s" and lock: "0 < klock s" "klock s + 1 \<noteq> 0" "\<not> intr s"
  shows "\<exists>s'. printblocks s = Some s' \<and> heap_step {} s s'"
proof -
  note d = blocks_okD [OF ok]
  define s1 where "s1 = lock_kernel (say (kern_debug @ ''Current free blocks list:'' @ newline) [] s)"
  have s1: "mem s1 = mem s" "bh s1 = bh s" by (simp_all add: s1_def lock_kernel_def say_def)
  have "\<exists>t. printblocks_loop (bh s1) s1 = Some (s1\<lparr>ktrace := t\<rparr>)"
  proof (cases "bh s1 = 0")
    case True
    then show ?thesis by (intro exI [of _ "ktrace s1"]) (simp add: printblocks_loop.simps)
  next
    case False
    define s2 where "s2 = say (kern_debug @ ''  Start = 0x%x, size = 0x%x, next = 0x%x'' @ newline)
        [VInt (bh s1), VInt (load32 (mem s1) (bh s1)), VInt (nxt (mem s1) (bh s1))] s1"
    have "0 < 4096 * lo" using d(1) by simp
    then have "\<exists>t. printblocks_loop (nxt (mem s1) (bh s1)) s2 = Some (s2\<lparr>ktrace := t\<rparr>)"
      by (rule printblocks_loop_seg [OF d(4)]) (use d(5) s1 in \<open>simp add: s2_def\<close>)
    then show ?thesis using False by (subst printblocks_loop.simps) (auto simp: s2_def say_def)
  qed
  then obtain t where t: "printblocks_loop (bh s1) s1 = Some (s1\<lparr>ktrace := t\<rparr>)" ..
  have "unlock_kernel (s1\<lparr>ktrace := t\<rparr>) = s\<lparr>ktrace := t\<rparr>"
    using lock by (auto simp: s1_def lock_kernel_def unlock_kernel_def say_def Let_def)
  then have "printblocks s = Some (s\<lparr>ktrace := t\<rparr>)"
    using t s1 unfolding printblocks_def Let_def s1_def [symmetric]
    by (metis (no_types, lifting) option.simps(9) say_kmem(3) s1_def)
  moreover have "heap_step {} s (s\<lparr>ktrace := t\<rparr>)"
    unfolding heap_step_def by (intro exI [of _ "mem s"] exI [of _ t]) simp
  ultimately show ?thesis by blast
qed

text \<open>Steps A4 and following: \<open>r\<close> bytes are carved from the top of the block \<open>e\<close> and get their header.\<close>

lemma carve_spec:
  fixes n :: u32
  assumes ok: "heap_ok lo ps bs s" and bs: "bs = xs @ e # ys" "r + 8 \<le> snd e" and r: "4 \<le> r"
    and a: "a = fst e + (snd e - r)"
  defines "k \<equiv> load32 (mem s) (node 1 (fst e)) - of_nat r"
  defines "s' \<equiv> s\<lparr>mem := store32 (store32 (mem s) (node 1 (fst e)) k) (node 1 (fst e) + k) n\<rparr>"
  shows "k \<noteq> 0" "node 1 (fst e) + k = node 1 a"
    "heap_ok lo ps (xs @ (fst e, snd e - r) # ys) s'" "load32 (mem s') (node 1 a) = n"
    "heap_step (heap_bytes ps bs s) s s'"
proof -
  note h = heap_okD [OF ok] and out = heads_outside [OF ok]
  note b = blocks_okD [OF h(2)]
  have lo: "0 < 4096 * lo" using b(1) by simp
  have e: "fst e + snd e \<le> 2 ^ 28" "8 \<le> snd e" "4096 * lo \<le> fst e" using ext_ok_mem [OF b(4), of e] bs by auto
  have sz: "load32 (mem s) (node 1 (fst e)) = of_nat (snd e)"
    using b(5) bs(1) by (auto simp: seg_append load32_bl)
  have k: "k = of_nat (snd e - r)" unfolding k_def sz using bs(2) by (simp add: of_nat_diff)
  have uk: "unat k = snd e - r" unfolding k using e by (intro unat_of_nat_small) simp
  show "k \<noteq> 0" using uk bs(2) by auto
  show pa: "node 1 (fst e) + k = node 1 a" unfolding k node1_add a ..
  let ?m = "bl_set_size (mem s) (node 1 (fst e)) (snd e - r)"
  have mem: "mem s' = store32 ?m (node 1 a) n"
    unfolding s'_def pa by (simp add: bl_set_size_def k)
  have nz: "snd e - r \<noteq> 0" using bs(2) by linarith
  have rle: "r \<le> snd e" using bs(2) by linarith
  note take = bl.take_chain [OF b(4) lo b(5) _ bs(1) rle refl refl, unfolded mult_1]
  have bs': "ext_ok 8 (4096 * lo) (2 ^ 28) (xs @ (fst e, snd e - r) # ys)"
    using b(4) bs e by (auto simp: ext_ok_append elim: ext_ok_mono)
  have take_s: "ext_take r (snd e - r) [e] = Some (a, [(fst e, snd e - r)])" using nz rle a by simp
  have reg: "span (node 1 a) 4 \<subseteq> ext_bytes 1 [(a, r)]"
  proof
    fix x assume "x \<in> span (node 1 a) 4"
    moreover have "unat (node 1 a) = a" using e bs(2) r a by (intro node1_unat) linarith
    ultimately have "a \<le> unat x \<and> unat x < a + 4" using in_span_iff [of "node 1 a" 4 x] e bs(2) a r by simp
    then show "x \<in> ext_bytes 1 [(a, r)]" using r by (simp add: ext_bytes_def)
  qed
  have sub: "ext_bytes 1 [(a, r)] \<subseteq> ext_bytes 1 bs" "ext_bytes 1 (xs @ (fst e, snd e - r) # ys) \<subseteq> ext_bytes 1 bs"
    using bs rle a by (auto simp: ext_bytes_def)
  have dis: "ext_bytes 1 [(a, r)] \<inter> ext_bytes 1 (xs @ (fst e, snd e - r) # ys) = {}"
  proof (rule ext_bytes_disjoint)
    have ok': "ext_ok 8 (4096 * lo) (2 ^ 28) xs" "ext_end (4096 * lo) xs \<le> fst e" "ext_ok 8 (fst e + snd e + 1) (2 ^ 28) ys"
      using b(4) bs(1) by (simp_all add: ext_ok_append)
    show "ext_set [(a, r)] \<inter> ext_set (xs @ (fst e, snd e - r) # ys) = {}"
      using ext_set_below_end [OF ok'(1)] ok'(2) ext_ok_bound [OF ok'(3)] a rle by fastforce
  qed
  have st: "heap_step (span (bh s + 4) 4 \<union> ext_bytes 1 bs) s s'"
    unfolding heap_step_def
  proof (intro exI conjI allI impI)
    show "s' = s\<lparr>mem := mem s', ktrace := ktrace s\<rparr>" by (simp add: s'_def)
    fix x assume x: "x \<notin> span (bh s + 4) 4 \<union> ext_bytes 1 bs"
    then have "mem s' x = ?m x" unfolding mem using reg sub(1) by (intro store32_other) blast
    also have "\<dots> = mem s x" using take(2) [OF b(2) x] nz by simp
    finally show "mem s' x = mem s x" .
  qed
  have hp: "span (bh s + 4) 4 \<subseteq> span (bh s) 8" using span8 by blast
  show "heap_step (heap_bytes ps bs s) s s'"
    by (rule heap_step_trans [OF st heap_step_refl]) (use hp in \<open>auto simp: heap_bytes_def\<close>)
  have "pages_ok lo ps s'"
    by (rule pages_ok_frame [OF h(1) st]) (use h(3,4) out hp in blast)
  moreover have "blocks_ok lo (xs @ (fst e, snd e - r) # ys) s'"
  proof -
    define s1 where "s1 = s\<lparr>mem := ?m\<rparr>"
    have at: "span (node 1 (fst e)) 4 \<subseteq> ext_bytes 1 bs"
    proof -
      have "span (node 1 (fst e)) 8 \<subseteq> ext_bytes 1 [e]" using bl.node_span [of "snd e" "fst e"] e by simp
      then show ?thesis using bs(1) span8 by (auto simp: ext_bytes_Cons [of 1 e ys])
    qed
    have "load32 ?m (bh s) = load32 (mem s) (bh s)"
      unfolding bl_set_size_def by (rule load32_store32_other) (use at out(4) span8 in blast)
    moreover have "nxt ?m (bh s) = nxt (mem s) (bh s)"
      by (rule nxt_cong, rule bl.wr_other) (use at out(4) span8 in blast)
    ultimately have "blocks_ok lo (xs @ (fst e, snd e - r) # ys) s1"
      using b(1,2,3) bs' take(1) [OF b(2)] nz unfolding blocks_ok_def s1_def by simp
    moreover have "heap_step (span (node 1 a) 4) s1 s'"
      unfolding heap_step_def
    proof (intro exI conjI)
      show "s' = s1\<lparr>mem := mem s', ktrace := ktrace s\<rparr>" by (simp add: s'_def s1_def)
      show "\<forall>x. x \<notin> span (node 1 a) 4 \<longrightarrow> mem s' x = mem s1 x" by (simp add: mem s1_def store32_other)
    qed
    moreover have "(span (bh s) 8 \<union> ext_bytes 1 (xs @ (fst e, snd e - r) # ys)) \<inter> span (node 1 a) 4 = {}"
      using reg sub dis out(4) by blast
    then have "(span (bh s1) 8 \<union> ext_bytes 1 (xs @ (fst e, snd e - r) # ys)) \<inter> span (node 1 a) 4 = {}"
      by (simp add: s1_def)
    ultimately show ?thesis by (rule blocks_ok_frame)
  qed
  moreover have "ph s' = ph s" "bh s' = bh s" by (simp_all add: s'_def)
  ultimately show "heap_ok lo ps (xs @ (fst e, snd e - r) # ys) s'"
    using h(3,4) sub(2) unfolding heap_ok_def by auto
  show "load32 (mem s') (node 1 a) = n" unfolding mem by (rule store32_same)
qed

lemma abs_kalloc_split:
  assumes "abs_search r ps bs = Some (ps1, bs1)" "bs1 = xs @ e # ys" "\<forall>f\<in>set xs. snd f < r + 8" "r + 8 \<le> snd e"
  shows "abs_kalloc r ps bs = Some (fst e + (snd e - r), ps1, xs @ (fst e, snd e - r) # ys)"
    and "ext_take r 8 bs1 = Some (fst e + (snd e - r), xs @ (fst e, snd e - r) # ys)"
proof -
  show "ext_take r 8 bs1 = Some (fst e + (snd e - r), xs @ (fst e, snd e - r) # ys)"
    unfolding assms(2) using assms(3,4) by (induction xs) auto
  then show "abs_kalloc r ps bs = Some (fst e + (snd e - r), ps1, xs @ (fst e, snd e - r) # ys)"
    using assms(1) by (simp add: abs_kalloc_def)
qed

lemma kalloc_spec:
  assumes ok: "heap_ok lo ps bs s" and n: "unat n + 4 \<le> 65535 * 4096" and lock: "unat (klock s) < 2 ^ 32 - 2"
  shows "case abs_kalloc (unat n + 4) ps bs of
      None \<Rightarrow> \<exists>h. kalloc n s = Some (Inl h)
    | Some (a, ps', bs') \<Rightarrow> \<exists>s'. kalloc n s = Some (Inr (node 1 (a + 4), s'))
        \<and> heap_ok lo ps' bs' s' \<and> load32 (mem s') (node 1 a) = n
        \<and> klock s' = klock s \<and> intr s' = (klock s = 0) \<and> ph s' = ph s \<and> bh s' = bh s
        \<and> kmem.more s' = kmem.more s \<and> kports s' = kports s
        \<and> (\<forall>x. x \<notin> heap_bytes ps bs s \<longrightarrow> mem s' x = mem s x)
        \<and> (\<exists>bs1. abs_search (unat n + 4) ps bs = Some (ps', bs1) \<and> ext_ok 8 (4096 * lo) (2 ^ 28) bs1
              \<and> ext_bytes 4096 ps' \<inter> ext_bytes 1 bs1 = {} \<and> ext_take (unat n + 4) 8 bs1 = Some (a, bs'))"
proof -
  let ?r = "unat n + 4"
  have rs: "n + sizeof_blockheader = of_nat ?r" by (simp add: sizeof_blockheader_def)
  define s0 where "s0 = say (kern_debug @ ''start of kalloc(%d) freeblock=%x'' @ newline)
      [VInt n, VInt sizeof_freeblock] (lock_kernel s)"
  have s0: "mem s0 = mem s" "ph s0 = ph s" "bh s0 = bh s" "klock s0 = klock s + 1" "\<not> intr s0"
    "kmem.more s0 = kmem.more s" "kports s0 = kports s"
    by (simp_all add: s0_def lock_kernel_def say_def)
  have ukl: "unat (klock s + 1) = unat (klock s) + 1" using lock by (simp add: unat_add_nowrap)
  then have kl: "0 < klock s0" "klock s0 + 1 \<noteq> 0" unfolding s0
    using lock by (auto simp: word_less_nat_alt unat_add_nowrap word_unat_eq_iff unat_word_ariths)
  have ok0: "heap_ok lo ps bs s0" using ok s0 by (simp add: heap_ok_def pages_ok_def blocks_ok_def)
  obtain s1 where p1: "printblocks s0 = Some s1" and st1: "heap_step {} s0 s1"
    using printblocks_spec [OF heap_okD(2) [OF ok0] kl s0(5)] by blast
  have ok1: "heap_ok lo ps bs s1" using heads_ok_step [OF ok0 st1] .
  have search: "search_ok lo n ?r ps bs s1" using kalloc_loop_spec [OF ok1] n by simp
  show ?thesis
  proof (cases "abs_search ?r ps bs")
    case None
    then obtain h where "kalloc_loop n (of_nat ?r) (bh s1) (nxt (mem s1) (bh s1)) s1 = Some (Inl h)"
      using search unfolding search_ok_def by auto
    then have "kalloc n s = Some (Inl h)"
      unfolding kalloc_def Let_def s0_def [symmetric] p1 rs by simp
    then show ?thesis using None by (simp add: abs_kalloc_def)
  next
    case (Some x)
    obtain ps1 bs1 where x: "abs_search ?r ps bs = Some (ps1, bs1)" using Some by (cases x) auto
    obtain s2 xs e ys where loop: "kalloc_loop n (of_nat ?r) (bh s1) (nxt (mem s1) (bh s1)) s1 =
          Some (Inr ((last_node 1 (bh s1) xs, node 1 (fst e)), s2))"
      and ok2: "heap_ok lo ps1 bs1 s2" and st2: "heap_step (heap_bytes ps bs s1) s1 s2"
      and sp: "bs1 = xs @ e # ys" "\<forall>f\<in>set xs. snd f < ?r + 8" "?r + 8 \<le> snd e"
      using search unfolding search_ok_def x option.case prod.case by blast
    define a where "a = fst e + (snd e - ?r)"
    define k where "k = load32 (mem s2) (node 1 (fst e)) - of_nat ?r"
    define s3 where "s3 = s2\<lparr>mem := store32 (store32 (mem s2) (node 1 (fst e)) k) (node 1 (fst e) + k) n\<rparr>"
    have r4: "4 \<le> ?r" by simp
    note carve = carve_spec(1,2) [OF ok2 sp(1,3) r4 a_def, folded k_def]
      carve_spec(3-5) [where n = n, OF ok2 sp(1,3) r4 a_def, folded k_def, folded s3_def]
    define bs3 where "bs3 = xs @ (fst e, snd e - ?r) # ys"
    note ok3 = carve(3) [folded bs3_def] and st3 = carve(5)
    define s4 where "s4 = say (kern_debug @ ''kalloc for realsize=%x'' @ newline) [VInt (of_nat ?r)] s3"
    have st4: "heap_step {} s3 s4" and ok4: "heap_ok lo ps1 bs3 s4"
      using heads_ok_step [OF ok3 heap_step_say] by (simp_all add: s4_def heap_step_say)
    note sel1 = heap_step_sel [OF st1] and sel2 = heap_step_sel [OF st2] and sel3 = heap_step_sel [OF st3]
      and sel4 = heap_step_sel [OF st4]
    have kl4: "0 < klock s4" "klock s4 + 1 \<noteq> 0" "\<not> intr s4" using kl s0 sel1 sel2 sel3 sel4 by simp_all
    obtain s5 where p5: "printblocks s4 = Some s5" and st5: "heap_step {} s4 s5"
      using printblocks_spec [OF heap_okD(2) [OF ok4] kl4] by blast
    note sel5 = heap_step_sel [OF st5]
    define s6 where "s6 = say (kern_debug @ ''kalloc returns %lx'' @ newline) [VInt (node 1 a + sizeof_blockheader)] s5"
    have s6: "mem s6 = mem s5" "ph s6 = ph s5" "bh s6 = bh s5" "klock s6 = klock s5" "intr s6 = intr s5"
      "kmem.more s6 = kmem.more s5" "kports s6 = kports s5"
      by (simp_all add: s6_def say_def)
    define s7 where "s7 = unlock_kernel s6"
    have s7: "mem s7 = mem s5" "ph s7 = ph s5" "bh s7 = bh s5" "klock s7 = klock s" "intr s7 = (klock s = 0)"
      "kmem.more s7 = kmem.more s5" "kports s7 = kports s5"
      using s6 s0 sel1 sel2 sel3 sel4 sel5 by (simp_all add: s7_def unlock_kernel_def Let_def)
    have ret: "node 1 a + sizeof_blockheader = node 1 (a + 4)"
      using node1_add [of a 4] by (simp add: sizeof_blockheader_def)
    have "kalloc n s = Some (Inr (node 1 (a + 4), s7))"
      unfolding kalloc_def Let_def s0_def [symmetric] p1 rs option.case loop sum.case prod.case
        k_def [symmetric] if_not_P [OF carve(1)] s3_def [symmetric] s4_def [symmetric] p5
      unfolding carve(2) s6_def [symmetric] s7_def [symmetric] unfolding ret ..
    moreover have ok5: "heap_ok lo ps1 bs3 s5" using heads_ok_step [OF ok4 st5] .
    then have "heap_ok lo ps1 bs3 s7" using s7 by (simp add: heap_ok_def pages_ok_def blocks_ok_def)
    moreover have m35: "mem s5 = mem s3"
      using heap_step_mem [OF st4] heap_step_mem [OF st5] by (intro ext) simp
    then have "load32 (mem s7) (node 1 a) = n" using carve(4) s7 by simp
    moreover have "mem s7 x = mem s x" if "x \<notin> heap_bytes ps bs s" for x
    proof -
      have hb: "heap_bytes ps bs s1 = heap_bytes ps bs s" using sel1 s0 by (simp add: heap_bytes_def)
      have "ext_ok 1 lo 65536 ps" using pages_okD [OF heap_okD(1) [OF ok]] by simp
      then have sub: "heap_bytes ps1 bs1 s2 \<subseteq> heap_bytes ps bs s"
        using abs_search_bytes [OF x] sel1 sel2 s0 by (auto simp: heap_bytes_def)
      have "mem s7 x = mem s3 x" using s7 m35 by simp
      also have "\<dots> = mem s2 x" by (rule heap_step_mem [OF st3]) (use that sub in blast)
      also have "\<dots> = mem s1 x" by (rule heap_step_mem [OF st2]) (use that hb in simp)
      also have "\<dots> = mem s x" using heap_step_mem [OF st1, of x] s0 by simp
      finally show ?thesis .
    qed
    moreover have "ph s7 = ph s" "bh s7 = bh s" "kmem.more s7 = kmem.more s" "kports s7 = kports s" using s7 s0 sel1 sel2 sel3 sel4 sel5 by simp_all
    moreover note abs_kalloc_split(2) [OF x sp, folded a_def bs3_def]
    moreover have "ext_ok 8 (4096 * lo) (2 ^ 28) bs1" using blocks_okD(4) [OF heap_okD(2) [OF ok2]] .
    moreover have "ext_bytes 4096 ps1 \<inter> ext_bytes 1 bs1 = {}" using heap_okD(4) [OF ok2] .
    ultimately show ?thesis
      using s7 x abs_kalloc_split(1) [OF x sp] unfolding a_def [symmetric] bs3_def [symmetric] by simp
  qed
qed

section \<open>kfree\<close>

lemma seg_size_at: "seg rd u m a es b \<Longrightarrow> e \<in> set es \<Longrightarrow> rd m (node u (fst e)) = snd e"
  by (induction es arbitrary: a) auto

lemma node_page_step: "node 4096 p + 4096 = node 4096 (p + 1)"
  by (simp add: node_def algebra_simps)

lemma release_pages_spec:
  assumes "pages_ok lo ps s" "lo \<le> p" "p + c \<le> 65536" "{p..<p + c} \<inter> ext_set ps = {}"
  shows "\<exists>ps' s'. release_pages c (node 4096 p) s = Some s' \<and> pages_ok lo ps' s'
    \<and> ext_set ps' = ext_set ps \<union> {p..<p + c}
    \<and> heap_step (span (ph s + 4) 4 \<union> ext_bytes 4096 ps \<union> ext_bytes 4096 [(p, c)]) s s'"
  using assms
proof (induction c arbitrary: p ps s)
  case 0
  then show ?case using heap_step_refl by (intro exI [of _ ps] exI [of _ s]) auto
next
  case (Suc c)
  have "p \<in> {p..<p + Suc c}" by simp
  then have p: "p < 65536" "p \<notin> ext_set ps" using Suc.prems(3,4) by (simp, blast)
  have u: "unat (of_nat p :: u16) = p" using p by (intro unat_of_nat_small) simp
  obtain s1 where r: "page_release (of_nat p) s = Some s1" and ok1: "pages_ok lo (ext_insert p 1 ps) s1"
    and only: "mem_only (page_list_bytes ps s \<union> ext_bytes 4096 [(p, 1)]) s s1"
    using page_release_spec [of lo ps s "of_nat p"] Suc.prems(1,2) p unfolding u by blast
  note st = mem_only_step [OF only]
  have set1: "ext_set (ext_insert p 1 ps) = ext_set ps \<union> {p..<p + 1}" by (auto simp: ext_set_insert)
  have dis: "{p + 1..<p + 1 + c} \<inter> ext_set (ext_insert p 1 ps) = {}"
  proof -
    have "{p + 1..<p + 1 + c} \<subseteq> {p..<p + Suc c}" "{p + 1..<p + 1 + c} \<inter> {p..<p + 1} = {}" by auto
    then show ?thesis using Suc.prems(4) unfolding set1 by blast
  qed
  obtain ps' s' where rest: "release_pages c (node 4096 (p + 1)) s1 = Some s'" "pages_ok lo ps' s'"
    "ext_set ps' = ext_set (ext_insert p 1 ps) \<union> {p + 1..<p + 1 + c}"
    "heap_step (span (ph s1 + 4) 4 \<union> ext_bytes 4096 (ext_insert p 1 ps) \<union> ext_bytes 4096 [(p + 1, c)]) s1 s'"
    using Suc.IH [OF ok1 _ _ dis] Suc.prems(2,3) by auto
  have b: "ext_bytes 4096 [(p, Suc c)] = ext_bytes 4096 [(p, 1)] \<union> ext_bytes 4096 [(p + 1, c)]"
    by (auto simp: ext_bytes_def)
  have sel: "ph s1 = ph s" using heap_step_sel [OF st] by simp
  have bi: "ext_bytes 4096 (ext_insert p 1 ps) = ext_bytes 4096 [(p, 1)] \<union> ext_bytes 4096 ps"
    by (rule ext_bytes_insert)
  have "heap_step (span (ph s + 4) 4 \<union> ext_bytes 4096 ps \<union> ext_bytes 4096 [(p, Suc c)]) s s'"
    by (rule heap_step_trans [OF st rest(4)]) (auto simp only: sel bi b page_list_bytes_def)
  moreover have "release_pages (Suc c) (node 4096 p) s = Some s'"
    using r rest(1) p by (simp add: addr_to_page_node node_page_step)
  moreover have "{p..<p + Suc c} = {p..<p + 1} \<union> {p + 1..<p + 1 + c}" by auto
  then have "ext_set ps' = ext_set ps \<union> {p..<p + Suc c}" using rest(3) unfolding set1 by (simp only: Un_assoc)
  ultimately show ?case using rest(2) by blast
qed

lemma attach_at: "xs = [] \<or> fst (last xs) + snd (last xs) \<noteq> c \<Longrightarrow> (c, n) \<in> set (attach xs c n)"
  by (auto simp: attach_def)

lemma ext_insert_at:
  assumes "\<not> (\<exists>e\<in>set es. fst e + snd e = c)"
  shows "\<exists>n'. (c, n') \<in> set (ext_insert c n es)"
proof -
  obtain xs ys where s: "es = xs @ ys" "\<forall>e\<in>set xs. fst e \<le> c" "ys = [] \<or> c < fst (hd ys)"
    using split_at [of es c] by blast
  have "xs = [] \<or> fst (last xs) + snd (last xs) \<noteq> c" using assms s(1) last_in_set [of xs] by auto
  from attach_at [OF this] show ?thesis
    unfolding s(1) ext_insert_split [OF s(2,3)] by (cases ys) auto
qed

text \<open>
  kfree of a block whose freeing does not reach the size of a page: the region goes back to the block
  list.  \<open>merged\<close> is the size mem_free finds in the block when it decides about whole pages.
\<close>

lemma kfree_spec:
  assumes ok: "heap_ok lo ps bs s" and hd: "load32 (mem s) (node 1 a) = n"
    and reg: "4096 * lo \<le> a" "4 \<le> unat n" "a + (unat n + 4) \<le> 2 ^ 28"
    and dis: "ext_bytes 1 [(a, unat n + 4)] \<inter> (ext_bytes 1 bs \<union> ext_bytes 4096 ps) = {}"
    and small: "unat n < 4096" "\<forall>n'. (a, n') \<in> set (ext_insert a (unat n + 4) bs) \<longrightarrow> n' < 4096"
  shows "\<exists>s'. kfree (node 1 (a + 4)) s = Some s' \<and> heap_ok lo ps (ext_insert a (unat n + 4) bs) s'
    \<and> heap_step (span (bh s + 4) 4 \<union> ext_bytes 1 bs \<union> ext_bytes 1 [(a, unat n + 4)]) s s'"
proof -
  note h = heap_okD [OF ok] and out = heads_outside [OF ok]
  note b = blocks_okD [OF h(2)]
  let ?r = "unat n + 4"
  have rs: "n + sizeof_blockheader = of_nat ?r" by (simp add: sizeof_blockheader_def)
  have hdr: "node 1 (a + 4) - sizeof_blockheader = node 1 a"
    using node1_add [of a 4] by (simp add: sizeof_blockheader_def algebra_simps)
  have dn: "{a..<a + ?r} \<inter> ext_set bs = {}"
  proof (rule equals0I)
    fix x assume x: "x \<in> {a..<a + ?r} \<inter> ext_set bs"
    then have "x < 2 ^ 32" using reg(3) by simp
    then have "unat (of_nat x :: u32) = x" by (intro unat_of_nat_small) simp
    with x have "(of_nat x :: u32) \<in> ext_bytes 1 [(a, ?r)] \<inter> ext_bytes 1 bs" by (simp add: ext_bytes_def)
    with dis show False by blast
  qed
  have r8: "8 \<le> ?r" using reg(2) by simp
  obtain s1 where f: "mem_free (node 1 a) (of_nat ?r) True s = free_whole_pages (node 1 a) True s1"
    and b1: "blocks_ok lo (ext_insert a ?r bs) s1"
    and only: "mem_only (span (bh s + 4) 4 \<union> ext_bytes 1 bs \<union> ext_bytes 1 [(a, ?r)]) s s1"
    and keep: "(\<exists>e\<in>set bs. fst e + snd e = a) \<longrightarrow> load32 (mem s1) (node 1 a) = load32 (mem s) (node 1 a)"
    using mem_free_spec [OF h(2) reg(1) r8 reg(3) dn] by blast
  note st = mem_only_step [OF only]
  have "bl_size (mem s1) (node 1 a) < 4096"
  proof (cases "\<exists>e\<in>set bs. fst e + snd e = a")
    case True
    then show ?thesis using keep hd small(1) by (simp add: bl_size_def)
  next
    case False
    then obtain n' where "(a, n') \<in> set (ext_insert a ?r bs)" using ext_insert_at by blast
    with small(2) seg_size_at [OF blocks_okD(5) [OF b1]] show ?thesis by fastforce
  qed
  then have "\<not> 4096 \<le> load32 (mem s1) (node 1 a)" by (simp add: bl_size_def word_le_nat_alt)
  then have k: "kfree (node 1 (a + 4)) s = Some s1"
    unfolding kfree_def Let_def hdr hd rs f free_whole_pages_def by simp
  have hp: "span (bh s + 4) 4 \<subseteq> span (bh s) 8" using span8 by blast
  have oreg: "span (ph s) 8 \<inter> ext_bytes 1 [(a, ?r)] = {}"
    by (rule bl.head_span [where lo = "4096 * lo"]) (use pages_okD [OF h(1)] reg in auto)
  have "pages_ok lo ps s1"
    by (rule pages_ok_frame [OF h(1) st]) (use h(3,4) out hp dis oreg in blast)
  then have "heap_ok lo ps (ext_insert a ?r bs) s1"
    using b1 h(3,4) heap_step_sel [OF st] dis unfolding heap_ok_def ext_bytes_insert by auto
  with k st show ?thesis by blast
qed

section \<open>Regions\<close>

lemma span_bytes: "a + r \<le> 2 ^ 28 \<Longrightarrow> 0 < r \<Longrightarrow> span (node 1 a) r = ext_bytes 1 [(a, r)]"
  using in_span_iff [of "node 1 a" r] node1_unat [of a] by (auto simp: ext_bytes_def)

text \<open>The bytes of the heap are split between what remains free and the region handed out.\<close>

lemma search_take_region:
  assumes "abs_search r ps bs = Some (ps', bs1)" "ext_take r 8 bs1 = Some (a, bs')"
    and "ext_ok 1 lo 65536 ps" "ext_ok 8 lo' hi bs1" "ext_bytes 4096 ps' \<inter> ext_bytes 1 bs1 = {}"
  shows "ext_bytes 4096 ps \<union> ext_bytes 1 bs = ext_bytes 4096 ps' \<union> ext_bytes 1 bs' \<union> ext_bytes 1 [(a, r)]"
    and "ext_bytes 1 [(a, r)] \<inter> (ext_bytes 4096 ps' \<union> ext_bytes 1 bs') = {}"
proof -
  have "(0 :: nat) < 8" by simp
  note t = ext_bytes_take [OF assms(2,4) this, of 1]
  show "ext_bytes 4096 ps \<union> ext_bytes 1 bs = ext_bytes 4096 ps' \<union> ext_bytes 1 bs' \<union> ext_bytes 1 [(a, r)]"
    using abs_search_bytes [OF assms(1,3)] t(1) by blast
  show "ext_bytes 1 [(a, r)] \<inter> (ext_bytes 4096 ps' \<union> ext_bytes 1 bs') = {}"
    using t assms(5) by blast
qed

section \<open>Properties\<close>

lemma four_pages_heap: "heap_ok 256 [(256, 4)] [] four_pages"
  using four_pages_ok
  by (simp add: heap_ok_def blocks_ok_def four_pages_sel load32_def nxt_def span_disjoint)

text \<open>
  Property C2.  kalloc refines the abstract allocator: for every request below 256 megabytes and every
  well-formed heap it terminates, and it stops the kernel exactly when the abstract search runs out of
  pages; otherwise it returns the abstract address plus the four bytes of the header, the two free lists
  are the abstract ones and are again well formed, the header holds the size asked for, and the
  interrupt lock is back at its old depth.
\<close>

theorem kalloc_refines_abs_kalloc:
  assumes "heap_ok lo ps bs s" and "unat n + 4 \<le> 65535 * 4096" and "unat (klock s) < 2 ^ 32 - 2"
  shows "case abs_kalloc (unat n + 4) ps bs of
      None \<Rightarrow> \<exists>h. kalloc n s = Some (Inl h)
    | Some (a, ps', bs') \<Rightarrow> \<exists>s'. kalloc n s = Some (Inr (node 1 (a + 4), s'))
        \<and> heap_ok lo ps' bs' s' \<and> load32 (mem s') (node 1 a) = n
        \<and> klock s' = klock s \<and> intr s' = (klock s = 0)"
  using kalloc_spec [OF assms] by (auto split: option.splits)

theorem kalloc_refines_abs_kalloc_witness:
  "case abs_kalloc (unat (100 :: u32) + 4) [(256, 4)] [] of
      None \<Rightarrow> \<exists>h. kalloc 100 four_pages = Some (Inl h)
    | Some (a, ps', bs') \<Rightarrow> \<exists>s'. kalloc 100 four_pages = Some (Inr (node 1 (a + 4), s'))
        \<and> heap_ok 256 ps' bs' s' \<and> load32 (mem s') (node 1 a) = 100
        \<and> klock s' = klock four_pages \<and> intr s' = (klock four_pages = 0)"
  by (rule kalloc_refines_abs_kalloc [OF four_pages_heap]) (simp_all add: four_pages_sel)

text \<open>The region a successful call of kalloc returns, and all it leaves alone.\<close>

lemma kalloc_region:
  assumes ok: "heap_ok lo ps bs s" and n: "unat n + 4 \<le> 65535 * 4096" and lock: "unat (klock s) < 2 ^ 32 - 2"
    and k: "kalloc n s = Some (Inr (addr, s'))"
  obtains ps' bs' where "heap_ok lo ps' bs' s'"
    "ext_bytes 4096 ps \<union> ext_bytes 1 bs =
        ext_bytes 4096 ps' \<union> ext_bytes 1 bs' \<union> span (addr - 4) (unat n + 4)"
    "span (addr - 4) (unat n + 4) \<inter> (ext_bytes 4096 ps' \<union> ext_bytes 1 bs') = {}"
    "load32 (mem s') (addr - 4) = n"
    "\<And>x. x \<notin> heap_bytes ps bs s \<Longrightarrow> mem s' x = mem s x"
    "klock s' = klock s" "intr s' = (klock s = 0)" "ph s' = ph s" "bh s' = bh s" "kmem.more s' = kmem.more s"
    "kports s' = kports s"
    "map_option snd (abs_kalloc (unat n + 4) ps bs) = Some (ps', bs')"
proof -
  let ?r = "unat n + 4"
  obtain a ps' bs' where ab: "abs_kalloc ?r ps bs = Some (a, ps', bs')"
    using kalloc_spec [OF ok n lock] k by (cases "abs_kalloc ?r ps bs") auto
  then obtain bs1 where r: "addr = node 1 (a + 4)" "heap_ok lo ps' bs' s'" "load32 (mem s') (node 1 a) = n"
    "klock s' = klock s" "intr s' = (klock s = 0)" "ph s' = ph s" "bh s' = bh s" "kmem.more s' = kmem.more s"
    "kports s' = kports s" "\<forall>x. x \<notin> heap_bytes ps bs s \<longrightarrow> mem s' x = mem s x"
    and s: "abs_search ?r ps bs = Some (ps', bs1)" and okb: "ext_ok 8 (4096 * lo) (2 ^ 28) bs1"
    and dis: "ext_bytes 4096 ps' \<inter> ext_bytes 1 bs1 = {}" and t: "ext_take ?r 8 bs1 = Some (a, bs')"
    using kalloc_spec [OF ok n lock] k by auto
  have addr: "addr - 4 = node 1 a" using node1_add [of a 4] r(1) by (simp add: algebra_simps)
  have sp: "span (addr - 4) ?r = ext_bytes 1 [(a, ?r)]"
    unfolding addr by (rule span_bytes [OF ext_take_bounds(2) [OF t okb]]) simp
  have "ext_ok 1 lo 65536 ps" using pages_okD [OF heap_okD(1) [OF ok]] by simp
  note search_take_region [OF s t this okb dis]
  then show ?thesis using r ab that unfolding sp unfolding addr by simp
qed

text \<open>What a call of kalloc does for a client that follows the abstract allocator.\<close>

lemma kalloc_block:
  assumes "heap_ok lo ps bs s" "unat n + 4 \<le> 65535 * 4096" "unat (klock s) < 2 ^ 32 - 2"
  obtains "\<exists>h. kalloc n s = Some (Inl h)"
  | a ps' bs' s' where "kalloc n s = Some (Inr (node 1 (a + 4), s'))" "abs_kalloc (unat n + 4) ps bs = Some (a, ps', bs')"
    "heap_ok lo ps' bs' s'" "4096 * lo \<le> a" "a + (unat n + 4) \<le> 2 ^ 28"
    "load32 (mem s') (node 1 a) = n" "klock s' = klock s" "ph s' = ph s" "bh s' = bh s" "kmem.more s' = kmem.more s"
    "intr s' = (klock s = 0)" "kports s' = kports s" "\<And>x. x \<notin> heap_bytes ps bs s \<Longrightarrow> mem s' x = mem s x"
    "ext_bytes 4096 ps \<union> ext_bytes 1 bs = ext_bytes 4096 ps' \<union> ext_bytes 1 bs' \<union> ext_bytes 1 [(a, unat n + 4)]"
    "ext_bytes 1 [(a, unat n + 4)] \<inter> (ext_bytes 4096 ps' \<union> ext_bytes 1 bs') = {}"
proof (cases "abs_kalloc (unat n + 4) ps bs")
  case None
  then show ?thesis using kalloc_spec [OF assms] that(1) by simp
next
  case (Some r)
  then obtain a ps' bs' where ab: "abs_kalloc (unat n + 4) ps bs = Some (a, ps', bs')" by (cases r) auto
  then obtain s' bs1 where r: "kalloc n s = Some (Inr (node 1 (a + 4), s'))" "heap_ok lo ps' bs' s'"
    "load32 (mem s') (node 1 a) = n" "klock s' = klock s" "ph s' = ph s" "bh s' = bh s" "kmem.more s' = kmem.more s"
    "intr s' = (klock s = 0)" "kports s' = kports s" "\<forall>x. x \<notin> heap_bytes ps bs s \<longrightarrow> mem s' x = mem s x"
    and se: "abs_search (unat n + 4) ps bs = Some (ps', bs1)" and okb: "ext_ok 8 (4096 * lo) (2 ^ 28) bs1"
    and dis: "ext_bytes 4096 ps' \<inter> ext_bytes 1 bs1 = {}" and t: "ext_take (unat n + 4) 8 bs1 = Some (a, bs')"
    using kalloc_spec [OF assms] by auto
  have d: "ext_ok 1 lo 65536 ps" using pages_okD [OF heap_okD(1) [OF assms(1)]] by simp
  note reg = search_take_region [OF se t d okb dis]
  show ?thesis
    by (rule that(2) [OF r(1) ab r(2) ext_take_bounds(1) [OF t okb] ext_take_bounds(2) [OF t okb] r(3-9)
        r(10) [rule_format] reg])
qed

text \<open>
  The block whose header is at \<open>a\<close> holds \<open>n\<close> bytes and is not free: what kalloc leaves and kfree expects.
\<close>

definition allocated :: "nat \<Rightarrow> ext list \<Rightarrow> ext list \<Rightarrow> 'a kmem_scheme \<Rightarrow> nat \<Rightarrow> u32 \<Rightarrow> bool" where
  "allocated lo ps bs s a n \<longleftrightarrow> 4096 * lo \<le> a \<and> a + (unat n + 4) \<le> 2 ^ 28 \<and> load32 (mem s) (node 1 a) = n
     \<and> ext_bytes 1 [(a, unat n + 4)] \<inter> (ext_bytes 4096 ps \<union> ext_bytes 1 bs) = {}"

lemma allocated_outside:
  assumes "heap_ok lo ps bs s" "allocated lo ps bs s a n"
  shows "ext_bytes 1 [(a, unat n + 4)] \<inter> heap_bytes ps bs s = {}"
proof -
  note d = pages_okD [OF heap_okD(1) [OF assms(1)]] blocks_okD [OF heap_okD(2) [OF assms(1)]]
  have "span (ph s) 8 \<inter> ext_bytes 1 [(a, unat n + 4)] = {}" "span (bh s) 8 \<inter> ext_bytes 1 [(a, unat n + 4)] = {}"
    by (rule bl.head_span [where lo = "4096 * lo"]; use d assms(2) in \<open>auto simp: allocated_def\<close>)+
  then show ?thesis using assms(2) by (auto simp: allocated_def heap_bytes_def)
qed

lemma header_span: "span (node 1 a) 4 \<subseteq> ext_bytes 1 [(a, n + 4)]" if "a + (n + 4) \<le> 2 ^ 28"
  using span_bytes [of a "n + 4"] span_mono [of 4 "n + 4" "node 1 a"] that by simp

lemma content_span: "span (node 1 (a + 4)) n \<subseteq> ext_bytes 1 [(a, n + 4)]" if "a + (n + 4) \<le> 2 ^ 28"
  using span_bytes [of a "n + 4"] span_shift [of 4 n "n + 4" "node 1 a"] that node1_add [of a 4] by simp

lemma header_apart: "span (node 1 a) 4 \<inter> span (node 1 (a + 4)) n = {}" if "a + (n + 4) \<le> 2 ^ 28"
  using span_disjoint [of "node 1 a" 4 "node 1 (a + 4)" n] that
  by (cases "n = 0") (simp_all add: node1_unat span_def)

text \<open>
  Property C7.  The memory kalloc hands out was free and is free no more: the header and the \<open>n\<close>
  bytes after it are disjoint from everything still free, together they make up exactly the bytes that
  were free before, and no byte outside the free memory and the two list heads is changed, so that
  regions handed out earlier keep their contents.
\<close>

theorem kalloc_hands_out_free_memory:
  assumes ok: "heap_ok lo ps bs s" and n: "unat n + 4 \<le> 65535 * 4096" and lock: "unat (klock s) < 2 ^ 32 - 2"
    and k: "kalloc n s = Some (Inr (addr, s'))"
  shows "\<exists>ps' bs'. heap_ok lo ps' bs' s'
    \<and> ext_bytes 4096 ps \<union> ext_bytes 1 bs =
        ext_bytes 4096 ps' \<union> ext_bytes 1 bs' \<union> span (addr - 4) (unat n + 4)
    \<and> span (addr - 4) (unat n + 4) \<inter> (ext_bytes 4096 ps' \<union> ext_bytes 1 bs') = {}
    \<and> load32 (mem s') (addr - 4) = n
    \<and> (\<forall>x. x \<notin> heap_bytes ps bs s \<longrightarrow> mem s' x = mem s x)"
  using kalloc_region [OF assms] by (metis (no_types, lifting))

lemma four_pages_kalloc: "\<exists>s'. kalloc 100 four_pages = Some (Inr (node 1 1064860, s'))"
proof -
  have u: "unat (100 :: u32) + 4 = 104" by simp
  have "abs_kalloc 104 [(256, 4)] [] = Some (1064856, [(256, 3)], [(1060864, 3992)])"
    by (simp add: abs_kalloc_def abs_search.simps pages_for_def ext_insert_def attach_def)
  then show ?thesis using kalloc_spec [OF four_pages_heap, of 100] by (simp add: u four_pages_sel) blast
qed

theorem kalloc_hands_out_free_memory_witness:
  "\<exists>addr s' ps' bs'. kalloc 100 four_pages = Some (Inr (addr, s')) \<and> heap_ok 256 ps' bs' s'
    \<and> ext_bytes 4096 [(256, 4)] \<union> ext_bytes 1 [] =
        ext_bytes 4096 ps' \<union> ext_bytes 1 bs' \<union> span (addr - 4) (unat (100 :: u32) + 4)
    \<and> span (addr - 4) (unat (100 :: u32) + 4) \<inter> (ext_bytes 4096 ps' \<union> ext_bytes 1 bs') = {}
    \<and> load32 (mem s') (addr - 4) = 100
    \<and> (\<forall>x. x \<notin> heap_bytes [(256, 4)] [] four_pages \<longrightarrow> mem s' x = mem four_pages x)"
proof -
  obtain s' where k: "kalloc 100 four_pages = Some (Inr (node 1 1064860, s'))" using four_pages_kalloc ..
  have "unat (100 :: u32) + 4 \<le> 65535 * 4096" "unat (klock four_pages) < 2 ^ 32 - 2" by (simp_all add: four_pages_sel)
  then show ?thesis using kalloc_hands_out_free_memory [OF four_pages_heap _ _ k] k by blast
qed

lemma kalloc_kfree:
  fixes s s1 t :: "'a kmem_scheme"
  assumes ok: "heap_ok lo ps bs s" and n: "4 \<le> unat n" "unat n < 4096" and lock: "unat (klock s) < 2 ^ 32 - 2"
    and k: "kalloc n s = Some (Inr (addr, s1))" and tt: "mem t = mem s1" "ph t = ph s1" "bh t = bh s1"
  shows "\<exists>s2 ps' bs'. kfree addr t = Some s2 \<and> heap_ok lo ps' bs' s2
    \<and> ext_bytes 4096 ps' \<union> ext_bytes 1 bs' = ext_bytes 4096 ps \<union> ext_bytes 1 bs \<and> heap_step (heap_bytes ps bs s) t s2"
proof -
  let ?r = "unat n + 4"
  have n': "?r \<le> 65535 * 4096" using n by simp
  obtain a ps' bs' where ab: "abs_kalloc ?r ps bs = Some (a, ps', bs')"
    using kalloc_spec [OF ok n' lock] k by (cases "abs_kalloc ?r ps bs") auto
  then obtain bs1 where r: "addr = node 1 (a + 4)" "heap_ok lo ps' bs' s1" "load32 (mem s1) (node 1 a) = n"
    and hb: "bh s1 = bh s" and s: "abs_search ?r ps bs = Some (ps', bs1)" and okb: "ext_ok 8 (4096 * lo) (2 ^ 28) bs1"
    and dis: "ext_bytes 4096 ps' \<inter> ext_bytes 1 bs1 = {}" and t: "ext_take ?r 8 bs1 = Some (a, bs')"
    using kalloc_spec [OF ok n' lock] k by auto
  have ins: "ext_insert a ?r bs' = bs1" by (rule ext_take_insert [OF t okb]) (use n in simp_all)
  have d: "ext_ok 1 lo 65536 ps" using pages_okD [OF heap_okD(1) [OF ok]] by simp
  note reg = search_take_region [OF s t d okb dis]
  have "{a..<a + ?r} \<subseteq> ext_set bs1" using ext_take_set [OF t okb] by simp
  obtain xs e ys where e: "bs1 = xs @ e # ys" "?r + 8 \<le> snd e" "a = fst e + (snd e - ?r)"
    using t by (elim ext_take_split) auto
  have inner: "(a, n') \<notin> set bs1" for n'
  proof
    assume "(a, n') \<in> set bs1"
    then have "a - 1 \<notin> ext_set bs1" using ext_ok_start_gap [OF okb, of "(a, n')"] e(2,3) by simp
    moreover have "a - 1 \<in> ext_set [e]" using e(2,3) n by auto
    ultimately show False using e(1) by simp
  qed
  have ht: "heap_ok lo ps' bs' t" "load32 (mem t) (node 1 a) = n"
    using heap_ok_agree [OF r(2) tt(2,3)] r(3) tt(1) by simp_all
  have "\<exists>s2. kfree (node 1 (a + 4)) t = Some s2 \<and> heap_ok lo ps' (ext_insert a ?r bs') s2
      \<and> heap_step (span (bh t + 4) 4 \<union> ext_bytes 1 bs' \<union> ext_bytes 1 [(a, ?r)]) t s2"
    by (rule kfree_spec [OF ht(1) ht(2) ext_take_bounds(1) [OF t okb] n(1) ext_take_bounds(2) [OF t okb] _ n(2)])
      (use reg(2) inner ins in \<open>auto simp: Int_Un_distrib\<close>)
  then obtain s2 where f: "kfree (node 1 (a + 4)) t = Some s2" "heap_ok lo ps' bs1 s2"
    "heap_step (span (bh t + 4) 4 \<union> ext_bytes 1 bs' \<union> ext_bytes 1 [(a, ?r)]) t s2" unfolding ins by blast
  have u: "ext_bytes 4096 ps' \<union> ext_bytes 1 bs1 = ext_bytes 4096 ps \<union> ext_bytes 1 bs"
    using abs_search_bytes [OF s d] by simp
  have "ext_bytes 1 bs' \<union> ext_bytes 1 [(a, ?r)] \<subseteq> ext_bytes 1 bs1" unfolding ins [symmetric] by (simp add: ext_bytes_insert)
  moreover have "span (bh t + 4) 4 \<subseteq> span (bh s) 8" by (simp add: tt(3) hb span8 [of "bh s"])
  ultimately have "span (bh t + 4) 4 \<union> ext_bytes 1 bs' \<union> ext_bytes 1 [(a, ?r)] \<subseteq> heap_bytes ps bs s"
    using u unfolding heap_bytes_def by blast
  then have "heap_step (heap_bytes ps bs s) t s2" by (rule heap_step_trans [OF heap_step_refl f(3) subset_refl])
  then show ?thesis unfolding r(1) using f(1,2) u by (intro exI conjI)
qed

text \<open>
  mem_free of a region right above a free block, of any size: it puts the link of the list at offset 4 of
  the region even when the region ends before that.
\<close>

lemma mem_free_link:
  assumes ok: "blocks_ok lo bs s" and e: "e \<in> set bs" "fst e + snd e = c" and n: "0 < n" "c + n \<le> 2 ^ 28"
    and gap: "\<forall>f\<in>set bs. fst f \<noteq> c + n"
  shows "\<exists>s1. mem_free (node 1 c) (of_nat n) fp s = free_whole_pages (node 1 c) fp s1
    \<and> load32 (mem s1) (node 1 c) = load32 (mem s) (node 1 c)
    \<and> (nxt (mem s1) (node 1 c) = 0 \<or> (\<exists>f\<in>set bs. nxt (mem s1) (node 1 c) = node 1 (fst f)))"
proof -
  note d = blocks_okD [OF ok]
  let ?m = "mem s" and ?cur = "node 1 c"
  obtain xs ys where sp: "bs = xs @ ys" "\<forall>e\<in>set xs. fst e \<le> c" "ys = [] \<or> c < fst (hd ys)"
    using split_at [of bs c] by blast
  have lo: "0 < 4096 * lo" using d(1) by simp
  have cb: "c < 2 ^ 28" using n by linarith
  have l: "xs \<noteq> []" "fst (last xs) + snd (last xs) = c"
    using split_at_last [OF _ sp(2,3), of 8 "4096 * lo" "2 ^ 28" e] d(4) e sp(1) by auto
  let ?q = "node 1 (fst (last xs))" and ?p = "seg_start 1 ys"
  have lb: "8 \<le> snd (last xs)" using ext_ok_mem [OF d(4), of "last xs"] l(1) sp(1) by simp
  have gap': "find_gap ?m ?cur (bh s) (nxt ?m (bh s)) = Some (?q, ?p)"
    using bl.find_gap_seg [OF _ lo _ sp(2,3) cb, of ?m "nxt ?m (bh s)" "bh s"] d(4,5) sp(1) l(1) by (simp add: last_node_def)
  have right: "(?cur + of_nat n = ?p \<and> ?p \<noteq> 0) = False"
  proof (cases ys)
    case (Cons f fs)
    then have "fst f \<noteq> c + n" "fst f \<le> 2 ^ 28" using gap ext_ok_mem [OF d(4), of f] sp(1) by auto
    then show ?thesis using Cons node1_eq_iff [OF n(2), of "fst f"] by (simp add: node1_add)
  qed simp
  have u: "unat ?q = fst (last xs)" "unat ?cur = c" using l(2) lb cb by (simp_all add: node1_unat)
  have apart: "span ?cur 8 \<inter> span ?q 8 = {}"
    using span_disjoint [of ?q 8 ?cur 8] u l(2) lb cb by (simp add: Int_commute)
  let ?m1 = "set_nxt ?m ?cur ?p"
  let ?m2 = "set_nxt (store32 ?m1 ?q (load32 ?m1 ?q + of_nat n)) ?q (nxt (store32 ?m1 ?q (load32 ?m1 ?q + of_nat n)) ?cur)"
  have sz: "load32 ?m1 ?q = load32 ?m ?q"
    using bl.rd_nxt_other [OF apart] unfolding bl_size_def by (rule word_unat_eqI)
  have "bl_size ?m ?q = snd (last xs)"
    using seg_size_at [OF d(5), of "last xs"] l(1) sp(1) by simp
  then have left: "(?q + load32 ?m1 ?q = ?cur) = True"
    unfolding sz using l(2) by (simp add: load32_bl node1_add)
  let ?s = "s\<lparr>mem := ?m2\<rparr>"
  have "mem_free ?cur (of_nat n) fp s = free_whole_pages ?cur fp ?s"
    unfolding mem_free_def Let_def gap' option.case prod.case free_whole_pages_def right left if_True if_False by simp
  moreover have "?m2 x = ?m1 x" if "x \<in> span ?cur 8" for x
  proof -
    have "x \<notin> span ?q 4" "x \<notin> span (?q + 4) 4" using that apart span8 [of ?q] by blast+
    then show ?thesis by (simp only: set_nxt_other store32_other not_False_eq_True)
  qed
  then have "load32 ?m2 ?cur = load32 ?m1 ?cur" "nxt ?m2 ?cur = nxt ?m1 ?cur"
    using span8 [of ?cur] by (auto intro!: load32_cong nxt_cong)
  moreover have "load32 ?m1 ?cur = load32 ?m ?cur"
    using bl.rd_set_nxt [of ?m ?cur ?p] unfolding bl_size_def by (rule word_unat_eqI)
  moreover have "?p = 0 \<or> (\<exists>f\<in>set bs. ?p = node 1 (fst f))" using sp(1) by (cases ys) auto
  ultimately show ?thesis by (intro exI [of _ ?s]) (simp add: set_nxt_same)
qed

text \<open>
  Freeing a request of fewer than four bytes: the block has \<open>n\<close> + 4 bytes, and \<open>cur->next\<close>, the word at
  the address handed out, reaches \<open>4 - n\<close> bytes beyond it.
\<close>

lemma kfree_tiny:
  assumes ok: "heap_ok lo ps bs s" and n: "unat n < 4" and lock: "unat (klock s) < 2 ^ 32 - 2"
    and k: "kalloc n s = Some (Inr (addr, s1))"
  shows "\<exists>s2 ps' bs'. kfree addr s1 = Some s2 \<and> heap_ok lo ps' bs' s1
    \<and> load32 (mem s2) addr \<in> insert 0 ((\<lambda>f. node 1 (fst f)) ` set bs')"
proof -
  let ?r = "unat n + 4"
  have n': "?r \<le> 65535 * 4096" using n by simp
  obtain a ps' bs' where ab: "abs_kalloc ?r ps bs = Some (a, ps', bs')"
    using kalloc_spec [OF ok n' lock] k by (cases "abs_kalloc ?r ps bs") auto
  then obtain bs1 where r: "addr = node 1 (a + 4)" "heap_ok lo ps' bs' s1" "load32 (mem s1) (node 1 a) = n"
    and okb: "ext_ok 8 (4096 * lo) (2 ^ 28) bs1" and t: "ext_take ?r 8 bs1 = Some (a, bs')"
    using kalloc_spec [OF ok n' lock] k by auto
  obtain xs e ys where e: "bs1 = xs @ e # ys" "?r + 8 \<le> snd e" "a = fst e + (snd e - ?r)"
    "bs' = xs @ (fst e, snd e - ?r) # ys"
    using t by (elim ext_take_split) auto
  have el: "(fst e, snd e - ?r) \<in> set bs'" "fst (fst e, snd e - ?r) + snd (fst e, snd e - ?r) = a"
    using e by simp_all
  have gap: "\<forall>f\<in>set bs'. fst f \<noteq> a + ?r"
  proof
    fix f assume f: "f \<in> set bs'"
    show "fst f \<noteq> a + ?r"
    proof
      assume eq: "fst f = a + ?r"
      then have "f \<in> set bs1" using f e by auto
      then have "fst f - 1 \<notin> ext_set bs1" by (rule ext_ok_start_gap [OF okb]) (simp add: eq)
      moreover have "fst f - 1 \<in> ext_set [e]" using eq e(2,3) by auto
      ultimately show False using e(1) by simp
    qed
  qed
  have "0 < ?r" by simp
  from mem_free_link [OF heap_okD(2) [OF r(2)] el this ext_take_bounds(2) [OF t okb] gap, of True]
  obtain s2 where s2: "mem_free (node 1 a) (of_nat ?r) True s1 = free_whole_pages (node 1 a) True s2"
    "load32 (mem s2) (node 1 a) = n"
    "nxt (mem s2) (node 1 a) = 0 \<or> (\<exists>f\<in>set bs'. nxt (mem s2) (node 1 a) = node 1 (fst f))"
    unfolding r(3) by blast
  have hdr: "node 1 (a + 4) - sizeof_blockheader = node 1 a"
    using node1_add [of a 4] by (simp add: sizeof_blockheader_def algebra_simps)
  have rs: "n + sizeof_blockheader = of_nat ?r" by (simp add: sizeof_blockheader_def)
  have "\<not> 4096 \<le> n" using n by (simp add: word_le_nat_alt)
  then have "kfree addr s1 = Some s2"
    unfolding kfree_def Let_def r(1) hdr r(3) rs s2(1) free_whole_pages_def s2(2) by simp
  moreover have "load32 (mem s2) addr = nxt (mem s2) (node 1 a)" using node1_add [of a 4] by (simp add: nxt_def r(1))
  ultimately show ?thesis using r(2) s2(3) by auto
qed

text \<open>
  Property C8.  kfree undoes kalloc for requests of 4 to 4095 bytes: freeing the address just returned
  terminates, leaves both lists well formed, and makes exactly the bytes free that were free before the
  allocation (whole pages that kalloc took for the block list stay there).  For a request \<open>n\<close> of fewer than 4
  bytes kfree is wrong: it stores a link of the free list, null or the address of a free block, in the
  word at the address, of which the last \<open>4 - n\<close> bytes lie beyond the block.  (From 4096 bytes on the freed
  block may contain a whole page, which mem_free then gives away twice: property C36.)
\<close>

theorem kalloc_kfree_roundtrip:
  assumes ok: "heap_ok lo ps bs s" and n: "unat n < 4096" and lock: "unat (klock s) < 2 ^ 32 - 2"
    and k: "kalloc n s = Some (Inr (addr, s1))"
  shows "\<exists>s2 ps' bs'. kfree addr s1 = Some s2
    \<and> (if 4 \<le> unat n
        then heap_ok lo ps' bs' s2 \<and> ext_bytes 4096 ps' \<union> ext_bytes 1 bs' = ext_bytes 4096 ps \<union> ext_bytes 1 bs
        else heap_ok lo ps' bs' s1 \<and> load32 (mem s2) addr \<in> insert 0 ((\<lambda>f. node 1 (fst f)) ` set bs'))"
proof (cases "4 \<le> unat n")
  case True
  then show ?thesis using kalloc_kfree [OF ok True n lock k refl refl refl] by auto
next
  case False
  then show ?thesis using kfree_tiny [OF ok _ lock k] by simp
qed

theorem kalloc_kfree_roundtrip_witness:
  "\<exists>addr s1 s2 ps' bs'. kalloc 100 four_pages = Some (Inr (addr, s1)) \<and> kfree addr s1 = Some s2
    \<and> heap_ok 256 ps' bs' s2
    \<and> ext_bytes 4096 ps' \<union> ext_bytes 1 bs' = ext_bytes 4096 [(256, 4)] \<union> ext_bytes 1 []"
proof -
  obtain s' where k: "kalloc 100 four_pages = Some (Inr (node 1 1064860, s'))" using four_pages_kalloc ..
  have n: "unat (100 :: u32) < 4096" "unat (klock four_pages) < 2 ^ 32 - 2" by (simp_all add: four_pages_sel)
  have "(4 :: nat) \<le> unat (100 :: u32)" by simp
  from kalloc_kfree_roundtrip [OF four_pages_heap n k, unfolded if_P [OF this]] k show ?thesis by blast
qed

section \<open>Freeing large blocks\<close>

lemma align_up: "(x + 4096 - 1) AND NOT (4096 - 1) = node 4096 ((unat x + 4095) div 4096)"
  if "unat x + 4095 < 2 ^ 32" for x :: u32
proof -
  define y where "y = x + 4095"
  have y: "unat y = unat x + 4095" unfolding y_def using that by (simp add: unat_add_nowrap)
  have mask: "(4095 :: u32) = mask 12" by (simp add: mask_eq_exp_minus_1)
  have "y AND NOT (mask 12) = push_bit 12 (drop_bit 12 y)"
    by (rule bit_word_eqI) (auto simp: bit_simps)
  also have "\<dots> = node 4096 (unat y div 4096)"
  proof (rule word_unat_eqI)
    have "unat y div 4096 * 4096 \<le> unat y" by simp
    then have b: "4096 * (unat y div 4096) < 4294967296" using unat_bounds(3) [of y] by linarith
    have "unat (drop_bit 12 y) = unat y div 4096" by (simp add: unat_drop_bit_eq drop_bit_eq_div unat_div_distrib)
    then have "unat (push_bit 12 (drop_bit 12 y)) = 4096 * (unat y div 4096)"
      using b by (simp add: push_bit_eq_mult unat_word_ariths mult.commute)
    then show "unat (push_bit 12 (drop_bit 12 y)) = unat (node 4096 (unat y div 4096))"
      using b unfolding node_def by (simp add: unat_of_nat_small del: of_nat_mult)
  qed
  finally show ?thesis unfolding y mask [symmetric] by (simp add: y_def add.commute)
qed

lemma release_keeps_blocks:
  assumes ok: "heap_ok lo ps bs s" and st: "heap_step (span (ph s + 4) 4 \<union> ext_bytes 4096 ps \<union> R) s s'"
    and nodes: "\<And>e. e \<in> set bs \<Longrightarrow> span (node 1 (fst e)) 8 \<inter> R = {}" and hd: "span (bh s) 8 \<inter> R = {}"
  shows "blocks_ok lo bs s'"
proof -
  note h = heap_okD [OF ok] and out = heads_outside [OF ok]
  note b = blocks_okD [OF h(2)]
  have hp: "span (ph s + 4) 4 \<subseteq> span (ph s) 8" using span8 by blast
  have A: "span (bh s) 8 \<inter> (span (ph s + 4) 4 \<union> ext_bytes 4096 ps \<union> R) = {}"
    using h(3) out(2) hd hp by blast
  have "nxt (mem s) (bh s) = nxt (mem s') (bh s)"
    by (rule nxt_cong, rule heap_step_mem [OF st, symmetric]) (use A span8 in blast)
  moreover have "load32 (mem s) (bh s) = load32 (mem s') (bh s)"
    by (rule load32_cong, rule heap_step_mem [OF st, symmetric]) (use A span8 in blast)
  moreover have "seg bl_size 1 (mem s) p bs 0 \<longleftrightarrow> seg bl_size 1 (mem s') p bs 0" for p
  proof (rule bl.seg_cong_nodes)
    fix e x assume e: "e \<in> set bs" and x: "x \<in> span (node 1 (fst e)) 8"
    have "x \<in> ext_bytes 1 [e]" using bl.node_span [of "snd e" "fst e"] ext_ok_mem [OF b(4) e] x by auto
    then have "x \<in> ext_bytes 1 bs" using e by (auto simp: ext_bytes_def ext_set_def)
    then have "x \<notin> span (ph s + 4) 4 \<union> ext_bytes 4096 ps \<union> R"
      using h(4) out(1) hp nodes [OF e] x by blast
    then show "mem s x = mem s' x" by (rule heap_step_mem [OF st, symmetric])
  qed
  ultimately show ?thesis using b heap_step_sel [OF st] by (simp add: blocks_ok_def)
qed

text \<open>
  The release of whole pages when the block has just been merged into the extent \<open>e\<close> below it.
\<close>

lemma whole_pages_inside:
  assumes ok: "heap_ok lo ps bs s" and e: "bs = xs @ e # ys"
    and a: "fst e + 8 \<le> a" "a + unat n \<le> fst e + snd e" and n: "8192 \<le> unat n"
    and sz: "load32 (mem s) (node 1 a) = n"
  shows "\<exists>s' ps'. free_whole_pages (node 1 a) True s = Some s' \<and> pages_ok lo ps' s' \<and> blocks_ok lo bs s'
    \<and> ext_bytes 4096 ps' \<inter> ext_bytes 1 bs \<noteq> {}"
proof -
  note h = heap_okD [OF ok]
  note b = blocks_okD [OF h(2)]
  have eb: "4096 * lo \<le> fst e" "fst e + snd e \<le> 2 ^ 28" using ext_ok_mem [OF b(4), of e] e by auto
  define p where "p = (a + 4095) div 4096"
  have "4096 * p + (a + 4095) mod 4096 = a + 4095" "(a + 4095) mod 4096 < 4096"
    unfolding p_def by (rule mult_div_mod_eq) simp
  then have p: "a \<le> 4096 * p" "4096 * p < a + 4096" by linarith+
  have ua: "unat (node 1 a) = a" using a eb n by (intro node1_unat) linarith
  have start: "(node 1 a + 4096 - 1) AND NOT (4096 - 1) = node 4096 p"
    using align_up [of "node 1 a"] a eb n unfolding ua p_def by simp
  have "fst e + snd e \<le> 268435456" using eb by simp
  then have p65: "p < 65536" using p(2) a n by linarith
  define w where "w = n - (node 4096 p - node 1 a)"
  have "unat (node 4096 p - node 1 a) = 4096 * p - a"
    using unat_sub_nowrap [of "node 1 a" "node 4096 p"] p(1) p65 by (simp add: ua node_page)
  then have w: "unat w = unat n - (4096 * p - a)"
    unfolding w_def using unat_sub_nowrap [of "node 4096 p - node 1 a" n] p n by simp
  define c where "c = unat (w div 4096)"
  have c: "c = (unat n - (4096 * p - a)) div 4096" unfolding c_def by (simp add: unat_div_distrib w)
  have "4096 \<le> unat n - (4096 * p - a)" using p n by linarith
  then have c1: "1 \<le> c" unfolding c by (simp add: less_eq_div_iff_mult_less_eq)
  have "4096 * c \<le> unat n - (4096 * p - a)" unfolding c by simp
  then have pc: "4096 * p + 4096 * c \<le> a + unat n" using p n by linarith
  have "4096 \<le> n" using n by (simp add: word_le_nat_alt)
  then have free: "free_whole_pages (node 1 a) True s = release_pages c (node 4096 p) s"
    unfolding free_whole_pages_def Let_def start sz w_def [symmetric] c_def [symmetric] by simp
  have inside: "{p * 4096..<p * 4096 + c * 4096} \<subseteq> {a..<a + unat n}" using p pc by auto
  have inb: "{a..<a + unat n} \<subseteq> ext_set bs" using a e by auto
  have dis: "{p..<p + c} \<inter> ext_set ps = {}"
  proof -
    have "q \<notin> ext_set ps" if "q \<in> {p..<p + c}" for q
    proof -
      have "q * 4096 \<in> {p * 4096..<p * 4096 + c * 4096}" using page_range [of "q * 4096" p c] that by simp
      then have "q * 4096 \<in> ext_set bs" using inside inb by blast
      moreover have "q * 4096 < 2 ^ 32" using that pc a eb by simp
      ultimately show ?thesis using bytes_apart [OF h(4), of "q * 4096"] by simp
    qed
    then show ?thesis by blast
  qed
  obtain ps' s' where rel: "release_pages c (node 4096 p) s = Some s'" "pages_ok lo ps' s'"
    "ext_set ps' = ext_set ps \<union> {p..<p + c}"
    "heap_step (span (ph s + 4) 4 \<union> ext_bytes 4096 ps \<union> ext_bytes 4096 [(p, c)]) s s'"
    using release_pages_spec [OF h(1) _ _ dis] p eb a pc by auto
  have R: "ext_bytes 4096 [(p, c)] \<subseteq> ext_bytes 1 [(a, unat n)]"
    unfolding ext_bytes_page using inside by (auto simp: ext_bytes_def)
  have "blocks_ok lo bs s'"
  proof (rule release_keeps_blocks [OF ok rel(4)])
    fix f assume f: "f \<in> set bs"
    have fb: "8 \<le> snd f" "fst f + snd f \<le> 2 ^ 28" using ext_ok_mem [OF b(4) f] by auto
    have ok': "ext_ok 8 (4096 * lo) (2 ^ 28) xs" "ext_end (4096 * lo) xs \<le> fst e"
      "ext_ok 8 (fst e + snd e + 1) (2 ^ 28) ys" using b(4) e by (simp_all add: ext_ok_append)
    have "fst f + 8 \<le> a \<or> a + unat n \<le> fst f"
      using f e a fb ext_ok_mem [OF ok'(3), of f] ext_ok_below [OF ok'(1), of f] ok'(2) by auto
    then have "ext_set [(fst f, 8)] \<inter> ext_set [(a, unat n)] = {}" by auto
    from ext_bytes_disjoint [OF this]
    show "span (node 1 (fst f)) 8 \<inter> ext_bytes 4096 [(p, c)] = {}"
      using bl.node_span [of 8 "fst f"] fb R by fastforce
  next
    have "span (bh s) 8 \<inter> ext_bytes 1 [(a, unat n)] = {}"
      by (rule bl.head_span [where lo = "4096 * lo"]) (use b(2) a eb in auto)
    then show "span (bh s) 8 \<inter> ext_bytes 4096 [(p, c)] = {}" using R by blast
  qed
  moreover have "node 4096 p \<in> ext_bytes 4096 ps' \<inter> ext_bytes 1 bs"
  proof -
    have "4096 * p \<in> ext_set bs" using inb p n by auto
    then show ?thesis using p65 c1 rel(3) by (simp add: ext_bytes_def node_page)
  qed
  ultimately show ?thesis using free rel(1,2) by auto
qed

text \<open>
  Property C36.  Freeing a block of 8 kilobytes or more breaks the separation of the two lists: mem_free
  hands the whole pages inside the block to the page allocator without taking them out of the block
  list, so that both lists are well formed but own common memory.
\<close>

theorem kfree_large_double_ownership:
  assumes ok: "heap_ok lo ps bs s" and n: "8192 \<le> unat n" "unat n + 4 \<le> 65535 * 4096"
    and lock: "unat (klock s) < 2 ^ 32 - 2" and k: "kalloc n s = Some (Inr (addr, s1))"
  shows "\<exists>s2 ps' bs'. kfree addr s1 = Some s2 \<and> pages_ok lo ps' s2 \<and> blocks_ok lo bs' s2
    \<and> ext_bytes 4096 ps' \<inter> ext_bytes 1 bs' \<noteq> {}"
proof -
  let ?r = "unat n + 4"
  obtain a ps1 bs1 where ab: "abs_kalloc ?r ps bs = Some (a, ps1, bs1)"
    using kalloc_spec [OF ok n(2) lock] k by (cases "abs_kalloc ?r ps bs") auto
  then obtain bs0 where r: "addr = node 1 (a + 4)" "heap_ok lo ps1 bs1 s1" "load32 (mem s1) (node 1 a) = n"
    and s: "abs_search ?r ps bs = Some (ps1, bs0)" and okb: "ext_ok 8 (4096 * lo) (2 ^ 28) bs0"
    and dis: "ext_bytes 4096 ps1 \<inter> ext_bytes 1 bs0 = {}" and t: "ext_take ?r 8 bs0 = Some (a, bs1)"
    using kalloc_spec [OF ok n(2) lock] k by auto
  obtain xs e ys where e: "bs0 = xs @ e # ys" "?r + 8 \<le> snd e" "a = fst e + (snd e - ?r)"
    "bs1 = xs @ (fst e, snd e - ?r) # ys"
    using t by (elim ext_take_split) auto
  have ins: "ext_insert a ?r bs1 = bs0" by (rule ext_take_insert [OF t okb]) (use n in simp_all)
  have "\<exists>f\<in>set bs1. fst f + snd f = a" using e by auto
  moreover have "{a..<a + ?r} \<inter> ext_set bs1 = {}" using ext_take_set [OF t okb] by auto
  ultimately obtain s2 where f: "mem_free (node 1 a) (of_nat ?r) True s1 = free_whole_pages (node 1 a) True s2"
    and b2: "blocks_ok lo bs0 s2" and sz: "load32 (mem s2) (node 1 a) = n"
    and only: "mem_only (span (bh s1 + 4) 4 \<union> ext_bytes 1 bs1 \<union> ext_bytes 1 [(a, ?r)]) s1 s2"
    using mem_free_spec [OF heap_okD(2) [OF r(2)] ext_take_bounds(1) [OF t okb] _ ext_take_bounds(2) [OF t okb], of True]
      n ins r(3) by auto
  note st = mem_only_step [OF only] and h = heap_okD [OF r(2)] and out = heads_outside [OF r(2)]
  have hp: "span (bh s1 + 4) 4 \<subseteq> span (bh s1) 8" using span8 by blast
  have b0: "ext_bytes 1 bs1 \<union> ext_bytes 1 [(a, ?r)] = ext_bytes 1 bs0"
    using ext_bytes_insert [of 1 a ?r bs1] ins by auto
  have oreg: "span (ph s1) 8 \<inter> ext_bytes 1 [(a, ?r)] = {}"
    by (rule bl.head_span [where lo = "4096 * lo"]) (use pages_okD [OF h(1)] ext_take_bounds(1) [OF t okb] in auto)
  have "pages_ok lo ps1 s2"
    by (rule pages_ok_frame [OF h(1) st]) (use h(3) dis out oreg hp b0 in blast)
  then have ok2: "heap_ok lo ps1 bs0 s2"
    using b2 h(3) dis heap_step_sel [OF st] by (simp add: heap_ok_def)
  have hdr: "node 1 (a + 4) - sizeof_blockheader = node 1 a"
    using node1_add [of a 4] by (simp add: sizeof_blockheader_def algebra_simps)
  have rs: "n + sizeof_blockheader = of_nat ?r" by (simp add: sizeof_blockheader_def)
  have "kfree addr s1 = free_whole_pages (node 1 a) True s2"
    unfolding kfree_def Let_def r(1) hdr r(3) rs f ..
  moreover have "fst e + 8 \<le> a" "a + unat n \<le> fst e + snd e" using e(2,3) by linarith+
  ultimately show ?thesis using whole_pages_inside [OF ok2 e(1) _ _ n(1) sz] ok2 by metis
qed

theorem kfree_large_double_ownership_witness:
  "\<exists>addr s1 s2 ps' bs'. kalloc 8192 four_pages = Some (Inr (addr, s1)) \<and> kfree addr s1 = Some s2
    \<and> pages_ok 256 ps' s2 \<and> blocks_ok 256 bs' s2 \<and> ext_bytes 4096 ps' \<inter> ext_bytes 1 bs' \<noteq> {}"
proof -
  have u: "unat (8192 :: u32) + 4 = 8196" by simp
  have "abs_kalloc 8196 [(256, 4)] [] = Some (1056764, [(256, 1)], [(1052672, 4092)])"
    by (simp add: abs_kalloc_def abs_search.simps pages_for_def ext_insert_def attach_def)
  then obtain s1 where k: "kalloc 8192 four_pages = Some (Inr (node 1 1056768, s1))"
    using kalloc_spec [OF four_pages_heap, of 8192] by (simp add: u four_pages_sel) blast
  have "8192 \<le> unat (8192 :: u32)" "unat (8192 :: u32) + 4 \<le> 65535 * 4096"
    "unat (klock four_pages) < 2 ^ 32 - 2" by (simp_all add: four_pages_sel)
  then show ?thesis using kfree_large_double_ownership [OF four_pages_heap _ _ _ k] k by blast
qed

end
