(* ===== verification/Format.thy ===== *)
theory Format
  imports Vsprintf
begin

text \<open>
  What the formatter of kernel/vsprintf.c computes: closed forms of its padding loops, the digits of a
  number as its radix expansion, \<open>number\<close> against a reference layout (sign, prefix, precision zeros,
  field fill), the round trip through the scanners, and the %s, %c and %d conversions of vsprintf.
\<close>

named_theorems loop_forms \<open>closed forms of the counted loops of the formatter\<close>

section \<open>Loops\<close>

lemma pad_while_eq [loop_forms]:
  "pad_while sz c = (replicate (nat sz) c, if 0 < sz then -1 else sz - 1)"
proof (induction sz c rule: pad_while.induct)
  case (1 sz c)
  show ?case
  proof (cases "0 < sz")
    case True
    then have "nat sz = Suc (nat (sz - 1))" by simp
    with True 1 show ?thesis by (subst pad_while.simps) auto
  qed (subst pad_while.simps, simp)
qed

lemma zero_while_eq [loop_forms]: "zero_while i p = replicate (nat (p - i)) (CHR ''0'')"
proof (induction i p rule: zero_while.induct)
  case (1 i p)
  show ?case
  proof (cases "i < p")
    case True
    then have "nat (p - i) = Suc (nat (p - 1 - i))" by simp
    with True 1 show ?thesis by (subst zero_while.simps) simp
  qed (subst zero_while.simps, simp)
qed

lemma pre_while_eq [loop_forms]: "pre_while w = (replicate (nat (w - 1)) (CHR '' ''), min 0 (w - 1))"
proof (induction w rule: pre_while.induct)
  case (1 w)
  show ?case
  proof (cases "0 < w - 1")
    case True
    then have "nat (w - 1) = Suc (nat (w - 2))" by simp
    with True 1 show ?thesis by (subst pre_while.simps) (auto simp: min_def)
  qed (subst pre_while.simps, simp)
qed

lemma post_while_eq [loop_forms]:
  "post_while len w = (replicate (nat (w - len)) (CHR '' ''), min len w - 1)"
proof (induction len w rule: post_while.induct)
  case (1 len w)
  show ?case
  proof (cases "len < w")
    case True
    then have "nat (w - len) = Suc (nat (w - 1 - len))" by simp
    with True 1 show ?thesis by (subst post_while.simps) (auto simp: min_def)
  qed (subst post_while.simps, simp)
qed

lemma emit_rev_eq [loop_forms]: "n \<le> length tmp \<Longrightarrow> emit_rev tmp n = rev (take n tmp)"
  by (induction tmp n rule: emit_rev.induct) (auto simp: take_Suc_conv_app_nth)

section \<open>Digits\<close>

text \<open>The digits of a number, least significant first.\<close>

fun radix :: "nat \<Rightarrow> nat \<Rightarrow> nat list" where
  "radix b n = (if n = 0 \<or> b < 2 then [] else n mod b # radix b (n div b))"

declare radix.simps [simp del]

lemma digit_loop_radix:
  "2 \<le> unat base \<Longrightarrow>
   digit_loop digits num base tmp = tmp @ map ((!) digits) (radix (unat base) (unat num))"
proof (induction digits num base tmp rule: digit_loop.induct)
  case (1 digits num base tmp)
  show ?case
  proof (cases "num = 0")
    case True
    then show ?thesis by (simp add: digit_loop.simps radix.simps)
  next
    case False
    then have "unat num \<noteq> 0" "base \<noteq> 0" using "1.prems" by (auto simp: unat_eq_zero)
    with False 1 show ?thesis
      by (subst digit_loop.simps, subst radix.simps) (simp add: Let_def do_div_correct)
  qed
qed

lemma radix_less: "d \<in> set (radix b n) \<Longrightarrow> d < b"
proof (induction b n rule: radix.induct)
  case (1 b n)
  then show ?case by (subst (asm) radix.simps) (auto split: if_splits)
qed

lemma radix_length: "n < b ^ k \<Longrightarrow> length (radix b n) \<le> k"
proof (induction k arbitrary: n)
  case 0
  then show ?case by (simp add: radix.simps)
next
  case (Suc k)
  then have "n div b < b ^ k" by (simp add: less_mult_imp_div_less mult.commute)
  then show ?case using Suc.IH by (subst radix.simps) simp
qed

lemma radix_Nil_iff: "2 \<le> b \<Longrightarrow> radix b n = [] \<longleftrightarrow> n = 0"
  by (subst radix.simps) auto

lemma digit_loop_length:
  assumes "2 \<le> unat base"
  shows "length (digit_loop digits num base []) \<le> 64"
proof -
  have "unat num < 2 ^ 64" by simp
  also have "(2 :: nat) ^ 64 \<le> unat base ^ 64" using assms by (rule power_mono) simp
  finally have "length (radix (unat base) (unat num)) \<le> 64" by (rule radix_length)
  then show ?thesis using assms by (simp add: digit_loop_radix)
qed

section \<open>The layout of a number\<close>

definition magnitude :: "u64 \<Rightarrow> u32 \<Rightarrow> nat" where
  "magnitude num type =
     (if type AND SIGN \<noteq> 0 \<and> sint num < 0 then nat (- sint num) else unat num)"

definition sign_text :: "u64 \<Rightarrow> u32 \<Rightarrow> string" where
  "sign_text num type =
     (if type AND SIGN = 0 then []
      else if sint num < 0 then ''-''
      else if type AND PLUS \<noteq> 0 then ''+''
      else if type AND SPACE \<noteq> 0 then '' '' else [])"

definition digit_chars :: "u32 \<Rightarrow> string" where
  "digit_chars type = (if type AND LARGE \<noteq> 0 then upper_digits else lower_digits)"

definition prefix_text :: "u32 \<Rightarrow> u32 \<Rightarrow> string" where
  "prefix_text base type =
     (if type AND SPECIAL = 0 then []
      else if base = 8 then ''0'' else if base = 16 then [CHR ''0'', digit_chars type ! 33] else [])"

definition body_text :: "u64 \<Rightarrow> u32 \<Rightarrow> u32 \<Rightarrow> string" where
  "body_text num base type =
     (if num = 0 then ''0''
      else map ((!) (digit_chars type)) (rev (radix (unat base) (magnitude num type))))"

definition layout :: "string \<Rightarrow> string \<Rightarrow> string \<Rightarrow> int \<Rightarrow> int \<Rightarrow> u32 \<Rightarrow> string" where
  "layout sign prefix body sz precision type =
     (let core = replicate (nat precision - length body) (CHR ''0'') @ body;
          fill = nat sz - length (sign @ prefix @ core)
      in if type AND LEFT \<noteq> 0 then sign @ prefix @ core @ replicate fill (CHR '' '')
         else if type AND ZEROPAD \<noteq> 0 then sign @ prefix @ replicate fill (CHR ''0'') @ core
         else replicate fill (CHR '' '') @ sign @ prefix @ core)"

lemma unat_uminus_neg:
  fixes num :: u64
  assumes "sint num < 0"
  shows "unat (- num) = nat (- sint num)"
proof -
  have ge: "- (2 ^ 63) \<le> sint num" using sint_greater_eq [of num] by simp
  have "- num = word_of_int (- sint num)" by simp
  then have "uint (- num) = take_bit 64 (- sint num)" by (simp only: uint_word_of_int_eq) simp
  also have "\<dots> = - sint num" using assms ge by (intro take_bit_int_eq_self) auto
  finally show ?thesis by (simp add: unat_eq_nat_uint)
qed

lemma flag_bits:
  fixes type :: u32
  shows "(type AND NOT ZEROPAD) AND LARGE = type AND LARGE"
    and "(type AND NOT ZEROPAD) AND LEFT = type AND LEFT"
    and "(type AND NOT ZEROPAD) AND SIGN = type AND SIGN"
    and "(type AND NOT ZEROPAD) AND PLUS = type AND PLUS"
    and "(type AND NOT ZEROPAD) AND SPACE = type AND SPACE"
    and "(type AND NOT ZEROPAD) AND SPECIAL = type AND SPECIAL"
    and "(type AND NOT ZEROPAD) AND ZEROPAD = 0"
    and "type AND (ZEROPAD + LEFT) = 0 \<longleftrightarrow> type AND ZEROPAD = 0 \<and> type AND LEFT = 0"
proof -
  have "ZEROPAD + LEFT = (ZEROPAD OR LEFT)" by (simp add: flag_defs)
  then have d: "type AND (ZEROPAD + LEFT) = (type AND ZEROPAD) OR (type AND LEFT)"
    by (simp add: bit.conj_disj_distrib)
  show "type AND (ZEROPAD + LEFT) = 0 \<longleftrightarrow> type AND ZEROPAD = 0 \<and> type AND LEFT = 0"
    unfolding d by (simp add: or_eq_0_iff)
qed (simp_all add: flag_defs and.assoc)

lemma number_sign_text:
  "number_sign num sz type =
     (if sign_text num type = [] then nul else hd (sign_text num type),
      if type AND SIGN \<noteq> 0 \<and> sint num < 0 then - num else num,
      sz - int (length (sign_text num type)))"
  by (simp add: number_sign_def sign_text_def)

lemma sign_text_zeropad [simp]: "sign_text num (type AND NOT ZEROPAD) = sign_text num type"
  by (simp add: sign_text_def flag_bits)

lemma magnitude_unat:
  "unat (if type AND SIGN \<noteq> 0 \<and> sint num < 0 then - num else num) = magnitude num type"
  by (simp add: magnitude_def unat_uminus_neg)

lemma sign_text_cases:
  "sign_text num type = [] \<or> (\<exists>c. sign_text num type = [c] \<and> c \<noteq> nul)"
  by (auto simp: sign_text_def nul_def)

lemma unat_ge_of_sint_ge:
  fixes w :: "'a::len word"
  assumes "int k \<le> sint w" and "0 \<le> sint w"
  shows "k \<le> unat w"
  using assms(1) uint_eq_sint [OF assms(2)] by (simp add: unat_eq_nat_uint)

lemma number_body:
  assumes "2 \<le> unat base"
    and "n = (if type AND SIGN \<noteq> 0 \<and> sint num < 0 then - num else num)"
    and "tmp = (if n = 0 then ''0'' else digit_loop (digit_chars type) n base [])"
  shows "rev tmp = body_text num base type"
proof -
  have "n = 0 \<longleftrightarrow> num = 0" and "unat n = magnitude num type"
    using assms(2) by (auto simp: magnitude_unat)
  then show ?thesis using assms(1,3) by (simp add: body_text_def digit_loop_radix rev_map)
qed

lemma emit_number_layout:
  assumes "S = [] \<and> sign = nul \<or> S = [sign] \<and> sign \<noteq> nul"
    and "z = sz - int (length S) - int (length prefix)"
    and "type' = (if type AND LEFT \<noteq> 0 then type AND NOT ZEROPAD else type)"
  shows "emit_number (if type' AND ZEROPAD \<noteq> 0 then CHR ''0'' else CHR '' '') sign prefix tmp z precision type' =
    layout S prefix (rev tmp) sz precision type"
proof -
  define p where "p = max (int (length tmp)) precision"
  have p: "(if int (length tmp) > precision then int (length tmp) else precision) = p"
    by (simp add: p_def)
  have core: "nat (p - int (length tmp)) = nat precision - length tmp" by (simp add: p_def)
  have fill: "nat (z - p) = nat sz - (length S + (length prefix + (nat precision - length tmp + length tmp)))"
    using assms(2) by (simp add: p_def)
  have sgn: "(if sign \<noteq> nul then [sign] else []) = S" using assms(1) by auto
  have neg: "nat (if 0 < y then -1 else y - 1) = 0" for y :: int by simp
  show ?thesis
    using assms(3)
    by (cases "type AND LEFT = 0"; cases "type AND ZEROPAD = 0")
      (simp_all only: emit_number_def layout_def Let_def p sgn loop_forms flag_bits order_refl
        if_True if_False simp_thms prod.case take_all core fill length_append length_replicate length_rev
        neg replicate_0 append_Nil append_Nil2 append_assoc)
qed

lemma number_layout:
  assumes "2 \<le> sint base" and "sint base \<le> 36"
  shows "number num base sz precision type =
    Some (layout (sign_text num type) (prefix_text base type) (body_text num base type) sz precision type)"
proof -
  define n where "n = (if type AND SIGN \<noteq> 0 \<and> sint num < 0 then - num else num)"
  define tmp where "tmp = (if n = 0 then ''0'' else digit_loop (digit_chars type) n base [])"
  define type' where "type' = (if type AND LEFT \<noteq> 0 then type AND NOT ZEROPAD else type)"
  define sign where "sign = (if sign_text num type = [] then nul else hd (sign_text num type))"
  have b: "2 \<le> unat base" using assms(1) by (intro unat_ge_of_sint_ge) auto
  have body: "rev tmp = body_text num base type" using number_body [OF b n_def tmp_def] .
  have sgn: "sign_text num type = [] \<and> sign = nul \<or> sign_text num type = [sign] \<and> sign \<noteq> nul"
    using sign_text_cases [of num type] by (auto simp: sign_def)
  have s: "number_sign num sz type' = (sign, n, sz - int (length (sign_text num type)))"
    by (simp add: number_sign_text type'_def sign_def n_def flag_bits)
  have special: "type' AND SPECIAL = type AND SPECIAL" by (simp add: type'_def flag_bits)
  have room: "(if type AND SPECIAL \<noteq> 0 then if base = 16 then z - 2 else if base = 8 then z - 1 else z else z)
      = z - int (length (prefix_text base type))" for z
    by (auto simp: prefix_text_def)
  have pre: "(if type AND SPECIAL \<noteq> 0 then if base = 8 then ''0''
      else if base = 16 then [CHR ''0'', digit_chars type ! 33] else [] else []) = prefix_text base type"
    by (simp add: prefix_text_def)
  have r: "(sint base < 2 \<or> 36 < sint base) = False" using assms by simp
  show ?thesis
    unfolding number_def digit_chars_def [symmetric] type'_def [symmetric] Let_def r s if_False prod.case
      special room pre tmp_def [symmetric]
    using emit_number_layout [OF sgn refl type'_def] by (simp add: body)
qed

lemma layout_length:
  "length (layout S prefix body sz precision type) =
    max (nat sz) (length S + length prefix + max (nat precision) (length body))"
  by (simp add: layout_def Let_def max_def)

text \<open>
  The assembly division \<open>do_div\<close>, which divides a 64-bit number by a 32-bit base in two
  32-bit steps, computes the quotient and the remainder of the 64-bit division, for every dividend and
  every base other than 0.
\<close>

theorem do_div_is_division:
  assumes "base \<noteq> 0"
  shows "do_div n base = (n div ucast base, ucast (n mod ucast base))"
proof -
  have u: "unat (ucast base :: u64) = unat base" by (simp add: unat_ucast_up)
  have "unat n mod unat base < unat base" using assms by (simp add: unat_gt_0)
  then have "unat n mod unat base < 2 ^ 32" using less_trans [OF _ unat_bounds(3) [of base]] by simp
  moreover have "unat (n mod ucast base) = unat n mod unat base" by (simp only: unat_mod u)
  ultimately have "unat (ucast (n mod ucast base) :: u32) = unat n mod unat base"
    by (simp only: unsigned_ucast_eq) (simp add: take_bit_nat_eq_self)
  then show ?thesis
    using do_div_correct [OF assms, of n]
    by (simp add: prod_eq_iff word_unat_eq_iff unat_div u)
qed

theorem do_div_is_division_witness:
  "do_div 0xFEDCBA9876543210 36 = (0xFEDCBA9876543210 div 36, ucast ((0xFEDCBA9876543210 :: u64) mod 36))"
  using do_div_is_division [of 36 "0xFEDCBA9876543210"] by simp

text \<open>
  For every base from 2 to 36, \<open>number\<close> writes exactly as many characters as the larger of
  the field width and the room its sign, its prefix and its digits (padded to the precision) need, and
  the digits it stores in its local buffer never exceed the 66 bytes of that buffer.
\<close>

theorem number_length:
  assumes "2 \<le> sint base" and "sint base \<le> 36"
  shows "\<exists>s. number num base sz precision type = Some s \<and>
      length s = max (nat sz) (length (sign_text num type) + length (prefix_text base type) +
        max (nat precision) (length (body_text num base type))) \<and>
      length (body_text num base type) \<le> 66"
proof -
  have b: "2 \<le> unat base" using assms(1) by (intro unat_ge_of_sint_ge) auto
  define n where "n = (if type AND SIGN \<noteq> 0 \<and> sint num < 0 then - num else num)"
  have "length (body_text num base type)
      = length (if n = 0 then ''0'' else digit_loop (digit_chars type) n base [])"
    using number_body [OF b n_def refl] by (metis length_rev)
  also have "\<dots> \<le> 64" using digit_loop_length [OF b, of "digit_chars type" n] by simp
  finally have "length (body_text num base type) \<le> 66" by simp
  then show ?thesis using assms by (simp add: number_layout layout_length)
qed

theorem number_length_witness:
  "\<exists>s. number (-255) 16 12 4 (SIGN OR SPECIAL) = Some s \<and>
      length s = max (nat 12) (length (sign_text (-255) (SIGN OR SPECIAL))
        + length (prefix_text 16 (SIGN OR SPECIAL))
        + max (nat 4) (length (body_text (-255) 16 (SIGN OR SPECIAL)))) \<and>
      length (body_text (-255) 16 (SIGN OR SPECIAL)) \<le> 66"
  by (rule number_length) simp_all

section \<open>Reading a printed number back\<close>

lemma digit_chars_value:
  assumes "d < 16"
  shows "isxdigit (digit_chars type ! d)" and "hexval (digit_chars type ! d) = d"
proof -
  have "list_all (\<lambda>d. isxdigit (cs ! d) \<and> hexval (cs ! d) = d) [0,1,2,3,4,5,6,7,8,9,10,11,12,13,14,15]"
    if "cs = lower_digits \<or> cs = upper_digits" for cs
    using that
    by (elim disjE) (simp_all add: lower_digits_def upper_digits_def isxdigit_iff hexval_def byte_of_def)
  moreover have "digit_chars type = lower_digits \<or> digit_chars type = upper_digits"
    by (simp add: digit_chars_def)
  moreover have "d \<in> set [0,1,2,3,4,5,6,7,8,9,10,11,12,13,14,15]" using assms by (simp; arith)
  ultimately show "isxdigit (digit_chars type ! d)" and "hexval (digit_chars type ! d) = d"
    by (auto simp only: list_all_iff)
qed

lemma is_digit_digit_chars: "d < b \<Longrightarrow> b \<le> 16 \<Longrightarrow> is_digit b (digit_chars type ! d)"
  by (simp add: is_digit_def digit_chars_value)

lemma positional_radix:
  "2 \<le> b \<Longrightarrow> b \<le> 16 \<Longrightarrow> positional b (map ((!) (digit_chars type)) (rev (radix b n))) = n"
proof (induction b n rule: radix.induct)
  case (1 b n)
  have "n mod b < 16" using "1.prems" by (meson less_le_trans mod_less_divisor order_less_le_trans zero_less_numeral)
  then show ?case using 1 by (subst radix.simps) (simp add: digit_chars_value)
qed

lemma positional_zeros: "positional b (replicate k (CHR ''0'') @ ds) = positional b ds"
proof -
  have "hexval (CHR ''0'') = 0" by (simp add: hexval_def byte_of_def)
  then have "foldl (\<lambda>a c. a * b + hexval c) 0 (replicate k (CHR ''0'')) = 0"
    by (induction k) simp_all
  then show ?thesis by (simp add: positional_def)
qed

lemma zero_is_digit: "2 \<le> b \<Longrightarrow> is_digit b (CHR ''0'')"
  by (simp add: is_digit_def isxdigit_iff hexval_def byte_of_def)

lemma body_text_digits:
  assumes "2 \<le> unat base" and "unat base \<le> 16"
  shows "list_all (is_digit (unat base)) (body_text num base type)"
    and "positional (unat base) (body_text num base type) = magnitude num type"
proof -
  have "magnitude 0 type = 0" by (simp add: magnitude_def)
  then show "positional (unat base) (body_text num base type) = magnitude num type"
    using assms positional_zeros [of "unat base" 1 "[]"]
    by (simp add: body_text_def positional_radix)
  show "list_all (is_digit (unat base)) (body_text num base type)"
    using assms radix_less
    by (auto simp: body_text_def list_all_iff zero_is_digit intro!: is_digit_digit_chars)
qed

lemma scan_digits:
  assumes "list_all (is_digit b) ds" and "\<not> is_digit b (peek rest)"
  shows "takeWhile (is_digit b) (ds @ rest) = ds" and "dropWhile (is_digit b) (ds @ rest) = rest"
  using assms by (cases rest; simp add: list_all_iff)+

lemma magnitude_unsigned: "type AND SIGN = 0 \<Longrightarrow> of_nat (magnitude num type) = num"
  by (simp add: magnitude_def)

lemma magnitude_signed:
  "type AND SIGN \<noteq> 0 \<Longrightarrow> of_nat (magnitude num type) = (if sint num < 0 then - num else num)"
  by (simp only: magnitude_unat [symmetric] of_nat_unat ucast_id) simp

lemma sint_base_range:
  fixes base :: u32
  assumes "2 \<le> unat base" and "unat base \<le> 36"
  shows "2 \<le> sint base \<and> sint base \<le> 36"
proof -
  obtain k where k: "uint base = k" "2 \<le> k" "k \<le> 36"
    using assms by (metis of_nat_le_iff of_nat_numeral uint_nat)
  have "signed_take_bit 31 k = k" by (rule signed_take_bit_int_eq_self) (use k in simp_all)
  moreover have "LENGTH(32) - Suc 0 = 31" by simp
  ultimately have "sint base = k" using sint_uint [of base] by (simp only: k(1))
  then show ?thesis using k by simp
qed

lemma layout_right_digits:
  assumes "type AND LEFT = 0" and "type AND ZEROPAD \<noteq> 0 \<or> sz \<le> 0"
  shows "\<exists>k. layout sign [] body sz precision type = sign @ replicate k (CHR ''0'') @ body"
proof (cases "type AND ZEROPAD = 0")
  case True
  then have "nat sz = 0" using assms(2) by simp
  then show ?thesis using assms(1) True by (auto simp: layout_def)
next
  case False
  then have "layout sign [] body sz precision type = sign @ replicate
      (nat sz - (length sign + (nat precision - length body + length body)) + (nat precision - length body))
      (CHR ''0'') @ body"
    using assms(1) by (simp add: layout_def Let_def replicate_add)
  then show ?thesis by blast
qed

lemma strtoull_zeros_body:
  assumes "2 \<le> unat base" and "unat base \<le> 16" and "\<not> is_digit (unat base) (peek rest)"
  shows "simple_strtoull ((replicate k (CHR ''0'') @ body_text num base type) @ rest) base =
    (of_nat (magnitude num type), rest)"
proof -
  have "list_all (is_digit (unat base)) (replicate k (CHR ''0'') @ body_text num base type)"
    using body_text_digits(1) [OF assms(1,2)] zero_is_digit [OF assms(1)] by (auto simp: list_all_iff)
  note scan = scan_digits [OF this assms(3)]
  have "base \<noteq> 0" using assms(1) by auto
  from simple_strtoull_eq [OF this] show ?thesis
    by (simp only: scan positional_zeros body_text_digits(2) [OF assms(1,2)])
qed

text \<open>
  Printing an unsigned number with \<open>number\<close> in a base from 2 to 16, with zero padding or
  without a field width and with any precision, and reading the text back with \<open>simple_strtoull\<close> in
  the same base gives the number, and the scan stops where the text ends.
\<close>

theorem number_strtoull_roundtrip:
  assumes "2 \<le> unat base" and "unat base \<le> 16"
    and "type AND SIGN = 0" and "type AND SPECIAL = 0" and "type AND LEFT = 0"
    and "type AND ZEROPAD \<noteq> 0 \<or> sz \<le> 0"
    and "number num base sz precision type = Some s"
    and "\<not> is_digit (unat base) (peek rest)"
  shows "simple_strtoull (s @ rest) base = (num, rest)"
proof -
  have "2 \<le> sint base \<and> sint base \<le> 36" using assms(1,2) by (intro sint_base_range) linarith+
  moreover have "sign_text num type = []" "prefix_text base type = []"
    using assms(3,4) by (simp_all add: sign_text_def prefix_text_def)
  ultimately have "s = layout [] [] (body_text num base type) sz precision type"
    using assms(7) by (simp add: number_layout)
  then obtain k where "s = replicate k (CHR ''0'') @ body_text num base type"
    using layout_right_digits [OF assms(5,6), of "[]"] by auto
  then show ?thesis
    using assms strtoull_zeros_body [of base rest k num type] by (simp add: magnitude_unsigned)
qed

theorem number_strtoull_roundtrip_witness:
  "number 3735928559 16 8 (-1) ZEROPAD = Some ''deadbeef''
   \<and> simple_strtoull (''deadbeef'' @ '' rest'') 16 = (3735928559, '' rest'')"
proof -
  have n: "number 3735928559 16 8 (-1) ZEROPAD = Some ''deadbeef''"
    by (simp add: number_layout layout_def sign_text_def prefix_text_def body_text_def digit_chars_def
        magnitude_def radix.simps lower_digits_def flag_defs)
  show ?thesis
    using n number_strtoull_roundtrip [OF _ _ _ _ _ _ n, of "'' rest''"]
    by (simp add: flag_defs is_digit_def isxdigit_iff byte_of_def)
qed

section \<open>Formats built from simple conversions\<close>

text \<open>
  The formats the kernel uses are sequences of literal text and a few conversions.  \<open>piece\<close> is such a
  format element together with its argument, \<open>piece_text\<close> what it should print.
\<close>

datatype piece = Lit string | Dec u32 | LDec u32 | Unsg u32 | LUnsg u32 | Hex u32 | LHex u32 | Hex8 u32 | Hex4 u32
  | Text "string option" | Chr u32
  | Dec_i u32 | LDec_i u32 | LDec01 u32 | LUnsg02 u32 | Oct u32 | Ptr u32 | Hex02 u32 | Hex08 u32 | HHex08 u32
  | Text10 "string option" | Text12 "string option" | Dbl

text \<open>
  %f is not a conversion of this vsprintf: it is printed as it stands and takes no argument, so it is of use
  only as the last one of a call, whose double is then left over.
\<close>

definition digits_text :: "nat \<Rightarrow> nat \<Rightarrow> string" where
  "digits_text b n = (if n = 0 then ''0'' else map ((!) lower_digits) (rev (radix b n)))"

definition dec_text :: "int \<Rightarrow> string" where
  "dec_text i = (if i < 0 then ''-'' else []) @ digits_text 10 (nat \<bar>i\<bar>)"

fun piece_fmt :: "piece \<Rightarrow> string" where
  "piece_fmt (Lit l) = l"
| "piece_fmt (Dec w) = ''%d''"
| "piece_fmt (LDec w) = ''%ld''"
| "piece_fmt (Unsg w) = ''%u''"
| "piece_fmt (Hex w) = ''%x''"
| "piece_fmt (LUnsg w) = ''%lu''"
| "piece_fmt (LHex w) = ''%lx''"
| "piece_fmt (Hex8 w) = ''%08lx''"
| "piece_fmt (Hex4 w) = ''%04lx''"
| "piece_fmt (Text s) = ''%s''"
| "piece_fmt (Chr w) = ''%c''"
| "piece_fmt (Dec_i w) = ''%i''"
| "piece_fmt (LDec_i w) = ''%li''"
| "piece_fmt (LDec01 w) = ''%01ld''"
| "piece_fmt (LUnsg02 w) = ''%02lu''"
| "piece_fmt (Oct w) = ''%o''"
| "piece_fmt (Ptr w) = ''%p''"
| "piece_fmt (Hex02 w) = ''%02x''"
| "piece_fmt (Hex08 w) = ''%08x''"
| "piece_fmt (HHex08 w) = ''%08hx''"
| "piece_fmt (Text10 s) = ''%.10s''"
| "piece_fmt (Text12 s) = ''%12.12s''"
| "piece_fmt Dbl = ''%f''"

fun piece_args :: "piece \<Rightarrow> varg list" where
  "piece_args (Lit l) = []"
| "piece_args (Text s) = [VStr s]"
| "piece_args (Dec w) = [VInt w]"
| "piece_args (LDec w) = [VInt w]"
| "piece_args (Unsg w) = [VInt w]"
| "piece_args (Hex w) = [VInt w]"
| "piece_args (LUnsg w) = [VInt w]"
| "piece_args (LHex w) = [VInt w]"
| "piece_args (Hex8 w) = [VInt w]"
| "piece_args (Hex4 w) = [VInt w]"
| "piece_args (Chr w) = [VInt w]"
| "piece_args (Dec_i w) = [VInt w]"
| "piece_args (LDec_i w) = [VInt w]"
| "piece_args (LDec01 w) = [VInt w]"
| "piece_args (LUnsg02 w) = [VInt w]"
| "piece_args (Oct w) = [VInt w]"
| "piece_args (Ptr w) = [VInt w]"
| "piece_args (Hex02 w) = [VInt w]"
| "piece_args (Hex08 w) = [VInt w]"
| "piece_args (HHex08 w) = [VInt w]"
| "piece_args (Text10 s) = [VStr s]"
| "piece_args (Text12 s) = [VStr s]"
| "piece_args Dbl = []"

text \<open>Zeros on the left up to \<open>k\<close> characters; the text of a string argument.\<close>

definition zero_pad :: "nat \<Rightarrow> string \<Rightarrow> string" where
  "zero_pad k t = replicate (k - length t) (CHR ''0'') @ t"

definition string_text :: "string option \<Rightarrow> string" where
  "string_text s = (case s of None \<Rightarrow> ''<NULL>'' | Some t \<Rightarrow> t)"

fun piece_text :: "piece \<Rightarrow> string" where
  "piece_text (Lit l) = l"
| "piece_text (Dec w) = dec_text (sint w)"
| "piece_text (LDec w) = dec_text (sint w)"
| "piece_text (Unsg w) = digits_text 10 (unat w)"
| "piece_text (Hex w) = digits_text 16 (unat w)"
| "piece_text (LUnsg w) = digits_text 10 (unat w)"
| "piece_text (LHex w) = digits_text 16 (unat w)"
| "piece_text (Hex8 w) = (let t = digits_text 16 (unat w) in replicate (8 - length t) (CHR ''0'') @ t)"
| "piece_text (Hex4 w) = (let t = digits_text 16 (unat w) in replicate (4 - length t) (CHR ''0'') @ t)"
| "piece_text (Text s) = (case s of None \<Rightarrow> ''<NULL>'' | Some t \<Rightarrow> t)"
| "piece_text (Chr w) = [char_of (unat (ucast w :: u8))]"
| "piece_text (Dec_i w) = dec_text (sint w)"
| "piece_text (LDec_i w) = dec_text (sint w)"
| "piece_text (LDec01 w) = dec_text (sint w)"
| "piece_text (LUnsg02 w) = zero_pad 2 (digits_text 10 (unat w))"
| "piece_text (Oct w) = digits_text 8 (unat w)"
| "piece_text (Ptr w) = zero_pad 8 (digits_text 16 (unat w))"
| "piece_text (Hex02 w) = zero_pad 2 (digits_text 16 (unat w))"
| "piece_text (Hex08 w) = zero_pad 8 (digits_text 16 (unat w))"
| "piece_text (HHex08 w) = zero_pad 8 (digits_text 16 (unat w mod 2 ^ 16))"
| "piece_text (Text10 s) = take 10 (string_text s)"
| "piece_text (Text12 s) = (let t = take 12 (string_text s) in replicate (12 - length t) (CHR '' '') @ t)"
| "piece_text Dbl = ''%f''"

fun piece_ok :: "piece \<Rightarrow> bool" where
  "piece_ok (Lit l) = (list_all (\<lambda>c. c \<noteq> CHR ''%'' \<and> c \<noteq> nul) l)"
| "piece_ok (Text (Some t)) = (list_all (\<lambda>c. c \<noteq> nul) t \<and> length t < 2 ^ 32)"
| "piece_ok (Text10 (Some t)) = list_all (\<lambda>c. c \<noteq> nul) t"
| "piece_ok (Text12 (Some t)) = list_all (\<lambda>c. c \<noteq> nul) t"
| "piece_ok _ = True"

lemma vsp_literal:
  "list_all (\<lambda>c. c \<noteq> CHR ''%'' \<and> c \<noteq> nul) l \<Longrightarrow>
   vsp n (l @ fmt) args = map_option (\<lambda>(out, st). (l @ out, st)) (vsp (n + length l) fmt args)"
  by (induction l arbitrary: n) (auto simp: map_option_case split: option.splits)

lemma char_classes [simp]:
  "isdigit (CHR ''0'')" "isdigit (CHR ''4'')" "isdigit (CHR ''8'')" "\<not> isdigit (CHR ''d'')" "\<not> isdigit (CHR ''l'')"
  "\<not> isdigit (CHR ''u'')" "\<not> isdigit (CHR ''x'')" "\<not> isdigit (CHR ''s'')" "\<not> isdigit (CHR ''c'')"
  "isdigit (CHR ''1'')" "isdigit (CHR ''2'')" "\<not> isdigit (CHR ''i'')" "\<not> isdigit (CHR ''o'')" "\<not> isdigit (CHR ''p'')"
  "\<not> isdigit (CHR ''h'')" "\<not> isdigit (CHR ''f'')" "\<not> isdigit (CHR ''.'')"
  by (simp_all add: isdigit_iff byte_of_def)

lemma strnlen_min: "list_all (\<lambda>c. c \<noteq> nul) t \<Longrightarrow> strnlen t count = min (length t) (unat count)"
proof (induction t count rule: strnlen.induct)
  case (2 c cs count)
  show ?case
  proof (cases "count = 0")
    case False
    then have "unat (count - 1) = unat count - 1" "0 < unat count" by (simp_all add: unat_minus_one unat_gt_0)
    then show ?thesis using 2 False by (auto simp: min_def)
  qed simp
qed simp

lemma strnlen_full:
  "list_all (\<lambda>c. c \<noteq> nul) t \<Longrightarrow> length t \<le> unat count \<Longrightarrow> strnlen t count = length t"
  by (simp add: strnlen_min)

lemma sint_scast_long: "sint (scast (w :: u32) :: u64) = sint w"
  by (rule sint_up_scast) (simp add: is_up.rep_eq)

lemma number_plain:
  assumes "2 \<le> unat base" and "unat base \<le> 36" and "type AND LARGE = 0"
    and "type AND SPECIAL = 0" and "type AND LEFT = 0" and "type AND ZEROPAD \<noteq> 0 \<or> sz \<le> 0"
  shows "number num base sz (-1) type =
    Some (sign_text num type @
      (let t = digits_text (unat base) (magnitude num type)
       in replicate (nat sz - length (sign_text num type) - length t) (CHR ''0'') @ t))"
proof -
  have "magnitude num type = 0 \<longleftrightarrow> num = 0"
    unfolding magnitude_unat [symmetric] by (simp add: unat_eq_zero)
  then have "body_text num base type = digits_text (unat base) (magnitude num type)"
    using assms(3) by (simp add: body_text_def digits_text_def digit_chars_def)
  moreover have "2 \<le> sint base \<and> sint base \<le> 36" using assms(1,2) by (rule sint_base_range)
  ultimately show ?thesis
    using assms(4-6) by (auto simp: number_layout layout_def prefix_text_def Let_def)
qed

lemma number_dec:
  fixes w :: u32
  shows "number (scast w) 10 (-1) (-1) SIGN = Some (dec_text (sint w))"
    and "number (ucast w) 10 (-1) (-1) 0 = Some (digits_text 10 (unat w))"
    and "number (ucast w) 16 (-1) (-1) 0 = Some (digits_text 16 (unat w))"
    and "number (ucast w) 16 8 (-1) ZEROPAD =
      Some (let t = digits_text 16 (unat w) in replicate (8 - length t) (CHR ''0'') @ t)"
    and "number (ucast w) 16 4 (-1) ZEROPAD =
      Some (let t = digits_text 16 (unat w) in replicate (4 - length t) (CHR ''0'') @ t)"
proof -
  have u: "unat (ucast w :: u64) = unat w" by (simp add: unat_ucast_up)
  have m: "magnitude (scast w) SIGN = nat \<bar>sint w\<bar>"
  proof (cases "sint w < 0")
    case False
    then have "uint (scast w :: u64) = sint w"
      using uint_eq_sint [of "scast w :: u64"] by (simp add: sint_scast_long)
    with False show ?thesis by (simp add: magnitude_def sint_scast_long unat_eq_nat_uint)
  qed (simp add: magnitude_def sint_scast_long flag_defs)
  show "number (scast w) 10 (-1) (-1) SIGN = Some (dec_text (sint w))"
    using number_plain [of 10 SIGN "-1" "scast w"] m
    by (simp add: flag_defs sign_text_def dec_text_def sint_scast_long)
  show "number (ucast w) 10 (-1) (-1) 0 = Some (digits_text 10 (unat w))"
    and "number (ucast w) 16 (-1) (-1) 0 = Some (digits_text 16 (unat w))"
    and "number (ucast w) 16 8 (-1) ZEROPAD =
      Some (let t = digits_text 16 (unat w) in replicate (8 - length t) (CHR ''0'') @ t)"
    and "number (ucast w) 16 4 (-1) ZEROPAD =
      Some (let t = digits_text 16 (unat w) in replicate (4 - length t) (CHR ''0'') @ t)"
    using u by (simp_all add: number_plain magnitude_def sign_text_def flag_defs)
qed

lemma number_more:
  fixes w :: u32
  shows "number (ucast w) 8 (-1) (-1) 0 = Some (digits_text 8 (unat w))"
    and "number (ucast w) 10 2 (-1) ZEROPAD = Some (zero_pad 2 (digits_text 10 (unat w)))"
    and "number (ucast w) 16 2 (-1) ZEROPAD = Some (zero_pad 2 (digits_text 16 (unat w)))"
    and "number (ucast w) 16 8 (-1) ZEROPAD = Some (zero_pad 8 (digits_text 16 (unat w)))"
    and "number (ucast (ucast w :: u16)) 16 8 (-1) ZEROPAD = Some (zero_pad 8 (digits_text 16 (unat w mod 65536)))"
    and "number (scast w) 10 1 (-1) (ZEROPAD OR SIGN) = Some (dec_text (sint w))"
proof -
  have "unat (ucast w :: u16) = unat w mod 65536" by (simp add: unsigned_ucast_eq take_bit_eq_mod)
  then have u: "unat (ucast w :: u64) = unat w" "unat (ucast (ucast w :: u16) :: u64) = unat w mod 65536"
    by (simp_all add: unat_ucast_up)
  show "number (ucast w) 8 (-1) (-1) 0 = Some (digits_text 8 (unat w))"
    and "number (ucast w) 10 2 (-1) ZEROPAD = Some (zero_pad 2 (digits_text 10 (unat w)))"
    and "number (ucast w) 16 2 (-1) ZEROPAD = Some (zero_pad 2 (digits_text 16 (unat w)))"
    and "number (ucast w) 16 8 (-1) ZEROPAD = Some (zero_pad 8 (digits_text 16 (unat w)))"
    and "number (ucast (ucast w :: u16)) 16 8 (-1) ZEROPAD = Some (zero_pad 8 (digits_text 16 (unat w mod 65536)))"
    using u by (simp_all add: number_plain magnitude_def sign_text_def flag_defs zero_pad_def Let_def)
  have m: "magnitude (scast w) (ZEROPAD OR SIGN) = nat \<bar>sint w\<bar>"
  proof (cases "sint w < 0")
    case False
    then have "uint (scast w :: u64) = sint w"
      using uint_eq_sint [of "scast w :: u64"] by (simp add: sint_scast_long)
    with False show ?thesis by (simp add: magnitude_def sint_scast_long unat_eq_nat_uint)
  qed (simp add: magnitude_def sint_scast_long flag_defs)
  have "digits_text 10 n \<noteq> []" for n by (simp add: digits_text_def radix_Nil_iff)
  then have "Suc 0 - length (digits_text 10 n) = 0" for n by (cases "digits_text 10 n") simp_all
  then show "number (scast w) 10 1 (-1) (ZEROPAD OR SIGN) = Some (dec_text (sint w))"
    using number_plain [of 10 "ZEROPAD OR SIGN" 1 "scast w"] m
    by (simp add: flag_defs sign_text_def dec_text_def sint_scast_long Let_def)
qed

lemmas convert_simps = convert_def conversion_def parse_width_def parse_precision_def
  parse_qualifier_def fetch_num_def number_dec loop_forms

lemma sign_set: "SIGN \<noteq> 0" "SIGN AND SIGN \<noteq> 0" "(0 :: u32) OR SIGN = SIGN" "(0 :: u32) AND x = 0"
  "(0 :: u32) OR ZEROPAD = ZEROPAD" "ZEROPAD AND SIGN = 0" "ZEROPAD AND LEFT = 0"
  by (simp_all add: flag_defs)

lemma convert_int:
  "convert n (CHR ''d'' # fmt) (VInt w # args) = Some (dec_text (sint w), [], fmt, args)"
  "convert n (CHR ''l'' # CHR ''d'' # fmt) (VInt w # args) = Some (dec_text (sint w), [], fmt, args)"
  "convert n (CHR ''u'' # fmt) (VInt w # args) = Some (digits_text 10 (unat w), [], fmt, args)"
  "convert n (CHR ''x'' # fmt) (VInt w # args) = Some (digits_text 16 (unat w), [], fmt, args)"
  "convert n (CHR ''0'' # CHR ''8'' # CHR ''l'' # CHR ''x'' # fmt) (VInt w # args) =
     Some (let t = digits_text 16 (unat w) in replicate (8 - length t) (CHR ''0'') @ t, [], fmt, args)"
  "convert n (CHR ''0'' # CHR ''4'' # CHR ''l'' # CHR ''x'' # fmt) (VInt w # args) =
     Some (let t = digits_text 16 (unat w) in replicate (4 - length t) (CHR ''0'') @ t, [], fmt, args)"
  "convert n (CHR ''l'' # CHR ''u'' # fmt) (VInt w # args) = Some (digits_text 10 (unat w), [], fmt, args)"
  "convert n (CHR ''l'' # CHR ''x'' # fmt) (VInt w # args) = Some (digits_text 16 (unat w), [], fmt, args)"
  "convert n (CHR ''c'' # fmt) (VInt w # args) = Some ([char_of (unat (ucast w :: u8))], [], fmt, args)"
  by (simp_all add: convert_simps sign_set skip_atoi_def char_val_def byte_of_def s32_id int_range_def nul_def)

lemma zeropad_sign: "ZEROPAD OR SIGN \<noteq> 0" "(ZEROPAD OR SIGN) AND SIGN \<noteq> 0" "(0 :: u32) AND SIGN = 0"
  by (simp_all add: flag_defs)

lemma convert_more:
  "convert n (CHR ''i'' # fmt) (VInt w # args) = Some (dec_text (sint w), [], fmt, args)"
  "convert n (CHR ''l'' # CHR ''i'' # fmt) (VInt w # args) = Some (dec_text (sint w), [], fmt, args)"
  "convert n (CHR ''0'' # CHR ''1'' # CHR ''l'' # CHR ''d'' # fmt) (VInt w # args) = Some (dec_text (sint w), [], fmt, args)"
  "convert n (CHR ''0'' # CHR ''2'' # CHR ''l'' # CHR ''u'' # fmt) (VInt w # args) =
     Some (zero_pad 2 (digits_text 10 (unat w)), [], fmt, args)"
  "convert n (CHR ''o'' # fmt) (VInt w # args) = Some (digits_text 8 (unat w), [], fmt, args)"
  "convert n (CHR ''p'' # fmt) (VInt w # args) = Some (zero_pad 8 (digits_text 16 (unat w)), [], fmt, args)"
  "convert n (CHR ''0'' # CHR ''2'' # CHR ''x'' # fmt) (VInt w # args) =
     Some (zero_pad 2 (digits_text 16 (unat w)), [], fmt, args)"
  "convert n (CHR ''0'' # CHR ''8'' # CHR ''x'' # fmt) (VInt w # args) =
     Some (zero_pad 8 (digits_text 16 (unat w)), [], fmt, args)"
  "convert n (CHR ''0'' # CHR ''8'' # CHR ''h'' # CHR ''x'' # fmt) (VInt w # args) =
     Some (zero_pad 8 (digits_text 16 (unat w mod 65536)), [], fmt, args)"
  "convert n (CHR ''f'' # fmt) args = Some (''%f'', [], fmt, args)"
  by (simp_all add: convert_simps number_more sign_set zeropad_sign skip_atoi_def char_val_def byte_of_def s32_id
      int_range_def nul_def zero_pad_def Let_def)

lemma take_min_length: "take (min (length xs) n) xs = take n xs"
  by (simp add: min_def)

lemma string_cut: "piece_ok (Text10 s) \<Longrightarrow> strnlen (string_text s) 10 = min (length (string_text s)) 10"
    "piece_ok (Text12 s) \<Longrightarrow> strnlen (string_text s) 12 = min (length (string_text s)) 12"
  by (cases s; simp add: string_text_def strnlen_min nul_def)+

lemma convert_cut:
  "piece_ok (Text10 s) \<Longrightarrow> convert n (CHR ''.'' # CHR ''1'' # CHR ''0'' # CHR ''s'' # fmt) (VStr s # args) =
     Some (take 10 (string_text s), [], fmt, args)"
  "piece_ok (Text12 s) \<Longrightarrow>
   convert n (CHR ''1'' # CHR ''2'' # CHR ''.'' # CHR ''1'' # CHR ''2'' # CHR ''s'' # fmt) (VStr s # args) =
     Some (let t = take 12 (string_text s) in replicate (12 - length t) (CHR '' '') @ t, [], fmt, args)"
proof -
  note cut = convert_simps sign_set skip_atoi_def char_val_def byte_of_def s32_id int_range_def nul_def
    string_text_def [symmetric] take_min_length
  show "piece_ok (Text10 s) \<Longrightarrow> convert n (CHR ''.'' # CHR ''1'' # CHR ''0'' # CHR ''s'' # fmt) (VStr s # args) =
     Some (take 10 (string_text s), [], fmt, args)"
    by (simp add: cut string_cut Let_def)
  show "piece_ok (Text12 s) \<Longrightarrow>
   convert n (CHR ''1'' # CHR ''2'' # CHR ''.'' # CHR ''1'' # CHR ''2'' # CHR ''s'' # fmt) (VStr s # args) =
     Some (let t = take 12 (string_text s) in replicate (12 - length t) (CHR '' '') @ t, [], fmt, args)"
    by (simp add: cut string_cut Let_def)
qed

lemma convert_string:
  "convert n (CHR ''s'' # fmt) (VStr None # args) = Some (''<NULL>'', [], fmt, args)"
  "piece_ok (Text (Some t)) \<Longrightarrow>
     convert n (CHR ''s'' # fmt) (VStr (Some t) # args) = Some (t, [], fmt, args)"
proof -
  show "convert n (CHR ''s'' # fmt) (VStr None # args) = Some (''<NULL>'', [], fmt, args)"
    by (simp add: convert_simps sign_set nul_def)
  assume "piece_ok (Text (Some t))"
  moreover have "unat (-1 :: u32) = 4294967295" by (simp add: unsigned_minus_1_eq_mask mask_eq_exp_minus_1)
  ultimately have "strnlen t (-1) = length t" by (intro strnlen_full) auto
  then show "convert n (CHR ''s'' # fmt) (VStr (Some t) # args) = Some (t, [], fmt, args)"
    by (simp add: convert_simps sign_set nul_def)
qed

lemma vsp_piece:
  assumes "piece_ok p"
  shows "vsp n (piece_fmt p @ fmt) (piece_args p @ args) =
    map_option (\<lambda>(out, st). (piece_text p @ out, st)) (vsp (n + length (piece_text p)) fmt args)"
  using assms
  by (cases p rule: piece_text.cases)
    (auto simp: vsp_literal convert_int convert_more convert_cut convert_string nul_def split: option.splits)

lemma vsp_pieces_extra:
  "list_all piece_ok ps \<Longrightarrow>
   vsp n (concat (map piece_fmt ps)) (concat (map piece_args ps) @ extra) =
     Some (concat (map piece_text ps), [])"
proof (induction ps arbitrary: n)
  case (Cons p ps)
  then have "piece_ok p" by simp
  from vsp_piece [OF this] Cons show ?case by simp
qed simp

lemmas vsp_pieces = vsp_pieces_extra [where extra = "[]", unfolded append_Nil2]

text \<open>
  Property C15. For every format made of literal text and the conversions %d, %i, %ld, %li, %01ld, %u, %lu,
  %02lu, %o, %x, %02x, %08x, %lx, %04lx, %08lx, %08hx, %p, %s, %.10s, %12.12s and %c, with arguments of the
  matching kinds, and of %f, \<open>vsprintf\<close> stores the concatenation of the literal texts and of the renderings of
  the arguments (decimal, octal, hexadecimal, zero-padded, a string whole, cut, or cut and set to the right),
  then a NUL, returns the number of characters before the NUL and makes no other store.  %f is left as it
  stands.  Arguments beyond the last conversion are ignored.
\<close>

theorem vsprintf_pieces:
  assumes "list_all piece_ok ps"
  shows "vsprintf (concat (map piece_fmt ps)) (concat (map piece_args ps) @ extra) =
    Some (concat (map piece_text ps) @ [nul], int (length (concat (map piece_text ps))), [])"
  using assms by (simp add: vsprintf_def vsp_pieces_extra)

theorem vsprintf_pieces_witness:
  "vsprintf ''Task %d (%p): %.10s %02x%f'' [VInt (-7), VInt 48879, VStr (Some ''initialisation''), VInt 5, VLL 0] =
    Some (''Task -7 (0000beef): initialisa 05%f'' @ [nul], 35, [])"
proof -
  let ?ps = "[Lit ''Task '', Dec (-7), Lit '' ('', Ptr 48879, Lit ''): '', Text10 (Some ''initialisation''), Lit '' '',
    Hex02 5, Dbl]"
  have "list_all piece_ok ?ps" by (simp add: nul_def)
  moreover have "replicate 4 (CHR ''0'') = ''0000''" by (simp add: numeral_eq_Suc)
  ultimately show ?thesis
    using vsprintf_pieces [of ?ps "[VLL 0]"]
    by (simp add: dec_text_def digits_text_def radix.simps lower_digits_def zero_pad_def string_text_def)
qed

lemma digits_text_digits:
  assumes "2 \<le> b" and "b \<le> 16"
  shows "list_all (is_digit b) (digits_text b n)" and "positional b (digits_text b n) = n"
proof -
  have d: "digit_chars 0 = lower_digits" by (simp add: digit_chars_def)
  show "positional b (digits_text b n) = n"
    using positional_radix [OF assms, of 0 n] positional_zeros [of b 1 "[]"]
    by (simp add: digits_text_def d)
  show "list_all (is_digit b) (digits_text b n)"
    using assms is_digit_digit_chars [of _ b 0] radix_less zero_is_digit
    by (auto simp: digits_text_def list_all_iff d)
qed

lemma strtoul_digits:
  assumes "2 \<le> unat base" and "unat base \<le> 16" and "\<not> is_digit (unat base) (peek rest)"
  shows "simple_strtoul (digits_text (unat base) n @ rest) base = (of_nat n, rest)"
proof -
  have "base \<noteq> 0" using assms(1) by auto
  from simple_strtoul_eq [OF this] show ?thesis
    by (simp only: scan_digits [OF digits_text_digits(1) [OF assms(1,2)] assms(3)] digits_text_digits(2) [OF assms(1,2)])
qed

lemma peek_append: "xs \<noteq> [] \<Longrightarrow> peek (xs @ ys) = peek xs"
  by (cases xs) simp_all

lemma digits_text_peek:
  assumes "2 \<le> b" and "b \<le> 16"
  shows "digits_text b n \<noteq> []" and "peek (digits_text b n) \<noteq> CHR ''-''"
proof -
  show ne: "digits_text b n \<noteq> []" using assms by (simp add: digits_text_def radix_Nil_iff)
  then have "peek (digits_text b n) \<in> set (digits_text b n)" by (cases "digits_text b n") simp_all
  then have "is_digit b (peek (digits_text b n))"
    using digits_text_digits(1) [OF assms] by (auto simp: list_all_iff)
  moreover have "\<not> is_digit b (CHR ''-'')" by (simp add: is_digit_def isxdigit_iff byte_of_def)
  ultimately show "peek (digits_text b n) \<noteq> CHR ''-''" by auto
qed

lemma simple_strtol_dec_text:
  assumes "\<not> is_digit 10 (peek rest)"
  shows "simple_strtol (dec_text (sint w) @ rest) 10 = (w, rest)"
proof (cases "sint w < 0")
  case True
  then have "of_nat (nat \<bar>sint w\<bar>) = - w" by simp
  then show ?thesis
    using True strtoul_digits [of 10 rest "nat \<bar>sint w\<bar>"] assms
    by (simp add: simple_strtol_def dec_text_def)
next
  case False
  then have "of_nat (nat \<bar>sint w\<bar>) = w" by simp
  then show ?thesis
    using False strtoul_digits [of 10 rest "nat \<bar>sint w\<bar>"] assms digits_text_peek [of 10]
    by (simp add: simple_strtol_def dec_text_def peek_append)
qed

text \<open>
  What %d prints for any C int, the most negative one included, is read back by
  \<open>simple_strtol\<close> in base 10 as the same int, and the scan stops where the text ends.
\<close>

theorem strtol_of_printed_int:
  assumes "vsprintf ''%d'' [VInt w] = Some (out, len, st)" and "\<not> is_digit 10 (peek rest)"
  shows "simple_strtol (butlast out @ rest) 10 = (w, rest)"
proof -
  have "butlast out = dec_text (sint w)"
    using assms(1) vsp_pieces [of "[Dec w]" 0] by (auto simp: vsprintf_def)
  then show ?thesis using simple_strtol_dec_text [OF assms(2)] by simp
qed

theorem strtol_of_printed_int_witness:
  "vsprintf ''%d'' [VInt 2147483648] = Some (''-2147483648'' @ [nul], 11, [])
   \<and> simple_strtol (''-2147483648'' @ '',1'') 10 = (2147483648, '',1'')"
proof -
  have p: "vsprintf ''%d'' [VInt 2147483648] = Some (''-2147483648'' @ [nul], 11, [])"
    using vsp_pieces [of "[Dec 2147483648]" 0]
    by (simp add: vsprintf_def dec_text_def digits_text_def radix.simps lower_digits_def)
  have "\<not> is_digit 10 (peek '',1'')" by (simp add: is_digit_def isxdigit_iff byte_of_def)
  from strtol_of_printed_int [OF p this] p show ?thesis by simp
qed

end
