(* ===== verification/Task.thy ===== *)
theory Task
  imports Links Kalloc Format
begin

text \<open>
  kernel/task.c and include/kernel/task.h: tasks, the run list, wait queues and the scheduler.  Tasks
  live in a typed store from addresses to records; every pointer of the source is an address.  The
  stack of a new task and the text screen are bytes of the machine's memory.
\<close>

declare One_nat_def [simp del]

section \<open>Tasks and the state of the scheduler\<close>

datatype tstate = TASK_RUNNING | TASK_INTERRUPTABLE | TASK_UNINTERRUPTABLE

text \<open>\<open>tname\<close> is the string \<open>name\<close> points to.\<close>

record task =
  timeslice :: u32
  ttime :: u32
  pid :: u32
  tname :: string
  esp :: u32
  ss :: u32
  regs :: u32
  task_next :: u32
  need_resched :: u32
  task_prev :: u32
  run_next :: u32
  run_prev :: u32
  state :: tstate
  queue :: u32
  queue_next :: u32
  queue_prev :: u32

text \<open>
  \<open>idle\<close> is the address of the static \<open>idle_task\<close>, \<open>restore\<close> that of the assembly entry of that name;
  \<open>qfirst q\<close> is the field \<open>first\<close> of the queue at \<open>q\<close>.  \<open>switches\<close> is the sequence of the calls of
  \<open>switch_to\<close> that change the stack, as pairs of the next and the previous task.  \<open>saved_if t\<close> is the
  interrupt flag in the word of flags at the bottom of the frame of a task that is not running: what its
  \<open>iret\<close> will load.
\<close>

record ktask = kmem +
  tsk :: "task store"
  current :: u32
  idle :: u32
  qfirst :: "u32 \<Rightarrow> u32"
  video_init :: bool
  debug_phase :: u32
  restore :: u32
  switches :: "(u32 \<times> u32) list"
  jiffies :: u32
  saved_if :: "u32 \<Rightarrow> bool"

definition at_task :: "u32 \<Rightarrow> (task \<Rightarrow> task) \<Rightarrow> 'a ktask_scheme \<Rightarrow> 'a ktask_scheme" where
  "at_task t f s = s\<lparr>tsk := edit t f (tsk s)\<rparr>"

definition set_first :: "u32 \<Rightarrow> u32 \<Rightarrow> 'a ktask_scheme \<Rightarrow> 'a ktask_scheme" where
  "set_first q t s = s\<lparr>qfirst := (qfirst s)(q := t)\<rparr>"

abbreviation put_run_next :: "u32 \<Rightarrow> task \<Rightarrow> task" where "put_run_next v \<equiv> run_next_update (\<lambda>_. v)"
abbreviation put_run_prev :: "u32 \<Rightarrow> task \<Rightarrow> task" where "put_run_prev v \<equiv> run_prev_update (\<lambda>_. v)"
abbreviation put_task_next :: "u32 \<Rightarrow> task \<Rightarrow> task" where "put_task_next v \<equiv> task_next_update (\<lambda>_. v)"
abbreviation put_task_prev :: "u32 \<Rightarrow> task \<Rightarrow> task" where "put_task_prev v \<equiv> task_prev_update (\<lambda>_. v)"
abbreviation put_queue_next :: "u32 \<Rightarrow> task \<Rightarrow> task" where "put_queue_next v \<equiv> queue_next_update (\<lambda>_. v)"
abbreviation put_queue_prev :: "u32 \<Rightarrow> task \<Rightarrow> task" where "put_queue_prev v \<equiv> queue_prev_update (\<lambda>_. v)"
abbreviation put_state :: "tstate \<Rightarrow> task \<Rightarrow> task" where "put_state v \<equiv> state_update (\<lambda>_. v)"
abbreviation put_need_resched :: "u32 \<Rightarrow> task \<Rightarrow> task" where "put_need_resched v \<equiv> need_resched_update (\<lambda>_. v)"

definition idle_task_init :: task where
  "idle_task_init = \<lparr>timeslice = 0, ttime = 0, pid = 0, tname = ''idle'', esp = 0, ss = 0, regs = 0,
     task_next = 0, need_resched = 1, task_prev = 0, run_next = 0, run_prev = 0,
     state = TASK_RUNNING, queue = 0, queue_next = 0, queue_prev = 0\<rparr>"

section \<open>The status line\<close>

text \<open>\<open>vidmem[i]\<close> is the 16-bit cell \<open>i\<close> of the text screen.\<close>

definition vidmem :: "nat \<Rightarrow> u32" where
  "vidmem i = 0xb8000 + 2 * of_nat i"

function blank_line :: "nat \<Rightarrow> mem \<Rightarrow> mem" where
  "blank_line i m =
     (if i < 79
      then blank_line (i + 1) (store16 m (vidmem (80 * 24 + i)) (word_of_int (char_val (CHR '' '') + 0x1700)))
      else m)"
  by pat_completeness auto
termination by (relation "measure (\<lambda>(i, m). 79 - i)") auto

text \<open>The two loops that copy a message; they differ in the column \<open>off\<close> they start at.\<close>

function put_msg :: "nat \<Rightarrow> string \<Rightarrow> nat \<Rightarrow> mem \<Rightarrow> nat \<times> mem" where
  "put_msg off msg i m =
     (if peek msg \<noteq> nul \<and> i < 50
      then put_msg off (tl msg) (i + 1)
             (store16 m (vidmem (80 * 24 + i + off)) (word_of_int (char_val (peek msg) + 0x1700)))
      else (i, m))"
  by pat_completeness auto
termination by (relation "measure (\<lambda>(off, msg, i, m). 50 - i)") auto

declare blank_line.simps [simp del] put_msg.simps [simp del]

definition update_status :: "u32 \<Rightarrow> u32 \<Rightarrow> 'a ktask_scheme \<Rightarrow> 'a ktask_scheme option" where
  "update_status next' prev s =
     (if \<not> video_init s then Some s
      else case sprintf ''[%d] %li <%08x> %s''
                  [VInt (debug_phase s), VInt (pid (tsk s next')), VInt (current s),
                   VStr (Some (tname (tsk s next')))] of
        None \<Rightarrow> None
      | Some (msg2, _, _) \<Rightarrow>
          if 50 < length msg2 then None
          else
            (let m = store16 (mem s) (vidmem (80 * 24 + 0)) (16 + 0x1e00);
                 m = store16 m (vidmem (80 * 24 + 79)) (17 + 0x1e00);
                 m = blank_line 1 m;
                 (i, m) = put_msg 1 ''Kernel operational '' 0 m;
                 m = store16 m (vidmem (80 * 24 + i + 1)) (179 + 0x1000);
                 (_, m) = put_msg 42 msg2 0 m
             in Some (s\<lparr>mem := m\<rparr>)))"

section \<open>The scheduler\<close>

definition switch_to :: "u32 \<Rightarrow> u32 \<Rightarrow> 'a ktask_scheme \<Rightarrow> 'a ktask_scheme" where
  "switch_to next' prev s = (if next' = prev then s else s\<lparr>switches := switches s @ [(next', prev)]\<rparr>)"

text \<open>\<open>if (prev->state != TASK_RUNNING) ... else ...\<close>\<close>

definition leave_cpu :: "u32 \<Rightarrow> 'a ktask_scheme \<Rightarrow> 'a ktask_scheme" where
  "leave_cpu prev s =
     (if state (tsk s prev) \<noteq> TASK_RUNNING
      then
        (let s = at_task (run_prev (tsk s prev)) (put_run_next (run_next (tsk s prev))) s;
             s = at_task (run_next (tsk s prev)) (put_run_prev (run_prev (tsk s prev))) s;
             s = at_task prev (put_run_next 0) s
         in at_task prev (put_run_prev 0) s)
      else
        (let s = at_task prev (put_need_resched 0) s
         in at_task prev (timeslice_update (\<lambda>_. 100)) s))"

text \<open>The part of \<open>schedule\<close> between lock_kernel and unlock_kernel: the task chosen, and the state.\<close>

definition schedule_locked :: "'a ktask_scheme \<Rightarrow> u32 \<times> 'a ktask_scheme" where
  "schedule_locked s =
     (let prev = current s;
          s = lock_kernel s;
          next' = run_next (tsk s prev);
          s = leave_cpu prev s;
          s = say (kern_debug @ ''%x %.10s %lx'' @ newline)
                [VInt next', VStr (Some (tname (tsk s next'))), VInt (run_next (tsk s next'))] s;
          next' = (if prev = idle s \<or> next' = idle s
                   then if run_next (tsk s (idle s)) \<noteq> 0 then run_next (tsk s (idle s)) else idle s
                   else next');
          s = s\<lparr>current := next'\<rparr>;
          s = say (kern_debug @ ''Schedule: %x, _kernel_lock: %ld, next->0x10: %lx, next->0x14: %lx'' @ newline)
                [VInt (current s), VInt (klock s), VInt (esp (tsk s next')), VInt (ss (tsk s next'))] s;
          s = say (kern_debug @ ''  next=%lx, prev=%lx'' @ newline) [VInt next', VInt prev] s
      in (next', unlock_kernel s))"

definition schedule :: "'a ktask_scheme \<Rightarrow> 'a ktask_scheme option" where
  "schedule s =
     (let prev = current s;
          (next', s) = schedule_locked s
      in case update_status next' prev s of
           None \<Rightarrow> None
         | Some s \<Rightarrow> Some (switch_to next' prev s))"

section \<open>Wait queues\<close>

definition queue_init :: "u32 \<Rightarrow> 'a ktask_scheme \<Rightarrow> 'a ktask_scheme" where
  "queue_init q s = set_first q 0 s"

definition do_block :: "u32 \<Rightarrow> 'a ktask_scheme \<Rightarrow> 'a ktask_scheme" where
  "do_block q s =
     (let cur = current s;
          s = at_task cur (put_state TASK_INTERRUPTABLE) s;
          s = at_task cur (put_need_resched 1) s;
          s = at_task cur (queue_update (\<lambda>_. q)) s;
          s = say (kern_debug @ ''Blocking %ld on queue %x'' @ newline) [VInt (pid (tsk s cur)), VInt q] s;
          s = (if qfirst s q = 0 then set_first q cur s
               else
                 (let first = qfirst s q
                  in if queue_next (tsk s first) = 0
                     then
                       (let s = at_task first (put_queue_next cur) s;
                            s = at_task first (put_queue_prev cur) s;
                            s = at_task cur (put_queue_next first) s
                        in at_task cur (put_queue_prev first) s)
                     else
                       (let s = at_task (queue_prev (tsk s first)) (put_queue_next cur) s;
                            s = at_task cur (put_queue_prev (queue_prev (tsk s first))) s;
                            s = at_task first (put_queue_prev cur) s
                        in at_task cur (put_queue_next first) s)));
          flags = (if intr s then 0x200 else 0)
      in say (kern_debug @ ''do_block: _kernel_lock=%ld %01ld'' @ newline) [VInt (klock s), VInt flags] s)"

definition wake_up :: "u32 \<Rightarrow> 'a ktask_scheme \<Rightarrow> 'a ktask_scheme" where
  "wake_up t s =
     (let s = lock_kernel s;
          s = at_task t (put_state TASK_RUNNING) s;
          s = (if run_next (tsk s (idle s)) = 0
               then
                 (let s = at_task (idle s) (put_run_next t) s;
                      s = at_task (idle s) (put_run_prev t) s;
                      s = at_task t (put_run_next (idle s)) s
                  in at_task t (put_run_prev (idle s)) s)
               else
                 (let s = at_task (run_prev (tsk s (idle s))) (put_run_next t) s;
                      s = at_task t (put_run_prev (run_prev (tsk s (idle s)))) s;
                      s = at_task (idle s) (put_run_prev t) s
                  in at_task t (put_run_next (idle s)) s))
      in unlock_kernel s)"

partial_function (option) wake_loop :: "u32 \<Rightarrow> u32 \<Rightarrow> 'a ktask_scheme \<Rightarrow> 'a ktask_scheme option" where
  "wake_loop q t s =
     (if t = 0 then Some s
      else
        (let s = say (kern_debug @ ''Waking %ld on queue %x'' @ newline) [VInt (pid (tsk s t)), VInt q] s;
             next' = queue_next (tsk s t);
             s = at_task t (put_queue_prev 0) s;
             s = at_task t (put_queue_next 0) s;
             s = wake_up t s
         in if next' = qfirst s q then Some s else wake_loop q next' s))"

definition wake_up_queue :: "u32 \<Rightarrow> 'a ktask_scheme \<Rightarrow> 'a ktask_scheme option" where
  "wake_up_queue q s =
     (let s = lock_kernel s;
          t = qfirst s q;
          s = say (kern_debug @ ''Waking all on queue %x'' @ newline) [VInt q] s
      in case wake_loop q t s of
           None \<Rightarrow> None
         | Some s \<Rightarrow> Some (unlock_kernel (set_first q 0 s)))"

text \<open>
  The flags word that pushf or the processor puts below the frame of the current task, and \<open>iret\<close>, which
  loads the one of the task that runs on.  (UNLOCK_KERNEL tries to set the interrupt flag in that word, but
  ors 0x20, a reserved bit, and not 0x200: the flag stays as it was saved.)
\<close>

definition push_flags :: "'a ktask_scheme \<Rightarrow> 'a ktask_scheme" where
  "push_flags s = s\<lparr>saved_if := (saved_if s)(current s := intr s)\<rparr>"

definition iret :: "'a ktask_scheme \<Rightarrow> 'a ktask_scheme" where
  "iret s = s\<lparr>intr := saved_if s (current s)\<rparr>"

text \<open>
  \<open>block\<close> of kernel/entry.S, up to the point where the task chosen by \<open>schedule\<close> runs on: whichever way
  that task left the processor, and also when it has never run, it returns through UNLOCK_KERNEL and \<open>iret\<close>.
\<close>

definition block :: "u32 \<Rightarrow> 'a ktask_scheme \<Rightarrow> 'a ktask_scheme option" where
  "block q s = map_option (\<lambda>s. iret (unlock_kernel s)) (schedule (do_block q (lock_kernel (push_flags s))))"

section \<open>New tasks\<close>

definition sizeof_task :: u32 where "sizeof_task = 64"
definition sizeof_task_regs :: u32 where "sizeof_task_regs = 60"

text \<open>The three words on top of the new stack: the argument frame of \<open>switch_to\<close> and \<open>restore\<close>.\<close>

definition init_stack :: "u32 \<Rightarrow> 'a ktask_scheme \<Rightarrow> 'a ktask_scheme" where
  "init_stack sp s =
     (let m = store32 (mem s) (sp + 8) 0;
          m = store32 m (sp + 4) (restore s);
          m = store32 m (sp + 0) 0
      in s\<lparr>mem := m\<rparr>)"

definition init_task :: "u32 \<Rightarrow> u32 \<Rightarrow> string \<Rightarrow> u32 \<Rightarrow> u32 \<Rightarrow> 'a ktask_scheme \<Rightarrow> 'a ktask_scheme" where
  "init_task t pid' name' sp rs s =
     (let s = at_task t (timeslice_update (\<lambda>_. 100)) s;
          s = at_task t (ttime_update (\<lambda>_. 0)) s;
          s = at_task t (pid_update (\<lambda>_. pid')) s;
          s = at_task t (tname_update (\<lambda>_. name')) s;
          s = at_task t (esp_update (\<lambda>_. sp)) s;
          s = at_task t (ss_update (\<lambda>_. 0x18)) s;
          s = at_task t (regs_update (\<lambda>_. rs)) s;
          s = at_task t (put_task_next 0) s;
          s = at_task t (put_task_prev 0) s;
          s = at_task t (put_run_next 0) s;
          s = at_task t (put_run_prev 0) s;
          s = at_task t (put_state TASK_RUNNING) s;
          s = at_task t (queue_update (\<lambda>_. 0)) s;
          s = at_task t (put_queue_next 0) s
      in at_task t (put_queue_prev 0) s)"

definition link_task :: "u32 \<Rightarrow> 'a ktask_scheme \<Rightarrow> 'a ktask_scheme" where
  "link_task t s =
     (if task_next (tsk s (idle s)) = 0
      then
        (let s = at_task (idle s) (put_task_next t) s;
             s = at_task (idle s) (put_task_prev t) s;
             s = at_task t (put_task_next (idle s)) s
         in at_task t (put_task_prev (idle s)) s)
      else
        (let s = at_task (task_prev (tsk s (idle s))) (put_task_next t) s;
             s = at_task t (put_task_prev (task_prev (tsk s (idle s)))) s;
             s = at_task (idle s) (put_task_prev t) s
         in at_task t (put_task_next (idle s)) s))"

definition link_run :: "u32 \<Rightarrow> u32 \<Rightarrow> 'a ktask_scheme \<Rightarrow> 'a ktask_scheme" where
  "link_run pid' t s =
     (if run_next (tsk s (idle s)) = 0
      then
        (let s = say (kern_debug @ ''Create process %ld idle_task.run_next == 0'' @ newline) [VInt pid'] s;
             s = at_task (idle s) (put_run_next t) s;
             s = at_task (idle s) (put_run_prev t) s;
             s = at_task t (put_run_next (idle s)) s
         in at_task t (put_run_prev (idle s)) s)
      else
        (let s = at_task (run_prev (tsk s (idle s))) (put_run_next t) s;
             s = at_task t (put_run_prev (run_prev (tsk s (idle s)))) s;
             s = at_task (idle s) (put_run_prev t) s;
             s = at_task t (put_run_next (idle s)) s
         in say (kern_debug @ ''Create process %ld idle_task.run_next != 0 t->run_next=%lx t=%lx'' @ newline)
              [VInt pid', VInt (run_next (tsk s t)), VInt t] s))"

text \<open>The registers the new task is to start with; the offsets are those of \<open>struct task_regs\<close>.\<close>

definition first_flags :: u32 where "first_flags = push_bit 1 9"

definition init_regs :: "u32 \<Rightarrow> u32 \<Rightarrow> mem \<Rightarrow> mem" where
  "init_regs rs func m =
     (let m = memset rs 0 sizeof_task_regs m;
          m = store32 m (rs + 0x1c) 0x18;
          m = store32 m (rs + 0x20) 0x18;
          m = store32 m (rs + 0x28) func;
          m = store32 m (rs + 0x2c) 0x10
      in store32 m (rs + 0x30) first_flags)"

definition create_process :: "u32 \<Rightarrow> u32 \<Rightarrow> string \<Rightarrow> u32 \<Rightarrow> 'a ktask_scheme
    \<Rightarrow> (u32, 'a ktask_scheme) kresult" where
  "create_process pid' func name' stack s =
     (case kalloc stack s of
        None \<Rightarrow> None
      | Some (Inl h) \<Rightarrow> Some (Inl h)
      | Some (Inr (new_stack, s)) \<Rightarrow>
     (case kalloc sizeof_task s of
        None \<Rightarrow> None
      | Some (Inl h) \<Rightarrow> Some (Inl h)
      | Some (Inr (t, s)) \<Rightarrow>
     (let rs = new_stack + stack - sizeof_task_regs;
          sp = new_stack + stack - sizeof_task_regs - 12;
          s = lock_kernel s;
          s = init_stack sp s;
          s = init_task t pid' name' sp rs s;
          s = link_task t s;
          s = link_run pid' t s;
          s = s\<lparr>mem := init_regs rs func (mem s), saved_if := (saved_if s)(t := bit first_flags 9)\<rparr>
      in Some (Inr (t, unlock_kernel s)))))"

section \<open>The task report and the clock\<close>

definition state_name :: "tstate \<Rightarrow> string" where
  "state_name st = (case st of TASK_RUNNING \<Rightarrow> ''running'' | TASK_INTERRUPTABLE \<Rightarrow> ''interruptable''
     | TASK_UNINTERRUPTABLE \<Rightarrow> ''uninterruptable'')"

text \<open>The loop of show_tasks walks with a local variable that shadows the global \<open>current\<close>.\<close>

partial_function (option) show_loop :: "u32 \<Rightarrow> 'a ktask_scheme \<Rightarrow> 'a ktask_scheme option" where
  "show_loop cur s =
     (let s = say (''  Task %ld (%08lx): \"%s\" %s next=%08lx'' @ newline)
                [VInt (pid (tsk s cur)), VInt cur, VStr (Some (tname (tsk s cur))),
                 VStr (Some (state_name (state (tsk s cur)))), VInt (task_next (tsk s cur))] s;
          cur = task_next (tsk s cur)
      in if cur \<noteq> idle s then show_loop cur s else Some s)"

definition show_tasks :: "'a ktask_scheme \<Rightarrow> 'a ktask_scheme option" where
  "show_tasks s = show_loop (idle s) (say (''Task list:'' @ newline) [] s)"

text \<open>The timer interrupt of kernel/clock.c.\<close>

definition do_timer_int :: "'a ktask_scheme \<Rightarrow> 'a ktask_scheme" where
  "do_timer_int s =
     (let s = s\<lparr>jiffies := jiffies s + 1\<rparr>;
          cur = current s;
          s = at_task cur (\<lambda>t. t\<lparr>ttime := ttime t + 1\<rparr>) s;
          s = say (kern_debug @ ''timer: current->timeslice is %li'' @ newline)
                [VInt (timeslice (tsk s cur))] s;
          old = timeslice (tsk s cur);
          s = at_task cur (\<lambda>t. t\<lparr>timeslice := timeslice t - 1\<rparr>) s
      in if old = 0 then at_task cur (put_need_resched 1) s else s)"

section \<open>How the primitive edits act\<close>

lemma kernel_frame [simp]:
  "tsk (lock_kernel s) = tsk s" "current (lock_kernel s) = current s" "idle (lock_kernel s) = idle s"
  "qfirst (lock_kernel s) = qfirst s" "video_init (lock_kernel s) = video_init s"
  "switches (lock_kernel s) = switches s" "debug_phase (lock_kernel s) = debug_phase s"
  "tsk (unlock_kernel s) = tsk s" "current (unlock_kernel s) = current s" "idle (unlock_kernel s) = idle s"
  "qfirst (unlock_kernel s) = qfirst s" "video_init (unlock_kernel s) = video_init s"
  "switches (unlock_kernel s) = switches s" "debug_phase (unlock_kernel s) = debug_phase s"
  "tsk (say f a s) = tsk s" "current (say f a s) = current s" "idle (say f a s) = idle s"
  "qfirst (say f a s) = qfirst s" "video_init (say f a s) = video_init s" "switches (say f a s) = switches s"
  "debug_phase (say f a s) = debug_phase s"
  "mem (lock_kernel t) = mem t" "mem (unlock_kernel t) = mem t"
  "ph (lock_kernel t) = ph t" "ph (unlock_kernel t) = ph t" "bh (lock_kernel t) = bh t" "bh (unlock_kernel t) = bh t"
  "restore (lock_kernel s) = restore s" "restore (unlock_kernel s) = restore s" "restore (say f a s) = restore s"
  "jiffies (lock_kernel s) = jiffies s" "jiffies (unlock_kernel s) = jiffies s" "jiffies (say f a s) = jiffies s"
  "saved_if (lock_kernel s) = saved_if s" "saved_if (unlock_kernel s) = saved_if s" "saved_if (say f a s) = saved_if s"
  by (simp_all add: lock_kernel_def unlock_kernel_def say_def Let_def)

lemma at_task_sel [simp]:
  "tsk (at_task a f s) = edit a f (tsk s)" "current (at_task a f s) = current s"
  "idle (at_task a f s) = idle s" "qfirst (at_task a f s) = qfirst s" "video_init (at_task a f s) = video_init s"
  "switches (at_task a f s) = switches s" "debug_phase (at_task a f s) = debug_phase s"
  "klock (at_task a f s) = klock s" "intr (at_task a f s) = intr s" "mem (at_task a f s) = mem s"
  "ph (at_task a f s) = ph s" "bh (at_task a f s) = bh s" "restore (at_task a f s) = restore s"
  "jiffies (at_task a f s) = jiffies s" "saved_if (at_task a f s) = saved_if s"
  by (simp_all add: at_task_def)

lemma set_first_sel [simp]:
  "tsk (set_first q t s) = tsk s" "current (set_first q t s) = current s" "idle (set_first q t s) = idle s"
  "qfirst (set_first q t s) = (qfirst s)(q := t)" "video_init (set_first q t s) = video_init s"
  "klock (set_first q t s) = klock s" "intr (set_first q t s) = intr s" "mem (set_first q t s) = mem s"
  "saved_if (set_first q t s) = saved_if s"
  by (simp_all add: set_first_def)

lemma flags_sel [simp]:
  "tsk (push_flags s) = tsk s" "current (push_flags s) = current s" "idle (push_flags s) = idle s" "qfirst (push_flags s) = qfirst s"
  "klock (push_flags s) = klock s" "intr (push_flags s) = intr s" "mem (push_flags s) = mem s" "ktask.more (push_flags s) = ktask.more s"
  "saved_if (push_flags s) = (saved_if s)(current s := intr s)" "switches (push_flags s) = switches s"
  "tsk (iret s) = tsk s" "current (iret s) = current s" "idle (iret s) = idle s" "qfirst (iret s) = qfirst s"
  "klock (iret s) = klock s" "intr (iret s) = saved_if s (current s)" "mem (iret s) = mem s" "ktask.more (iret s) = ktask.more s"
  "saved_if (iret s) = saved_if s" "switches (iret s) = switches s"
  by (simp_all add: push_flags_def iret_def)

interpretation run: dlink run_next run_prev put_run_next put_run_prev
  by unfold_locales simp_all

interpretation tasks: dlink task_next task_prev put_task_next put_task_prev
  by unfold_locales simp_all

interpretation wait: dlink queue_next queue_prev put_queue_next put_queue_prev
  by unfold_locales simp_all

text \<open>The three link edits leave every other field of every task alone.\<close>

named_theorems link_frames

lemma run_frame [link_frames]:
  "state (run.attach h t st a) = state (st a)" "queue_next (run.attach h t st a) = queue_next (st a)"
  "queue_prev (run.attach h t st a) = queue_prev (st a)" "tname (run.attach h t st a) = tname (st a)"
  "task_next (run.attach h t st a) = task_next (st a)" "task_prev (run.attach h t st a) = task_prev (st a)"
  "state (run.pair h t st a) = state (st a)" "queue_next (run.pair h t st a) = queue_next (st a)"
  "queue_prev (run.pair h t st a) = queue_prev (st a)" "tname (run.pair h t st a) = tname (st a)"
  "task_next (run.pair h t st a) = task_next (st a)" "task_prev (run.pair h t st a) = task_prev (st a)"
  "state (run.detach t st a) = state (st a)" "queue_next (run.detach t st a) = queue_next (st a)"
  "queue_prev (run.detach t st a) = queue_prev (st a)" "tname (run.detach t st a) = tname (st a)"
  by (simp_all add: run.attach_def run.pair_def run.detach_def Let_def edit_apply)

lemma wait_frame [link_frames]:
  "state (wait.attach h t st a) = state (st a)" "run_next (wait.attach h t st a) = run_next (st a)"
  "run_prev (wait.attach h t st a) = run_prev (st a)" "tname (wait.attach h t st a) = tname (st a)"
  "state (wait.pair h t st a) = state (st a)" "run_next (wait.pair h t st a) = run_next (st a)"
  "run_prev (wait.pair h t st a) = run_prev (st a)" "tname (wait.pair h t st a) = tname (st a)"
  by (simp_all add: wait.attach_def wait.pair_def Let_def edit_apply)

section \<open>The run list\<close>

text \<open>
  \<open>xs\<close> is the list of the runnable tasks other than the idle task, in the order in which they follow
  it.  The idle task is the head of the ring; before the first task is created its links are 0.
\<close>

definition run_ok :: "u32 list \<Rightarrow> 'a ktask_scheme \<Rightarrow> bool" where
  "run_ok xs s \<longleftrightarrow> idle s \<noteq> 0 \<and> (xs = [] \<and> run_next (tsk s (idle s)) = 0 \<or> run.ring (tsk s) (idle s # xs))"

definition add_run :: "u32 \<Rightarrow> u32 \<Rightarrow> task store \<Rightarrow> task store" where
  "add_run h t st = (if run_next (st h) = 0 then run.pair h t st else run.attach h t st)"

lemma add_run_frame [link_frames]:
  "state (add_run h t st a) = state (st a)" "queue_next (add_run h t st a) = queue_next (st a)"
  "queue_prev (add_run h t st a) = queue_prev (st a)" "tname (add_run h t st a) = tname (st a)"
  by (simp_all add: add_run_def link_frames)

lemma run_ok_distinct: "run_ok xs s \<Longrightarrow> distinct (idle s # xs) \<and> 0 \<notin> set (idle s # xs)"
  by (auto simp: run_ok_def run.ring_def)

lemma run_ok_next_nonzero:
  assumes "run.ring st (h # xs)"
  shows "run_next (st h) \<noteq> 0"
proof (cases xs)
  case Nil
  then show ?thesis using run.ring_last(1) [OF assms] assms by (simp add: run.ring_def)
next
  case (Cons x ys)
  then show ?thesis using run.ring_next [of st "[]" h x ys] assms by (auto simp: run.ring_def)
qed

lemma add_run_ring:
  assumes "run_ok xs s" "t \<notin> set (idle s # xs)" "t \<noteq> 0"
  shows "run.ring (add_run (idle s) t (tsk s)) (idle s # xs @ [t])"
proof (cases "xs = [] \<and> run_next (tsk s (idle s)) = 0")
  case True
  then show ?thesis using assms run.ring_pair [of "idle s" t] by (auto simp: add_run_def run_ok_def)
next
  case False
  then have r: "run.ring (tsk s) (idle s # xs)" using assms(1) by (auto simp: run_ok_def)
  show ?thesis
    using run.ring_attach [OF r assms(2,3)] run_ok_next_nonzero [OF r] by (simp add: add_run_def)
qed

lemma wake_up_eq:
  "wake_up t s = unlock_kernel ((lock_kernel s)\<lparr>tsk := add_run (idle s) t (edit t (put_state TASK_RUNNING) (tsk s))\<rparr>)"
  by (simp add: wake_up_def add_run_def run.pair_def run.attach_def Let_def at_task_def)

lemma run_ok_cong:
  assumes "run_ok xs s" "idle s' = idle s"
    and "\<And>a. a \<in> set (idle s # xs) \<Longrightarrow>
      run_next (tsk s' a) = run_next (tsk s a) \<and> run_prev (tsk s' a) = run_prev (tsk s a)"
  shows "run_ok xs s'"
  using assms run.ring_cong [of "tsk s" "idle s # xs" "tsk s'"] by (fastforce simp: run_ok_def)

lemma run_ok_wake_up:
  assumes "run_ok xs s" "t \<notin> set (idle s # xs)" "t \<noteq> 0"
  shows "run_ok (xs @ [t]) (wake_up t s)"
proof -
  let ?s = "s\<lparr>tsk := edit t (put_state TASK_RUNNING) (tsk s)\<rparr>"
  have "run_ok xs ?s" by (rule run_ok_cong [OF assms(1)]) (use assms(2) in \<open>auto simp: edit_apply\<close>)
  from add_run_ring [OF this] assms(2,3) show ?thesis using assms(1)
    by (simp add: wake_up_eq run_ok_def)
qed

section \<open>The machine with only the idle task\<close>

text \<open>A concrete machine for the witnesses: four free pages, the display set up, no task but the idle one.\<close>

definition booted :: ktask where
  "booted = kmem.extend four_pages
     \<lparr>tsk = (\<lambda>_. idle_task_init), current = 0x2000, idle = 0x2000, qfirst = (\<lambda>_. 0), video_init = True,
      debug_phase = 0, restore = 0x100, switches = [], jiffies = 0, saved_if = (\<lambda>_. False)\<rparr>"

lemma booted_sel [simp]:
  "tsk booted = (\<lambda>_. idle_task_init)" "current booted = 0x2000" "idle booted = 0x2000"
  "qfirst booted = (\<lambda>_. 0)" "video_init booted = True" "debug_phase booted = 0" "klock booted = 0"
  "mem booted = mem four_pages" "ph booted = ph four_pages" "bh booted = bh four_pages" "intr booted"
  "saved_if booted = (\<lambda>_. False)"
  by (simp_all add: booted_def kmem.defs four_pages_def)

end
