(* ===== verification/Screen.thy ===== *)
theory Screen
  imports Task
begin

text \<open>
  The status line \<open>update_status\<close> of kernel/task.c keeps on the last row of the text screen: which
  cells it writes, with what, and that a task name of at most 12 characters always fits the 50-byte
  buffer the source formats it into.
\<close>

declare One_nat_def [simp del]

section \<open>Cells of the text screen\<close>

lemma cell_span:
  assumes "k < 4000"
  shows "span (vidmem k) 2 = {0xb8000 + of_nat (2 * k), 0xb8000 + of_nat (2 * k + 1)}"
  by (auto simp: span2 vidmem_def)

lemma cell_inj:
  assumes "j < 4000" "k < 4000" "j \<noteq> k"
  shows "span (vidmem j) 2 \<inter> span (vidmem k) 2 = {}"
proof -
  have "(0xb8000 :: u32) + of_nat a \<noteq> 0xb8000 + of_nat b" if "a < 8000" "b < 8000" "a \<noteq> b" for a b
    using that by (simp add: word_of_nat_eq_iff take_bit_nat_eq_self)
  note ne = this
  have "2 * j \<noteq> 2 * k" "2 * j \<noteq> 2 * k + 1" "2 * j + 1 \<noteq> 2 * k" "2 * j + 1 \<noteq> 2 * k + 1"
    using assms(3) by presburger+
  then have "0xb8000 + of_nat (2 * j) \<noteq> (0xb8000 + of_nat (2 * k) :: u32)"
    "0xb8000 + of_nat (2 * j) \<noteq> (0xb8000 + of_nat (2 * k + 1) :: u32)"
    "0xb8000 + of_nat (2 * j + 1) \<noteq> (0xb8000 + of_nat (2 * k) :: u32)"
    "0xb8000 + of_nat (2 * j + 1) \<noteq> (0xb8000 + of_nat (2 * k + 1) :: u32)"
    using assms(1,2) by (intro ne; linarith)+
  then show ?thesis unfolding cell_span [OF assms(1)] cell_span [OF assms(2)] by blast
qed

lemma load_cell:
  assumes "j < 4000" "k < 4000"
  shows "load16 (store16 m (vidmem j) v) (vidmem k) = (if j = k then v else load16 m (vidmem k))"
  using load16_store16_other [of "vidmem k" "vidmem j"] cell_inj [of k j] assms by (auto simp: store16_same)

definition cells :: "nat \<Rightarrow> nat \<Rightarrow> u32 set" where
  "cells a b = (\<Union>k\<in>{a..<b}. span (vidmem k) 2)"

lemma store_cell_other: "x \<notin> cells a b \<Longrightarrow> a \<le> k \<Longrightarrow> k < b \<Longrightarrow> store16 m (vidmem k) v x = m x"
  by (rule store16_other) (auto simp: cells_def)

definition blank_cell :: u16 where "blank_cell = 0x1720"

definition text_cell :: "char \<Rightarrow> u16" where "text_cell c = word_of_int (char_val c + 0x1700)"

lemma blank_line_cells:
  "c < 100 \<Longrightarrow> load16 (blank_line i m) (vidmem (1920 + c)) =
     (if i \<le> c \<and> c < 79 then blank_cell else load16 m (vidmem (1920 + c)))"
proof (induction i m rule: blank_line.induct)
  case (1 i m)
  have b: "word_of_int (char_val (CHR '' '')) + 0x1700 = blank_cell"
    by (simp add: blank_cell_def char_val_def byte_of_def)
  show ?case
  proof (cases "i < 79")
    case True
    then show ?thesis using 1 by (subst blank_line.simps) (auto simp: b load_cell)
  next
    case False
    then show ?thesis by (subst blank_line.simps) auto
  qed
qed

lemma blank_line_other: "1 \<le> i \<Longrightarrow> x \<notin> cells 1920 2012 \<Longrightarrow> blank_line i m x = m x"
proof (induction i m rule: blank_line.induct)
  case (1 i m)
  then show ?case by (subst blank_line.simps) (simp add: store_cell_other [of x 1920 2012])
qed

lemma put_msg_cells:
  "nul \<notin> set msg \<Longrightarrow> msg' = msg \<or> msg' = msg @ [nul] \<Longrightarrow> i + length msg \<le> 50 \<Longrightarrow> off < 50 \<Longrightarrow>
   fst (put_msg off msg' i m) = i + length msg \<and>
   (\<forall>c < 100. load16 (snd (put_msg off msg' i m)) (vidmem (1920 + c)) =
     (if i + off \<le> c \<and> c < i + off + length msg then text_cell (msg ! (c - (i + off)))
      else load16 m (vidmem (1920 + c))))"
proof (induction msg arbitrary: msg' i m)
  case Nil
  then show ?case by (subst (1 2) put_msg.simps) auto
next
  case (Cons a msg)
  then obtain t where t: "msg' = a # t" "t = msg \<or> t = msg @ [nul]" by auto
  let ?m = "store16 m (vidmem (80 * 24 + i + off)) (text_cell a)"
  have st: "put_msg off msg' i m = put_msg off t (i + 1) ?m"
    using Cons.prems t by (subst put_msg.simps) (auto simp: text_cell_def)
  have ih: "fst (put_msg off t (i + 1) ?m) = i + 1 + length msg \<and>
    (\<forall>c < 100. load16 (snd (put_msg off t (i + 1) ?m)) (vidmem (1920 + c)) =
     (if i + 1 + off \<le> c \<and> c < i + 1 + off + length msg then text_cell (msg ! (c - (i + 1 + off)))
      else load16 ?m (vidmem (1920 + c))))"
    by (rule Cons.IH) (use Cons.prems t in auto)
  show ?case unfolding st
  proof (intro conjI allI impI)
    show "fst (put_msg off t (i + 1) ?m) = i + length (a # msg)" using ih by simp
    fix c :: nat assume c: "c < 100"
    have i: "i < 50" using Cons.prems(3) by simp
    have l: "load16 ?m (vidmem (1920 + c)) = (if c = i + off then text_cell a else load16 m (vidmem (1920 + c)))"
      using c i Cons.prems(4) load_cell [of "1920 + i + off" "1920 + c"] by auto
    consider "c = i + off" | "i + off < c" | "c < i + off" by linarith
    then show "load16 (snd (put_msg off t (i + 1) ?m)) (vidmem (1920 + c)) =
       (if i + off \<le> c \<and> c < i + off + length (a # msg) then text_cell ((a # msg) ! (c - (i + off)))
        else load16 m (vidmem (1920 + c)))"
    proof cases
      case 2
      then have "c - (i + off) = Suc (c - (i + 1 + off))" by simp
      then show ?thesis using ih c l 2 by simp
    qed (use ih c l in auto)
  qed
qed

lemma put_msg_other:
  "off \<le> 42 \<Longrightarrow> x \<notin> cells 1920 2012 \<Longrightarrow> snd (put_msg off msg i m) x = m x"
proof (induction off msg i m rule: put_msg.induct)
  case (1 off msg i m)
  then show ?case by (subst put_msg.simps) (simp add: store_cell_other [of x 1920 2012])
qed

section \<open>The formatted text\<close>

lemma isdigit_i [simp]: "\<not> isdigit (CHR ''i'')"
  by (simp add: isdigit_iff byte_of_def)

lemma convert_status:
  "convert n (CHR ''l'' # CHR ''i'' # fmt) (VInt w # args) = Some (dec_text (sint w), [], fmt, args)"
  "convert n (CHR ''0'' # CHR ''8'' # CHR ''x'' # fmt) (VInt w # args) =
     Some (let t = digits_text 16 (unat w) in replicate (8 - length t) (CHR ''0'') @ t, [], fmt, args)"
  by (simp_all add: convert_simps sign_set skip_atoi_def char_val_def byte_of_def s32_id int_range_def nul_def)

definition hex8 :: "u32 \<Rightarrow> string" where
  "hex8 w = (let t = digits_text 16 (unat w) in replicate (8 - length t) (CHR ''0'') @ t)"

definition status_text :: "u32 \<Rightarrow> u32 \<Rightarrow> u32 \<Rightarrow> string \<Rightarrow> string" where
  "status_text phase i cur nm =
     ''['' @ dec_text (sint phase) @ ''] '' @ dec_text (sint i) @ '' <'' @ hex8 cur @ ''> '' @ nm"

definition name_ok :: "string \<Rightarrow> bool" where
  "name_ok nm \<longleftrightarrow> nul \<notin> set nm \<and> length nm \<le> 12"

lemma sprintf_status:
  assumes "name_ok nm"
  shows "sprintf ''[%d] %li <%08x> %s'' [VInt phase, VInt i, VInt cur, VStr (Some nm)] =
    Some (status_text phase i cur nm @ [nul], int (length (status_text phase i cur nm)), [])"
proof -
  have p: "piece_ok (Text (Some nm))" using assms by (auto simp: name_ok_def list_all_iff)
  show ?thesis
    using p by (simp add: sprintf_def vsprintf_def convert_int convert_status convert_string nul_def
        status_text_def hex8_def del: piece_ok.simps)
qed

lemma digits_text_length: "2 \<le> b \<Longrightarrow> n < b ^ k \<Longrightarrow> 0 < k \<Longrightarrow> length (digits_text b n) \<le> k"
  using radix_length [of n b k] by (simp add: digits_text_def)

lemma dec_text_length: "length (dec_text (sint (w :: u32))) \<le> 11"
proof -
  have "nat \<bar>sint w\<bar> \<le> 2 ^ 31" using sint_range_size [of w] by (simp add: word_size nat_le_iff abs_le_iff)
  then have "nat \<bar>sint w\<bar> < 10 ^ 10" by simp
  then have "length (digits_text 10 (nat \<bar>sint w\<bar>)) \<le> 10" by (rule digits_text_length [rotated]) simp_all
  moreover have "length (if sint w < 0 then ''-'' else []) \<le> 1" by simp
  ultimately show ?thesis unfolding dec_text_def length_append by linarith
qed

lemma hex8_length: "length (hex8 w) = 8"
proof -
  have "unat w < 16 ^ 8" using unat_bounds(3) [of w] by simp
  then have "length (digits_text 16 (unat w)) \<le> 8" by (rule digits_text_length [rotated]) simp_all
  then show ?thesis by (simp add: hex8_def Let_def)
qed

lemma status_text_length: "name_ok nm \<Longrightarrow> length (status_text phase i cur nm) \<le> 49"
  using dec_text_length [of phase] dec_text_length [of i] hex8_length [of cur]
  by (simp add: status_text_def name_ok_def)

lemma digits_text_no_nul: "2 \<le> b \<Longrightarrow> b \<le> 16 \<Longrightarrow> nul \<notin> set (digits_text b n)"
proof
  assume b: "2 \<le> b" "b \<le> 16" and "nul \<in> set (digits_text b n)"
  then have "is_digit b nul" using digits_text_digits(1) [OF b, of n] by (auto simp: list_all_iff)
  then show False by (simp add: is_digit_def isxdigit_iff)
qed

lemma status_text_no_nul: "name_ok nm \<Longrightarrow> nul \<notin> set (status_text phase i cur nm)"
  using digits_text_no_nul [of 10] digits_text_no_nul [of 16]
  by (auto simp: status_text_def hex8_def dec_text_def Let_def name_ok_def nul_def)

section \<open>The line\<close>

text \<open>The cell of column \<open>c\<close> of the status line that shows the text \<open>msg\<close>.\<close>

definition status_cell :: "string \<Rightarrow> nat \<Rightarrow> u16" where
  "status_cell msg c =
     (if 42 \<le> c \<and> c < 42 + length msg then text_cell (msg ! (c - 42))
      else if c = 0 then 0x1e10 else if c = 79 then 0x1e11
      else if c < 20 then text_cell (''Kernel operational '' ! (c - 1))
      else if c = 20 then 0x10b3 else blank_cell)"

definition status_line :: "string \<Rightarrow> mem \<Rightarrow> mem" where
  "status_line msg m =
     (let m = store16 m (vidmem (80 * 24 + 0)) (16 + 0x1e00);
          m = store16 m (vidmem (80 * 24 + 79)) (17 + 0x1e00);
          m = blank_line 1 m;
          (i, m) = put_msg 1 ''Kernel operational '' 0 m;
          m = store16 m (vidmem (80 * 24 + i + 1)) (179 + 0x1000);
          (_, m) = put_msg 42 (msg @ [nul]) 0 m
      in m)"

lemma update_status_eq:
  assumes "name_ok (tname (tsk s n))"
  shows "update_status n p s = Some (if \<not> video_init s then s else
    s\<lparr>mem := status_line (status_text (debug_phase s) (pid (tsk s n)) (current s) (tname (tsk s n))) (mem s)\<rparr>)"
  using assms status_text_length [OF assms, of "debug_phase s" "pid (tsk s n)" "current s"]
  by (simp add: update_status_def sprintf_status status_line_def Let_def case_prod_beta)

lemma status_line_cells:
  assumes "nul \<notin> set msg" "length msg \<le> 49" "c < 92"
  shows "load16 (status_line msg m) (vidmem (1920 + c)) =
    (if c < 80 \<or> c < 42 + length msg then status_cell msg c else load16 m (vidmem (1920 + c)))"
proof -
  define m1 where "m1 = blank_line 1 (store16 (store16 m (vidmem 1920) 0x1e10) (vidmem 1999) 0x1e11)"
  have m1: "load16 m1 (vidmem (1920 + c)) = (if c = 0 then 0x1e10 else if c = 79 then 0x1e11
      else if c < 79 then blank_cell else load16 m (vidmem (1920 + c)))" if "c < 100" for c
    using that by (simp add: m1_def blank_line_cells load_cell)
  let ?k = "''Kernel operational ''"
  have nk: "nul \<notin> set ?k" by (simp add: nul_def)
  have pm: "fst (put_msg 1 ?k 0 m1) = 19"
    "\<And>c. c < 100 \<Longrightarrow> load16 (snd (put_msg 1 ?k 0 m1)) (vidmem (1920 + c)) =
      (if 1 \<le> c \<and> c < 20 then text_cell (?k ! (c - 1)) else load16 m1 (vidmem (1920 + c)))"
    using put_msg_cells [OF nk, of ?k 0 1 m1] by (simp_all del: One_nat_def)
  define m2 where "m2 = store16 (snd (put_msg 1 ?k 0 m1)) (vidmem 1940) 0x10b3"
  have m2: "load16 m2 (vidmem (1920 + c)) = (if c = 20 then 0x10b3 else if 1 \<le> c \<and> c < 20
      then text_cell (?k ! (c - 1)) else load16 m1 (vidmem (1920 + c)))" if "c < 100" for c
    using that pm(2) [of c] by (simp add: m2_def load_cell)
  have "status_line msg m = snd (put_msg 42 (msg @ [nul]) 0 m2)"
    by (simp add: status_line_def Let_def case_prod_beta m1_def [symmetric] pm(1) m2_def [symmetric])
  then have "load16 (status_line msg m) (vidmem (1920 + c)) =
      (if 42 \<le> c \<and> c < 42 + length msg then text_cell (msg ! (c - 42)) else load16 m2 (vidmem (1920 + c)))"
    using put_msg_cells [OF assms(1), of "msg @ [nul]" 0 42 m2] assms by simp
  then show ?thesis using assms(3) using m1 [of 0] by (auto simp: m1 m2 status_cell_def)
qed

lemma status_line_other:
  assumes "x \<notin> cells 1920 2012" "length msg \<le> 49"
  shows "status_line msg m x = m x"
proof -
  have nk: "nul \<notin> set ''Kernel operational ''" by (simp add: nul_def)
  have "fst (put_msg 1 ''Kernel operational '' 0 m') = 19" for m'
    using put_msg_cells [OF nk, of "''Kernel operational ''" 0 1 m'] by simp
  then show ?thesis using assms(1)
    by (simp add: status_line_def Let_def case_prod_beta put_msg_other store_cell_other [of x 1920 2012]
        blank_line_other)
qed

text \<open>
  With the display set up, \<open>update_status\<close> for a task whose name has at most 12 characters
  returns, writes no byte outside the 92 cells from the start of the last row on, and shows on that row
  the two border cells, the text "Kernel operational", the separator and, from column 42, the debug phase,
  the process id, the address of the current task and the name of the next one; every other column of
  the row is blank.  (A text of more than 38 characters runs over the right border into the cells
  beyond the row.)
\<close>

theorem update_status_line:
  assumes "video_init s" and "name_ok (tname (tsk s n))"
  defines "msg \<equiv> status_text (debug_phase s) (pid (tsk s n)) (current s) (tname (tsk s n))"
  shows "\<exists>m. update_status n p s = Some (s\<lparr>mem := m\<rparr>)
    \<and> (\<forall>c < 80. load16 m (vidmem (80 * 24 + c)) = status_cell msg c)
    \<and> (\<forall>x. x \<notin> cells 1920 2012 \<longrightarrow> m x = mem s x)"
proof -
  have l: "length msg \<le> 49" "nul \<notin> set msg"
    unfolding msg_def using status_text_length status_text_no_nul assms(2) by blast+
  have "update_status n p s = Some (s\<lparr>mem := status_line msg (mem s)\<rparr>)"
    using update_status_eq [OF assms(2)] assms(1) by (simp add: msg_def)
  then show ?thesis using status_line_cells [OF l(2,1)] status_line_other l(1) by auto
qed

theorem update_status_line_witness:
  "\<exists>m. update_status 0x2000 0x2000 booted = Some (booted\<lparr>mem := m\<rparr>)
    \<and> (\<forall>c < 80. load16 m (vidmem (80 * 24 + c)) = status_cell (status_text 0 0 0x2000 ''idle'') c)
    \<and> (\<forall>x. x \<notin> cells 1920 2012 \<longrightarrow> m x = mem booted x)"
proof -
  have "name_ok (tname (tsk booted 0x2000))" by (simp add: idle_task_init_def name_ok_def nul_def)
  moreover have "video_init booted" by simp
  ultimately show ?thesis
    using update_status_line [of booted "0x2000" "0x2000"] by (simp add: idle_task_init_def)
qed

end
