(* ===== verification/Console.thy ===== *)
theory Console
  imports Screen
begin

text \<open>
  kernel/console.c and kernel/telemetry.c: the two console drivers.  The text console keeps the cursor
  and the size of the screen in a \<open>struct vidparams\<close> in memory and writes cells of video memory; the
  telemetry driver sends bytes to the parallel port.  The theorems say where the text goes, which bytes
  change, and where the cursor ends.
\<close>

declare One_nat_def [simp del]

section \<open>The code\<close>

text \<open>The fields of \<open>struct vidparams\<close> the driver uses, at their offsets.\<close>

definition vp_x :: "mem \<Rightarrow> u32 \<Rightarrow> int" where "vp_x m p = uint (m p)"
definition vp_y :: "mem \<Rightarrow> u32 \<Rightarrow> int" where "vp_y m p = uint (m (p + 1))"
definition vp_cols :: "mem \<Rightarrow> u32 \<Rightarrow> int" where "vp_cols m p = uint (m (p + 5))"
definition vp_lines :: "mem \<Rightarrow> u32 \<Rightarrow> int" where "vp_lines m p = uint (m (p + 6))"

definition sizeof_vidparams :: u32 where "sizeof_vidparams = 12"

definition CHAR_ATTR :: int where "CHAR_ATTR = 0x0700"

text \<open>\<open>vidmem[i]\<close>\<close>

definition cell_at :: "int \<Rightarrow> u32" where
  "cell_at i = 0xb8000 + 2 * of_int i"

text \<open>\<open>&\<close> binds weaker than \<open>+\<close>: the mask of the source is \<open>0xff + 0x2800\<close>.\<close>

function scroll_fill :: "u32 \<Rightarrow> int \<Rightarrow> mem \<Rightarrow> mem" where
  "scroll_fill p i m =
     (if i < vp_lines m p * vp_cols m p
      then scroll_fill p (i + 1) (store16 m (cell_at i) (load16 m (cell_at i) AND (0xff + 0x2800)))
      else m)"
  by pat_completeness auto
termination
proof (relation "measure (\<lambda>(p, i, m). nat (65025 - i))")
  fix p i m assume "i < vp_lines m p * vp_cols m p"
  moreover have "vp_lines m p \<le> 255" "vp_cols m p \<le> 255" "0 \<le> vp_lines m p" "0 \<le> vp_cols m p"
    using uint_bounded [of "m (p + 6)"] uint_bounded [of "m (p + 5)"] by (simp_all add: vp_lines_def vp_cols_def)
  then have "vp_lines m p * vp_cols m p \<le> 255 * 255" by (intro mult_mono) auto
  ultimately show "((p, i + 1, store16 m (cell_at i) (load16 m (cell_at i) AND (0xff + 0x2800))), p, i, m)
      \<in> measure (\<lambda>(p, i, m). nat (65025 - i))" by simp
qed simp

declare scroll_fill.simps [simp del]

definition scroll :: "u32 \<Rightarrow> mem \<Rightarrow> mem" where
  "scroll p m =
     (let m = memcpy 0xb8000 (0xb8000 + of_int (vp_cols m p * 2))
                (of_int ((vp_lines m p - 1) * vp_cols m p * 2)) m
      in scroll_fill p ((vp_lines m p - 1) * vp_cols m p) m)"

text \<open>One round of the loop of con_write: the cursor \<open>x\<close>, \<open>y\<close> and the memory.\<close>

definition con_char :: "u32 \<Rightarrow> char \<Rightarrow> int \<times> int \<times> mem \<Rightarrow> int \<times> int \<times> mem" where
  "con_char p c = (\<lambda>(x, y, m).
     (let c = (if c = CHR 0x09 then CHR '' '' else c)
      in if c = CHR 0x0A then
           (let x = 0; y = y + 1
            in if vp_lines m p \<le> y then (x, y - 1, scroll p m) else (x, y, m))
         else if c = CHR 0x0D then (0, y - 1, m)
         else
           (let m = store16 m (cell_at (x + vp_cols m p * y)) (word_of_int (char_val c + CHAR_ATTR));
                x = x + 1
            in if vp_cols m p \<le> x
               then
                 (let x = 0; y = y + 1
                  in if vp_lines m p \<le> y then (x, y - 1, scroll p m) else (x, y, m))
               else (x, y, m))))"

primrec con_loop :: "u32 \<Rightarrow> string \<Rightarrow> int \<times> int \<times> mem \<Rightarrow> int \<times> int \<times> mem" where
  "con_loop p [] st = st"
| "con_loop p (c # cs) st = con_loop p cs (con_char p c st)"

text \<open>The slow port write of include/asm/io.h: the value also goes to port 0x80.\<close>

definition outb_p :: "u32 \<Rightarrow> u16 \<Rightarrow> 'a kcpu_scheme \<Rightarrow> 'a kcpu_scheme" where
  "outb_p v port st = outp 0x80 v (outp port v st)"

definition vidport :: u16 where "vidport = 0x3d0"

text \<open>\<open>p\<close> is \<open>con->data\<close>, \<open>s\<close> the \<open>len\<close> bytes at the pointer.\<close>

definition con_write :: "u32 \<Rightarrow> string \<Rightarrow> 'a kmem_scheme \<Rightarrow> 'a kmem_scheme" where
  "con_write p s st =
     (let st = lock_kernel st;
          (x, y, m) = con_loop p s (vp_x (mem st) p, vp_y (mem st) p, mem st);
          m = m(p := word_of_int x);
          m = m(p + 1 := word_of_int y);
          pos = (x + vp_cols m p * y) * 2;
          st = st\<lparr>mem := m\<rparr>;
          st = outb_p 14 (vidport + 4) st;
          st = outb_p (0xff AND word_of_int (pos div 2 ^ 9)) (vidport + 5) st;
          st = outb_p 15 (vidport + 4) st;
          st = outb_p (0xff AND word_of_int (pos div 2 ^ 1)) (vidport + 5) st
      in unlock_kernel st)"

text \<open>\<open>puts\<close>: the string up to the NUL, through \<open>params\<close>.\<close>

primrec string_len :: "string \<Rightarrow> nat" where
  "string_len [] = 0"
| "string_len (c # s) = (if c \<noteq> nul then 1 + string_len s else 0)"

definition con_puts :: "u32 \<Rightarrow> string \<Rightarrow> 'a kmem_scheme \<Rightarrow> 'a kmem_scheme" where
  "con_puts params c st = con_write params (take (string_len c) c) st"

text \<open>The telemetry driver of kernel/telemetry.c.\<close>

primrec par_write :: "string \<Rightarrow> 'a kcpu_scheme \<Rightarrow> 'a kcpu_scheme" where
  "par_write [] st = st"
| "par_write (c # cs) st =
     (let st = outp 0x37a 0x08 st;
          st = outp 0x378 (of_nat (byte_of c)) st;
          st = outp 0x37a 0x01 st;
          st = outp 0x37a 0x00 st
      in par_write cs st)"

section \<open>Cells\<close>

text \<open>The bytes of the first \<open>n\<close> cells of video memory.\<close>

definition screen :: "int \<Rightarrow> u32 set" where
  "screen n = {a. 0xb8000 \<le> uint a \<and> uint a < 0xb8000 + 2 * n}"

lemma uint_of_int_small: "0 \<le> i \<Longrightarrow> i < 2 ^ 32 \<Longrightarrow> uint (of_int i :: u32) = i"
  by (simp add: unsigned_of_int take_bit_int_eq_self)

lemma uint_cell:
  assumes "0 \<le> i" "i < 70000" "k = 0 \<or> k = 1"
  shows "uint (cell_at i + of_int k) = 0xb8000 + 2 * i + k"
proof -
  have e: "cell_at i + of_int k = of_int (0xb8000 + 2 * i + k)" by (simp add: cell_at_def)
  show ?thesis unfolding e by (rule uint_of_int_small) (use assms in auto)
qed

lemma cell_bytes:
  assumes "0 \<le> i" "i < 70000"
  shows "span (cell_at i) 2 = {a. uint a = 0xb8000 + 2 * i \<or> uint a = 0xb8000 + 2 * i + 1}"
proof -
  have "a = cell_at i \<longleftrightarrow> uint a = 0xb8000 + 2 * i" "a = cell_at i + 1 \<longleftrightarrow> uint a = 0xb8000 + 2 * i + 1" for a
    using uint_cell [OF assms, of 0] uint_cell [OF assms, of 1] by (auto simp: word_uint_eq_iff)
  then show ?thesis by (auto simp: span2)
qed

lemma cell_in_screen: "0 \<le> i \<Longrightarrow> i < n \<Longrightarrow> n \<le> 70000 \<Longrightarrow> span (cell_at i) 2 \<subseteq> screen n"
  by (auto simp: cell_bytes screen_def)

lemma cell_load:
  assumes "0 \<le> i" "i < 70000" "0 \<le> j" "j < 70000"
  shows "load16 (store16 m (cell_at i) v) (cell_at j) = (if i = j then v else load16 m (cell_at j))"
proof (cases "i = j")
  case False
  then have "span (cell_at j) 2 \<inter> span (cell_at i) 2 = {}"
    using assms unfolding cell_bytes [OF assms(1,2)] cell_bytes [OF assms(3,4)] by auto
  then show ?thesis using False by (simp add: load16_store16_other)
qed (simp add: store16_same)

lemma cell_store_other: "0 \<le> i \<Longrightarrow> i < n \<Longrightarrow> n \<le> 70000 \<Longrightarrow> x \<notin> screen n \<Longrightarrow> store16 m (cell_at i) v x = m x"
  using cell_in_screen [of i n] by (intro store16_other) blast

section \<open>Scrolling\<close>

text \<open>
  A screen of \<open>L\<close> lines of \<open>C\<close> cells whose parameters at \<open>p\<close> lie outside it.
\<close>

definition geom_ok :: "int \<Rightarrow> int \<Rightarrow> u32 \<Rightarrow> mem \<Rightarrow> bool" where
  "geom_ok L C p m \<longleftrightarrow> vp_lines m p = L \<and> vp_cols m p = C \<and> 0 < L \<and> 0 < C \<and> span p 12 \<inter> screen (L * C) = {}"

lemma geom_ok_bounds: "geom_ok L C p m \<Longrightarrow> L \<le> 255 \<and> C \<le> 255 \<and> 0 < L * C \<and> L * C \<le> 65025"
proof -
  assume g: "geom_ok L C p m"
  then have "L \<le> 255" "C \<le> 255" "0 < L" "0 < C"
    using uint_bounded [of "m (p + 6)"] uint_bounded [of "m (p + 5)"]
    by (auto simp: geom_ok_def vp_lines_def vp_cols_def)
  moreover from this have "L * C \<le> 255 * 255" by (intro mult_mono) auto
  ultimately show ?thesis by simp
qed

lemma param_span: "p \<in> span p 12" "p + 1 \<in> span p 12" "p + 5 \<in> span p 12" "p + 6 \<in> span p 12"
  using span_mem [of 0 12 p] span_mem [of 1 12 p] span_mem [of 5 12 p] span_mem [of 6 12 p] by simp_all

lemma geom_ok_cong:
  assumes "geom_ok L C p m" "m' (p + 5) = m (p + 5)" "m' (p + 6) = m (p + 6)"
  shows "geom_ok L C p m'"
  using assms by (simp add: geom_ok_def vp_lines_def vp_cols_def)

lemma geom_ok_screen:
  assumes "geom_ok L C p m" "\<And>x. x \<notin> screen (L * C) \<Longrightarrow> m' x = m x"
  shows "geom_ok L C p m'"
proof -
  have "p + 5 \<notin> screen (L * C)" "p + 6 \<notin> screen (L * C)"
    using assms(1) param_span [of p] by (auto simp: geom_ok_def)
  then show ?thesis using assms by (intro geom_ok_cong [OF assms(1)]) auto
qed

lemma scroll_fill_cells:
  assumes "geom_ok L C p m" "0 \<le> i"
  shows "(\<forall>x. x \<notin> screen (L * C) \<longrightarrow> scroll_fill p i m x = m x)
    \<and> (\<forall>j. 0 \<le> j \<and> j < L * C \<longrightarrow> load16 (scroll_fill p i m) (cell_at j) =
         (if i \<le> j then load16 m (cell_at j) AND 0x28ff else load16 m (cell_at j)))"
  using assms
proof (induction p i m rule: scroll_fill.induct)
  case (1 p i m)
  note b = geom_ok_bounds [OF 1(2)]
  have lc: "vp_lines m p * vp_cols m p = L * C" using 1(2) by (simp add: geom_ok_def)
  show ?case
  proof (cases "i < L * C")
    case True
    let ?m = "store16 m (cell_at i) (load16 m (cell_at i) AND (0xff + 0x2800))"
    have o: "x \<notin> screen (L * C) \<Longrightarrow> ?m x = m x" for x
      using True 1(3) b by (intro cell_store_other) auto
    have g: "geom_ok L C p ?m" by (rule geom_ok_screen [OF 1(2) o])
    have ih: "(\<forall>x. x \<notin> screen (L * C) \<longrightarrow> scroll_fill p (i + 1) ?m x = ?m x)
      \<and> (\<forall>j. 0 \<le> j \<and> j < L * C \<longrightarrow> load16 (scroll_fill p (i + 1) ?m) (cell_at j) =
         (if i + 1 \<le> j then load16 ?m (cell_at j) AND 0x28ff else load16 ?m (cell_at j)))"
      by (rule 1(1)) (use True 1(3) g lc in auto)
    have st: "scroll_fill p i m = scroll_fill p (i + 1) ?m"
      using True lc by (subst scroll_fill.simps) simp
    have l: "load16 ?m (cell_at j) = (if i = j then load16 m (cell_at i) AND 0x28ff else load16 m (cell_at j))"
      if "0 \<le> j" "j < L * C" for j
      using that True 1(3) b by (subst cell_load) auto
    show ?thesis unfolding st using ih o l by (auto simp: add1_zle_eq)
  next
    case False
    then show ?thesis using lc by (subst (1 2) scroll_fill.simps) auto
  qed
qed

lemma scroll_cells:
  assumes g: "geom_ok L C p m"
  shows "(\<forall>x. x \<notin> screen (L * C) \<longrightarrow> scroll p m x = m x)
    \<and> (\<forall>j. 0 \<le> j \<and> j < L * C \<longrightarrow> load16 (scroll p m) (cell_at j) =
         (if j < (L - 1) * C then load16 m (cell_at (j + C)) else load16 m (cell_at j) AND 0x28ff))"
proof -
  note b = geom_ok_bounds [OF g]
  have LC: "0 < L" "0 < C" "vp_lines m p = L" "vp_cols m p = C" using g by (auto simp: geom_ok_def)
  define k where "k = (L - 1) * C"
  have k: "0 \<le> k" "k + C = L * C" "k \<le> 65025" using LC b by (auto simp: k_def algebra_simps)
  define n where "n = (of_int (k * 2) :: u32)"
  have n: "unat n = nat (2 * k)" using k uint_of_int_small [of "k * 2"] by (simp add: n_def unat_eq_nat_uint mult.commute)
  let ?s = "0xb8000 + of_int (C * 2) :: u32"
  have s: "unat ?s = 0xb8000 + nat (2 * C)"
  proof -
    have "?s = of_int (0xb8000 + C * 2)" by simp
    also have "uint \<dots> = 0xb8000 + C * 2" by (rule uint_of_int_small) (use b LC in auto)
    finally show ?thesis using LC by (simp add: unat_eq_nat_uint nat_add_distrib)
  qed
  define m1 where "m1 = memcpy 0xb8000 ?s n m"
  have inn: "0xb8000 + of_nat i \<in> screen (L * C)" if "int i < 2 * (L * C)" for i
  proof -
    have "uint (0xb8000 + of_nat i :: u32) = 0xb8000 + int i"
    proof -
      have "(0xb8000 + of_nat i :: u32) = of_int (0xb8000 + int i)" by simp
      also have "uint \<dots> = 0xb8000 + int i" by (rule uint_of_int_small) (use that b in auto)
      finally show ?thesis .
    qed
    then show ?thesis using that by (simp add: screen_def)
  qed
  have m1o: "m1 x = m x" if "x \<notin> screen (L * C)" for x
    unfolding m1_def
  proof (rule memcpy_other)
    show "x \<notin> span 0xb8000 (unat n)"
      using that inn k n LC by (auto simp: span_def)
  qed
  have m1c: "m1 (0xb8000 + of_nat i) = m (?s + of_nat i)" if "int i < 2 * k" for i
    unfolding m1_def
    by (rule memcpy_copies) (use that n s k b LC in auto)
  have g1: "geom_ok L C p m1" by (rule geom_ok_screen [OF g m1o])
  have kk: "vp_lines m1 p = L" "vp_cols m1 p = C" using g1 by (auto simp: geom_ok_def)
  have "scroll p m = scroll_fill p ((vp_lines m1 p - 1) * vp_cols m1 p) m1"
    by (simp only: scroll_def Let_def LC m1_def n_def k_def)
  then have sc: "scroll p m = scroll_fill p k m1" by (simp only: kk k_def)
  note f = scroll_fill_cells [OF g1 k(1)]
  have "load16 m1 (cell_at j) = load16 m (cell_at (j + C))" if "0 \<le> j" "j < k" for j
  proof -
    have "cell_at j = 0xb8000 + of_nat (nat (2 * j))" "cell_at j + 1 = 0xb8000 + of_nat (nat (2 * j + 1))"
      "cell_at (j + C) = ?s + of_nat (nat (2 * j))" "cell_at (j + C) + 1 = ?s + of_nat (nat (2 * j + 1))"
      using that by (simp_all add: cell_at_def algebra_simps)
    then show ?thesis using m1c [of "nat (2 * j)"] m1c [of "nat (2 * j + 1)"] that by (simp add: load16_def)
  qed
  moreover have "load16 m1 (cell_at j) = load16 m (cell_at j)" if "k \<le> j" "j < L * C" for j
  proof (rule load16_cong)
    fix x assume x: "x \<in> span (cell_at j) 2"
    show "m1 x = m x" unfolding m1_def
    proof (rule memcpy_other, rule)
      assume "x \<in> span 0xb8000 (unat n)"
      then obtain i where i: "i < unat n" "x = 0xb8000 + of_nat i" by (auto simp: span_def)
      then have "x = of_int (0xb8000 + int i)" by simp
      also have "uint \<dots> = 0xb8000 + int i" by (rule uint_of_int_small) (use i(1) n k in auto)
      finally have "uint x = 0xb8000 + int i" .
      moreover have "uint x \<ge> 0xb8000 + 2 * j" using x that k b by (auto simp: cell_bytes)
      ultimately show False using i(1) n that k by auto
    qed
  qed
  ultimately show ?thesis using f m1o unfolding sc k_def [symmetric] by auto
qed

section \<open>The terminal\<close>

text \<open>
  The specification of the text console: a cursor and a grid of \<open>L\<close> lines of \<open>C\<close> cells, numbered from
  the top left.  A character goes to the cursor, a newline or a full line moves to the next line, and at
  the bottom the grid moves up by a line; the last line then keeps its text, with the attribute bits of
  \<open>0x28\<close>.
\<close>

type_synonym screen_state = "int \<times> int \<times> (int \<Rightarrow> u16)"

definition char_cell :: "char \<Rightarrow> u16" where
  "char_cell c = word_of_int (char_val (if c = CHR 0x09 then CHR '' '' else c) + 0x700)"

definition term_newline :: "int \<Rightarrow> int \<Rightarrow> int \<Rightarrow> (int \<Rightarrow> u16) \<Rightarrow> screen_state" where
  "term_newline L C y g =
     (if y + 1 < L then (0, y + 1, g)
      else (0, y, \<lambda>i. if i < (L - 1) * C then g (i + C) else g i AND 0x28ff))"

definition term_char :: "int \<Rightarrow> int \<Rightarrow> char \<Rightarrow> screen_state \<Rightarrow> screen_state" where
  "term_char L C c = (\<lambda>(x, y, g).
     if c = CHR 0x0A then term_newline L C y g
     else
       (let g = g(x + C * y := char_cell c)
        in if x + 1 < C then (x + 1, y, g) else term_newline L C y g))"

definition shows_term :: "int \<Rightarrow> int \<Rightarrow> u32 \<Rightarrow> int \<times> int \<times> mem \<Rightarrow> screen_state \<Rightarrow> bool" where
  "shows_term L C p = (\<lambda>(x, y, m) (x', y', g).
     x = x' \<and> y = y' \<and> geom_ok L C p m \<and> 0 \<le> x \<and> x < C \<and> 0 \<le> y \<and> y < L
     \<and> (\<forall>j. 0 \<le> j \<and> j < L * C \<longrightarrow> load16 m (cell_at j) = g j))"

lemma cell_index:
  fixes x y :: int
  assumes "0 \<le> x" "x < C" "0 \<le> y" "y < L"
  shows "0 \<le> x + C * y" "x + C * y < L * C"
proof -
  show "0 \<le> x + C * y" using assms by simp
  have "C * y + C = C * (y + 1)" by (simp add: algebra_simps)
  also have "\<dots> \<le> C * L" using assms by (intro mult_left_mono) auto
  finally show "x + C * y < L * C" using assms(2) by (simp add: mult.commute)
qed

lemma newline_shows:
  assumes s: "shows_term L C p (x, y, m) (x, y, g)"
  defines "r \<equiv> (if L \<le> y + 1 then (0, y + 1 - 1, scroll p m) else (0, y + 1, m))"
  shows "shows_term L C p r (term_newline L C y g) \<and> (\<forall>a. a \<notin> screen (L * C) \<longrightarrow> snd (snd r) a = m a)"
proof -
  have g: "geom_ok L C p m" and y: "0 \<le> y" "y < L" "0 < C" using s by (auto simp: shows_term_def)
  note sc = scroll_cells [OF g]
  have g': "geom_ok L C p (scroll p m)" by (rule geom_ok_screen [OF g]) (use sc in blast)
  have lt: "j + C < L * C" if "j < (L - 1) * C" for j using that by (simp add: algebra_simps)
  show ?thesis
  proof (cases "L \<le> y + 1")
    case True
    have "load16 (scroll p m) (cell_at j) = (if j < (L - 1) * C then g (j + C) else g j AND 0x28ff)"
      if "0 \<le> j" "j < L * C" for j
      using sc s that lt [of j] y(3) by (auto simp: shows_term_def)
    then show ?thesis using True s g' sc y by (auto simp: r_def shows_term_def term_newline_def)
  next
    case False
    then show ?thesis using s by (auto simp: r_def shows_term_def term_newline_def)
  qed
qed

lemma con_char_shows:
  assumes s: "shows_term L C p (x, y, m) (x, y, g)" and c: "c \<noteq> CHR 0x0D"
  shows "shows_term L C p (con_char p c (x, y, m)) (term_char L C c (x, y, g))
    \<and> (\<forall>a. a \<notin> screen (L * C) \<longrightarrow> snd (snd (con_char p c (x, y, m))) a = m a)"
proof -
  have g: "geom_ok L C p m" and xy: "0 \<le> x" "x < C" "0 \<le> y" "y < L"
    and cells: "\<And>j. 0 \<le> j \<Longrightarrow> j < L * C \<Longrightarrow> load16 m (cell_at j) = g j"
    using s by (auto simp: shows_term_def)
  have LC: "vp_lines m p = L" "vp_cols m p = C" using g by (auto simp: geom_ok_def)
  show ?thesis
  proof (cases "c = CHR 0x0A")
    case True
    then show ?thesis using newline_shows [OF s] by (simp add: con_char_def term_char_def Let_def LC)
  next
    case False
    let ?i = "x + C * y"
    let ?m = "store16 m (cell_at ?i) (char_cell c)"
    let ?g = "g(?i := char_cell c)"
    note idx = cell_index [OF xy]
    note b = geom_ok_bounds [OF g]
    have o: "a \<notin> screen (L * C) \<Longrightarrow> ?m a = m a" for a by (rule cell_store_other [OF idx]) (use b in auto)
    have g': "geom_ok L C p ?m" by (rule geom_ok_screen [OF g o])
    have LC': "vp_lines ?m p = L" "vp_cols ?m p = C" using g' by (auto simp: geom_ok_def)
    have s': "shows_term L C p (x, y, ?m) (x, y, ?g)"
      using g' xy cells idx b by (auto simp: shows_term_def cell_load)
    have e: "con_char p c (x, y, m) = (if C \<le> x + 1
        then (if L \<le> y + 1 then (0, y + 1 - 1, scroll p ?m) else (0, y + 1, ?m)) else (x + 1, y, ?m))"
      using False c LC' by (cases "c = CHR 0x09") (simp_all add: con_char_def Let_def LC char_cell_def CHAR_ATTR_def)
    show ?thesis
    proof (cases "C \<le> x + 1")
      case True
      then show ?thesis using newline_shows [OF s'] o False by (simp add: e term_char_def Let_def)
    next
      case False': False
      then show ?thesis using s' o False by (simp add: e term_char_def Let_def shows_term_def)
    qed
  qed
qed

lemma con_loop_shows:
  "shows_term L C p (x, y, m) (x, y, g) \<Longrightarrow> CHR 0x0D \<notin> set cs \<Longrightarrow>
   shows_term L C p (con_loop p cs (x, y, m)) (fold (term_char L C) cs (x, y, g))
   \<and> (\<forall>a. a \<notin> screen (L * C) \<longrightarrow> snd (snd (con_loop p cs (x, y, m))) a = m a)"
proof (induction cs arbitrary: x y m g)
  case (Cons c cs)
  obtain x1 y1 m1 where c1: "con_char p c (x, y, m) = (x1, y1, m1)" by (metis prod_cases3)
  obtain x2 y2 g1 where t1: "term_char L C c (x, y, g) = (x2, y2, g1)" by (metis prod_cases3)
  have step: "shows_term L C p (x1, y1, m1) (x2, y2, g1)" "\<forall>a. a \<notin> screen (L * C) \<longrightarrow> m1 a = m a"
    using con_char_shows [OF Cons.prems(1), of c] Cons.prems(2) c1 t1 by auto
  then have "x2 = x1" "y2 = y1" by (auto simp: shows_term_def)
  then show ?case using Cons.IH [of x1 y1 m1 g1] step Cons.prems(2) c1 t1 by auto
qed simp

section \<open>Properties\<close>

text \<open>The port writes that move the hardware cursor to cell \<open>i\<close>: the high byte of \<open>i\<close>, then the low one.\<close>

definition cursor_ports :: "int \<Rightarrow> (u16 \<times> u32) list" where
  "cursor_ports i =
     (let hi = 0xff AND word_of_int (i * 2 div 2 ^ 9); lo = 0xff AND word_of_int (i * 2 div 2 ^ 1)
      in [(0x3d4, 14), (0x80, 14), (0x3d5, hi), (0x80, hi), (0x3d4, 15), (0x80, 15), (0x3d5, lo), (0x80, lo)])"

lemma outb_p_sel [lock_simps]:
  "klock (outb_p v p s) = klock s" "intr (outb_p v p s) = intr s"
  "kports (outb_p v p s) = kports s @ [(p, v), (0x80, v)]" "kcpu.more (outb_p v p s) = kcpu.more s"
  "mem (outb_p v p (s' :: 'b kmem_scheme)) = mem s'"
  by (simp_all add: outb_p_def outp_def)

lemma byte_store: "0 \<le> i \<Longrightarrow> i < 256 \<Longrightarrow> uint (word_of_int i :: u8) = i"
  by (simp add: unsigned_of_int take_bit_int_eq_self)

lemma param_stores:
  assumes g: "geom_ok L C p m"
  shows "geom_ok L C p (m(p := a, p + 1 := b))"
    and "0 \<le> j \<Longrightarrow> j < L * C \<Longrightarrow> load16 (m(p := a, p + 1 := b)) (cell_at j) = load16 m (cell_at j)"
proof -
  show "geom_ok L C p (m(p := a, p + 1 := b))" by (rule geom_ok_cong [OF g]) simp_all
  assume j: "0 \<le> j" "j < L * C"
  have out: "p \<notin> screen (L * C)" "p + 1 \<notin> screen (L * C)" using g param_span [of p] by (auto simp: geom_ok_def)
  have "span (cell_at j) 2 \<subseteq> screen (L * C)" using geom_ok_bounds [OF g] j by (intro cell_in_screen) auto
  then show "load16 (m(p := a, p + 1 := b)) (cell_at j) = load16 m (cell_at j)"
    using out by (intro load16_cong) auto
qed

lemma con_write_shows:
  assumes g: "geom_ok L C p (mem s)" and x: "vp_x (mem s) p < C" and y: "vp_y (mem s) p < L"
    and cr: "CHR 0x0D \<notin> set cs"
  defines "r \<equiv> fold (term_char L C) cs (vp_x (mem s) p, vp_y (mem s) p, \<lambda>i. load16 (mem s) (cell_at i))"
  shows "let s' = con_write p cs s; x' = fst r; y' = fst (snd r); g' = snd (snd r) in
    geom_ok L C p (mem s') \<and> vp_x (mem s') p = x' \<and> vp_y (mem s') p = y' \<and> x' < C \<and> y' < L
    \<and> (\<forall>i. 0 \<le> i \<and> i < L * C \<longrightarrow> load16 (mem s') (cell_at i) = g' i)
    \<and> (\<forall>a. a \<notin> screen (L * C) \<union> {p, p + 1} \<longrightarrow> mem s' a = mem s a)
    \<and> kports s' = kports s @ cursor_ports (x' + C * y')
    \<and> klock s' = klock s \<and> intr s' = (klock s = 0)"
proof -
  let ?x = "vp_x (mem s) p" and ?y = "vp_y (mem s) p" and ?g = "\<lambda>i. load16 (mem s) (cell_at i)"
  have s0: "shows_term L C p (?x, ?y, mem s) (?x, ?y, ?g)"
    using g x y by (auto simp: shows_term_def vp_x_def vp_y_def)
  obtain x1 y1 m1 where c1: "con_loop p cs (?x, ?y, mem s) = (x1, y1, m1)" by (metis prod_cases3)
  obtain g1 where r: "r = (x1, y1, g1)"
    using con_loop_shows [OF s0 cr] c1 unfolding r_def by (auto simp: shows_term_def split: prod.splits)
  have sh: "shows_term L C p (x1, y1, m1) (x1, y1, g1)" and fr: "\<forall>a. a \<notin> screen (L * C) \<longrightarrow> m1 a = mem s a"
    using con_loop_shows [OF s0 cr] c1 r unfolding r_def by auto
  have g1: "geom_ok L C p m1" and xy: "0 \<le> x1" "x1 < C" "0 \<le> y1" "y1 < L" using sh by (auto simp: shows_term_def)
  have b: "x1 < 256" "y1 < 256" using geom_ok_bounds [OF g1] xy by auto
  let ?m = "m1(p := word_of_int x1, p + 1 := word_of_int y1)"
  define s1 where "s1 = con_write p cs s"
  have cols: "vp_cols ?m p = C" using param_stores(1) [OF g1] by (simp add: geom_ok_def)
  have sel: "mem s1 = ?m" "kports s1 = kports s @ cursor_ports (x1 + C * y1)" "klock s1 = klock s"
    "intr s1 = (klock s = 0)"
    using cols c1
    by (simp_all add: s1_def con_write_def Let_def lock_simps cursor_ports_def vidport_def)
  have "vp_x ?m p = x1" "vp_y ?m p = y1" using b xy by (simp_all add: vp_x_def vp_y_def byte_store)
  then show ?thesis
    unfolding s1_def [symmetric] Let_def r
    using sel param_stores [OF g1] sh fr xy by (auto simp: shows_term_def)
qed

text \<open>
  Property C3.  con_write implements the terminal: for any text without carriage returns the cursor and
  the cells of the screen end up as the specification has them, the hardware cursor is moved there, no
  other byte of memory than the screen and the two cursor bytes is written, and the kernel lock is left
  as it was.
\<close>

theorem con_write_refines_terminal:
  assumes "geom_ok L C p (mem s)" and "vp_x (mem s) p < C" and "vp_y (mem s) p < L" and "CHR 0x0D \<notin> set cs"
  shows "let s' = con_write p cs s;
      (x', y', g') = fold (term_char L C) cs (vp_x (mem s) p, vp_y (mem s) p, \<lambda>i. load16 (mem s) (cell_at i)) in
    geom_ok L C p (mem s') \<and> vp_x (mem s') p = x' \<and> vp_y (mem s') p = y' \<and> x' < C \<and> y' < L
    \<and> (\<forall>i. 0 \<le> i \<and> i < L * C \<longrightarrow> load16 (mem s') (cell_at i) = g' i)
    \<and> (\<forall>a. a \<notin> screen (L * C) \<union> {p, p + 1} \<longrightarrow> mem s' a = mem s a)
    \<and> kports s' = kports s @ cursor_ports (x' + C * y')
    \<and> klock s' = klock s \<and> intr s' = (klock s = 0)"
  using con_write_shows [OF assms] by (simp add: Let_def case_prod_beta)

text \<open>A machine whose screen has 24 lines of 80 cells above the status line, the cursor at its last line.\<close>

definition display :: kmem where
  "display = four_pages\<lparr>mem := (\<lambda>_. 0)(0x8e000 := 78, 0x8e001 := 23, 0x8e005 := 80, 0x8e006 := 24)\<rparr>"

lemma param_below:
  assumes "x \<in> span 0x8e000 12"
  shows "uint x < 0xb8000"
proof -
  have "unat x < unat (0x8e000 :: u32) + 12" using assms in_span_iff [of "0x8e000" 12 x] by simp
  then have "unat x < 581644" by simp
  then have "int (unat x) < 581644" by linarith
  then show ?thesis by simp
qed

lemma display_ok: "geom_ok 24 80 0x8e000 (mem display)"
proof -
  have "x \<notin> screen (24 * 80)" if "x \<in> span 0x8e000 12" for x
    using param_below [OF that] by (simp add: screen_def)
  then have "span 0x8e000 12 \<inter> screen (24 * 80) = {}" by blast
  then show ?thesis unfolding geom_ok_def by (simp add: display_def vp_lines_def vp_cols_def)
qed

theorem con_write_refines_terminal_witness:
  "let s' = con_write 0x8e000 ''ab'' display in
    vp_x (mem s') 0x8e000 = 0 \<and> vp_y (mem s') 0x8e000 = 23 \<and> load16 (mem s') (cell_at 1839) = 0x0762"
proof -
  have "vp_x (mem display) 0x8e000 = 78" "vp_y (mem display) 0x8e000 = 23"
    by (simp_all add: display_def vp_x_def vp_y_def)
  then show ?thesis
    using con_write_refines_terminal [OF display_ok, of "''ab''"]
    by (simp add: Let_def term_char_def term_newline_def char_cell_def char_val_def byte_of_def)
qed

text \<open>
  A carriage return does not return to the start of its line: on the first line it sets
  the row to 255, and the next character is written outside the screen.
\<close>

theorem carriage_return_leaves_screen:
  assumes "geom_ok 24 80 p (mem s)" and "vp_y (mem s) p = 0"
  shows "vp_y (mem (con_write p [CHR 0x0D] s)) p = 255 \<and> cell_at (0 + 80 * 255) \<notin> screen (24 * 80)"
proof
  have "vp_y ((mem s)(p := word_of_int 0, p + 1 := word_of_int (- 1))) p = 255"
    by (simp add: vp_y_def unsigned_minus_1_eq_mask mask_eq_exp_minus_1)
  moreover have "vp_y (mem s) p - 1 = -1" using assms(2) by simp
  ultimately show "vp_y (mem (con_write p [CHR 0x0D] s)) p = 255"
    by (simp add: con_write_def con_char_def Let_def lock_simps)
  show "cell_at (0 + 80 * 255) \<notin> screen (24 * 80)" by (simp add: cell_at_def screen_def)
qed

lemma vidmem_cell: "vidmem k = cell_at (int k)"
  by (simp add: vidmem_def cell_at_def)

lemma cells_above:
  assumes "a \<in> cells i j" "j \<le> 4000"
  shows "0xb8000 + 2 * int i \<le> uint a"
proof -
  obtain k where k: "i \<le> k" "k < j" "a \<in> span (vidmem k) 2" using assms(1) by (auto simp: cells_def)
  then have "uint a = 0xb8000 + 2 * int k \<or> uint a = 0xb8000 + 2 * int k + 1"
    using cell_bytes [of "int k"] assms(2) by (simp add: vidmem_cell)
  then show ?thesis using k(1) by auto
qed

text \<open>
  Property C33.  The console and the status line do not disturb each other: on the screen of 24 lines the
  driver is left with at start-up, text without carriage returns leaves the last row as it is, and
  \<open>update_status\<close> leaves every cell of the console as it is.
\<close>

theorem console_keeps_status_line:
  assumes "geom_ok 24 80 p (mem s)" and "vp_x (mem s) p < 80" and "vp_y (mem s) p < 24" and "CHR 0x0D \<notin> set cs"
    and "span p 12 \<inter> cells 1920 2012 = {}" and "name_ok (tname (tsk t n))"
  shows "(\<forall>c < 92. load16 (mem (con_write p cs s)) (vidmem (1920 + c)) = load16 (mem s) (vidmem (1920 + c)))
    \<and> (\<exists>t'. update_status n q t = Some t' \<and>
         (\<forall>i. 0 \<le> i \<and> i < 24 * 80 \<longrightarrow> load16 (mem t') (cell_at i) = load16 (mem t) (cell_at i)))"
proof
  have fr: "\<forall>a. a \<notin> screen (24 * 80) \<union> {p, p + 1} \<longrightarrow> mem (con_write p cs s) a = mem s a"
    using con_write_shows [OF assms(1-4)] unfolding Let_def by blast
  show "\<forall>c < 92. load16 (mem (con_write p cs s)) (vidmem (1920 + c)) = load16 (mem s) (vidmem (1920 + c))"
  proof (intro allI impI load16_cong)
    fix c :: nat and x assume c: "c < 92" and x: "x \<in> span (vidmem (1920 + c)) 2"
    have "x \<in> cells 1920 2012" using c x by (auto simp: cells_def intro!: bexI [of _ "1920 + c"])
    then have "x \<noteq> p" "x \<noteq> p + 1" using assms(5) param_span [of p] by blast+
    moreover have "x \<notin> screen (24 * 80)" using x c cell_bytes [of "int (1920 + c)"] by (auto simp: vidmem_cell screen_def)
    ultimately show "mem (con_write p cs s) x = mem s x" using fr by blast
  qed
next
  obtain msg where l: "length msg \<le> 49" and u: "update_status n q t = Some (if \<not> video_init t then t else
      t\<lparr>mem := status_line msg (mem t)\<rparr>)"
    using update_status_eq [OF assms(6), of q] status_text_length [OF assms(6)] by metis
  have "load16 (status_line msg (mem t)) (cell_at i) = load16 (mem t) (cell_at i)" if i: "0 \<le> i" "i < 24 * 80" for i
  proof (rule load16_cong)
    fix x assume "x \<in> span (cell_at i) 2"
    then have "uint x < 0xb8000 + 2 * 1920" using cell_bytes [of i] i by auto
    moreover have "0xb8000 + 2 * 1920 \<le> uint a" if "a \<in> cells 1920 2012" for a
      using cells_above [OF that] by simp
    ultimately have "x \<notin> cells 1920 2012" by force
    then show "status_line msg (mem t) x = mem t x" by (rule status_line_other [OF _ l])
  qed
  then show "\<exists>t'. update_status n q t = Some t' \<and>
      (\<forall>i. 0 \<le> i \<and> i < 24 * 80 \<longrightarrow> load16 (mem t') (cell_at i) = load16 (mem t) (cell_at i))"
    using u by auto
qed

text \<open>The same screen with the cursor on the first line.\<close>

definition top_display :: kmem where
  "top_display = display\<lparr>mem := (mem display)(0x8e001 := 0)\<rparr>"

lemma top_display_ok: "geom_ok 24 80 0x8e000 (mem top_display)"
  by (rule geom_ok_cong [OF display_ok]) (simp_all add: top_display_def)

theorem carriage_return_leaves_screen_witness:
  "vp_y (mem (con_write 0x8e000 [CHR 0x0D] top_display)) 0x8e000 = 255"
  using carriage_return_leaves_screen [OF top_display_ok] by (simp add: top_display_def vp_y_def)

theorem console_keeps_status_line_witness:
  "load16 (mem (con_write 0x8e000 ''ab'' display)) (vidmem 1920) = load16 (mem display) (vidmem 1920)
    \<and> update_status 0x2000 0x2000 booted \<noteq> None"
proof -
  have "span 0x8e000 12 \<inter> cells 1920 2012 = {}"
  proof -
    have "0xb8000 \<le> uint x" if "x \<in> cells 1920 2012" for x using cells_above [OF that] by simp
    moreover have "uint x < 0xb8000" if "x \<in> span 0x8e000 12" for x
      using param_below [OF that] .
    ultimately show ?thesis by force
  qed
  moreover have "name_ok (tname (tsk booted 0x2000))" by (simp add: idle_task_init_def name_ok_def nul_def)
  ultimately show ?thesis
    using console_keeps_status_line [OF display_ok, of "''ab''" booted "0x2000" "0x2000"]
    by (auto simp: display_def vp_x_def vp_y_def dest: spec [of _ 0])
qed

end
