(* ===== verification/Ring.thy ===== *)
theory Ring
  imports Prelude
begin

text \<open>
  Byte rings of 16384 entries.  The log of kernel/printk.c and the buffer of kernel/keyboard.c keep a
  start, a size and a masked index in the same way; the locales state what putting a byte in and taking
  one out do to these fields, and prove that the ring holds the last 16384 bytes put in, first in first
  out.
\<close>

definition last_n :: "nat \<Rightarrow> 'a list \<Rightarrow> 'a list" where
  "last_n n xs = drop (length xs - n) xs"

lemma last_n_all: "length xs \<le> n \<Longrightarrow> last_n n xs = xs"
  by (simp add: last_n_def)

lemma last_n_length: "length (last_n n xs) = min n (length xs)"
  by (simp add: last_n_def)

lemma last_n_append: "last_n n (last_n n xs @ ys) = last_n n (xs @ ys)"
proof (cases "length xs \<le> n")
  case False
  then have e: "xs @ ys = take (length xs - n) xs @ (last_n n xs @ ys)" by (simp add: last_n_def)
  have "last_n n (zs @ ws) = last_n n ws" if "n \<le> length ws" for zs ws :: "'a list"
    using that by (simp add: last_n_def)
  then show ?thesis by (subst e) (use False in \<open>simp add: last_n_length\<close>)
qed (simp add: last_n_all)

definition ring_mask :: u32 where "ring_mask = 0x3fff"

lemma ring_index:
  "(a + of_nat i) AND ring_mask = (a + of_nat j) AND ring_mask \<longleftrightarrow> (unat a + i) mod 16384 = (unat a + j) mod 16384"
proof -
  have m: "ring_mask = mask 14" by (simp add: ring_mask_def mask_eq_exp_minus_1)
  have u: "unat (x AND ring_mask) = unat x mod 16384" for x
    by (simp only: m take_bit_eq_mask [symmetric] unsigned_take_bit_eq) (simp add: take_bit_eq_mod)
  have s: "unat (a + of_nat k) mod 16384 = (unat a + k) mod 16384" for k
  proof -
    have "unat (a + of_nat k) = (unat a + k) mod 2 ^ 32" by (simp add: unat_word_ariths unat_of_nat mod_add_right_eq)
    then show ?thesis by (simp add: mod_mod_cancel)
  qed
  show ?thesis by (metis u s unsigned_word_eqI)
qed

locale byte_ring =
  fixes buf :: "'s \<Rightarrow> u32 \<Rightarrow> char" and start size :: "'s \<Rightarrow> u32" and put :: "char \<Rightarrow> 's \<Rightarrow> 's"
  assumes buf_put: "buf (put c s) = (buf s)((start s + size s) AND ring_mask := c)"
    and size_put: "size (put c s) = (if size s < 16384 then size s + 1 else size s)"
    and start_put: "start (put c s) = (if size s < 16384 then start s else start s + 1)"
begin

definition bounded :: "'s \<Rightarrow> bool" where
  "bounded s \<longleftrightarrow> unat (size s) \<le> 16384"

definition contents :: "'s \<Rightarrow> string" where
  "contents s = map (\<lambda>i. buf s ((start s + of_nat i) AND ring_mask)) [0..<unat (size s)]"

lemma contents_length: "length (contents s) = unat (size s)"
  by (simp add: contents_def)

lemma size_less: "size s < 16384 \<longleftrightarrow> unat (size s) < 16384"
  by (simp add: word_less_nat_alt)

lemma put_bounded: "bounded s \<Longrightarrow> bounded (put c s)"
  by (auto simp: bounded_def size_put size_less unat_word_ariths)

lemma put_contents:
  assumes "bounded s"
  shows "contents (put c s) = last_n 16384 (contents s @ [c])"
proof (cases "unat (size s) < 16384")
  case True
  then have sz: "unat (size (put c s)) = Suc (unat (size s))"
    by (simp add: size_put size_less unat_word_ariths)
  have old: "buf (put c s) ((start s + of_nat i) AND ring_mask) = buf s ((start s + of_nat i) AND ring_mask)"
    if "i < unat (size s)" for i
  proof -
    have "(unat (start s) + i) mod 16384 \<noteq> (unat (start s) + unat (size s)) mod 16384"
    proof
      assume "(unat (start s) + i) mod 16384 = (unat (start s) + unat (size s)) mod 16384"
      then have "16384 dvd (unat (start s) + unat (size s)) - (unat (start s) + i)"
        by (intro mod_eq_dvd_iff_nat [THEN iffD1]) (use that in auto)
      then have "16384 dvd unat (size s) - i" by simp
      then show False using that True by (auto dest: dvd_imp_le)
    qed
    then have "(start s + of_nat i) AND ring_mask \<noteq> (start s + size s) AND ring_mask"
      using ring_index [of "start s" i "unat (size s)"] by simp
    then show ?thesis by (simp add: buf_put)
  qed
  have st: "start (put c s) = start s" using True by (simp add: start_put size_less)
  have "contents (put c s) = contents s @ [c]"
    unfolding contents_def sz st by (simp add: old) (simp add: buf_put)
  then show ?thesis using True by (simp add: last_n_all contents_length)
next
  case False
  then have full: "unat (size s) = 16384" using assms by (simp add: bounded_def)
  then have sz: "size (put c s) = size s" and st: "start (put c s) = start s + 1"
    by (simp_all add: size_put start_put size_less)
  have "of_nat (Suc i) = (1 :: u32) + of_nat i" for i by simp
  then have e: "(start s + 1 + of_nat i) = (start s + of_nat (Suc i))" for i
    by (metis add.assoc)
  have wrap: "(start s + of_nat 16384) AND ring_mask = (start s + of_nat 0) AND ring_mask"
    unfolding ring_index by simp
  have sizeq: "size s = of_nat 16384" using full by (intro unsigned_word_eqI) simp
  have idx: "(start s + size s) AND ring_mask = (start s + of_nat 16384) AND ring_mask"
    unfolding sizeq ..
  have old: "buf (put c s) ((start s + of_nat (Suc i)) AND ring_mask) = buf s ((start s + of_nat (Suc i)) AND ring_mask)"
    if "i < 16383" for i
  proof -
    have "(unat (start s) + Suc i) mod 16384 \<noteq> (unat (start s) + 16384) mod 16384"
    proof
      assume "(unat (start s) + Suc i) mod 16384 = (unat (start s) + 16384) mod 16384"
      then have "16384 dvd (unat (start s) + 16384) - (unat (start s) + Suc i)"
        by (intro mod_eq_dvd_iff_nat [THEN iffD1]) (use that in auto)
      then have "16384 dvd 16384 - Suc i" by simp
      then show False using that by (auto dest: dvd_imp_le)
    qed
    then have "(start s + of_nat (Suc i)) AND ring_mask \<noteq> (start s + of_nat 16384) AND ring_mask"
      using ring_index [of "start s" "Suc i" 16384] by blast
    then show ?thesis unfolding buf_put idx by simp
  qed
  have new: "buf (put c s) ((start s + of_nat 16384) AND ring_mask) = c"
    unfolding buf_put idx by simp
  have "Suc 16383 = 16384" by simp
  then have split: "[0..<16384] = [0..<16383] @ [16383 :: nat]" using upt_Suc_append [of 0 16383] by simp
  have "contents (put c s) = map (\<lambda>i. buf (put c s) ((start s + of_nat (Suc i)) AND ring_mask)) [0..<16384]"
    unfolding contents_def sz st full e ..
  also have "\<dots> = map (\<lambda>i. buf (put c s) ((start s + of_nat (Suc i)) AND ring_mask)) ([0..<16383] @ [16383])"
    by (rule arg_cong [OF split])
  also have "\<dots> = map (\<lambda>i. buf s ((start s + of_nat (Suc i)) AND ring_mask)) [0..<16383] @ [c]"
    using old new by simp
  also have "map (\<lambda>i. buf s ((start s + of_nat (Suc i)) AND ring_mask)) [0..<16383] = tl (contents s)"
    by (rule nth_equalityI) (simp_all add: contents_def full nth_tl)
  finally show ?thesis by (simp add: last_n_def contents_length full drop_Suc)
qed

lemma fold_put:
  "bounded s \<Longrightarrow> bounded (fold put cs s) \<and> contents (fold put cs s) = last_n 16384 (contents s @ cs)"
proof (induction cs arbitrary: s)
  case Nil
  then show ?case by (simp add: last_n_all contents_length bounded_def)
next
  case (Cons c cs)
  from Cons.IH [OF put_bounded [OF Cons.prems]] show ?case
    by (simp add: put_contents [OF Cons.prems] last_n_append)
qed

end

text \<open>A ring that is also read: \<open>get\<close> takes the oldest byte, or gives NUL when there is none.\<close>

locale byte_queue = byte_ring buf start size put
  for buf :: "'s \<Rightarrow> u32 \<Rightarrow> char" and start size :: "'s \<Rightarrow> u32" and put :: "char \<Rightarrow> 's \<Rightarrow> 's" +
  fixes get :: "'s \<Rightarrow> char \<times> 's"
  assumes get_empty: "size s = 0 \<Longrightarrow> get s = (nul, s)"
    and get_char: "size s \<noteq> 0 \<Longrightarrow> fst (get s) = buf s (start s AND ring_mask)"
    and get_buf: "size s \<noteq> 0 \<Longrightarrow> buf (snd (get s)) = buf s"
    and get_start: "size s \<noteq> 0 \<Longrightarrow> start (snd (get s)) = start s + 1"
    and get_size: "size s \<noteq> 0 \<Longrightarrow> size (snd (get s)) = size s - 1"
begin

lemma get_contents:
  assumes "bounded s"
  shows "case contents s of [] \<Rightarrow> get s = (nul, s)
    | c # cs \<Rightarrow> fst (get s) = c \<and> contents (snd (get s)) = cs \<and> bounded (snd (get s))"
proof (cases "size s = 0")
  case True
  then show ?thesis by (simp add: contents_def get_empty)
next
  case False
  define n where "n = unat (size s) - 1"
  have n: "unat (size s) = Suc n" using False by (simp add: n_def unat_gt_0 word_gt_0)
  have n': "unat (size s - 1) = n" using n False by (simp add: unat_minus_one)
  have e: "start s + 1 + of_nat i = start s + of_nat (Suc i)" for i by (simp add: add.assoc)
  have "contents s = map (\<lambda>i. buf s ((start s + of_nat i) AND ring_mask)) [0..<Suc n]"
    by (simp only: contents_def n)
  also have "\<dots> = buf s (start s AND ring_mask) # map (\<lambda>i. buf s ((start s + of_nat (Suc i)) AND ring_mask)) [0..<n]"
    unfolding upt_conv_Cons [OF zero_less_Suc] map_Suc_upt [symmetric] by (simp add: comp_def)
  also have "map (\<lambda>i. buf s ((start s + of_nat (Suc i)) AND ring_mask)) [0..<n] = contents (snd (get s))"
    by (simp only: contents_def get_buf [OF False] get_start [OF False] get_size [OF False] n' e)
  finally show ?thesis
    using assms n n' by (simp add: get_char [OF False] bounded_def get_size [OF False])
qed

end

end
