(* ===== verification/Printk.thy ===== *)
theory Printk
  imports Console Ring
begin

text \<open>
  kernel/printk.c: the kernel log and the consoles.  printk formats its message, splits it into lines,
  gives every line that starts without a level the default one, appends the text to the ring \<open>log_buf\<close>
  and sends it, without the level, to every console that wants messages of that level;
  register_console replays the log to a console that comes late.
\<close>

declare One_nat_def [simp del]

section \<open>State\<close>

text \<open>\<open>write\<close> of \<open>struct console\<close> is a pointer to con_write or to par_write, or null.\<close>

datatype driver = Text_Console | Parallel

record console =
  cwrite :: "driver option"
  cdata :: u32
  loglevel :: u32

record klog = ktask +
  consoles :: "console list"
  log_buf :: "u32 \<Rightarrow> char"
  log_start :: u32
  logged_chars :: u32
  log_size :: u32
  msg_level :: int

definition LOG_BUF_SIZE :: u32 where "LOG_BUF_SIZE = 16384"
definition LOG_BUF_MASK :: u32 where "LOG_BUF_MASK = LOG_BUF_SIZE - 1"
definition LOGLEVEL_DEFAULT :: int where "LOGLEVEL_DEFAULT = 4"
definition LOGLEVEL_MAX :: u32 where "LOGLEVEL_MAX = 7"

section \<open>printk\<close>

text \<open>The body of the inner loop adds a character to the circular buffer.\<close>

definition log_put :: "char \<Rightarrow> 'a klog_scheme \<Rightarrow> 'a klog_scheme" where
  "log_put c s =
     (let s = s\<lparr>log_buf := (log_buf s)((log_start s + log_size s) AND LOG_BUF_MASK := c)\<rparr>
      in if log_size s < LOG_BUF_SIZE then s\<lparr>log_size := log_size s + 1\<rparr> else s\<lparr>log_start := log_start s + 1\<rparr>)"

definition log_char :: "char \<Rightarrow> 'a klog_scheme \<Rightarrow> 'a klog_scheme" where
  "log_char c s = (let s = log_put c s in s\<lparr>logged_chars := logged_chars s + 1\<rparr>)"

text \<open>
  The inner loop: the text logged up to and with a line feed, whether there was one, what is left of the
  message, and the state.
\<close>

primrec log_line :: "string \<Rightarrow> 'a klog_scheme \<Rightarrow> string \<times> bool \<times> string \<times> 'a klog_scheme" where
  "log_line [] s = ([], False, [], s)"
| "log_line (c # cs) s =
     (let s = log_char c s
      in if c = CHR 0x0A \<or> c = CHR 0x0D then ([c], True, cs, s)
         else (let (t, lf, rest, s) = log_line cs s in (c # t, lf, rest, s)))"

text \<open>\<open>c->write(c, msg, len)\<close> through the pointer.\<close>

definition dispatch :: "console \<Rightarrow> driver \<Rightarrow> string \<Rightarrow> 'a kmem_scheme \<Rightarrow> 'a kmem_scheme" where
  "dispatch c d msg s = (case d of Text_Console \<Rightarrow> con_write (cdata c) msg s | Parallel \<Rightarrow> par_write msg s)"

primrec write_all :: "int \<Rightarrow> string \<Rightarrow> console list \<Rightarrow> 'a kmem_scheme \<Rightarrow> 'a kmem_scheme" where
  "write_all lvl msg [] s = s"
| "write_all lvl msg (c # cs) s =
     (let s = (if word_of_int lvl \<le> loglevel c
               then case cwrite c of None \<Rightarrow> s | Some d \<Rightarrow> dispatch c d msg s else s)
      in write_all lvl msg cs s)"

text \<open>The text at \<open>p\<close> does not start with a level.\<close>

definition no_level :: "string \<Rightarrow> bool" where
  "no_level p \<longleftrightarrow> peek p \<noteq> CHR ''<''
     \<or> char_val (peek (drop 1 p)) < char_val (CHR ''0'') \<or> char_val (CHR ''7'') < char_val (peek (drop 1 p))
     \<or> peek (drop 2 p) \<noteq> CHR ''>''"

text \<open>The line a text starts with, whether it is complete, and what follows it.\<close>

primrec split_line :: "string \<Rightarrow> string \<times> bool \<times> string" where
  "split_line [] = ([], False, [])"
| "split_line (c # cs) =
     (if c = CHR 0x0A \<or> c = CHR 0x0D then ([c], True, cs)
      else (let (t, lf, rest) = split_line cs in (c # t, lf, rest)))"

lemma log_line_eq:
  "log_line cs s = (fst (split_line cs), fst (snd (split_line cs)), snd (snd (split_line cs)),
     fold log_char (fst (split_line cs)) s)"
  by (induction cs arbitrary: s) (auto simp: Let_def case_prod_beta)

lemma split_line_append: "fst (split_line cs) @ snd (snd (split_line cs)) = cs"
  by (induction cs) (auto simp: Let_def case_prod_beta)

lemma split_line_less: "cs \<noteq> [] \<Longrightarrow> length (snd (snd (split_line cs))) < length cs"
proof (induction cs)
  case (Cons c cs)
  then show ?case by (cases cs) (auto simp: Let_def case_prod_beta)
qed simp

text \<open>
  The outer loop, from \<open>p\<close> to the end of the message.  In the first branch the source moves \<open>p\<close> back by
  three bytes and stores the default level there.
\<close>

definition level_tag :: "int \<Rightarrow> string" where
  "level_tag l = [CHR ''<'', char_of (nat (l + 48)), CHR ''>'']"

definition start_line :: "string \<Rightarrow> 'a klog_scheme \<Rightarrow> string \<times> nat \<times> 'a klog_scheme" where
  "start_line p s =
     (if msg_level s < 0
      then (let p = (if no_level p then level_tag LOGLEVEL_DEFAULT @ p else p)
            in (p, 3, s\<lparr>msg_level := char_val (peek (drop 1 p)) - char_val (CHR ''0'')\<rparr>))
      else (p, 0, s))"

lemma level_tag_chars:
  assumes "0 \<le> l" "l \<le> 7"
  shows "char_val (char_of (nat (l + 48))) = l + 48" "split_line (level_tag l @ p) =
    (level_tag l @ fst (split_line p), fst (snd (split_line p)), snd (snd (split_line p)))"
proof -
  have b: "byte_of (char_of (nat (l + 48))) = nat (l + 48)" using assms by simp
  then show "char_val (char_of (nat (l + 48))) = l + 48" using assms by (simp add: char_val_def)
  have "char_of (nat (l + 48)) \<noteq> CHR 0x0A" "char_of (nat (l + 48)) \<noteq> CHR 0x0D"
    using b assms by (auto simp: byte_of_eq_iff [symmetric]) (simp_all add: byte_of_def)
  then show "split_line (level_tag l @ p) =
    (level_tag l @ fst (split_line p), fst (snd (split_line p)), snd (snd (split_line p)))"
    by (simp add: level_tag_def Let_def case_prod_beta)
qed

lemma start_line_rest:
  assumes "p \<noteq> []"
  shows "length (snd (snd (split_line (fst (start_line p s))))) < length p"
  using split_line_less [OF assms]
  by (auto simp: start_line_def Let_def level_tag_chars(2) LOGLEVEL_DEFAULT_def)

function printk_loop :: "string \<Rightarrow> 'a klog_scheme \<Rightarrow> 'a klog_scheme" where
  "printk_loop p s =
     (if p = [] then s
      else
        (let (p, skip, s) = start_line p s;
             (t, line_feed, rest, s) = log_line p s;
             s = write_all (msg_level s) (drop skip t) (consoles s) s;
             s = (if line_feed then s\<lparr>msg_level := -1\<rparr> else s)
         in printk_loop rest s))"
  by pat_completeness auto
termination
proof (relation "measure (\<lambda>(p, s). length p)")
  fix p :: string and s :: "'a klog_scheme" and x p' y skip s1 z t u line_feed v rest s2 s3 s4
  assume "p \<noteq> []" "x = start_line p s" "(p', y) = x" "(skip, s1) = y"
    "z = log_line p' s1" "(t, u) = z" "(line_feed, v) = u" "(rest, s2) = v"
  then have "rest = snd (snd (split_line (fst (start_line p s))))" by (auto simp: log_line_eq) (metis fst_conv prod.collapse)+
  then show "((rest, s4), p, s) \<in> measure (\<lambda>(p, s). length p)"
    using start_line_rest [OF \<open>p \<noteq> []\<close>, of s] by simp
qed simp

declare printk_loop.simps [simp del]

text \<open>\<open>buf\<close> has 1024 bytes, of which the message may use all but the first three.\<close>

definition printk :: "string \<Rightarrow> varg list \<Rightarrow> 'a klog_scheme \<Rightarrow> (int \<times> 'a klog_scheme) option" where
  "printk fmt args s =
     (let (flags, s) = lock_flags s
      in case vsprintf fmt args of
           None \<Rightarrow> None
         | Some (out, i, _) \<Rightarrow>
             if 1024 - 3 < length out then None
             else
               (let s = printk_loop (take (nat i) out) s
                in Some (i, unlock_flags flags s)))"

section \<open>register_console\<close>

text \<open>
  The replay loop: \<open>i\<close> characters have been read, \<open>p\<close> is the index of the next, \<open>chunk\<close> the \<open>j\<close> characters
  in the 16-byte buffer, \<open>lvl\<close> the level.  \<open>write\<close> is called without a test for null.
\<close>

lemma kmem_view_write:
  "kmem.more (con_write p c s) = kmem.more s" "kmem.more (par_write c (s :: 'a kmem_scheme)) = kmem.more s"
  "kmem.more (dispatch k d c s) = kmem.more s" "kmem.more (write_all l c cs s) = kmem.more s"
proof -
  have ob: "kmem.more (outb_p v q u) = kmem.more u" "kmem.more (outp q v u) = kmem.more u"
    "kmem.more (lock_kernel u) = kmem.more u" "kmem.more (unlock_kernel u) = kmem.more u"
    for v q and u :: "'b kmem_scheme"
    by (simp_all add: outb_p_def outp_def lock_kernel_def unlock_kernel_def Let_def)
  show 1: "kmem.more (con_write p c s) = kmem.more s" for p c and s :: "'b kmem_scheme"
    by (simp add: con_write_def Let_def case_prod_beta ob)
  show 2: "kmem.more (par_write c s) = kmem.more s" for c and s :: "'b kmem_scheme"
    by (induction c arbitrary: s) (simp_all add: Let_def ob)
  show 3: "kmem.more (dispatch k d c s) = kmem.more s" for k d c and s :: "'b kmem_scheme"
    by (cases d) (simp_all add: dispatch_def 1 2)
  show "kmem.more (write_all l c cs s) = kmem.more s"
    by (induction cs arbitrary: s) (simp_all add: Let_def 3 split: option.split)
qed

lemma klog_more_sel:
  fixes s s' :: "'a klog_scheme"
  assumes "kmem.more s' = kmem.more s"
  shows "consoles s' = consoles s" "log_buf s' = log_buf s" "log_start s' = log_start s"
    "log_size s' = log_size s" "logged_chars s' = logged_chars s" "msg_level s' = msg_level s"
  using assms by (cases s; cases s'; simp)+

lemmas write_log [simp] = kmem_view_write(3,4) [THEN klog_more_sel(1)] kmem_view_write(3,4) [THEN klog_more_sel(2)]
  kmem_view_write(3,4) [THEN klog_more_sel(3)] kmem_view_write(3,4) [THEN klog_more_sel(4)]
  kmem_view_write(3,4) [THEN klog_more_sel(5)] kmem_view_write(3,4) [THEN klog_more_sel(6)]

function replay :: "console \<Rightarrow> driver \<Rightarrow> nat \<Rightarrow> u32 \<Rightarrow> string \<Rightarrow> int \<Rightarrow> 'a klog_scheme \<Rightarrow> 'a klog_scheme" where
  "replay con d i p chunk lvl s =
     (if i < unat (log_size s)
      then
        (let chunk = chunk @ [log_buf s p];
             p = (p + 1) AND LOG_BUF_MASK
         in if last chunk \<noteq> CHR 0x0A \<and> i < unat (log_size s - 1) \<and> length chunk < 16 - 1
            then replay con d (i + 1) p chunk lvl s
            else
              (let (lvl, q) =
                     (if lvl < 0
                      then if \<not> no_level chunk then (char_val (chunk ! 1) - char_val (CHR ''0''), drop 3 chunk)
                           else (LOGLEVEL_DEFAULT, chunk)
                      else (lvl, chunk));
                   s = (if word_of_int lvl \<le> loglevel con then dispatch con d q s else s);
                   lvl = (if last chunk = CHR 0x0A then -1 else lvl)
               in replay con d (i + 1) p [] lvl s))
      else s)"
  by pat_completeness auto
termination
  by (relation "measure (\<lambda>(con, d, i, p, chunk, lvl, s). unat (log_size s) - i)") (auto split: if_splits)

declare replay.simps [simp del]

definition register_console :: "console \<Rightarrow> 'a klog_scheme \<Rightarrow> 'a klog_scheme option" where
  "register_console con s =
     (let (flags, s) = lock_flags s;
          s = s\<lparr>consoles := con # consoles s\<rparr>;
          p = log_start s AND LOG_BUF_MASK
      in case cwrite con of
           None \<Rightarrow> if log_size s = 0 then Some (unlock_flags flags s) else None
         | Some d \<Rightarrow> Some (unlock_flags flags (replay con d 0 p [] (- 1) s)))"

text \<open>The two drivers, as console_init and setup_telemetry register them.\<close>

definition setup_telemetry :: "'a klog_scheme \<Rightarrow> 'a klog_scheme option" where
  "setup_telemetry s = register_console \<lparr>cwrite = Some Parallel, cdata = 0, loglevel = LOGLEVEL_MAX\<rparr> s"

section \<open>The ring\<close>

interpretation log: byte_ring log_buf log_start log_size log_char
  by unfold_locales (simp_all add: log_char_def log_put_def Let_def ring_mask_def LOG_BUF_MASK_def LOG_BUF_SIZE_def)

section \<open>What printk does to a message\<close>

text \<open>
  The lines of a message, each with its level, the text that is logged for it and the text that is sent
  to the consoles; \<open>lvl\<close> is the level the previous message left open, or negative.
\<close>

definition line_start :: "int \<Rightarrow> string \<Rightarrow> string \<times> nat \<times> int" where
  "line_start lvl p =
     (if lvl < 0
      then (let p = (if no_level p then level_tag LOGLEVEL_DEFAULT @ p else p)
            in (p, 3, char_val (peek (drop 1 p)) - char_val (CHR ''0'')))
      else (p, 0, lvl))"

lemma line_rest_less:
  "p \<noteq> [] \<Longrightarrow> length (snd (snd (split_line (fst (line_start lvl p))))) < length p"
  using split_line_less [of p]
  by (auto simp: line_start_def Let_def level_tag_chars(2) LOGLEVEL_DEFAULT_def)

function segs :: "int \<Rightarrow> string \<Rightarrow> (int \<times> string \<times> string) list" where
  "segs lvl p =
     (if p = [] then []
      else
        (let (p, skip, lvl) = line_start lvl p; (t, lf, rest) = split_line p
         in (lvl, t, drop skip t) # segs (if lf then -1 else lvl) rest))"
  by pat_completeness auto
termination
proof (relation "measure (\<lambda>(lvl, p). length p)")
  fix lvl p x p' y skip lvl' z t u lf rest
  assume "p \<noteq> []" "x = line_start lvl p" "(p', y) = x" "(skip, lvl') = y" "z = split_line p'" "(t, u) = z" "(lf, rest) = u"
  then have "rest = snd (snd (split_line (fst (line_start lvl p))))" by (metis fst_conv snd_conv)
  then show "((if lf then -1 else lvl', rest), lvl, p) \<in> measure (\<lambda>(lvl, p). length p)"
    using line_rest_less [OF \<open>p \<noteq> []\<close>] by simp
qed simp

declare segs.simps [simp del]

text \<open>The level a message leaves open.\<close>

function seg_end :: "int \<Rightarrow> string \<Rightarrow> int" where
  "seg_end lvl p =
     (if p = [] then lvl
      else
        (let (p, skip, lvl) = line_start lvl p; (t, lf, rest) = split_line p
         in seg_end (if lf then -1 else lvl) rest))"
  by pat_completeness auto
termination
proof (relation "measure (\<lambda>(lvl, p). length p)")
  fix lvl p x p' y skip lvl' z t u lf rest
  assume "p \<noteq> []" "x = line_start lvl p" "(p', y) = x" "(skip, lvl') = y" "z = split_line p'" "(t, u) = z" "(lf, rest) = u"
  then have "rest = snd (snd (split_line (fst (line_start lvl p))))" by (metis fst_conv snd_conv)
  then show "((if lf then -1 else lvl', rest), lvl, p) \<in> measure (\<lambda>(lvl, p). length p)"
    using line_rest_less [OF \<open>p \<noteq> []\<close>] by simp
qed simp

declare seg_end.simps [simp del]

lemma start_line_eq:
  "start_line p s = (fst (line_start (msg_level s) p), fst (snd (line_start (msg_level s) p)),
     s\<lparr>msg_level := snd (snd (line_start (msg_level s) p))\<rparr>)"
  by (simp add: start_line_def line_start_def Let_def)

text \<open>The part of the state the drivers work on.\<close>

abbreviation machine_of :: "'a klog_scheme \<Rightarrow> kmem" where "machine_of s \<equiv> kmem.truncate s"

lemma con_write_view: "kmem.truncate (con_write p c s) = con_write p c (kmem.truncate s)"
proof -
  have 1: "kmem.truncate (lock_kernel u) = lock_kernel (kmem.truncate u)"
    "kmem.truncate (unlock_kernel u) = unlock_kernel (kmem.truncate u)"
    "kmem.truncate (outb_p v q u) = outb_p v q (kmem.truncate u)"
    "kmem.truncate (u\<lparr>mem := m\<rparr>) = kmem.truncate u\<lparr>mem := m\<rparr>" "mem (kmem.truncate u) = mem u"
    for v q m and u :: "'b kmem_scheme"
    by (simp_all add: kmem.defs lock_kernel_def unlock_kernel_def Let_def outb_p_def outp_def)
  show ?thesis by (simp add: con_write_def Let_def case_prod_beta 1)
qed

lemma par_write_view: "kmem.truncate (par_write c s) = par_write c (kmem.truncate s)"
proof -
  have 1: "kmem.truncate (outp q v u) = outp q v (kmem.truncate u)" for v q and u :: "'b kmem_scheme"
    by (simp add: kmem.defs outp_def)
  show ?thesis by (induction c arbitrary: s) (simp_all add: Let_def 1)
qed

lemma write_all_view: "kmem.truncate (write_all l c cs s) = write_all l c cs (kmem.truncate s)"
proof (induction cs arbitrary: s)
  case (Cons k cs)
  have "kmem.truncate (dispatch k d c s) = dispatch k d c (kmem.truncate s)" for d
    by (cases d) (simp_all add: dispatch_def con_write_view par_write_view)
  then show ?case using Cons.IH by (simp add: Let_def split: option.split)
qed simp

lemma log_view: "kmem.truncate (fold log_char t s) = kmem.truncate s"
  by (induction t arbitrary: s) (simp_all add: log_char_def log_put_def Let_def kmem.defs)

lemma log_fields:
  "consoles (fold log_char t s) = consoles s" "msg_level (fold log_char t s) = msg_level s"
  by (induction t arbitrary: s) (simp_all add: log_char_def log_put_def Let_def)

lemma log_contents_cong:
  assumes "log_buf s' = log_buf s" "log_start s' = log_start s" "log_size s' = log_size s"
  shows "log.contents s' = log.contents s" "log.bounded s' = log.bounded s"
  using assms by (simp_all add: log.contents_def log.bounded_def)

text \<open>One round of the outer loop.\<close>

lemma printk_loop_step:
  fixes s :: "'a klog_scheme"
  assumes p: "p \<noteq> []" and ls: "line_start (msg_level s) p = (p', skip, lvl)" and sl: "split_line p' = (t, lf, rest)"
  obtains s1 where "printk_loop p s = printk_loop rest s1" "consoles s1 = consoles s"
    "msg_level s1 = (if lf then -1 else lvl)"
    "log.bounded s \<Longrightarrow> log.bounded s1 \<and> log.contents s1 = last_n 16384 (log.contents s @ t)"
    "machine_of s1 = write_all lvl (drop skip t) (consoles s) (machine_of s)"
proof -
  define s0 where "s0 = fold log_char t (s\<lparr>msg_level := lvl\<rparr>)"
  define s1 where "s1 = (let s = write_all lvl (drop skip t) (consoles s0) s0 in if lf then s\<lparr>msg_level := -1\<rparr> else s)"
  have s0: "consoles s0 = consoles s" "msg_level s0 = lvl" by (simp_all add: s0_def log_fields)
  have b0: "log.bounded (s\<lparr>msg_level := lvl\<rparr>) = log.bounded s" "log.contents (s\<lparr>msg_level := lvl\<rparr>) = log.contents s"
    by (simp_all add: log.contents_def log.bounded_def)
  have "printk_loop p s = printk_loop rest s1"
    using p by (subst printk_loop.simps) (simp add: start_line_eq ls log_line_eq sl s0_def [symmetric] s1_def Let_def s0)
  moreover have "consoles s1 = consoles s" "msg_level s1 = (if lf then -1 else lvl)"
    by (simp_all add: s1_def Let_def s0)
  moreover have "log.bounded s1 \<and> log.contents s1 = last_n 16384 (log.contents s @ t)" if "log.bounded s"
  proof -
    have "log.bounded s0 \<and> log.contents s0 = last_n 16384 (log.contents s @ t)"
      using log.fold_put [of "s\<lparr>msg_level := lvl\<rparr>" t] that by (simp add: s0_def b0)
    moreover have "log.contents s1 = log.contents s0" "log.bounded s1 = log.bounded s0"
      by (rule log_contents_cong; simp add: s1_def Let_def)+
    ultimately show ?thesis by simp
  qed
  moreover have "machine_of s1 = write_all lvl (drop skip t) (consoles s) (machine_of s)"
  proof -
    have v: "kmem.truncate (u\<lparr>msg_level := k\<rparr>) = kmem.truncate u" for u :: "'a klog_scheme" and k
      by (simp add: kmem.defs)
    have "machine_of s0 = machine_of s" by (simp add: s0_def log_view v)
    then show ?thesis by (simp add: s1_def Let_def v write_all_view s0)
  qed
  ultimately show ?thesis by (rule that)
qed

lemma segs_step:
  assumes "p \<noteq> []" "line_start l p = (p', skip, lvl)" "split_line p' = (t, lf, rest)"
  shows "segs l p = (lvl, t, drop skip t) # segs (if lf then -1 else lvl) rest"
    and "seg_end l p = seg_end (if lf then -1 else lvl) rest"
  using assms by (subst segs.simps seg_end.simps, simp)+

lemma printk_loop_spec:
  fixes s :: "'a klog_scheme"
  assumes "log.bounded s"
  shows "let s' = printk_loop p s; L = segs (msg_level s) p in
    log.bounded s' \<and> log.contents s' = last_n 16384 (log.contents s @ concat (map (fst \<circ> snd) L))
    \<and> machine_of s' = fold (\<lambda>(l, t, m). write_all l m (consoles s)) L (machine_of s)
    \<and> consoles s' = consoles s \<and> msg_level s' = seg_end (msg_level s) p"
  using assms
proof (induction p arbitrary: s rule: length_induct)
  case (1 p)
  show ?case
  proof (cases "p = []")
    case True
    have "length (log.contents s) \<le> 16384" using 1(2) by (simp add: log.contents_length log.bounded_def)
    then show ?thesis using True 1(2)
      by (subst segs.simps, subst seg_end.simps) (simp add: printk_loop.simps last_n_all Let_def)
  next
    case False
    obtain p' skip lvl where ls: "line_start (msg_level s) p = (p', skip, lvl)" by (metis prod_cases3)
    obtain t lf rest where sl: "split_line p' = (t, lf, rest)" by (metis prod_cases3)
    obtain s1 where s1: "printk_loop p s = printk_loop rest s1" "consoles s1 = consoles s"
      "msg_level s1 = (if lf then -1 else lvl)" "log.bounded s1"
      "log.contents s1 = last_n 16384 (log.contents s @ t)"
      "machine_of s1 = write_all lvl (drop skip t) (consoles s) (machine_of s)"
      using printk_loop_step [OF False ls sl] 1(2) by metis
    have "length rest < length p" using line_rest_less [OF False, of "msg_level s"] ls sl by simp
    then have ih: "let s' = printk_loop rest s1; L = segs (msg_level s1) rest in
      log.bounded s' \<and> log.contents s' = last_n 16384 (log.contents s1 @ concat (map (fst \<circ> snd) L))
      \<and> machine_of s' = fold (\<lambda>(l, t, m). write_all l m (consoles s1)) L (machine_of s1)
      \<and> consoles s' = consoles s1 \<and> msg_level s' = seg_end (msg_level s1) rest"
      using 1(1) s1(4) by blast
    show ?thesis using ih
      by (simp add: s1 segs_step [OF False ls sl] Let_def last_n_append comp_def)
  qed
qed

section \<open>What register_console does to the log\<close>

text \<open>The pieces the replay sends, with their levels, as a function of the text of the log.\<close>

fun replay_pieces :: "string \<Rightarrow> string \<Rightarrow> int \<Rightarrow> (int \<times> string) list" where
  "replay_pieces [] chunk lvl = []"
| "replay_pieces (c # cs) chunk lvl =
     (let chunk = chunk @ [c]
      in if c \<noteq> CHR 0x0A \<and> cs \<noteq> [] \<and> length chunk < 15 then replay_pieces cs chunk lvl
         else
           (let (lvl, q) =
                  (if lvl < 0
                   then if \<not> no_level chunk then (char_val (chunk ! 1) - char_val (CHR ''0''), drop 3 chunk)
                        else (LOGLEVEL_DEFAULT, chunk)
                   else (lvl, chunk))
            in (lvl, q) # replay_pieces cs [] (if c = CHR 0x0A then -1 else lvl)))"

declare replay_pieces.simps(2) [simp del]

definition send :: "console \<Rightarrow> driver \<Rightarrow> int \<times> string \<Rightarrow> 'a kmem_scheme \<Rightarrow> 'a kmem_scheme" where
  "send con d = (\<lambda>(l, q) s. if word_of_int l \<le> loglevel con then dispatch con d q s else s)"

lemma log_mask: "LOG_BUF_MASK = ring_mask"
  by (simp add: ring_mask_def LOG_BUF_MASK_def LOG_BUF_SIZE_def)

lemma mask_step: "((a AND ring_mask) + 1) AND ring_mask = (a + 1) AND ring_mask"
proof -
  have m: "ring_mask = mask 14" by (simp add: ring_mask_def mask_eq_exp_minus_1)
  have u: "unat (x AND ring_mask) = unat x mod 16384" for x
    by (simp only: m take_bit_eq_mask [symmetric] unsigned_take_bit_eq) (simp add: take_bit_eq_mod)
  have s: "unat (x + 1) mod 16384 = (unat x + 1) mod 16384" for x :: u32
  proof -
    have "unat (x + 1) = (unat x + 1) mod 2 ^ 32" by (simp add: unat_word_ariths)
    then show ?thesis by (simp add: mod_mod_cancel)
  qed
  have "unat (((a AND ring_mask) + 1) AND ring_mask) = unat ((a + 1) AND ring_mask)"
    by (simp only: u s mod_add_left_eq)
  then show ?thesis by (rule unsigned_word_eqI)
qed

lemma log_at: "i < unat (log_size s) \<Longrightarrow> log.contents s ! i = log_buf s ((log_start s + of_nat i) AND ring_mask)"
  by (simp add: log.contents_def)

lemma send_more [simp]: "kmem.more (send con d lq s) = kmem.more s"
  by (simp add: send_def kmem_view_write split: prod.split)

lemma send_view: "kmem.truncate (send con d lq s) = send con d lq (kmem.truncate s)"
  by (cases d) (simp_all add: send_def dispatch_def con_write_view par_write_view split: prod.split)

lemma replay_spec:
  fixes s :: "'a klog_scheme"
  assumes "p = (log_start s + of_nat i) AND ring_mask"
  shows "machine_of (replay con d i p chunk lvl s) =
      fold (send con d) (replay_pieces (drop i (log.contents s)) chunk lvl) (machine_of s)
    \<and> kmem.more (replay con d i p chunk lvl s) = kmem.more s"
  using assms
proof (induction "unat (log_size s) - i" arbitrary: i p chunk lvl s rule: less_induct)
  case less
  show ?case
  proof (cases "i < unat (log_size s)")
    case False
    then show ?thesis by (subst (1 2) replay.simps) (simp add: log.contents_length)
  next
    case True
    define c where "c = log_buf s p"
    define p' where "p' = (p + 1) AND ring_mask"
    define rest where "rest = drop (i + 1) (log.contents s)"
    have dr: "drop i (log.contents s) = c # rest"
      using True log_at [OF True] less(2) Cons_nth_drop_Suc [of i "log.contents s"]
      by (simp add: c_def rest_def log.contents_length One_nat_def)
    have p': "p' = (log_start s + of_nat (i + 1)) AND ring_mask"
      using mask_step [of "log_start s + of_nat i"] by (simp add: p'_def less(2) add.assoc)
    have last: "i < unat (log_size s - 1) \<longleftrightarrow> rest \<noteq> []"
    proof -
      have "log_size s \<noteq> 0" using True by auto
      then have "unat (log_size s - 1) = unat (log_size s) - 1" by (simp add: unat_minus_one)
      then show ?thesis using True by (auto simp: rest_def log.contents_length)
    qed
    show ?thesis
    proof (cases "c \<noteq> CHR 0x0A \<and> rest \<noteq> [] \<and> length (chunk @ [c]) < 15")
      case True': True
      have e: "replay con d i p chunk lvl s = replay con d (i + 1) p' (chunk @ [c]) lvl s"
        by (subst replay.simps) (use True True' last in \<open>simp add: Let_def c_def [symmetric] p'_def log_mask\<close>)
      have "replay_pieces (c # rest) chunk lvl = replay_pieces rest (chunk @ [c]) lvl"
        using True' by (simp add: replay_pieces.simps)
      then show ?thesis
        unfolding e dr using less(1) [OF _ p', of "chunk @ [c]" lvl] True by (simp add: rest_def)
    next
      case False
      define l q where "l = (if lvl < 0 then if \<not> no_level (chunk @ [c]) then char_val ((chunk @ [c]) ! 1) - char_val (CHR ''0'') else LOGLEVEL_DEFAULT else lvl)"
        and "q = (if lvl < 0 \<and> \<not> no_level (chunk @ [c]) then drop 3 (chunk @ [c]) else chunk @ [c])"
      define s1 where "s1 = send con d (l, q) s"
      define l' where "l' = (if c = CHR 0x0A then -1 else l)"
      have e: "replay con d i p chunk lvl s = replay con d (i + 1) p' [] l' s1"
        by (subst replay.simps)
          (use True False last in \<open>auto simp: Let_def c_def [symmetric] p'_def log_mask l_def q_def s1_def send_def l'_def\<close>)
      have r: "replay_pieces (c # rest) chunk lvl = (l, q) # replay_pieces rest [] l'"
        using False by (auto simp: replay_pieces.simps l_def q_def l'_def Let_def)
      note m = klog_more_sel [OF send_more [of con d "(l, q)" s], folded s1_def]
      have "p' = (log_start s1 + of_nat (i + 1)) AND ring_mask" by (simp only: m p')
      then have ih: "machine_of (replay con d (i + 1) p' [] l' s1) =
          fold (send con d) (replay_pieces (drop (i + 1) (log.contents s1)) [] l') (machine_of s1)
        \<and> kmem.more (replay con d (i + 1) p' [] l' s1) = kmem.more s1"
        using True by (intro less(1)) (simp_all add: m)
      show ?thesis
        unfolding e dr r using ih
        by (simp add: rest_def s1_def send_view log_contents_cong [OF m(2,3,4), unfolded s1_def])
    qed
  qed
qed

section \<open>The parallel port\<close>

text \<open>What par_write sends for a text.\<close>

definition par_ports :: "string \<Rightarrow> (u16 \<times> u32) list" where
  "par_ports cs = concat (map (\<lambda>c. [(0x37a, 8), (0x378, of_nat (byte_of c)), (0x37a, 1), (0x37a, 0)]) cs)"

lemma par_ports_append: "par_ports (a @ b) = par_ports a @ par_ports b"
  by (simp add: par_ports_def)

lemma par_write_sel:
  "kports (par_write cs s) = kports s @ par_ports cs" "klock (par_write cs s) = klock s"
  "intr (par_write cs s) = intr s" "kcpu.more (par_write cs s) = kcpu.more s"
  by (induction cs arbitrary: s) (simp_all add: par_ports_def Let_def lock_simps)

text \<open>The ports a parallel console of the level \<open>k\<close> receives for pieces of text with their levels.\<close>

definition heard :: "u32 \<Rightarrow> (int \<times> string) list \<Rightarrow> (u16 \<times> u32) list" where
  "heard k L = concat (map (\<lambda>(l, q). if word_of_int l \<le> k then par_ports q else []) L)"

lemma heard_simps [simp]:
  "heard k [] = []" "heard k ((l, q) # L) = (if word_of_int l \<le> k then par_ports q else []) @ heard k L"
  "heard k (L @ M) = heard k L @ heard k M"
  by (simp_all add: heard_def)

lemma heard_split: "heard k ((l, a) # (l, b) # L) = heard k ((l, a @ b) # L)"
  by (simp add: par_ports_append)

lemma send_heard:
  shows "kports (fold (send con Parallel) L s) = kports s @ heard (loglevel con) L"
    and "klock (fold (send con Parallel) L s) = klock s" "intr (fold (send con Parallel) L s) = intr s"
    and "kcpu.more (fold (send con Parallel) L s) = kcpu.more s"
  by (induction L arbitrary: s) (simp_all add: send_def dispatch_def par_write_sel split: prod.split)

section \<open>Lines\<close>

text \<open>
  A line of a message: its level, if it has one, and its text.  \<open>line_text\<close> is what the caller passes,
  \<open>logged\<close> what the log keeps of it.
\<close>

type_synonym logline = "int option \<times> string"

definition level_of :: "logline \<Rightarrow> int" where
  "level_of x = (case fst x of None \<Rightarrow> LOGLEVEL_DEFAULT | Some l \<Rightarrow> l)"

definition line_ok :: "logline \<Rightarrow> bool" where
  "line_ok x \<longleftrightarrow> (\<forall>c \<in> set (snd x). c \<noteq> CHR 0x0A \<and> c \<noteq> CHR 0x0D)
     \<and> (case fst x of None \<Rightarrow> no_level (snd x @ [CHR 0x0A]) | Some l \<Rightarrow> 0 \<le> l \<and> l \<le> 7)"

definition line_text :: "logline \<Rightarrow> string" where
  "line_text x = (case fst x of None \<Rightarrow> [] | Some l \<Rightarrow> level_tag l) @ snd x @ [CHR 0x0A]"

definition logged :: "logline \<Rightarrow> string" where
  "logged x = level_tag (level_of x) @ snd x @ [CHR 0x0A]"

definition sent :: "logline \<Rightarrow> int \<times> string" where
  "sent x = (level_of x, snd x @ [CHR 0x0A])"

lemma split_line_text:
  "\<forall>c \<in> set t. c \<noteq> CHR 0x0A \<and> c \<noteq> CHR 0x0D \<Longrightarrow> split_line (t @ CHR 0x0A # r) = (t @ [CHR 0x0A], True, r)"
  by (induction t) simp_all

lemma drop_one [simp]: "drop 1 (x # xs) = xs" "drop 2 (x # y # xs) = xs"
  by (simp_all add: One_nat_def numeral_2_eq_2)

lemma no_level_tag:
  assumes "0 \<le> l" "l \<le> 7"
  shows "\<not> no_level (level_tag l @ r)" "char_val (peek (drop 1 (level_tag l @ r))) - char_val (CHR ''0'') = l"
proof -
  have "char_val (CHR ''0'') = 48" "char_val (CHR ''7'') = 55" by (simp_all add: char_val_def byte_of_def)
  then show "\<not> no_level (level_tag l @ r)" "char_val (peek (drop 1 (level_tag l @ r))) - char_val (CHR ''0'') = l"
    using level_tag_chars(1) [OF assms] assms by (simp_all add: no_level_def level_tag_def)
qed

lemma no_level_cut: "no_level (t @ CHR 0x0A # r) = no_level (t @ [CHR 0x0A])"
proof -
  have v: "char_val (CHR 0x0A) = 10" "char_val (CHR ''0'') = 48" by (simp_all add: char_val_def byte_of_def)
  consider "t = []" | a where "t = [a]" | a b u where "t = a # b # u" by (metis neq_Nil_conv)
  then show ?thesis
  proof cases
    case (3 a b u)
    then show ?thesis by (cases u) (simp_all add: no_level_def)
  qed (simp_all add: no_level_def v)
qed

lemma segs_line:
  assumes "line_ok x"
  shows "segs (-1) (line_text x @ r) = (level_of x, logged x, snd (sent x)) # segs (-1) r"
    and "seg_end (-1) (line_text x @ r) = seg_end (-1) r"
proof -
  obtain l t where x: "x = (l, t)" by fastforce
  have t: "\<forall>c \<in> set t. c \<noteq> CHR 0x0A \<and> c \<noteq> CHR 0x0D" using assms by (simp add: x line_ok_def)
  have lv: "0 \<le> level_of x" "level_of x \<le> 7"
    using assms by (auto simp: x line_ok_def level_of_def LOGLEVEL_DEFAULT_def split: option.splits)
  have ls: "line_start (-1) (line_text x @ r) = (level_tag (level_of x) @ t @ CHR 0x0A # r, 3, level_of x)"
  proof (cases l)
    case None
    then have "no_level (t @ CHR 0x0A # r)" using assms no_level_cut [of t r] by (simp add: x line_ok_def)
    then show ?thesis using no_level_tag(2) [OF lv, of "t @ CHR 0x0A # r"] None
      by (simp add: line_start_def line_text_def x level_of_def)
  next
    case (Some k)
    then show ?thesis using no_level_tag [OF lv, of "t @ CHR 0x0A # r"]
      by (simp add: line_start_def line_text_def x level_of_def)
  qed
  have sl: "split_line (level_tag (level_of x) @ t @ CHR 0x0A # r) = (logged x, True, r)"
    unfolding level_tag_chars(2) [OF lv] split_line_text [OF t] logged_def by (simp add: x)
  have ne: "line_text x @ r \<noteq> []" by (simp add: line_text_def)
  have d: "drop 3 (logged x) = snd (sent x)" by (simp add: logged_def level_tag_def sent_def)
  show "segs (-1) (line_text x @ r) = (level_of x, logged x, snd (sent x)) # segs (-1) r"
    "seg_end (-1) (line_text x @ r) = seg_end (-1) r"
    using segs_step [OF ne ls sl] by (simp_all add: d)
qed

lemma segs_lines:
  "list_all line_ok xs \<Longrightarrow>
   segs (-1) (concat (map line_text xs)) = map (\<lambda>x. (level_of x, logged x, snd (sent x))) xs
   \<and> seg_end (-1) (concat (map line_text xs)) = -1"
proof (induction xs)
  case Nil
  show ?case by (simp add: segs.simps seg_end.simps)
next
  case (Cons x xs)
  then show ?case by (simp add: segs_line)
qed

lemma lock_flags_view:
  fixes s :: "'a klog_scheme"
  shows "kmem.truncate (lock_kernel s) = lock_kernel (kmem.truncate s)"
    and "kmem.truncate (unlock_flags f s) = unlock_flags f (kmem.truncate s)"
    and "kmem.more (lock_kernel s) = kmem.more s" "kmem.more (unlock_flags f s) = kmem.more s"
  by (simp_all add: kmem.defs lock_kernel_def unlock_flags_def unlock_kernel_def Let_def)

text \<open>printk on a message that starts a line and holds complete lines.\<close>

definition formats :: "string \<Rightarrow> varg list \<Rightarrow> logline list \<Rightarrow> bool" where
  "formats fmt args xs \<longleftrightarrow> list_all line_ok xs \<and> length (concat (map line_text xs)) \<le> 1020
     \<and> (\<exists>rest. vsprintf fmt args =
          Some (concat (map line_text xs) @ [nul], int (length (concat (map line_text xs))), rest))"

lemma printk_lines:
  fixes s :: "'a klog_scheme"
  assumes "formats fmt args xs" and b: "log.bounded s" and m: "msg_level s = -1"
  obtains s' where "printk fmt args s = Some (int (length (concat (map line_text xs))), s')"
    "log.bounded s'" "log.contents s' = last_n 16384 (log.contents s @ concat (map logged xs))"
    "machine_of s' = unlock_flags (intr s)
       (fold (\<lambda>x. write_all (level_of x) (snd (sent x)) (consoles s)) xs (lock_kernel (machine_of s)))"
    "consoles s' = consoles s" "msg_level s' = -1"
proof -
  let ?p = "concat (map line_text xs)"
  obtain rest where v: "vsprintf fmt args = Some (?p @ [nul], int (length ?p), rest)" and ok: "list_all line_ok xs"
    and len: "length ?p \<le> 1020" using assms(1) by (auto simp: formats_def)
  define s0 where "s0 = lock_kernel s"
  define s1 where "s1 = printk_loop ?p s0"
  define s' where "s' = unlock_flags (intr s) s1"
  note m0 = klog_more_sel [OF lock_flags_view(3) [of s], folded s0_def]
  have b0: "log.bounded s0" "log.contents s0 = log.contents s"
    using log_contents_cong [OF m0(2,3,4)] b by simp_all
  have L: "segs (msg_level s) ?p = map (\<lambda>x. (level_of x, logged x, snd (sent x))) xs"
    "seg_end (msg_level s) ?p = -1"
    using segs_lines [OF ok] m by simp_all
  have ms: "machine_of s0 = lock_kernel (machine_of s)" by (simp add: s0_def lock_flags_view(1))
  have s1: "log.bounded s1" "log.contents s1 = last_n 16384 (log.contents s @ concat (map logged xs))"
    "machine_of s1 = fold (\<lambda>x. write_all (level_of x) (snd (sent x)) (consoles s)) xs (lock_kernel (machine_of s))"
    "consoles s1 = consoles s" "msg_level s1 = -1"
    using printk_loop_spec [OF b0(1), of ?p]
    by (simp_all add: s1_def [symmetric] Let_def L b0(2) comp_def m0 fold_map ms)
  note m1 = klog_more_sel [OF lock_flags_view(4) [of "intr s" s1], folded s'_def]
  have "printk fmt args s = Some (int (length ?p), s')"
    using len by (simp add: printk_def v lock_flags_def s'_def s1_def s0_def del: length_concat)
  moreover have "log.bounded s'" "log.contents s' = last_n 16384 (log.contents s @ concat (map logged xs))"
    using log_contents_cong [OF m1(2,3,4)] s1(1,2) by simp_all
  moreover have "machine_of s' = unlock_flags (intr s)
      (fold (\<lambda>x. write_all (level_of x) (snd (sent x)) (consoles s)) xs (lock_kernel (machine_of s)))"
    by (simp add: s'_def lock_flags_view(2) s1(3))
  moreover have "consoles s' = consoles s" "msg_level s' = -1" using m1 s1(4,5) by simp_all
  ultimately show ?thesis by (rule that)
qed

section \<open>Replaying lines\<close>

text \<open>
  The replay cuts a line into pieces of at most 15 characters; a parallel console hears the same as from
  the whole line.  A carriage return does not end a line here.
\<close>

lemma replay_open:
  assumes "0 \<le> lvl" "CHR 0x0A \<notin> set t" "length chunk < 15"
  shows "heard k (replay_pieces (t @ CHR 0x0A # rest) chunk lvl) =
    heard k ((lvl, chunk @ t @ [CHR 0x0A]) # replay_pieces rest [] (-1))"
  using assms
proof (induction t arbitrary: chunk)
  case Nil
  then show ?case by (simp add: replay_pieces.simps Let_def)
next
  case (Cons c t)
  then have c: "c \<noteq> CHR 0x0A" and ih: "length ch < 15 \<Longrightarrow> heard k (replay_pieces (t @ CHR 0x0A # rest) ch lvl) =
    heard k ((lvl, ch @ t @ [CHR 0x0A]) # replay_pieces rest [] (-1))" for ch by auto
  show ?case
  proof (cases "length (chunk @ [c]) < 15")
    case True
    then have "replay_pieces ((c # t) @ CHR 0x0A # rest) chunk lvl = replay_pieces (t @ CHR 0x0A # rest) (chunk @ [c]) lvl"
      using c by (simp add: replay_pieces.simps Let_def)
    then show ?thesis using ih [OF True] by simp
  next
    case False
    then have "replay_pieces ((c # t) @ CHR 0x0A # rest) chunk lvl =
        (lvl, chunk @ [c]) # replay_pieces (t @ CHR 0x0A # rest) [] lvl"
      using c Cons.prems(1) by (simp add: replay_pieces.simps Let_def)
    then show ?thesis using ih [of "[]"] by (simp add: par_ports_def)
  qed
qed

lemma replay_start:
  assumes l: "0 \<le> l" "l \<le> 7" and "CHR 0x0A \<notin> set t" "length u < 12"
  shows "heard k (replay_pieces (t @ CHR 0x0A # rest) (level_tag l @ u) (-1)) =
    heard k ((l, u @ t @ [CHR 0x0A]) # replay_pieces rest [] (-1))"
  using assms(3,4)
proof (induction t arbitrary: u)
  case Nil
  have "replay_pieces (CHR 0x0A # rest) (level_tag l @ u) (-1) = (l, u @ [CHR 0x0A]) # replay_pieces rest [] (-1)"
    using no_level_tag [OF l, of "u @ [CHR 0x0A]"] 
    by (simp add: replay_pieces.simps Let_def level_tag_def)
  then show ?case by simp
next
  case (Cons c t)
  then have c: "c \<noteq> CHR 0x0A" by auto
  show ?case
  proof (cases "length (u @ [c]) < 12")
    case True
    then have "replay_pieces ((c # t) @ CHR 0x0A # rest) (level_tag l @ u) (-1) =
        replay_pieces (t @ CHR 0x0A # rest) (level_tag l @ u @ [c]) (-1)"
      using c by (simp add: replay_pieces.simps Let_def level_tag_def)
    then show ?thesis using Cons.IH [OF _ True] Cons.prems by simp
  next
    case False
    then have "replay_pieces ((c # t) @ CHR 0x0A # rest) (level_tag l @ u) (-1) =
        (l, u @ [c]) # replay_pieces (t @ CHR 0x0A # rest) [] l"
      using c no_level_tag [OF l, of "u @ [c]"]
      by (simp add: replay_pieces.simps Let_def level_tag_def)
    then show ?thesis using replay_open [OF l(1), of t "[]"] Cons.prems by (simp add: par_ports_def)
  qed
qed

lemma replay_line:
  assumes l: "0 \<le> l" "l \<le> 7" and t: "CHR 0x0A \<notin> set t"
  shows "heard k (replay_pieces (level_tag l @ t @ CHR 0x0A # rest) [] (-1)) =
    heard k ((l, t @ [CHR 0x0A]) # replay_pieces rest [] (-1))"
proof -
  have "byte_of (char_of (nat (l + 48))) = nat (l + 48)" using l by simp
  then have "char_of (nat (l + 48)) \<noteq> CHR 0x0A" using l by (auto simp: byte_of_eq_iff [symmetric]) (simp add: byte_of_def)
  then have "replay_pieces (level_tag l @ t @ CHR 0x0A # rest) [] (-1) =
      replay_pieces (t @ CHR 0x0A # rest) (level_tag l @ []) (-1)"
    by (simp add: replay_pieces.simps Let_def level_tag_def)
  then show ?thesis using replay_start [OF l t, of "[]"] by simp
qed

lemma level_of_ok: "line_ok x \<Longrightarrow> 0 \<le> level_of x \<and> level_of x \<le> 7"
  by (auto simp: line_ok_def level_of_def LOGLEVEL_DEFAULT_def split: option.splits)

lemma replay_lines:
  "list_all line_ok xs \<Longrightarrow> heard k (replay_pieces (concat (map logged xs)) [] (-1)) = heard k (map sent xs)"
proof (induction xs)
  case (Cons x xs)
  then have l: "0 \<le> level_of x" "level_of x \<le> 7" and t: "CHR 0x0A \<notin> set (snd x)"
    using level_of_ok [of x] by (auto simp: line_ok_def)
  then show ?case using Cons replay_line [OF l t] by (simp add: logged_def sent_def)
qed simp

text \<open>A number of calls of printk.\<close>

primrec print_all :: "(string \<times> varg list) list \<Rightarrow> 'a klog_scheme \<Rightarrow> 'a klog_scheme option" where
  "print_all [] s = Some s"
| "print_all (c # cs) s = (case printk (fst c) (snd c) s of None \<Rightarrow> None | Some (i, s) \<Rightarrow> print_all cs s)"

lemma truncate_sel [simp]: "kports (kmem.truncate s) = kports s" "mem (kmem.truncate s) = mem s"
  "klock (kmem.truncate s) = klock s" "intr (kmem.truncate s) = intr s"
  by (simp_all add: kmem.defs)

lemma unlock_flags_ports: "kports (unlock_flags f s) = kports s" "mem (unlock_flags f (t :: 'b kmem_scheme)) = mem t"
  by (simp_all add: unlock_flags_def unlock_kernel_def Let_def)

lemma write_lines_ports:
  assumes "cwrite con = Some Parallel"
  shows "kports (fold (\<lambda>x. write_all (level_of x) (snd (sent x)) (if on then [con] else [])) xs s) =
    kports s @ (if on then heard (loglevel con) (map sent xs) else [])"
proof (induction xs arbitrary: s)
  case (Cons x xs)
  then show ?case using assms by (simp add: dispatch_def par_write_sel Let_def) (simp add: sent_def)
qed simp

lemma print_all_spec:
  fixes s :: "'a klog_scheme"
  assumes con: "cwrite con = Some Parallel"
  shows "list_all2 (\<lambda>c. formats (fst c) (snd c)) calls xss \<Longrightarrow> log.bounded s \<Longrightarrow> msg_level s = -1 \<Longrightarrow>
    consoles s = (if on then [con] else []) \<Longrightarrow>
    \<exists>s'. print_all calls s = Some s' \<and> log.bounded s' \<and> consoles s' = consoles s
      \<and> log.contents s' = last_n 16384 (log.contents s @ concat (map logged (concat xss)))
      \<and> kports s' = kports s @ (if on then heard (loglevel con) (map sent (concat xss)) else [])"
proof (induction calls arbitrary: s xss)
  case Nil
  then have "last_n 16384 (log.contents s) = log.contents s"
    by (intro last_n_all) (simp add: log.contents_length log.bounded_def)
  then show ?case using Nil by simp
next
  case (Cons c calls)
  obtain xs yss where xss: "xss = xs # yss" and f: "formats (fst c) (snd c) xs"
    and fs: "list_all2 (\<lambda>c. formats (fst c) (snd c)) calls yss"
    using Cons.prems(1) by (auto simp: list_all2_Cons1)
  obtain s1 where s1: "printk (fst c) (snd c) s = Some (int (length (concat (map line_text xs))), s1)"
    "log.bounded s1" "log.contents s1 = last_n 16384 (log.contents s @ concat (map logged xs))"
    "machine_of s1 = unlock_flags (intr s)
       (fold (\<lambda>x. write_all (level_of x) (snd (sent x)) (consoles s)) xs (lock_kernel (machine_of s)))"
    "consoles s1 = consoles s" "msg_level s1 = -1"
    using printk_lines [OF f Cons.prems(2,3)] by blast
  have "kports (machine_of s1) = kports s @ (if on then heard (loglevel con) (map sent xs) else [])"
    unfolding s1(4) unlock_flags_ports Cons.prems(4) write_lines_ports [OF con] by (simp add: lock_simps)
  then have p: "kports s1 = kports s @ (if on then heard (loglevel con) (map sent xs) else [])" by simp
  show ?case
    using Cons.IH [OF fs s1(2,6)] s1(5) Cons.prems(4)
    by (cases on; simp add: s1(1,3) xss last_n_append p)
qed

lemma register_parallel:
  fixes s :: "'a klog_scheme"
  assumes "cwrite con = Some Parallel"
  obtains s' where "register_console con s = Some s'" "consoles s' = con # consoles s"
    "log.contents s' = log.contents s" "log.bounded s' = log.bounded s" "msg_level s' = msg_level s"
    "kports s' = kports s @ heard (loglevel con) (replay_pieces (log.contents s) [] (-1))"
    "mem s' = mem s" "klock s' = klock s"
proof -
  define s0 where "s0 = (lock_kernel s)\<lparr>consoles := con # consoles s\<rparr>"
  define s1 where "s1 = replay con Parallel 0 (log_start s0 AND LOG_BUF_MASK) [] (-1) s0"
  define s' where "s' = unlock_flags (intr s) s1"
  have f0: "consoles s0 = con # consoles s" "log_buf s0 = log_buf s" "log_start s0 = log_start s"
    "log_size s0 = log_size s" "msg_level s0 = msg_level s" "kports s0 = kports s" "mem s0 = mem s" "klock s0 = klock s + 1"
    by (simp_all add: s0_def lock_kernel_def)
  have r: "machine_of s1 = fold (send con Parallel) (replay_pieces (log.contents s0) [] (-1)) (machine_of s0)"
    "kmem.more s1 = kmem.more s0"
    using replay_spec [of "log_start s0 AND LOG_BUF_MASK" s0 0 con Parallel "[]" "-1"]
    by (simp_all add: s1_def log_mask)
  have v: "kports s1 = kports s @ heard (loglevel con) (replay_pieces (log.contents s) [] (-1))"
    "klock s1 = klock s + 1" "mem s1 = mem s"
    using arg_cong [OF r(1), of kports] arg_cong [OF r(1), of klock] arg_cong [OF r(1), of kcpu.more]
    by (simp_all add: send_heard f0 log_contents_cong [OF f0(2,3,4)]) (simp add: kmem.defs f0)
  note m = klog_more_sel [OF trans [OF lock_flags_view(4) [of "intr s" s1, folded s'_def] r(2)]]
  have "register_console con s = Some s'"
    using assms by (simp add: register_console_def lock_flags_def Let_def s'_def s1_def s0_def lock_kernel_def)
  moreover have "log.contents s' = log.contents s" "log.bounded s' = log.bounded s"
    using log_contents_cong [of s' s] m f0 by simp_all
  moreover have "kports s' = kports s1" "mem s' = mem s1" "klock s' = klock s1 - 1"
    by (simp_all add: s'_def unlock_flags_ports) (simp add: unlock_flags_def unlock_kernel_def Let_def)
  ultimately show ?thesis using m f0 v by (intro that [of s']) simp_all
qed

section \<open>What the consoles receive\<close>

text \<open>
  A console wants a line if it has a driver and the level of the line, a number from 0 to 7, is not above
  the console's own.  The deliveries of a message are its lines in order, each with its text and a line
  feed but without its level, to the consoles that want it in the order of the list.
\<close>

definition wants :: "logline \<Rightarrow> console \<Rightarrow> bool" where
  "wants x c \<longleftrightarrow> cwrite c \<noteq> None \<and> level_of x \<le> uint (loglevel c)"

definition deliveries :: "console list \<Rightarrow> logline list \<Rightarrow> (console \<times> string) list" where
  "deliveries cs xs = concat (map (\<lambda>x. map (\<lambda>c. (c, snd x @ [CHR 0x0A])) (filter (wants x) cs)) xs)"

definition deliver :: "console \<times> string \<Rightarrow> 'a kmem_scheme \<Rightarrow> 'a kmem_scheme" where
  "deliver = (\<lambda>(c, m). dispatch c (the (cwrite c)) m)"

lemma level_word: "0 \<le> l \<Longrightarrow> l \<le> 7 \<Longrightarrow> word_of_int l \<le> (k :: u32) \<longleftrightarrow> l \<le> uint k"
  by (simp add: word_le_def uint_word_of_int)

lemma write_all_deliver:
  assumes "line_ok x"
  shows "write_all (level_of x) (snd (sent x)) cs s = fold deliver (map (\<lambda>c. (c, snd x @ [CHR 0x0A])) (filter (wants x) cs)) s"
proof (induction cs arbitrary: s)
  case (Cons c cs)
  have "word_of_int (level_of x) \<le> loglevel c \<longleftrightarrow> level_of x \<le> uint (loglevel c)"
    using level_word level_of_ok [OF assms] by blast
  then show ?case using Cons by (auto simp: wants_def deliver_def sent_def Let_def split: option.split)
qed simp

lemma write_lines_deliver:
  assumes "list_all line_ok xs"
  shows "fold (\<lambda>x. write_all (level_of x) (snd (sent x)) cs) xs s = fold deliver (deliveries cs xs) s"
  using assms by (induction xs arbitrary: s) (simp_all add: deliveries_def write_all_deliver)

section \<open>Properties\<close>

text \<open>
  Property C4.  printk, called with a message of complete lines at the start of a line, appends to the log
  every line with its level, the default one where the message gives none, keeping the last 16384 bytes;
  it sends every line, without its level, to exactly the consoles whose own level is not below that of the
  line, line by line in the order of the list of consoles; it returns the length of the message, and puts
  the kernel lock and the interrupt flag back.
\<close>

theorem printk_logs_and_sends:
  fixes s :: "'a klog_scheme"
  assumes "formats fmt args xs" and "log.bounded s" and "msg_level s = -1"
  shows "\<exists>s'. printk fmt args s = Some (int (length (concat (map line_text xs))), s')
    \<and> log.bounded s' \<and> log.contents s' = last_n 16384 (log.contents s @ concat (map logged xs))
    \<and> machine_of s' = unlock_flags (intr s)
         (fold deliver (deliveries (consoles s) xs) (lock_kernel (machine_of s)))
    \<and> consoles s' = consoles s \<and> msg_level s' = -1"
proof -
  have ok: "list_all line_ok xs" using assms(1) by (simp add: formats_def)
  show ?thesis unfolding write_lines_deliver [OF ok, symmetric] by (rule printk_lines [OF assms]) blast
qed

text \<open>
  Property C16.  A console that is registered late misses nothing: on an empty log of complete lines that
  fit in it, registering a parallel console and then printing makes the same port writes as printing and
  then registering it, namely the lines of its level in order; the log is the same.
\<close>

theorem late_console_sees_all:
  fixes s :: "'a klog_scheme"
  assumes "cwrite con = Some Parallel" and "consoles s = []" and "log_size s = 0" and "msg_level s = -1"
    and "list_all2 (\<lambda>c. formats (fst c) (snd c)) calls xss"
    and "length (concat (map logged (concat xss))) \<le> 16384"
  shows "\<exists>a b. Option.bind (register_console con s) (print_all calls) = Some a
    \<and> Option.bind (print_all calls s) (register_console con) = Some b
    \<and> kports a = kports s @ heard (loglevel con) (map sent (concat xss)) \<and> kports b = kports a
    \<and> log.contents a = concat (map logged (concat xss)) \<and> log.contents b = log.contents a"
proof -
  have e: "log.contents s = []" "log.bounded s" using assms(3) by (simp_all add: log.contents_def log.bounded_def)
  have ok: "list_all line_ok (concat xss)"
    using assms(5) by (induction rule: list_all2_induct) (auto simp: formats_def)
  have all: "last_n 16384 (concat (map logged (concat xss))) = concat (map logged (concat xss))"
    by (rule last_n_all [OF assms(6)])
  obtain s1 where s1: "register_console con s = Some s1" "consoles s1 = con # consoles s"
    "log.contents s1 = log.contents s" "log.bounded s1 = log.bounded s" "msg_level s1 = msg_level s"
    "kports s1 = kports s @ heard (loglevel con) (replay_pieces (log.contents s) [] (-1))"
    using register_parallel [OF assms(1)] by metis
  have a: "\<exists>a. print_all calls s1 = Some a \<and> log.contents a = concat (map logged (concat xss))
    \<and> kports a = kports s @ heard (loglevel con) (map sent (concat xss))"
    using print_all_spec [OF assms(1,5), of s1 True] s1 e assms(2,4) all by auto
  obtain s2 where s2: "print_all calls s = Some s2" "log.contents s2 = concat (map logged (concat xss))"
    "kports s2 = kports s"
    using print_all_spec [OF assms(1,5), of s False] e assms(2,4) all by auto
  obtain b where "register_console con s2 = Some b" "log.contents b = log.contents s2"
    "kports b = kports s2 @ heard (loglevel con) (replay_pieces (log.contents s2) [] (-1))"
    using register_parallel [OF assms(1)] by metis
  then show ?thesis using a s1(1) s2 replay_lines [OF ok] by auto
qed

text \<open>
  The replay does not agree with printk on a carriage return: printk ends a line there, so
  that the next one is logged with a level of its own, and register_console goes on with the line and
  sends that level to the console as text.
\<close>

theorem carriage_return_shows_level:
  fixes s :: "'a klog_scheme"
  assumes "cwrite con = Some Parallel" and "0 \<le> l \<and> l \<le> 7 \<and> word_of_int l \<le> loglevel con"
    and "CHR 0x0A \<notin> set t \<union> set t'" and "0 \<le> l' \<and> l' \<le> 7"
    and "log.contents s = (level_tag l @ t @ [CHR 0x0D]) @ level_tag l' @ t' @ [CHR 0x0A]"
  shows "\<exists>s'. register_console con s = Some s'
    \<and> kports s' = kports s @ par_ports (t @ [CHR 0x0D] @ level_tag l' @ t' @ [CHR 0x0A])"
proof -
  let ?t = "t @ CHR 0x0D # level_tag l' @ t'"
  have "char_of (nat (l' + 48)) \<noteq> CHR 0x0A"
    using assms(4) by (auto simp: byte_of_eq_iff [symmetric]) (simp add: byte_of_def)
  then have n: "CHR 0x0A \<notin> set ?t" using assms(3) by (auto simp: level_tag_def)
  have c: "log.contents s = level_tag l @ ?t @ CHR 0x0A # []" using assms(5) by simp
  obtain s' where "register_console con s = Some s'"
    "kports s' = kports s @ heard (loglevel con) (replay_pieces (log.contents s) [] (-1))"
    using register_parallel [OF assms(1)] by metis
  moreover have "heard (loglevel con) (replay_pieces (log.contents s) [] (-1)) =
      heard (loglevel con) [(l, ?t @ [CHR 0x0A])]"
    unfolding c using replay_line [of l ?t "loglevel con" "[]"] assms(2) n by simp
  ultimately show ?thesis using assms(2) by simp
qed

text \<open>A machine with an empty log and no console, and the parallel console.\<close>

definition quiet :: klog where
  "quiet = ktask.extend booted
     \<lparr>consoles = [], log_buf = (\<lambda>_. nul), log_start = 0, logged_chars = 0, log_size = 0, msg_level = -1\<rparr>"

definition printer :: console where
  "printer = \<lparr>cwrite = Some Parallel, cdata = 0, loglevel = LOGLEVEL_MAX\<rparr>"

lemma quiet_sel [simp]:
  "consoles quiet = []" "log_buf quiet = (\<lambda>_. nul)" "log_start quiet = 0" "log_size quiet = 0" "msg_level quiet = -1"
  by (simp_all add: quiet_def ktask.defs booted_def)

lemma printer_sel [simp]: "cwrite printer = Some Parallel" "loglevel printer = LOGLEVEL_MAX"
  by (simp_all add: printer_def)

lemma formats_lines:
  assumes "list_all line_ok xs" "length (concat (map line_text xs)) \<le> 1020"
    and "list_all (\<lambda>c. c \<noteq> CHR ''%'' \<and> c \<noteq> nul) (concat (map line_text xs))"
  shows "formats (concat (map line_text xs)) [] xs"
  using assms vsp_pieces [of "[Lit (concat (map line_text xs))]" 0]
  by (simp add: formats_def vsprintf_def list_all_iff del: length_concat)

definition two_lines :: "logline list" where
  "two_lines = [(Some 3, ''io''), (None, ''ok'')]"

lemma tags: "level_tag 3 = ''<3>''" "level_tag 4 = ''<4>''"
proof -
  have "byte_of (CHR ''3'') = 51" "byte_of (CHR ''4'') = 52" by (simp_all add: byte_of_def)
  then have "char_of (51 :: nat) = CHR ''3''" "char_of (52 :: nat) = CHR ''4''" by (metis char_of_byte_of)+
  then show "level_tag 3 = ''<3>''" "level_tag 4 = ''<4>''" by (simp_all add: level_tag_def)
qed

lemma quiet_empty: "log.contents quiet = []" "log.bounded quiet"
  by (simp_all add: log.contents_def log.bounded_def)

lemma two_lines_texts: "concat (map line_text two_lines) = ''<3>io'' @ CHR 0x0A # ''ok'' @ [CHR 0x0A]"
  "concat (map logged two_lines) = ''<3>io'' @ CHR 0x0A # ''<4>ok'' @ [CHR 0x0A]"
  "map sent two_lines = [(3, ''io'' @ [CHR 0x0A]), (4, ''ok'' @ [CHR 0x0A])]"
  by (simp_all add: two_lines_def line_text_def logged_def sent_def level_of_def LOGLEVEL_DEFAULT_def tags)

lemma two_lines_ok: "formats (concat (map line_text two_lines)) [] two_lines"
  by (rule formats_lines, unfold two_lines_texts)
    (simp_all add: two_lines_def line_ok_def no_level_def nul_def)

text \<open>With a console of level 3, one without a driver and one of level 7, only the last gets the line of level 4.\<close>

definition two_printers :: klog where
  "two_printers = quiet\<lparr>consoles := [printer\<lparr>loglevel := 3\<rparr>, printer\<lparr>cwrite := None\<rparr>, printer]\<rparr>"

lemma two_printers_sel:
  "log.contents two_printers = []" "log.bounded two_printers" "msg_level two_printers = -1"
  "kports two_printers = []"
  "deliveries (consoles two_printers) two_lines =
     [(printer\<lparr>loglevel := 3\<rparr>, ''io'' @ [CHR 0x0A]), (printer, ''io'' @ [CHR 0x0A]), (printer, ''ok'' @ [CHR 0x0A])]"
  by (simp_all add: two_printers_def log.contents_def log.bounded_def quiet_def ktask.defs booted_def four_pages_def
      deliveries_def two_lines_def wants_def level_of_def LOGLEVEL_DEFAULT_def LOGLEVEL_MAX_def kmem.defs)

theorem printk_logs_and_sends_witness:
  "\<exists>s'. printk (''<3>io'' @ CHR 0x0A # ''ok'' @ [CHR 0x0A]) [] two_printers = Some (9, s')
    \<and> log.contents s' = ''<3>io'' @ CHR 0x0A # ''<4>ok'' @ [CHR 0x0A]
    \<and> kports s' = par_ports (''io'' @ [CHR 0x0A]) @ par_ports (''io'' @ [CHR 0x0A]) @ par_ports (''ok'' @ [CHR 0x0A])"
proof -
  have k: "kports s' = kports (machine_of s')" for s' :: klog by simp
  obtain s' where s': "printk (concat (map line_text two_lines)) [] two_printers =
        Some (int (length (concat (map line_text two_lines))), s')"
      "log.contents s' = last_n 16384 (log.contents two_printers @ concat (map logged two_lines))"
      "machine_of s' = unlock_flags (intr two_printers)
         (fold deliver (deliveries (consoles two_printers) two_lines) (lock_kernel (machine_of two_printers)))"
    using printk_logs_and_sends [OF two_lines_ok two_printers_sel(2,3)] by blast
  have "kports s' = par_ports (''io'' @ [CHR 0x0A]) @ par_ports (''io'' @ [CHR 0x0A]) @ par_ports (''ok'' @ [CHR 0x0A])"
    unfolding k s'(3) two_printers_sel(5)
    by (simp add: unlock_flags_ports deliver_def dispatch_def par_write_sel lock_simps two_printers_sel(4) par_ports_def)
  then show ?thesis using s'(1,2) unfolding two_lines_texts two_printers_sel(1) by (simp add: last_n_def)
qed

theorem late_console_sees_all_witness:
  "\<exists>a b. Option.bind (register_console printer quiet) (print_all [(concat (map line_text two_lines), [])]) = Some a
    \<and> Option.bind (print_all [(concat (map line_text two_lines), [])] quiet) (register_console printer) = Some b
    \<and> kports a = kports quiet @ par_ports (''io'' @ CHR 0x0A # ''ok'' @ [CHR 0x0A]) \<and> kports b = kports a"
proof -
  have "list_all2 (\<lambda>c. formats (fst c) (snd c)) [(concat (map line_text two_lines), [])] [two_lines]"
    using two_lines_ok by simp
  from late_console_sees_all [OF _ _ _ _ this, of printer quiet] show ?thesis
    by (fastforce simp: two_lines_texts LOGLEVEL_MAX_def par_ports_def)
qed

text \<open>A log that holds \<open>a\<close>, a carriage return and \<open>b\<close>, as two messages leave them.\<close>

definition two_returns :: klog where
  "two_returns = fold log_char (''<4>a'' @ CHR 0x0D # ''<4>b'' @ [CHR 0x0A]) quiet"

theorem carriage_return_shows_level_witness:
  "\<exists>s'. register_console printer two_returns = Some s'
    \<and> kports s' = kports two_returns @ par_ports (''a'' @ CHR 0x0D # ''<4>b'' @ [CHR 0x0A])"
proof -
  have "log.contents two_returns = (level_tag 4 @ ''a'' @ [CHR 0x0D]) @ level_tag 4 @ ''b'' @ [CHR 0x0A]"
    using log.fold_put [OF quiet_empty(2), of "''<4>a'' @ CHR 0x0D # ''<4>b'' @ [CHR 0x0A]"]
    unfolding two_returns_def quiet_empty by (simp add: last_n_def tags)
  from carriage_return_shows_level [of printer 4 "''a''" "''b''" 4, OF _ _ _ _ this] show ?thesis
    by (simp add: LOGLEVEL_MAX_def tags)
qed

end
