(* ===== verification/Pic.thy ===== *)
theory Pic
  imports Printk
begin

text \<open>
  kernel/i8259.c: the two interrupt controllers.  The driver keeps the mask of all sixteen lines in
  \<open>cached_irq_mask\<close> and writes the byte a line belongs to whenever it changes it.  The theorem says that
  the masks the chips hold are always the cached ones, and what every operation does to each line.
\<close>

declare One_nat_def [simp del]

section \<open>State and ports\<close>

text \<open>\<open>port_in n p\<close> is what the \<open>n\<close>-th read of a port gives when it reads port \<open>p\<close>.\<close>

record kpic = klog +
  port_in :: "nat \<Rightarrow> u16 \<Rightarrow> u8"
  port_reads :: nat
  cached_irq_mask :: u16
  spurious_mask :: u32

definition inb :: "u16 \<Rightarrow> 'a kpic_scheme \<Rightarrow> u8 \<times> 'a kpic_scheme" where
  "inb p s = (port_in s (port_reads s) p, s\<lparr>port_reads := port_reads s + 1\<rparr>)"

definition outb :: "u8 \<Rightarrow> u16 \<Rightarrow> 'a kcpu_scheme \<Rightarrow> 'a kcpu_scheme" where
  "outb v p s = outp p (ucast v) s"

text \<open>\<open>__byte(n, x)\<close>\<close>

definition byte_nr :: "nat \<Rightarrow> u16 \<Rightarrow> u8" where
  "byte_nr n x = ucast (drop_bit (8 * n) x)"

section \<open>The driver\<close>

text \<open>\<open>1 << irq\<close>, cut to an unsigned short.\<close>

definition irq_bit :: "u8 \<Rightarrow> u16" where
  "irq_bit irq = push_bit (unat irq) 1"

definition write_mask :: "u8 \<Rightarrow> 'a kpic_scheme \<Rightarrow> 'a kpic_scheme" where
  "write_mask irq s =
     (if irq AND 8 \<noteq> 0 then outb (byte_nr 1 (cached_irq_mask s)) 0xA1 s
      else outb (byte_nr 0 (cached_irq_mask s)) 0x21 s)"

definition disable_irq :: "u8 \<Rightarrow> 'a kpic_scheme \<Rightarrow> 'a kpic_scheme" where
  "disable_irq irq s =
     (let mask = irq_bit irq;
          (flags, s) = lock_flags s;
          s = s\<lparr>cached_irq_mask := cached_irq_mask s OR mask\<rparr>;
          s = write_mask irq s
      in unlock_flags flags s)"

definition enable_irq :: "u8 \<Rightarrow> 'a kpic_scheme \<Rightarrow> 'a kpic_scheme" where
  "enable_irq irq s =
     (let mask = NOT (irq_bit irq);
          (flags, s) = lock_flags s;
          s = s\<lparr>cached_irq_mask := cached_irq_mask s AND mask\<rparr>;
          s = write_mask irq s
      in unlock_flags flags s)"

definition pending_irq :: "u8 \<Rightarrow> 'a kpic_scheme \<Rightarrow> u16 \<times> 'a kpic_scheme" where
  "pending_irq irq s =
     (let mask = irq_bit irq;
          (flags, s) = lock_flags s;
          (ret, s) = (if irq < 8 then let (v, s) = inb 0x20 s in (ucast v AND mask, s)
                      else let (v, s) = inb 0xA0 s in (ucast v AND drop_bit 8 mask, s))
      in (ret, unlock_flags flags s))"

definition spurious_check :: "u8 \<Rightarrow> u16 \<Rightarrow> 'a kpic_scheme \<Rightarrow> 'a kpic_scheme" where
  "spurious_check irq m s =
     (if cached_irq_mask s AND m \<noteq> 0
      then
        (if spurious_mask s AND ucast m = 0
         then
           (let s = say (''spurious i8259A interrupt: IRQ%d.'' @ newline) [VInt (ucast irq)] s
            in s\<lparr>spurious_mask := spurious_mask s OR ucast m\<rparr>)
         else s)
      else s)"

definition ack_irq :: "u8 \<Rightarrow> 'a kpic_scheme \<Rightarrow> 'a kpic_scheme" where
  "ack_irq irq s =
     (let mask = irq_bit irq;
          (flags, s) = lock_flags s;
          s = spurious_check irq mask s;
          s = s\<lparr>cached_irq_mask := cached_irq_mask s OR mask\<rparr>;
          s = (if irq AND 8 \<noteq> 0
               then
                 (let (_, s) = inb 0xa1 s;
                      s = outb (byte_nr 1 (cached_irq_mask s)) 0xa1 s;
                      s = outb (0x60 + (irq AND 7)) 0xa0 s
                  in outb 0x62 0x20 s)
               else
                 (let (_, s) = inb 0x21 s;
                      s = outb (byte_nr 0 (cached_irq_mask s)) 0x21 s
                  in outb (0x60 + irq) 0x20 s))
      in unlock_flags flags s)"

definition init_8259A :: "'a kpic_scheme \<Rightarrow> 'a kpic_scheme" where
  "init_8259A s =
     (let (flags, s) = lock_flags s;
          s = outb 0xff 0x21 s;
          s = outb 0xff 0xa1 s;
          s = outb_p 0x11 0x20 s;
          s = outb_p 0x20 0x21 s;
          s = outb_p 0x04 0x21 s;
          s = outb_p 0x01 0x21 s;
          s = outb_p 0x11 0xa0 s;
          s = outb_p 0x28 0xa1 s;
          s = outb_p 0x02 0xa1 s;
          s = outb_p 0x01 0xa1 s;
          s = outb (byte_nr 0 (cached_irq_mask s)) 0x21 s;
          s = outb (byte_nr 1 (cached_irq_mask s)) 0xa1 s
      in unlock_flags flags s)"

section \<open>The masks of the chips\<close>

text \<open>The last value written to a port.\<close>

primrec last_out :: "u16 \<Rightarrow> (u16 \<times> u32) list \<Rightarrow> u32 option" where
  "last_out p [] = None"
| "last_out p (w # ws) = (case last_out p ws of None \<Rightarrow> if fst w = p then Some (snd w) else None | Some v \<Rightarrow> Some v)"

lemma last_out_append [simp]:
  "last_out p (ws @ vs) = (case last_out p vs of None \<Rightarrow> last_out p ws | Some v \<Rightarrow> Some v)"
  by (induction ws) (auto split: option.splits)

text \<open>The chips hold the cached mask.\<close>

definition masks_ok :: "'a kpic_scheme \<Rightarrow> bool" where
  "masks_ok s \<longleftrightarrow> last_out 0x21 (kports s) = Some (ucast (byte_nr 0 (cached_irq_mask s)))
     \<and> last_out 0xa1 (kports s) = Some (ucast (byte_nr 1 (cached_irq_mask s)))"

text \<open>Line \<open>n\<close> is masked.\<close>

definition masked :: "'a kpic_scheme \<Rightarrow> nat \<Rightarrow> bool" where
  "masked s n \<longleftrightarrow> bit (cached_irq_mask s) n"

lemma bit_irq_bit: "n < 16 \<Longrightarrow> bit (irq_bit irq) n \<longleftrightarrow> n = unat irq"
  by (auto simp: irq_bit_def bit_simps)

lemma slave_line:
  assumes "unat irq < 16"
  shows "irq AND 8 \<noteq> 0 \<longleftrightarrow> 8 \<le> unat irq"
proof -
  have "irq AND 8 \<noteq> 0 \<longleftrightarrow> bit irq 3" using and_exp_eq_0_iff_not_bit [of irq 3] by simp
  also have "\<dots> \<longleftrightarrow> bit (unat irq) 3" by (simp add: bit_unsigned_iff)
  also have "\<dots> \<longleftrightarrow> odd (unat irq div 8)" by (simp add: bit_iff_odd)
  also have "\<dots> \<longleftrightarrow> 8 \<le> unat irq"
  proof -
    have "unat irq div 8 < 2" using assms by simp
    then have "unat irq div 8 = 0 \<or> unat irq div 8 = 1" by linarith
    then show ?thesis by auto
  qed
  finally show ?thesis .
qed

lemma byte_other:
  assumes "unat irq < 16"
  shows "unat irq < 8 \<Longrightarrow> byte_nr 1 (x OR irq_bit irq) = byte_nr 1 x"
    and "unat irq < 8 \<Longrightarrow> byte_nr 1 (x AND NOT (irq_bit irq)) = byte_nr 1 x"
    and "8 \<le> unat irq \<Longrightarrow> byte_nr 0 (x OR irq_bit irq) = byte_nr 0 x"
    and "8 \<le> unat irq \<Longrightarrow> byte_nr 0 (x AND NOT (irq_bit irq)) = byte_nr 0 x"
  by (rule bit_word_eqI; auto simp: byte_nr_def bit_simps bit_irq_bit One_nat_def)+

lemma pic_sel [lock_simps]:
  "cached_irq_mask (outp p v s) = cached_irq_mask s" "cached_irq_mask (lock_kernel s) = cached_irq_mask s"
  "cached_irq_mask (unlock_kernel s) = cached_irq_mask s" "cached_irq_mask (say f a s) = cached_irq_mask s"
  "cached_irq_mask (unlock_flags b s) = cached_irq_mask s"
  by (simp_all add: outp_def lock_kernel_def unlock_flags_def unlock_kernel_def say_def Let_def)

text \<open>The kernel lock is left as it was: only the mask, the ports and what ack_irq notes change.\<close>

lemma mask_ops_eq:
  "disable_irq irq s = write_mask irq (s\<lparr>cached_irq_mask := cached_irq_mask s OR irq_bit irq\<rparr>)"
  "enable_irq irq s = write_mask irq (s\<lparr>cached_irq_mask := cached_irq_mask s AND NOT (irq_bit irq)\<rparr>)"
  by (simp_all add: disable_irq_def enable_irq_def write_mask_def outb_def outp_def lock_flags_def lock_kernel_def
      unlock_flags_def unlock_kernel_def Let_def)

text \<open>A write of the byte a line belongs to brings the chips up to date.\<close>

lemma write_mask_ok:
  assumes ok: "masks_ok s" and irq: "unat irq < 16"
    and m: "m = cached_irq_mask s OR irq_bit irq \<or> m = cached_irq_mask s AND NOT (irq_bit irq)"
    and u: "cached_irq_mask t = m" "kports t = kports s"
  shows "masks_ok (write_mask irq t)" "cached_irq_mask (write_mask irq t) = m"
    "klock (write_mask irq t) = klock t" "intr (write_mask irq t) = intr t"
proof -
  have "\<not> 8 \<le> unat irq \<Longrightarrow> byte_nr 1 m = byte_nr 1 (cached_irq_mask s)"
    "8 \<le> unat irq \<Longrightarrow> byte_nr 0 m = byte_nr 0 (cached_irq_mask s)"
    using m byte_other [OF irq] by auto
  then show "masks_ok (write_mask irq t)"
    using ok u slave_line [OF irq] by (auto simp: masks_ok_def write_mask_def outb_def lock_simps)
  show "cached_irq_mask (write_mask irq t) = m"
    "klock (write_mask irq t) = klock t" "intr (write_mask irq t) = intr t"
    using u(1) by (simp_all add: write_mask_def outb_def lock_simps)
qed

text \<open>The writes of ack_irq: the mask of the line's chip, then the end of interrupt for the line.\<close>

definition ack_ports :: "u8 \<Rightarrow> u16 \<Rightarrow> (u16 \<times> u32) list" where
  "ack_ports irq m =
     (if irq AND 8 \<noteq> 0
      then [(0xa1, ucast (byte_nr 1 m)), (0xa0, ucast (0x60 + (irq AND 7))), (0x20, 0x62)]
      else [(0x21, ucast (byte_nr 0 m)), (0x20, ucast (0x60 + irq))])"

definition spurious :: "u8 \<Rightarrow> 'a kpic_scheme \<Rightarrow> bool" where
  "spurious irq s \<longleftrightarrow> cached_irq_mask s AND irq_bit irq \<noteq> 0 \<and> spurious_mask s AND ucast (irq_bit irq) = 0"

lemma ack_irq_eq:
  fixes s :: "'a kpic_scheme"
  shows "ack_irq irq s = s\<lparr>cached_irq_mask := cached_irq_mask s OR irq_bit irq,
      kports := kports s @ ack_ports irq (cached_irq_mask s OR irq_bit irq), port_reads := port_reads s + 1,
      spurious_mask := (if spurious irq s then spurious_mask s OR ucast (irq_bit irq) else spurious_mask s),
      ktrace := ktrace s @ (if spurious irq s then [(''spurious i8259A interrupt: IRQ%d.'' @ newline, [VInt (ucast irq)])] else [])\<rparr>"
proof -
  define t where "t = spurious_check irq (irq_bit irq) (lock_kernel s)"
  have t: "t = (lock_kernel s)\<lparr>
      spurious_mask := (if spurious irq s then spurious_mask s OR ucast (irq_bit irq) else spurious_mask s),
      ktrace := ktrace s @ (if spurious irq s then [(''spurious i8259A interrupt: IRQ%d.'' @ newline, [VInt (ucast irq)])] else [])\<rparr>"
    by (simp add: t_def spurious_check_def spurious_def lock_kernel_def say_def Let_def)
  have "ack_irq irq s = (let s' = t\<lparr>cached_irq_mask := cached_irq_mask s OR irq_bit irq, port_reads := port_reads s + 1,
      kports := kports s @ ack_ports irq (cached_irq_mask s OR irq_bit irq)\<rparr> in unlock_flags (intr s) s')"
    unfolding ack_irq_def lock_flags_def Let_def prod.case t_def [symmetric]
    by (simp add: inb_def outb_def outp_def ack_ports_def t lock_kernel_def)
  then show ?thesis
    by (simp add: Let_def t lock_kernel_def unlock_flags_def unlock_kernel_def)
qed

section \<open>Properties\<close>

lemma masked_ops:
  "n < 16 \<Longrightarrow> bit (x OR irq_bit irq) n \<longleftrightarrow> bit x n \<or> n = unat irq"
  "n < 16 \<Longrightarrow> bit (x AND NOT (irq_bit irq)) n \<longleftrightarrow> bit x n \<and> n \<noteq> unat irq"
  by (auto simp: bit_simps bit_irq_bit)

text \<open>A number of port writes at once.\<close>

definition outs :: "(u16 \<times> u32) list \<Rightarrow> 'a kcpu_scheme \<Rightarrow> 'a kcpu_scheme" where
  "outs ws s = s\<lparr>kports := kports s @ ws\<rparr>"

lemma outp_outs: "outp p v s = outs [(p, v)] s" "outs ws (outs vs s) = outs (vs @ ws) s"
  by (simp_all add: outs_def outp_def)

lemma outs_locked: "unlock_flags (intr s) (outs ws (lock_kernel s)) = outs ws s"
  by (simp add: unlock_flags_def unlock_kernel_def outs_def lock_kernel_def Let_def)

lemma cached_outs [simp]: "cached_irq_mask (outs ws s) = cached_irq_mask s"
  by (simp add: outs_def)

lemma init_8259A_eq:
  "init_8259A s = outs
     [(0x21, 0xff), (0xa1, 0xff), (0x20, 0x11), (0x80, 0x11), (0x21, 0x20), (0x80, 0x20), (0x21, 0x04), (0x80, 0x04),
      (0x21, 0x01), (0x80, 0x01), (0xa0, 0x11), (0x80, 0x11), (0xa1, 0x28), (0x80, 0x28), (0xa1, 0x02), (0x80, 0x02),
      (0xa1, 0x01), (0x80, 0x01), (0x21, ucast (byte_nr 0 (cached_irq_mask s))),
      (0xa1, ucast (byte_nr 1 (cached_irq_mask s)))] s"
  unfolding init_8259A_def Let_def lock_flags_def prod.case outb_def outb_p_def outp_outs
  by (simp add: lock_simps outs_locked One_nat_def)

lemma init_8259A_sel:
  "cached_irq_mask (init_8259A s) = cached_irq_mask s" "klock (init_8259A s) = klock s" "intr (init_8259A s) = intr s"
  "masks_ok (init_8259A s)"
  by (simp_all add: init_8259A_eq masks_ok_def) (simp_all add: outs_def One_nat_def)

lemma enable_irq_masks:
  assumes "masks_ok s" "unat irq < 16"
  shows "masks_ok (enable_irq irq s)" "cached_irq_mask (enable_irq irq s) = cached_irq_mask s AND NOT (irq_bit irq)"
    "klock (enable_irq irq s) = klock s" "intr (enable_irq irq s) = intr s"
  unfolding mask_ops_eq
  by (rule write_mask_ok(1) [OF assms disjI2 [OF refl]]; simp)
    (rule write_mask_ok(2) [OF assms disjI2 [OF refl]] | simp add: write_mask_ok(3,4) [OF assms disjI2 [OF refl]])+

lemma disable_irq_masks:
  assumes "masks_ok s" "unat irq < 16"
  shows "masks_ok (disable_irq irq s)" "cached_irq_mask (disable_irq irq s) = cached_irq_mask s OR irq_bit irq"
    "klock (disable_irq irq s) = klock s" "intr (disable_irq irq s) = intr s"
  unfolding mask_ops_eq
  by (rule write_mask_ok(1) [OF assms disjI1 [OF refl]]; simp)
    (rule write_mask_ok(2) [OF assms disjI1 [OF refl]] | simp add: write_mask_ok(3,4) [OF assms disjI1 [OF refl]])+

lemma ack_irq_masks:
  assumes ok: "masks_ok s" and irq: "unat irq < 16"
  shows "masks_ok (ack_irq irq s)" "cached_irq_mask (ack_irq irq s) = cached_irq_mask s OR irq_bit irq"
    "klock (ack_irq irq s) = klock s" "intr (ack_irq irq s) = intr s"
    "kports (ack_irq irq s) = kports s @ ack_ports irq (cached_irq_mask (ack_irq irq s))"
  unfolding ack_irq_eq using ok slave_line [OF irq] byte_other [OF irq]
  by (auto simp: masks_ok_def ack_ports_def)

text \<open>
  Property C22.  The interrupt controllers always hold the masks the driver believes they hold: the
  initialisation establishes this and enable_irq, disable_irq and ack_irq keep it, for all sixteen lines.
  enable_irq unmasks exactly its line, disable_irq and ack_irq mask exactly theirs; ack_irq ends by
  telling the chips of the line that the interrupt is over; the kernel lock is left as it was.
\<close>

theorem pic_masks_synced:
  assumes "masks_ok s" and "unat irq < 16"
  shows "(masks_ok (init_8259A t) \<and> (\<forall>n. masked (init_8259A t) n = masked t n))
    \<and> (let s' = enable_irq irq s in masks_ok s' \<and> (\<forall>n < 16. masked s' n = (masked s n \<and> n \<noteq> unat irq))
         \<and> klock s' = klock s \<and> intr s' = intr s)
    \<and> (let s' = disable_irq irq s in masks_ok s' \<and> (\<forall>n < 16. masked s' n = (masked s n \<or> n = unat irq))
         \<and> klock s' = klock s \<and> intr s' = intr s)
    \<and> (let s' = ack_irq irq s in masks_ok s' \<and> (\<forall>n < 16. masked s' n = (masked s n \<or> n = unat irq))
         \<and> klock s' = klock s \<and> intr s' = intr s
         \<and> last (kports s') = (0x20, if unat irq < 8 then ucast (0x60 + irq) else 0x62))"
  using init_8259A_sel [of t] enable_irq_masks [OF assms] disable_irq_masks [OF assms] ack_irq_masks [OF assms]
    slave_line [OF assms(2)]
  by (simp add: Let_def masked_def masked_ops ack_ports_def)

text \<open>The controllers as the kernel finds them: every line masked.\<close>

definition pic_reset :: kpic where
  "pic_reset = klog.extend quiet \<lparr>port_in = (\<lambda>_ _. 0), port_reads = 0, cached_irq_mask = 0xffff, spurious_mask = 0\<rparr>"

lemma pic_reset_sel [simp]: "cached_irq_mask pic_reset = 0xffff"
  by (simp add: pic_reset_def klog.defs quiet_def ktask.defs booted_def)

lemma pic_reset_masked: "n < 16 \<Longrightarrow> masked pic_reset n"
proof -
  have "(0xffff :: u16) = mask 16" by (simp add: mask_eq_exp_minus_1)
  then show "n < 16 \<Longrightarrow> masked pic_reset n" by (simp only: masked_def pic_reset_sel bit_mask_iff) simp
qed

theorem pic_masks_synced_witness:
  "let s' = enable_irq 9 (init_8259A pic_reset) in masks_ok s' \<and> \<not> masked s' 9 \<and> masked s' 2"
proof -
  have "masked (init_8259A pic_reset) 2 = masked pic_reset 2" by (simp only: masked_def init_8259A_sel)
  then have "masked (init_8259A pic_reset) 2" using pic_reset_masked [of 2] by simp
  then show ?thesis
    using pic_masks_synced [OF init_8259A_sel(4), of 9 pic_reset pic_reset] by (simp add: Let_def)
qed

end
