(* ===== verification/Sched.thy ===== *)
theory Sched
  imports Screen
begin

text \<open>
  The scheduler of kernel/task.c against its abstract specification: the run list is a list of tasks
  handed out round robin, a wait queue is a list of tasks that blocking appends to and waking empties
  into the run list.  \<open>sched_ok xs W s\<close> relates the links in the task records to these lists; every
  operation is shown to keep it and to act on the lists as the specification does.
\<close>

declare One_nat_def [simp del]

section \<open>The invariant\<close>

text \<open>A wait queue: nothing, one task without links, or a ring of at least two.\<close>

definition queue_ok :: "u32 \<Rightarrow> u32 list \<Rightarrow> 'a ktask_scheme \<Rightarrow> bool" where
  "queue_ok q ws s \<longleftrightarrow>
     (case ws of [] \<Rightarrow> qfirst s q = 0
      | w # vs \<Rightarrow> qfirst s q = w \<and> (if vs = [] then w \<noteq> 0 \<and> queue_next (tsk s w) = 0
                   else wait.ring (tsk s) ws))"

text \<open>
  \<open>xs\<close> are the runnable tasks besides the idle task, \<open>W q\<close> those that wait on the queue \<open>q\<close>.
\<close>

definition sched_ok :: "u32 list \<Rightarrow> (u32 \<Rightarrow> u32 list) \<Rightarrow> 'a ktask_scheme \<Rightarrow> bool" where
  "sched_ok xs W s \<longleftrightarrow> run_ok xs s \<and> (\<forall>q. queue_ok q (W q) s)
     \<and> current s \<in> set (idle s # xs)
     \<and> (\<forall>t\<in>set (idle s # xs). state (tsk s t) = TASK_RUNNING \<and> queue_next (tsk s t) = 0)
     \<and> (\<forall>q. \<forall>t\<in>set (W q). state (tsk s t) \<noteq> TASK_RUNNING)
     \<and> (\<forall>q q'. q \<noteq> q' \<longrightarrow> set (W q) \<inter> set (W q') = {})
     \<and> (\<forall>t. name_ok (tname (tsk s t)))"

section \<open>Choosing the next task\<close>

text \<open>
  The specification of the choice: the task after \<open>c\<close> in the run list \<open>xs\<close>, going round to the tasks
  \<open>xs'\<close> that stay runnable, and the idle task \<open>i\<close> only when there is no other.
\<close>

definition after :: "u32 \<Rightarrow> u32 list \<Rightarrow> u32 list" where
  "after c xs = tl (dropWhile (\<lambda>t. t \<noteq> c) xs)"

definition rr_next :: "u32 \<Rightarrow> u32 list \<Rightarrow> u32 list \<Rightarrow> u32 \<Rightarrow> u32" where
  "rr_next i xs xs' c = (case (if c = i then xs else after c xs) @ xs' of [] \<Rightarrow> i | t # _ \<Rightarrow> t)"

lemma after_split: "c \<notin> set as \<Longrightarrow> after c (as @ c # bs) = bs"
  by (simp add: after_def dropWhile_append)

definition leave :: "u32 \<Rightarrow> task store \<Rightarrow> task store" where
  "leave c st = (if state (st c) \<noteq> TASK_RUNNING
     then edit c (put_run_prev 0) (edit c (put_run_next 0) (run.detach c st))
     else edit c (timeslice_update (\<lambda>_. 100)) (edit c (put_need_resched 0) st))"

definition pick :: "u32 \<Rightarrow> u32 \<Rightarrow> u32 \<Rightarrow> task store \<Rightarrow> u32" where
  "pick i c n st = (if c = i \<or> n = i then if run_next (st i) \<noteq> 0 then run_next (st i) else i else n)"

lemma leave_cpu_eq: "leave_cpu c s = s\<lparr>tsk := leave c (tsk s)\<rparr>"
  by (simp add: leave_cpu_def leave_def run.detach_def Let_def at_task_def)

lemma schedule_locked_eq:
  fixes s :: "'a ktask_scheme"
  defines "c \<equiv> current s"
  defines "st \<equiv> leave c (tsk s)"
  defines "n \<equiv> pick (idle s) c (run_next (tsk s c)) st"
  shows "fst (schedule_locked s) = n" and "tsk (snd (schedule_locked s)) = st"
    and "current (snd (schedule_locked s)) = n" and "idle (snd (schedule_locked s)) = idle s"
    and "qfirst (snd (schedule_locked s)) = qfirst s" and "video_init (snd (schedule_locked s)) = video_init s"
    and "klock (snd (schedule_locked s)) = klock s" and "intr (snd (schedule_locked s)) = (klock s = 0)"
    and "mem (snd (schedule_locked s)) = mem s" and "switches (snd (schedule_locked s)) = switches s"
    and "debug_phase (snd (schedule_locked s)) = debug_phase s"
  unfolding c_def st_def n_def
  by (simp_all add: schedule_locked_def Let_def leave_cpu_eq pick_def lock_simps)

lemma leave_frame [link_frames]:
  "state (leave c st a) = state (st a)" "queue_next (leave c st a) = queue_next (st a)"
  "queue_prev (leave c st a) = queue_prev (st a)" "tname (leave c st a) = tname (st a)"
  by (simp_all add: leave_def edit_apply link_frames)

lemma leave_run_frame:
  "state (st c) = TASK_RUNNING \<Longrightarrow> run_next (leave c st a) = run_next (st a) \<and> run_prev (leave c st a) = run_prev (st a)"
  by (simp add: leave_def edit_apply)

lemma schedule_step:
  fixes s :: "'a ktask_scheme"
  assumes "\<And>t. name_ok (tname (tsk s t))"
  defines "c \<equiv> current s"
  defines "n \<equiv> pick (idle s) c (run_next (tsk s c)) (leave c (tsk s))"
  obtains s' where "schedule s = Some s'" "tsk s' = leave c (tsk s)" "current s' = n" "idle s' = idle s"
    "qfirst s' = qfirst s" "klock s' = klock s" "intr s' = (klock s = 0)" "video_init s' = video_init s"
    "switches s' = (if n = c then switches s else switches s @ [(n, c)])"
    "\<And>x. x \<notin> cells 1920 2012 \<Longrightarrow> mem s' x = mem s x"
proof -
  define s1 where "s1 = snd (schedule_locked s)"
  note e = schedule_locked_eq [where s = s, folded s1_def c_def, folded n_def]
  have nm: "name_ok (tname (tsk s1 n))" using assms(1) e(2) by (simp add: link_frames)
  define s2 where "s2 = (if \<not> video_init s1 then s1 else
    s1\<lparr>mem := status_line (status_text (debug_phase s1) (pid (tsk s1 n)) (current s1) (tname (tsk s1 n))) (mem s1)\<rparr>)"
  have "schedule s = Some (switch_to n c s2)"
    using update_status_eq [OF nm, of c] e(1) unfolding s2_def
    by (simp add: schedule_def Let_def case_prod_beta s1_def [symmetric] c_def [symmetric])
  moreover have sel: "tsk s2 = leave c (tsk s)" "current s2 = n" "idle s2 = idle s" "qfirst s2 = qfirst s"
      "klock s2 = klock s" "intr s2 = (klock s = 0)" "video_init s2 = video_init s" "switches s2 = switches s"
    by (simp_all add: s2_def e)
  moreover have "mem (switch_to n c s2) x = mem s x" if "x \<notin> cells 1920 2012" for x
    using that status_line_other [OF that status_text_length [OF nm]] e(9)
    by (simp add: switch_to_def s2_def)
  ultimately show ?thesis by (intro that [of "switch_to n c s2"]) (simp_all add: switch_to_def)
qed

text \<open>Which task a rescheduling picks, for a task that goes on running and for one that blocks.\<close>

lemma pick_running:
  assumes ok: "run_ok xs s" and c: "c \<in> set (idle s # xs)" and st: "state (tsk s c) = TASK_RUNNING"
  shows "pick (idle s) c (run_next (tsk s c)) (leave c (tsk s)) = rr_next (idle s) xs xs c"
proof (cases "xs = [] \<and> run_next (tsk s (idle s)) = 0")
  case True
  then show ?thesis using c leave_run_frame [of "tsk s" c "idle s"] st by (simp add: pick_def rr_next_def)
next
  case False
  then have r: "run.ring (tsk s) (idle s # xs)" using ok by (auto simp: run_ok_def)
  have hd: "run_next (tsk s (idle s)) = hd (xs @ [idle s])"
    using run.ring_next [of "tsk s" "[]" "idle s"] run.ring_last(1) [OF r] r by (cases xs) auto
  have nz: "run_next (leave c (tsk s) (idle s)) \<noteq> 0"
    using run_ok_next_nonzero [OF r] leave_run_frame [of "tsk s" c "idle s"] st by simp
  have l: "run_next (leave c (tsk s) (idle s)) = run_next (tsk s (idle s))"
    using leave_run_frame [of "tsk s" c "idle s"] st by simp
  have dist: "distinct (idle s # xs)" using r by (simp add: run.ring_def)
  show ?thesis
  proof (cases "c = idle s")
    case True
    then show ?thesis using hd nz l by (cases xs) (auto simp: pick_def rr_next_def)
  next
    case False
    then obtain as bs where xs: "xs = as @ c # bs" using c by (auto dest: split_list)
    then have af: "after c xs = bs" using dist by (simp add: after_split)
    show ?thesis
    proof (cases bs)
      case Nil
      have "run_next (tsk s c) = idle s" using run.ring_last(1) [OF r] xs Nil by simp
      then show ?thesis using hd nz l False xs Nil af by (cases as) (auto simp: pick_def rr_next_def)
    next
      case (Cons b ys)
      have "run_next (tsk s c) = b" using run.ring_next [of "tsk s" "idle s # as" c b ys] r xs Cons by simp
      moreover have "b \<noteq> idle s" using dist xs Cons by auto
      ultimately show ?thesis using False af Cons by (simp add: pick_def rr_next_def)
    qed
  qed
qed

lemma run_ok_leave_running:
  assumes "run_ok xs s" "state (tsk s c) = TASK_RUNNING" "tsk s' = leave c (tsk s)" "idle s' = idle s"
  shows "run_ok xs s'"
  by (rule run_ok_cong [OF assms(1,4)]) (use leave_run_frame [where st = "tsk s" and c = c] assms in simp)

lemma leave_blocking:
  assumes r: "run.ring (tsk s) (idle s # as @ c # bs)" and st: "state (tsk s c) \<noteq> TASK_RUNNING"
  shows "run.ring (leave c (tsk s)) (idle s # as @ bs)"
    and "pick (idle s) c (run_next (tsk s c)) (leave c (tsk s)) = rr_next (idle s) (as @ c # bs) (as @ bs) c"
proof -
  have dist: "distinct (idle s # as @ c # bs)" using r by (simp add: run.ring_def)
  show r': "run.ring (leave c (tsk s)) (idle s # as @ bs)"
    by (rule run.ring_cong [OF run.ring_detach [OF r]])
      (use dist st in \<open>auto simp: leave_def edit_apply\<close>)
  have hd: "run_next (leave c (tsk s) (idle s)) = hd (as @ bs @ [idle s])"
    using run.ring_next [of _ "[]" "idle s" "hd (as @ bs)" "tl (as @ bs)"] run.ring_last(1) [OF r'] r'
    by (cases as; cases bs) auto
  have nz: "run_next (leave c (tsk s) (idle s)) \<noteq> 0" by (rule run_ok_next_nonzero [OF r'])
  have af: "after c (as @ c # bs) = bs" using dist by (simp add: after_split)
  have ci: "c \<noteq> idle s" using dist by auto
  show "pick (idle s) c (run_next (tsk s c)) (leave c (tsk s)) = rr_next (idle s) (as @ c # bs) (as @ bs) c"
  proof (cases bs)
    case Nil
    have "run_next (tsk s c) = idle s" using run.ring_last(1) [OF r] Nil by simp
    then show ?thesis using hd nz ci af Nil by (cases as) (auto simp: pick_def rr_next_def)
  next
    case (Cons b ys)
    have "run_next (tsk s c) = b" using run.ring_next [of "tsk s" "idle s # as" c b ys] r Cons by simp
    moreover have "b \<noteq> idle s" using dist Cons by auto
    ultimately show ?thesis using ci af Cons by (simp add: pick_def rr_next_def)
  qed
qed

lemma sched_okD:
  assumes "sched_ok xs W s"
  shows "run_ok xs s" "queue_ok q (W q) s" "current s \<in> set (idle s # xs)"
    "t \<in> set (idle s # xs) \<Longrightarrow> state (tsk s t) = TASK_RUNNING \<and> queue_next (tsk s t) = 0"
    "t \<in> set (W q) \<Longrightarrow> state (tsk s t) \<noteq> TASK_RUNNING"
    "q \<noteq> q' \<Longrightarrow> set (W q) \<inter> set (W q') = {}"
    "name_ok (tname (tsk s t))"
  using assms unfolding sched_ok_def by blast+

lemma queue_ok_cong:
  assumes "queue_ok q ws s" "qfirst s' q = qfirst s q"
    and "\<And>a. a \<in> set ws \<Longrightarrow> queue_next (tsk s' a) = queue_next (tsk s a) \<and> queue_prev (tsk s' a) = queue_prev (tsk s a)"
  shows "queue_ok q ws s'"
  using assms wait.ring_cong [of "tsk s" ws "tsk s'"] by (cases ws) (auto simp: queue_ok_def)

lemma rr_next_in: "rr_next i xs xs' c = i \<or> rr_next i xs xs' c \<in> set ((if c = i then xs else after c xs) @ xs')"
  unfolding rr_next_def by (cases "(if c = i then xs else after c xs) @ xs'") (simp_all only: list.case set_simps, simp_all)

lemma after_subset: "set (after c xs) \<subseteq> set xs"
  unfolding after_def by (metis list.set_sel(2) set_dropWhileD subsetI tl_Nil)

lemma schedule_sched_ok:
  assumes ok: "sched_ok xs W s"
  obtains s' where "schedule s = Some s'" "sched_ok xs W s'" "current s' = rr_next (idle s) xs xs (current s)"
    "idle s' = idle s" "klock s' = klock s" "intr s' = (klock s = 0)" "tsk s' = leave (current s) (tsk s)"
    "switches s' = (if current s' = current s then switches s else switches s @ [(current s', current s)])"
proof -
  let ?c = "current s"
  note D = sched_okD [OF ok]
  have st: "state (tsk s ?c) = TASK_RUNNING" using D(3,4) by blast
  note pk = pick_running [OF D(1,3) st]
  obtain s' where s': "schedule s = Some s'" "tsk s' = leave ?c (tsk s)" "current s' = rr_next (idle s) xs xs ?c"
      "idle s' = idle s" "qfirst s' = qfirst s" "klock s' = klock s" "intr s' = (klock s = 0)"
      "switches s' = (if rr_next (idle s) xs xs ?c = ?c then switches s else switches s @ [(rr_next (idle s) xs xs ?c, ?c)])"
    using schedule_step [OF D(7)] unfolding pk by metis
  have "queue_ok q (W q) s'" for q
    by (rule queue_ok_cong [OF D(2)]) (simp_all add: s' link_frames)
  moreover have "run_ok xs s'" by (rule run_ok_leave_running [OF D(1) st s'(2,4)])
  moreover have "current s' \<in> set (idle s' # xs)"
    using rr_next_in [of "idle s" xs xs ?c] after_subset [of ?c xs] by (auto simp: s' split: if_splits)
  ultimately have "sched_ok xs W s'"
    using ok unfolding sched_ok_def by (simp add: s' link_frames)
  then show ?thesis using s' that by simp
qed

text \<open>The saved flags words survive the scheduler.\<close>

lemma schedule_saved:
  assumes "schedule s = Some t"
  shows "saved_if t = saved_if s"
proof -
  let ?l = "schedule_locked s"
  have l: "saved_if (snd ?l) = saved_if s"
    by (simp add: schedule_locked_def Let_def leave_cpu_eq)
  obtain u where u: "update_status (fst ?l) (current s) (snd ?l) = Some u" "t = switch_to (fst ?l) (current s) u"
    using assms by (auto simp: schedule_def Let_def case_prod_beta split: option.splits)
  have "saved_if u = saved_if (snd ?l)"
    using u(1) by (auto simp: update_status_def Let_def case_prod_beta split: option.splits if_splits)
  then show ?thesis using l u(2) by (simp add: switch_to_def)
qed

section \<open>Blocking\<close>

lemma do_block_state [simp]:
  "current (do_block q s) = current s" "idle (do_block q s) = idle s" "klock (do_block q s) = klock s"
  "saved_if (do_block q s) = saved_if s"
  by (simp_all add: do_block_def Let_def lock_simps)

definition enqueue :: "u32 \<Rightarrow> u32 \<Rightarrow> task store \<Rightarrow> task store" where
  "enqueue first t st =
     (if first = 0 then st else if queue_next (st first) = 0 then wait.pair first t st else wait.attach first t st)"

definition mark_blocked :: "u32 \<Rightarrow> u32 \<Rightarrow> task store \<Rightarrow> task store" where
  "mark_blocked q c st = edit c (queue_update (\<lambda>_. q))
     (edit c (put_need_resched 1) (edit c (put_state TASK_INTERRUPTABLE) st))"

lemma do_block_eq:
  "tsk (do_block q s) = enqueue (qfirst s q) (current s) (mark_blocked q (current s) (tsk s))"
  "qfirst (do_block q s) = (if qfirst s q = 0 then (qfirst s)(q := current s) else qfirst s)"
  by (simp_all add: do_block_def enqueue_def mark_blocked_def wait.pair_def wait.attach_def Let_def)

lemma enqueue_frame [link_frames]:
  "state (enqueue f t st a) = state (st a)" "tname (enqueue f t st a) = tname (st a)"
  "run_next (enqueue f t st a) = run_next (st a)" "run_prev (enqueue f t st a) = run_prev (st a)"
  by (simp_all add: enqueue_def link_frames)

lemma mark_blocked_frame [link_frames]:
  "state (mark_blocked q c st a) = (if a = c then TASK_INTERRUPTABLE else state (st a))"
  "tname (mark_blocked q c st a) = tname (st a)"
  "run_next (mark_blocked q c st a) = run_next (st a)" "run_prev (mark_blocked q c st a) = run_prev (st a)"
  "queue_next (mark_blocked q c st a) = queue_next (st a)" "queue_prev (mark_blocked q c st a) = queue_prev (st a)"
  by (simp_all add: mark_blocked_def edit_apply)

lemma queue_ok_first:
  assumes "queue_ok q ws s"
  shows "qfirst s q = 0 \<longleftrightarrow> ws = []"
    and "ws = w # vs \<Longrightarrow> queue_next (tsk s w) = 0 \<longleftrightarrow> vs = []"
proof -
  show "qfirst s q = 0 \<longleftrightarrow> ws = []"
    using assms by (cases ws) (auto simp: queue_ok_def wait.ring_def split: if_splits)
  assume ws: "ws = w # vs"
  have "queue_next (tsk s w) \<noteq> 0" if "wait.ring (tsk s) (w # vs)" "vs \<noteq> []"
    using that wait.ring_next [of "tsk s" "[]" w "hd vs" "tl vs"] by (cases vs) (auto simp: wait.ring_def)
  then show "queue_next (tsk s w) = 0 \<longleftrightarrow> vs = []" using assms ws by (auto simp: queue_ok_def)
qed

lemma queue_ok_enqueue:
  assumes ok: "queue_ok q ws s" and c: "c \<notin> set ws" "c \<noteq> 0" "queue_next (tsk s c) = 0"
    and s': "tsk s' = enqueue (qfirst s q) c (tsk s)" "qfirst s' q = (if qfirst s q = 0 then c else qfirst s q)"
  shows "queue_ok q (ws @ [c]) s'"
proof (cases ws)
  case Nil
  then show ?thesis using ok c s' by (simp add: queue_ok_def enqueue_def)
next
  case (Cons w vs)
  have w: "w \<noteq> 0" "qfirst s q = w"
    using ok Cons by (auto simp: queue_ok_def wait.ring_def split: if_splits)
  show ?thesis
  proof (cases "vs = []")
    case True
    then have "tsk s' = wait.pair w c (tsk s)" using s' w queue_ok_first(2) [OF ok Cons] by (simp add: enqueue_def)
    then show ?thesis using wait.ring_pair [of w c "tsk s"] w c s' Cons True by (auto simp: queue_ok_def)
  next
    case False
    then have "tsk s' = wait.attach w c (tsk s)" using s' w queue_ok_first(2) [OF ok Cons] by (simp add: enqueue_def)
    moreover have "wait.ring (tsk s) (w # vs)" using ok Cons False by (simp add: queue_ok_def)
    ultimately show ?thesis using wait.ring_attach [of "tsk s" w vs c] w c s' Cons by (auto simp: queue_ok_def)
  qed
qed

lemma enqueue_other:
  assumes ok: "queue_ok q ws s" and a: "a \<notin> set ws" "a \<noteq> c"
  shows "enqueue (qfirst s q) c (tsk s) a = tsk s a"
proof (cases ws)
  case Nil
  then show ?thesis using queue_ok_first(1) [OF ok] by (simp add: enqueue_def)
next
  case (Cons w vs)
  have w: "qfirst s q = w" using ok Cons by (auto simp: queue_ok_def)
  show ?thesis
  proof (cases "vs = []")
    case True
    then show ?thesis using w a Cons queue_ok_first [OF ok] by (simp add: enqueue_def wait.pair_def Let_def edit_apply)
  next
    case False
    then have "wait.ring (tsk s) (w # vs)" using ok Cons by (simp add: queue_ok_def)
    from wait.attach_other [OF this, of a c] show ?thesis
      using w a Cons False queue_ok_first [OF ok] by (auto simp: enqueue_def)
  qed
qed

text \<open>What blocking the current task does to the lists.\<close>

lemma block_sched_ok:
  assumes ok: "sched_ok xs W s" and c: "current s \<noteq> idle s" and lock: "klock s + 1 \<noteq> 0"
  obtains s' where "block q s = Some s'"
    "sched_ok (remove1 (current s) xs) (W(q := W q @ [current s])) s'"
    "current s' = rr_next (idle s) xs (remove1 (current s) xs) (current s)"
    "idle s' = idle s" "klock s' = klock s" "intr s' = saved_if s (current s')"
    "saved_if s' = (saved_if s)(current s := intr s)" "current s' \<noteq> current s"
    "state (tsk s' (current s)) = TASK_INTERRUPTABLE"
proof -
  let ?c = "current s"
  note D = sched_okD [OF ok]
  obtain as bs where xs: "xs = as @ ?c # bs" using D(3) c by (auto dest: split_list)
  have r: "run.ring (tsk s) (idle s # as @ ?c # bs)" using D(1) xs by (auto simp: run_ok_def)
  have dist: "distinct (idle s # as @ ?c # bs)" "0 \<notin> set (idle s # as @ ?c # bs)" using r by (auto simp: run.ring_def)
  have rm: "remove1 ?c xs = as @ bs" using xs dist by (simp add: remove1_append)
  have c0: "?c \<noteq> 0" "?c \<notin> set as" "?c \<notin> set bs" using dist by auto
  have cst: "state (tsk s ?c) = TASK_RUNNING" "queue_next (tsk s ?c) = 0" using D(3,4) by blast+
  have cW: "?c \<notin> set (W q')" for q' using D(5) cst(1) by blast
  define s1 where "s1 = do_block q (lock_kernel (push_flags s))"
  have e: "tsk s1 = enqueue (qfirst s q) ?c (mark_blocked q ?c (tsk s))"
    "qfirst s1 = (if qfirst s q = 0 then (qfirst s)(q := ?c) else qfirst s)"
    "current s1 = ?c" "idle s1 = idle s" "klock s1 = klock s + 1"
    "saved_if s1 = (saved_if s)(?c := intr s)"
    by (simp_all add: s1_def do_block_eq lock_simps)
  have st1: "state (tsk s1 ?c) = TASK_INTERRUPTABLE" by (simp add: e link_frames)
  have r1: "run.ring (tsk s1) (idle s1 # as @ ?c # bs)"
    unfolding e(4) by (rule run.ring_cong [OF r]) (simp add: e link_frames)
  have nm: "name_ok (tname (tsk s1 t))" for t using D(7) by (simp add: e link_frames)
  have "state (tsk s1 ?c) \<noteq> TASK_RUNNING" by (simp add: st1)
  note lv = leave_blocking [OF r1 this]
  obtain s2 where raw: "schedule s1 = Some s2" "tsk s2 = leave (current s1) (tsk s1)"
      "current s2 = pick (idle s1) (current s1) (run_next (tsk s1 (current s1))) (leave (current s1) (tsk s1))"
      "idle s2 = idle s1" "qfirst s2 = qfirst s1" "klock s2 = klock s1" "intr s2 = (klock s1 = 0)"
    by (rule schedule_step [OF nm])
  have s2: "schedule s1 = Some s2" "tsk s2 = leave ?c (tsk s1)"
      "current s2 = rr_next (idle s) xs (as @ bs) ?c"
      "idle s2 = idle s" "qfirst s2 = qfirst s1" "klock s2 = klock s + 1" "intr s2 = (klock s + 1 = 0)"
    using raw lv(2) by (simp_all only: e(3-5) xs [symmetric])
  have q2: "queue_ok q' ((W(q := W q @ [?c])) q') s2" for q'
  proof (cases "q' = q")
    case True
    let ?s0 = "s\<lparr>tsk := mark_blocked q ?c (tsk s)\<rparr>"
    have "queue_ok q (W q) ?s0" by (rule queue_ok_cong [OF D(2)]) (simp_all add: link_frames)
    from queue_ok_enqueue [OF this cW c0(1), of s1]
    have "queue_ok q (W q @ [?c]) s1" using cst(2) by (simp add: e link_frames)
    then have "queue_ok q (W q @ [?c]) s2" by (rule queue_ok_cong) (simp_all add: s2 link_frames)
    then show ?thesis using True by simp
  next
    case False
    let ?s0 = "s\<lparr>tsk := mark_blocked q ?c (tsk s)\<rparr>"
    have q0: "queue_ok q (W q) ?s0" by (rule queue_ok_cong [OF D(2)]) (simp_all add: link_frames)
    have same: "tsk s1 a = tsk s a" if "a \<in> set (W q')" for a
    proof -
      have "a \<noteq> ?c" "a \<notin> set (W q)" using that cW D(6) [OF False] by blast+
      then show ?thesis using enqueue_other [OF q0, of a ?c] by (simp add: e mark_blocked_def edit_apply)
    qed
    have "queue_ok q' (W q') s2"
      by (rule queue_ok_cong [OF D(2)]) (simp_all add: s2 e(2-5) same link_frames False)
    then show ?thesis using False by simp
  qed
  define s' where "s' = iret (unlock_kernel s2)"
  have sel: "tsk s' = leave ?c (tsk s1)" "current s' = rr_next (idle s) xs (as @ bs) ?c" "idle s' = idle s"
    "klock s' = klock s" "saved_if s' = (saved_if s)(?c := intr s)" "intr s' = saved_if s' (current s')"
    using lock schedule_saved [OF s2(1)] by (simp_all add: s'_def s2 e lock_simps)
  have "run_ok (as @ bs) s'" using lv(1) dist by (simp add: run_ok_def sel e)
  moreover have "queue_ok q' ((W(q := W q @ [?c])) q') s'" for q'
    by (rule queue_ok_cong [OF q2]) (simp_all add: s'_def)
  moreover have "current s' \<in> set (idle s' # as @ bs)"
  proof -
    have "after ?c xs = bs" using xs c0 by (simp add: after_split)
    then show ?thesis using c rr_next_in [of "idle s" xs "as @ bs" ?c] by (auto simp: sel)
  qed
  moreover from this have other: "current s' \<noteq> ?c" using dist by (auto simp: sel)
  moreover have "state (tsk s' t) = TASK_RUNNING \<and> queue_next (tsk s' t) = 0" if t: "t \<in> set (idle s' # as @ bs)" for t
  proof -
    have t': "t \<in> set (idle s # xs)" "t \<noteq> ?c" using t xs dist by (auto simp: sel)
    let ?s0 = "s\<lparr>tsk := mark_blocked q ?c (tsk s)\<rparr>"
    have q0: "queue_ok q (W q) ?s0" by (rule queue_ok_cong [OF D(2)]) (simp_all add: link_frames)
    have "t \<notin> set (W q)" using D(4,5) t'(1) by blast
    then have "tsk s1 t = tsk s t" using enqueue_other [OF q0, of t ?c] t'(2) by (simp add: e mark_blocked_def edit_apply)
    then show ?thesis using D(4) [OF t'(1)] by (simp add: sel link_frames)
  qed
  moreover have "state (tsk s' t) \<noteq> TASK_RUNNING" if "t \<in> set ((W(q := W q @ [?c])) q')" for t q'
    using that D(5) [of t q'] D(5) [of t q] by (auto simp: sel e link_frames split: if_splits)
  moreover have "set ((W(q := W q @ [?c])) q1) \<inter> set ((W(q := W q @ [?c])) q2) = {}" if "q1 \<noteq> q2" for q1 q2
    using D(6) [OF that] cW that by auto
  moreover have "name_ok (tname (tsk s' t))" for t using nm by (simp add: sel link_frames)
  ultimately have "sched_ok (remove1 ?c xs) (W(q := W q @ [?c])) s'" unfolding sched_ok_def rm by blast
  moreover have "block q s = Some s'" using s2(1) by (simp add: block_def s1_def s'_def)
  moreover have "state (tsk s' ?c) = TASK_INTERRUPTABLE" by (simp add: sel e link_frames)
  moreover have "intr s' = saved_if s (current s')" using other by (simp add: sel(5,6))
  ultimately show ?thesis using that other sel(2-5) rm by simp
qed

section \<open>Waking a queue\<close>

text \<open>One round of the loop: the task is unlinked from the queue and put at the end of the run list.\<close>

definition wake_one :: "u32 \<Rightarrow> u32 \<Rightarrow> 'a ktask_scheme \<Rightarrow> 'a ktask_scheme" where
  "wake_one q t s =
     wake_up t (at_task t (put_queue_next 0) (at_task t (put_queue_prev 0)
       (say (kern_debug @ ''Waking %ld on queue %x'' @ newline) [VInt (pid (tsk s t)), VInt q] s)))"

fun chain_to :: "task store \<Rightarrow> u32 \<Rightarrow> u32 list \<Rightarrow> bool" where
  "chain_to st e [] \<longleftrightarrow> True"
| "chain_to st e (t # ts) \<longleftrightarrow> queue_next (st t) = hd (ts @ [e]) \<and> chain_to st e ts"

lemma chain_to_cong: "\<forall>a\<in>set ts. queue_next (st' a) = queue_next (st a) \<Longrightarrow> chain_to st e ts \<Longrightarrow> chain_to st' e ts"
  by (induction ts) auto

lemma wake_up_sel:
  "tsk (wake_up t s) = add_run (idle s) t (edit t (put_state TASK_RUNNING) (tsk s))"
  "current (wake_up t s) = current s" "idle (wake_up t s) = idle s" "qfirst (wake_up t s) = qfirst s"
  "klock (wake_up t s) = klock s" "klock s \<noteq> 0 \<Longrightarrow> \<not> intr s \<Longrightarrow> \<not> intr (wake_up t s)"
  by (simp_all add: wake_up_eq lock_simps)

lemma wake_one_sel:
  "tsk (wake_one q t s) = add_run (idle s) t
     (edit t (put_state TASK_RUNNING) (edit t (put_queue_next 0) (edit t (put_queue_prev 0) (tsk s))))"
  "current (wake_one q t s) = current s" "idle (wake_one q t s) = idle s" "qfirst (wake_one q t s) = qfirst s"
  "klock (wake_one q t s) = klock s" "klock s \<noteq> 0 \<Longrightarrow> \<not> intr s \<Longrightarrow> \<not> intr (wake_one q t s)"
  by (simp_all add: wake_one_def wake_up_sel lock_simps)

lemma wake_one_fields:
  "state (tsk (wake_one q t s) a) = (if a = t then TASK_RUNNING else state (tsk s a))"
  "queue_next (tsk (wake_one q t s) a) = (if a = t then 0 else queue_next (tsk s a))"
  "queue_prev (tsk (wake_one q t s) a) = (if a = t then 0 else queue_prev (tsk s a))"
  "tname (tsk (wake_one q t s) a) = tname (tsk s a)"
  by (simp_all add: wake_one_sel link_frames edit_apply)

lemma wake_one_run_ok:
  assumes "run_ok xs s" "t \<notin> set (idle s # xs)" "t \<noteq> 0"
  shows "run_ok (xs @ [t]) (wake_one q t s)"
  unfolding wake_one_def
proof (rule run_ok_wake_up)
  show "run_ok xs (at_task t (put_queue_next 0) (at_task t (put_queue_prev 0)
       (say (kern_debug @ ''Waking %ld on queue %x'' @ newline) [VInt (pid (tsk s t)), VInt q] s)))"
    by (rule run_ok_cong [OF assms(1)]) (simp_all add: edit_apply)
qed (use assms in simp_all)

lemma wake_loop_unfold:
  "wake_loop q t s =
     (if t = 0 then Some s
      else if queue_next (tsk s t) = qfirst s q then Some (wake_one q t s)
      else wake_loop q (queue_next (tsk s t)) (wake_one q t s))"
  by (subst wake_loop.simps) (simp add: Let_def wake_one_def wake_up_sel)

text \<open>The loop wakes the rest of the queue, task by task, and ends.\<close>

lemma wake_loop_spec:
  assumes "chain_to (tsk s) e (t # ts)" "e = 0 \<or> e = qfirst s q" "qfirst s q \<notin> set ts" "qfirst s q \<noteq> 0"
    and "distinct (t # ts)" "0 \<notin> set (t # ts)"
  shows "wake_loop q t s = Some (foldl (\<lambda>s t. wake_one q t s) s (t # ts))"
  using assms
proof (induction ts arbitrary: t s)
  case Nil
  have "wake_loop q 0 s' = Some s'" for s' :: "'a ktask_scheme" by (subst wake_loop_unfold) simp
  then show ?case using Nil by (subst wake_loop_unfold) auto
next
  case (Cons u ts)
  let ?s = "wake_one q t s"
  have "chain_to (tsk ?s) e (u # ts)"
    using Cons.prems by (intro chain_to_cong [of "u # ts" "tsk ?s" "tsk s"]) (auto simp: wake_one_fields)
  then have "wake_loop q u ?s = Some (foldl (\<lambda>s t. wake_one q t s) ?s (u # ts))"
    by (intro Cons.IH) (use Cons.prems in \<open>auto simp: wake_one_sel(2-6)\<close>)
  then show ?case using Cons.prems by (subst wake_loop_unfold) auto
qed

lemma wake_fold:
  fixes q :: u32 and s :: "'a ktask_scheme"
  assumes "run_ok xs s" "distinct (idle s # xs @ ts)" "0 \<notin> set ts" "klock s \<noteq> 0" "\<not> intr s"
  defines "s' \<equiv> foldl (\<lambda>s t. wake_one q t s) s ts"
  shows "run_ok (xs @ ts) s'" "current s' = current s" "idle s' = idle s" "qfirst s' = qfirst s"
    "klock s' = klock s" "\<not> intr s'"
    "state (tsk s' a) = (if a \<in> set ts then TASK_RUNNING else state (tsk s a))"
    "queue_next (tsk s' a) = (if a \<in> set ts then 0 else queue_next (tsk s a))"
    "queue_prev (tsk s' a) = (if a \<in> set ts then 0 else queue_prev (tsk s a))"
    "tname (tsk s' a) = tname (tsk s a)"
proof -
  have "run_ok (xs @ ts) s' \<and> current s' = current s \<and> idle s' = idle s \<and> qfirst s' = qfirst s
    \<and> klock s' = klock s \<and> \<not> intr s'
    \<and> state (tsk s' a) = (if a \<in> set ts then TASK_RUNNING else state (tsk s a))
    \<and> queue_next (tsk s' a) = (if a \<in> set ts then 0 else queue_next (tsk s a))
    \<and> queue_prev (tsk s' a) = (if a \<in> set ts then 0 else queue_prev (tsk s a))
    \<and> tname (tsk s' a) = tname (tsk s a)"
    using assms(1-5) unfolding s'_def
  proof (induction ts arbitrary: s xs)
    case (Cons t ts)
    have "run_ok (xs @ [t]) (wake_one q t s)" by (rule wake_one_run_ok) (use Cons.prems in auto)
    from Cons.IH [OF this] show ?case using Cons.prems by (auto simp: wake_one_sel(2-6) wake_one_fields)
  qed simp
  then show "run_ok (xs @ ts) s'" "current s' = current s" "idle s' = idle s" "qfirst s' = qfirst s"
    "klock s' = klock s" "\<not> intr s'"
    "state (tsk s' a) = (if a \<in> set ts then TASK_RUNNING else state (tsk s a))"
    "queue_next (tsk s' a) = (if a \<in> set ts then 0 else queue_next (tsk s a))"
    "queue_prev (tsk s' a) = (if a \<in> set ts then 0 else queue_prev (tsk s a))"
    "tname (tsk s' a) = tname (tsk s a)" by simp_all
qed

lemma wake_up_queue_sched_ok:
  assumes ok: "sched_ok xs W s" and lock: "klock s + 1 \<noteq> 0"
  obtains s' where "wake_up_queue q s = Some s'" "sched_ok (xs @ W q) (W(q := [])) s'"
    "current s' = current s" "idle s' = idle s" "klock s' = klock s" "intr s' = (klock s = 0)"
    "qfirst s' q = 0"
proof -
  note D = sched_okD [OF ok]
  define s1 where "s1 = say (kern_debug @ ''Waking all on queue %x'' @ newline) [VInt q] (lock_kernel s)"
  have s1: "tsk s1 = tsk s" "current s1 = current s" "idle s1 = idle s" "qfirst s1 = qfirst s"
    "klock s1 = klock s + 1" "\<not> intr s1" by (simp_all add: s1_def lock_simps)
  let ?s2 = "foldl (\<lambda>s t. wake_one q t s) s1 (W q)"
  have dW: "distinct (W q)" "0 \<notin> set (W q)"
    using D(2) [of q] by (cases "W q"; auto simp: queue_ok_def wait.ring_def split: if_splits)+
  have disj: "set (W q) \<inter> set (idle s # xs) = {}" using D(4,5) by blast
  have r1: "run_ok xs s1" by (rule run_ok_cong [OF D(1)]) (simp_all add: s1)
  have loop: "wake_loop q (qfirst s1 q) s1 = Some ?s2"
  proof (cases "W q")
    case Nil
    then have "qfirst s1 q = 0" using D(2) [of q] by (simp add: queue_ok_def s1)
    then show ?thesis using Nil by (subst wake_loop.simps) simp
  next
    case (Cons w vs)
    have f: "qfirst s1 q = w" using D(2) [of q] Cons by (simp add: queue_ok_def s1)
    let ?e = "if vs = [] then 0 else w"
    have "chain_to (tsk s1) ?e (w # vs)"
    proof (cases "vs = []")
      case True
      then show ?thesis using D(2) [of q] Cons by (simp add: queue_ok_def s1)
    next
      case False
      then have "wait.ring (tsk s1) (w # vs)" using D(2) [of q] Cons by (simp add: queue_ok_def s1)
      then have "wait.linked (tsk s1) ((w # vs) @ [w])" by (simp add: wait.ring_def)
      moreover have "wait.linked st (ts @ [w]) \<Longrightarrow> chain_to st w ts" for st ts
        by (induction ts) (auto, (case_tac ts; simp)+)
      ultimately show ?thesis using False by (metis (full_types))
    qed
    then show ?thesis unfolding f Cons using dW Cons f
      by (intro wake_loop_spec [of s1 ?e w vs q]) auto
  qed
  define s' where "s' = unlock_kernel (set_first q 0 ?s2)"
  have "wake_up_queue q s = (case wake_loop q (qfirst s1 q) s1 of
      None \<Rightarrow> None | Some s \<Rightarrow> Some (unlock_kernel (set_first q 0 s)))"
    by (simp add: wake_up_queue_def Let_def s1_def)
  then have w: "wake_up_queue q s = Some s'" by (simp add: loop s'_def)
  have d: "distinct (idle s1 # xs @ W q)" using run_ok_distinct [OF D(1)] dW disj by (auto simp: s1)
  have l1: "klock s1 \<noteq> 0" using lock by (simp add: s1)
  note F = wake_fold [OF r1 d dW(2) l1 s1(6), of q]
  have sel: "tsk s' = tsk ?s2" "current s' = current s" "idle s' = idle s" "qfirst s' = (qfirst s)(q := 0)"
    "klock s' = klock s" "intr s' = (klock s = 0)"
    using F(6) by (simp_all add: s'_def lock_simps F(2-5) s1)
  have "run_ok (xs @ W q) s'" by (rule run_ok_cong [OF F(1)]) (simp_all add: sel F s1)
  moreover have "queue_ok q' ((W(q := [])) q') s'" for q'
  proof (cases "q' = q")
    case False
    have "a \<notin> set (W q)" if "a \<in> set (W q')" for a using that D(6) [OF False] by blast
    then have "queue_ok q' (W q') s'"
      by (intro queue_ok_cong [OF D(2)]) (use False in \<open>simp_all add: sel F s1\<close>)
    then show ?thesis using False by simp
  qed (simp add: queue_ok_def sel)
  moreover have "current s' \<in> set (idle s' # xs @ W q)" using D(3) by (auto simp: sel)
  moreover have "state (tsk s' t) = TASK_RUNNING \<and> queue_next (tsk s' t) = 0" if "t \<in> set (idle s' # xs @ W q)" for t
    using that D(4) [of t] by (auto simp: sel F s1)
  moreover have "state (tsk s' t) \<noteq> TASK_RUNNING" if "t \<in> set ((W(q := [])) q')" for t q'
  proof -
    have "q' \<noteq> q" "t \<in> set (W q')" using that by (auto split: if_splits)
    then show ?thesis using D(5) D(6) [of q' q] by (auto simp: sel F s1)
  qed
  moreover have "set ((W(q := [])) q1) \<inter> set ((W(q := [])) q2) = {}" if "q1 \<noteq> q2" for q1 q2
    using D(6) [OF that] by auto
  moreover have "name_ok (tname (tsk s' t))" for t using D(7) by (simp add: sel F s1)
  ultimately have "sched_ok (xs @ W q) (W(q := [])) s'" unfolding sched_ok_def by blast
  then show ?thesis using that w sel by simp
qed

section \<open>A machine with four tasks\<close>

text \<open>Two tasks are runnable, the first of them current; two more wait on the queue at \<open>0x4000\<close>.\<close>

definition busy :: ktask where
  "busy = booted\<lparr>tsk := (\<lambda>_. idle_task_init)(
       0x2000 := idle_task_init\<lparr>run_next := 0x3000, run_prev := 0x3100\<rparr>,
       0x3000 := idle_task_init\<lparr>pid := 1, run_next := 0x3100, run_prev := 0x2000\<rparr>,
       0x3100 := idle_task_init\<lparr>pid := 2, run_next := 0x2000, run_prev := 0x3000\<rparr>,
       0x3200 := idle_task_init\<lparr>pid := 3, state := TASK_INTERRUPTABLE, queue := 0x4000,
                   queue_next := 0x3300, queue_prev := 0x3300\<rparr>,
       0x3300 := idle_task_init\<lparr>pid := 4, state := TASK_INTERRUPTABLE, queue := 0x4000,
                   queue_next := 0x3200, queue_prev := 0x3200\<rparr>),
     current := 0x3000, qfirst := (\<lambda>_. 0)(0x4000 := 0x3200)\<rparr>"

definition busy_queues :: "u32 \<Rightarrow> u32 list" where
  "busy_queues = (\<lambda>_. [])(0x4000 := [0x3200, 0x3300])"

lemma busy_sel: "current busy = 0x3000" "idle busy = 0x2000" "klock busy = 0" "intr busy"
  "saved_if busy 0x3100 \<longleftrightarrow> False"
  by (simp_all add: busy_def)

lemma busy_ok: "sched_ok [0x3000, 0x3100] busy_queues busy"
  unfolding sched_ok_def
proof (intro conjI allI ballI impI)
  show "run_ok [0x3000, 0x3100] busy" by (simp add: run_ok_def run.ring_def busy_def)
  show "queue_ok q (busy_queues q) busy" for q
    by (simp add: queue_ok_def busy_queues_def wait.ring_def busy_def)
  show "current busy \<in> set (idle busy # [0x3000, 0x3100])" by (simp add: busy_def)
  show "state (tsk busy t) = TASK_RUNNING" if "t \<in> set (idle busy # [0x3000, 0x3100])" for t
    using that by (auto simp: busy_def idle_task_init_def)
  show "queue_next (tsk busy t) = 0" if "t \<in> set (idle busy # [0x3000, 0x3100])" for t
    using that by (auto simp: busy_def idle_task_init_def)
  show "state (tsk busy t) \<noteq> TASK_RUNNING" if "t \<in> set (busy_queues q)" for t q
    using that by (auto simp: busy_queues_def busy_def split: if_splits)
  show "set (busy_queues q) \<inter> set (busy_queues q') = {}" if "q \<noteq> q'" for q q'
    using that by (auto simp: busy_queues_def)
  show "name_ok (tname (tsk busy t))" for t by (simp add: busy_def idle_task_init_def name_ok_def nul_def)
qed

section \<open>Properties\<close>

text \<open>
  Property C9.  \<open>schedule\<close> is round robin: when the current task is still runnable it always returns,
  keeps the run list and all wait queues, and makes current the task that follows in the run list, going
  round from the last to the first; the idle task is chosen only when there is no other.  The context
  switch is made exactly when the task changes, and the kernel lock is left as it was.
\<close>

theorem schedule_round_robin:
  assumes "sched_ok xs W s"
  shows "\<exists>s'. schedule s = Some s' \<and> sched_ok xs W s'
    \<and> current s' = rr_next (idle s) xs xs (current s) \<and> idle s' = idle s
    \<and> klock s' = klock s \<and> intr s' = (klock s = 0)
    \<and> switches s' = (if current s' = current s then switches s else switches s @ [(current s', current s)])"
  by (rule schedule_sched_ok [OF assms]) blast

theorem schedule_round_robin_witness:
  "\<exists>s'. schedule busy = Some s' \<and> sched_ok [0x3000, 0x3100] busy_queues s' \<and> current s' = 0x3100
    \<and> switches s' = switches busy @ [(0x3100, 0x3000)]"
  using schedule_round_robin [OF busy_ok] by (auto simp: busy_sel rr_next_def after_def)

text \<open>
  Property C10.  Blocking: \<open>block q\<close> always returns (in the task that runs next), takes the current task
  out of the run list, appends it to the queue as interruptible, leaves every other queue alone, and
  makes the next task of the run list current, or the idle task when it was the only one.  The kernel lock
  is as before, and interrupts are on exactly if they were on when the task that now runs was suspended;
  the flag of the task that blocks is kept for its own return, and the other saved flags stay.
\<close>

theorem block_moves_task:
  assumes "sched_ok xs W s" and "current s \<noteq> idle s" and "klock s + 1 \<noteq> 0"
  shows "\<exists>s'. block q s = Some s'
    \<and> sched_ok (remove1 (current s) xs) (W(q := W q @ [current s])) s'
    \<and> current s' = rr_next (idle s) xs (remove1 (current s) xs) (current s)
    \<and> state (tsk s' (current s)) = TASK_INTERRUPTABLE
    \<and> klock s' = klock s \<and> current s' \<noteq> current s \<and> intr s' = saved_if s (current s')
    \<and> saved_if s' = (saved_if s)(current s := intr s)"
  by (rule block_sched_ok [OF assms, of q]) blast

theorem block_moves_task_witness:
  "\<exists>s'. block 0x4000 busy = Some s'
    \<and> sched_ok [0x3100] (busy_queues(0x4000 := [0x3200, 0x3300, 0x3000])) s'
    \<and> current s' = 0x3100 \<and> state (tsk s' 0x3000) = TASK_INTERRUPTABLE
    \<and> \<not> intr s' \<and> saved_if s' 0x3000"
  using block_moves_task [OF busy_ok, of "0x4000"]
  by (auto simp: busy_sel rr_next_def after_def busy_queues_def)

text \<open>
  Property C11.  \<open>wake_up_queue\<close> always terminates: it appends all the tasks of the queue, in the order in
  which they blocked, to the run list, empties the queue, and changes neither the other queues nor the
  current task.
\<close>

theorem wake_up_queue_wakes_all:
  assumes "sched_ok xs W s" and "klock s + 1 \<noteq> 0"
  shows "\<exists>s'. wake_up_queue q s = Some s' \<and> sched_ok (xs @ W q) (W(q := [])) s'
    \<and> current s' = current s \<and> qfirst s' q = 0 \<and> klock s' = klock s \<and> intr s' = (klock s = 0)"
  by (rule wake_up_queue_sched_ok [OF assms, of q]) blast

theorem wake_up_queue_wakes_all_witness:
  "\<exists>s'. wake_up_queue 0x4000 busy = Some s'
    \<and> sched_ok [0x3000, 0x3100, 0x3200, 0x3300] (busy_queues(0x4000 := [])) s' \<and> qfirst s' 0x4000 = 0"
  using wake_up_queue_wakes_all [OF busy_ok, of "0x4000"] by (auto simp: busy_sel busy_queues_def)

text \<open>\<open>n\<close> reschedulings in a row.\<close>

primrec reschedule :: "nat \<Rightarrow> 'a ktask_scheme \<Rightarrow> 'a ktask_scheme option" where
  "reschedule 0 s = Some s"
| "reschedule (Suc n) s = (case reschedule n s of None \<Rightarrow> None | Some s \<Rightarrow> schedule s)"

lemma rr_next_at:
  assumes "distinct (i # xs)" "p < length xs"
  shows "rr_next i xs xs (xs ! p) = xs ! ((Suc p) mod length xs)"
proof -
  have "xs = take p xs @ xs ! p # drop (Suc p) xs" using assms(2) by (rule id_take_nth_drop)
  moreover from this have "xs ! p \<notin> set (take p xs)" using assms(1)
    by (metis distinct.simps(2) distinct_append not_distinct_conv_prefix distinct_take)
  ultimately have af: "after (xs ! p) xs = drop (Suc p) xs" by (metis after_split)
  have ni: "xs ! p \<noteq> i" using assms nth_mem by auto
  show ?thesis
  proof (cases "Suc p < length xs")
    case True
    then show ?thesis using af ni by (simp add: rr_next_def Cons_nth_drop_Suc [symmetric])
  next
    case False
    then have "Suc p = length xs" using assms(2) by simp
    then show ?thesis using af ni by (cases xs) (auto simp: rr_next_def)
  qed
qed

lemma reschedule_current:
  assumes ok: "sched_ok xs W s" and xs: "xs \<noteq> []"
    and p: "current s = idle s \<and> Suc p = length xs \<or> p < length xs \<and> current s = xs ! p"
  shows "\<exists>s'. reschedule (Suc m) s = Some s' \<and> sched_ok xs W s' \<and> idle s' = idle s
    \<and> current s' = xs ! ((p + Suc m) mod length xs)"
proof (induction m)
  case 0
  have d: "distinct (idle s # xs)" using run_ok_distinct sched_okD(1) [OF ok] by blast
  have "rr_next (idle s) xs xs (current s) = xs ! ((p + Suc 0) mod length xs)"
    proof (cases "current s = idle s")
    case True
    then have "(p + Suc 0) mod length xs = 0" using p d by auto
    then show ?thesis using True xs by (cases xs) (auto simp: rr_next_def)
  next
    case False
    then show ?thesis using p rr_next_at [OF d, of p] by simp
  qed
  moreover obtain s' where "schedule s = Some s'" "sched_ok xs W s'"
      "current s' = rr_next (idle s) xs xs (current s)" "idle s' = idle s" by (rule schedule_sched_ok [OF ok])
  ultimately show ?case by simp
next
  case (Suc m)
  then obtain s1 where s1: "reschedule (Suc m) s = Some s1" "sched_ok xs W s1" "idle s1 = idle s"
    "current s1 = xs ! ((p + Suc m) mod length xs)" by blast
  have d: "distinct (idle s1 # xs)" using run_ok_distinct sched_okD(1) [OF s1(2)] by blast
  have "rr_next (idle s1) xs xs (current s1) = xs ! ((p + Suc (Suc m)) mod length xs)"
    using rr_next_at [OF d, of "(p + Suc m) mod length xs"] xs s1(4) by (simp add: mod_Suc_eq)
  moreover obtain s' where "schedule s1 = Some s'" "sched_ok xs W s'"
      "current s' = rr_next (idle s1) xs xs (current s1)" "idle s' = idle s1" by (rule schedule_sched_ok [OF s1(2)])
  ultimately show ?case using s1 by simp
qed

text \<open>
  Property C12.  The scheduler is fair: as long as no task blocks, every runnable task becomes current
  within as many reschedulings as there are runnable tasks.
\<close>

theorem round_robin_fair:
  assumes ok: "sched_ok xs W s" and t: "t \<in> set xs"
  shows "\<exists>m s'. 1 \<le> m \<and> m \<le> length xs \<and> reschedule m s = Some s' \<and> current s' = t \<and> sched_ok xs W s'"
proof -
  obtain j where j: "j < length xs" "t = xs ! j" using t by (metis in_set_conv_nth)
  have ne: "xs \<noteq> []" using t by auto
  obtain p where p: "p < length xs" "current s = idle s \<and> Suc p = length xs \<or> p < length xs \<and> current s = xs ! p"
  proof (cases "current s = idle s")
    case True
    then show ?thesis using that [of "length xs - 1"] ne by (cases xs) auto
  next
    case False
    then have "current s \<in> set xs" using sched_okD(3) [OF ok] by simp
    then show ?thesis using that by (metis in_set_conv_nth)
  qed
  define m where "m = (if p < j then j - p else length xs + j - p)"
  have m: "1 \<le> m" "m \<le> length xs" "(p + m) mod length xs = j"
    using p(1) j(1) by (auto simp: m_def)
  obtain k where k: "m = Suc k" using m(1) by (cases m) auto
  show ?thesis
    using reschedule_current [OF ok ne p(2), of k] m j(2) unfolding k [symmetric] by blast
qed

theorem round_robin_fair_witness:
  "\<exists>m s'. 1 \<le> m \<and> m \<le> 2 \<and> reschedule m busy = Some s' \<and> current s' = 0x3000
    \<and> sched_ok [0x3000, 0x3100] busy_queues s'"
  using round_robin_fair [OF busy_ok, of "0x3000"] by (simp add: numeral_2_eq_2)

end
