(* ===== verification/Process.thy ===== *)
theory Process
  imports Sched
begin

text \<open>
  Creating tasks, listing them and accounting their time: \<open>create_process\<close> and \<open>show_tasks\<close> of
  kernel/task.c on top of the allocator and of the scheduler's invariant, and the timer interrupt of
  kernel/clock.c.
\<close>

declare One_nat_def [simp del]

section \<open>The clock\<close>

text \<open>
  The timer interrupt: a task whose time slice stands at \<open>k\<close> keeps running through \<open>k\<close>
  ticks and is marked for rescheduling by the tick after these and by no earlier one, so a slice of 100
  lasts 101 ticks.  Every tick is counted in \<open>jiffies\<close> and in the task's own time, and no other task is
  touched.
\<close>

theorem timeslice_ticks:
  assumes "need_resched (tsk s (current s)) = 0" and "timeslice (tsk s (current s)) = k" and "n \<le> unat k + 1"
  shows "let s' = (do_timer_int ^^ n) s in
    need_resched (tsk s' (current s)) = (if n = unat k + 1 then 1 else 0)
    \<and> jiffies s' = jiffies s + of_nat n \<and> ttime (tsk s' (current s)) = ttime (tsk s (current s)) + of_nat n
    \<and> current s' = current s \<and> (\<forall>t. t \<noteq> current s \<longrightarrow> tsk s' t = tsk s t)"
proof -
  have tick: "timeslice (tsk (do_timer_int u) (current u)) = timeslice (tsk u (current u)) - 1"
    "need_resched (tsk (do_timer_int u) (current u)) =
       (if timeslice (tsk u (current u)) = 0 then 1 else need_resched (tsk u (current u)))"
    "jiffies (do_timer_int u) = jiffies u + 1"
    "ttime (tsk (do_timer_int u) (current u)) = ttime (tsk u (current u)) + 1"
    "current (do_timer_int u) = current u"
    "t \<noteq> current u \<Longrightarrow> tsk (do_timer_int u) t = tsk u t" for u :: "'a ktask_scheme" and t
    by (simp_all add: do_timer_int_def Let_def edit_apply)
  have "n \<le> unat k + 1 \<Longrightarrow>
    timeslice (tsk ((do_timer_int ^^ n) s) (current s)) = k - of_nat n
    \<and> need_resched (tsk ((do_timer_int ^^ n) s) (current s)) = (if n = unat k + 1 then 1 else 0)
    \<and> jiffies ((do_timer_int ^^ n) s) = jiffies s + of_nat n
    \<and> ttime (tsk ((do_timer_int ^^ n) s) (current s)) = ttime (tsk s (current s)) + of_nat n
    \<and> current ((do_timer_int ^^ n) s) = current s
    \<and> (\<forall>t. t \<noteq> current s \<longrightarrow> tsk ((do_timer_int ^^ n) s) t = tsk s t)"
  proof (induction n)
    case 0
    then show ?case using assms by simp
  next
    case (Suc n)
    let ?u = "(do_timer_int ^^ n) s"
    have n: "n \<le> unat k" using Suc.prems by simp
    have ih: "timeslice (tsk ?u (current s)) = k - of_nat n" "need_resched (tsk ?u (current s)) = 0"
      "jiffies ?u = jiffies s + of_nat n" "ttime (tsk ?u (current s)) = ttime (tsk s (current s)) + of_nat n"
      "current ?u = current s" "\<forall>t. t \<noteq> current s \<longrightarrow> tsk ?u t = tsk s t"
      using Suc.IH n by auto
    have "of_nat n = k \<longleftrightarrow> n = unat k"
    proof -
      have "n < 4294967296" using n unat_bounds(3) [of k] by linarith
      then have "unat (of_nat n :: u32) = n" by (simp add: unat_of_nat_small)
      then show ?thesis using word_unat_eqI [of "of_nat n" k] by auto
    qed
    then have "k - of_nat n = 0 \<longleftrightarrow> Suc n = unat k + 1" by auto
    then show ?case
      using tick [where u = ?u] ih by (auto simp: algebra_simps)
  qed
  with assms(3) show ?thesis by (simp add: Let_def)
qed

theorem timeslice_ticks_witness:
  "need_resched (tsk ((do_timer_int ^^ 1) (booted\<lparr>tsk := \<lambda>_. idle_task_init\<lparr>need_resched := 0\<rparr>\<rparr>)) 0x2000) = 1"
  using timeslice_ticks [of "booted\<lparr>tsk := \<lambda>_. idle_task_init\<lparr>need_resched := 0\<rparr>\<rparr>" 0 1]
  by (simp add: Let_def idle_task_init_def)

section \<open>The list of all tasks\<close>

text \<open>\<open>as\<close> are all tasks but the idle task, in the order in which they were created.\<close>

definition tasks_ok :: "u32 list \<Rightarrow> 'a ktask_scheme \<Rightarrow> bool" where
  "tasks_ok as s \<longleftrightarrow> idle s \<noteq> 0 \<and> (as = [] \<and> task_next (tsk s (idle s)) = 0 \<or> tasks.ring (tsk s) (idle s # as))"

definition add_task :: "u32 \<Rightarrow> u32 \<Rightarrow> task store \<Rightarrow> task store" where
  "add_task h t st = (if task_next (st h) = 0 then tasks.pair h t st else tasks.attach h t st)"

text \<open>The line \<open>show_tasks\<close> prints for a task.\<close>

definition task_line :: "u32 \<Rightarrow> task \<Rightarrow> kcall" where
  "task_line a t = (''  Task %ld (%08lx): \"%s\" %s next=%08lx'' @ newline,
     [VInt (pid t), VInt a, VStr (Some (tname t)), VStr (Some (state_name (state t))), VInt (task_next t)])"

lemma show_loop_path:
  assumes "tasks.linked (tsk s) (a # as @ [idle s])" "idle s \<notin> set as"
  shows "show_loop a s = Some (s\<lparr>ktrace := ktrace s @ map (\<lambda>t. task_line t (tsk s t)) (a # as)\<rparr>)"
  using assms
proof (induction as arbitrary: a s)
  case Nil
  then show ?case by (subst show_loop.simps) (simp add: Let_def say_def task_line_def)
next
  case (Cons b as)
  let ?s = "s\<lparr>ktrace := ktrace s @ [task_line a (tsk s a)]\<rparr>"
  have "show_loop b ?s = Some (?s\<lparr>ktrace := ktrace ?s @ map (\<lambda>t. task_line t (tsk ?s t)) (b # as)\<rparr>)"
    by (rule Cons.IH) (use Cons.prems in auto)
  moreover have "show_loop a s = show_loop b ?s"
  proof -
    have "task_next (tsk s a) = b" "b \<noteq> idle s" using Cons.prems by auto
    then show ?thesis by (subst show_loop.simps) (simp add: Let_def say_def task_line_def)
  qed
  ultimately show ?case by simp
qed

text \<open>
  \<open>show_tasks\<close> terminates whenever the task list is a ring, prints the heading and then one
  line for the idle task and for every other task in the order of the list, and changes nothing else.
\<close>

theorem show_tasks_lists_all:
  assumes "tasks.ring (tsk s) (idle s # as)"
  shows "show_tasks s = Some (s\<lparr>ktrace := ktrace s @ (''Task list:'' @ newline, []) #
    map (\<lambda>t. task_line t (tsk s t)) (idle s # as)\<rparr>)"
proof -
  let ?s = "say (''Task list:'' @ newline) [] s"
  have l: "tasks.linked (tsk ?s) (idle s # as @ [idle ?s])" "idle ?s \<notin> set as"
    using assms by (auto simp: tasks.ring_def)
  show ?thesis unfolding show_tasks_def
    by (subst show_loop_path [OF l]) (simp_all add: say_def)
qed

theorem show_tasks_lists_all_witness:
  "show_tasks (booted\<lparr>tsk := (\<lambda>_. idle_task_init)(
       0x2000 := idle_task_init\<lparr>task_next := 0x3000, task_prev := 0x3000\<rparr>,
       0x3000 := idle_task_init\<lparr>pid := 1, task_next := 0x2000, task_prev := 0x2000\<rparr>)\<rparr>) \<noteq> None"
  by (subst show_tasks_lists_all [where as = "[0x3000]"]) (simp_all add: tasks.ring_def)

section \<open>Creating a task\<close>

text \<open>The fields of the scheduler survive a call of the allocator.\<close>

lemma kmem_more_sel:
  fixes s s' :: "'a ktask_scheme"
  assumes "kmem.more s' = kmem.more s"
  shows "tsk s' = tsk s" "current s' = current s" "idle s' = idle s" "qfirst s' = qfirst s"
    "video_init s' = video_init s" "debug_phase s' = debug_phase s" "restore s' = restore s"
    "switches s' = switches s" "jiffies s' = jiffies s" "saved_if s' = saved_if s"
  using assms by (cases s; cases s'; simp)+

lemma sched_ok_agree:
  assumes "sched_ok xs W s" "tsk s' = tsk s" "current s' = current s" "idle s' = idle s" "qfirst s' = qfirst s"
  shows "sched_ok xs W s'"
  using assms(1) unfolding sched_ok_def run_ok_def queue_ok_def assms(2-5) .

text \<open>Words at distinct offsets from the same address.\<close>

lemma offset_apart:
  fixes a :: u32
  assumes "i + 4 \<le> j \<or> j + 4 \<le> i" "i < 2 ^ 31" "j < 2 ^ 31"
  shows "span (a + of_nat i) 4 \<inter> span (a + of_nat j) 4 = {}"
proof -
  have ne: "a + of_nat x \<noteq> a + of_nat y" if "x < 2 ^ 32" "y < 2 ^ 32" "x \<noteq> y" for x y
    using that by (simp add: word_of_nat_eq_iff take_bit_nat_eq_self)
  have "x \<noteq> y" if x: "x \<in> span (a + of_nat i) 4" and y: "y \<in> span (a + of_nat j) 4" for x y
  proof -
    obtain k l where "k < 4" "l < 4" "x = a + of_nat (i + k)" "y = a + of_nat (j + l)"
      using x y by (auto simp: span_def add.assoc)
    moreover from this have "i + k < 2 ^ 32" "j + l < 2 ^ 32" "i + k \<noteq> j + l" using assms by auto
    ultimately show ?thesis using ne [of "i + k" "j + l"] by simp
  qed
  then show ?thesis by blast
qed

lemma load_offset:
  fixes a :: u32
  assumes "i + 4 \<le> j \<or> j + 4 \<le> i" "i < 2 ^ 31" "j < 2 ^ 31"
  shows "load32 (store32 m (a + of_nat j) v) (a + of_nat i) = load32 m (a + of_nat i)"
  by (rule load32_store32_other) (rule offset_apart [OF assms])

section \<open>The initial stack\<close>

text \<open>The interrupt flag, bit 9, is off in the flags word of a new task.\<close>

lemma first_flags_off: "bit first_flags 9 \<longleftrightarrow> False"
  by (simp add: first_flags_def bit_simps)

definition stack_words :: "u32 \<Rightarrow> u32 \<Rightarrow> u32 list" where
  "stack_words rst func = [0, rst, 0] @ [0, 0, 0, 0, 0, 0, 0, 0x18, 0x18, 0, func, 0x10, 18, 0, 0]"

definition stack_mem :: "u32 \<Rightarrow> u32 \<Rightarrow> u32 \<Rightarrow> mem \<Rightarrow> mem" where
  "stack_mem sp rst func m =
     init_regs (sp + 12) func (store32 (store32 (store32 m (sp + 8) 0) (sp + 4) rst) (sp + 0) 0)"

lemma load32_zero: "(\<And>x. x \<in> span a 4 \<Longrightarrow> m x = 0) \<Longrightarrow> load32 m a = 0"
  by (simp add: load32_def span4)

lemma memset_word:
  fixes a :: u32
  assumes "12 \<le> i" "i + 4 \<le> 72"
  shows "load32 (memset (a + 12) 0 60 m) (a + of_nat i) = 0"
proof (rule load32_zero)
  fix x assume x: "x \<in> span (a + of_nat i) 4"
  have "span (a + of_nat i) 4 \<subseteq> span (a + 12) 60"
    using span_shift [of "i - 12" 4 60 "a + 12"] assms by (simp add: of_nat_diff add.assoc)
  then show "memset (a + 12) 0 60 m x = 0" using x by (simp add: memset_bytes subset_iff)
qed

lemma memset_below:
  fixes a :: u32
  assumes "i + 4 \<le> 12"
  shows "load32 (memset (a + 12) 0 60 m) (a + of_nat i) = load32 m (a + of_nat i)"
proof (rule load32_cong)
  fix x assume "x \<in> span (a + of_nat i) 4"
  then obtain k where k: "k < 4" "x = a + of_nat (i + k)" by (auto simp: span_def add.assoc)
  have "x \<notin> span (a + 12) 60"
  proof
    assume "x \<in> span (a + 12) 60"
    then obtain l where l: "l < 60" "x = a + of_nat (12 + l)" by (auto simp: span_def add.assoc)
    then have "of_nat (i + k) = (of_nat (12 + l) :: u32)" using k by simp
    then have "i + k = 12 + l" using k l assms by (simp add: word_of_nat_eq_iff take_bit_nat_eq_self del: of_nat_add)
    then show False using k(1) assms by simp
  qed
  then show "memset (a + 12) 0 60 m x = m x" by (simp add: memset_bytes)
qed

lemma load_numeral:
  fixes a :: u32
  assumes "numeral i + 4 \<le> (numeral j :: nat) \<or> numeral j + 4 \<le> (numeral i :: nat)"
    and "numeral i < (2 ^ 31 :: nat)" "numeral j < (2 ^ 31 :: nat)"
  shows "load32 (store32 m (a + numeral j) v) (a + numeral i) = load32 m (a + numeral i)"
  using load_offset [of "numeral i" "numeral j" m a v] assms by simp

lemma load_numeral_0:
  fixes a :: u32
  assumes "4 \<le> (numeral j :: nat)" and "numeral j < (2 ^ 31 :: nat)"
  shows "load32 (store32 m (a + numeral j) v) a = load32 m a"
    and "load32 (store32 m a v) (a + numeral j) = load32 m (a + numeral j)"
  using load_offset [of 0 "numeral j" m a v] load_offset [of "numeral j" 0 m a v] assms by simp_all

lemma memset_numeral:
  fixes a :: u32
  shows "12 \<le> (numeral i :: nat) \<Longrightarrow> numeral i + 4 \<le> (72 :: nat) \<Longrightarrow> load32 (memset (a + 12) 0 60 m) (a + numeral i) = 0"
    and "numeral i + 4 \<le> (12 :: nat) \<Longrightarrow> load32 (memset (a + 12) 0 60 m) (a + numeral i) = load32 m (a + numeral i)"
    and "load32 (memset (a + 12) 0 60 m) a = load32 m a"
  using memset_word [of "numeral i" a m] memset_below [of "numeral i" a m] memset_below [of 0 a m] by simp_all

lemma stack_mem_words:
  assumes "k < 18"
  shows "load32 (stack_mem sp rst func m) (sp + of_nat (4 * k)) = stack_words rst func ! k"
proof -
  have e: "stack_mem sp rst func m = store32 (store32 (store32 (store32 (store32 (memset (sp + 12) 0 60
      (store32 (store32 (store32 m (sp + 8) 0) (sp + 4) rst) sp 0))
      (sp + 40) 0x18) (sp + 44) 0x18) (sp + 52) func) (sp + 56) 0x10) (sp + 60) 18"
    by (simp add: stack_mem_def init_regs_def sizeof_task_regs_def first_flags_def add.assoc push_bit_eq_mult)
  have "k \<in> {..<18}" using assms by simp
  then have "k \<in> {17, 16, 15, 14, 13, 12, 11, 10, 9, 8, 7, 6, 5, 4, 3, 2, 1, 0}"
    unfolding lessThan_nat_numeral by (simp add: lessThan_nat_numeral One_nat_def)
  then show ?thesis
    by (simp only: insert_iff empty_iff, elim disjE)
      (simp_all add: e stack_words_def load_numeral load_numeral_0 memset_numeral store32_same)
qed

lemma stack_mem_other:
  assumes "x \<notin> span sp 72"
  shows "stack_mem sp rst func m x = m x"
proof -
  have o: "x \<notin> span (sp + of_nat i) 4" if "i + 4 \<le> 72" for i
    using span_shift [OF that] assms by blast
  have "x \<notin> span (sp + 12) 60" using span_shift [of 12 60 72 sp] assms by auto
  then show ?thesis
    using o [of 0] o [of 4] o [of 8] o [of 40] o [of 44] o [of 52] o [of 56] o [of 60]
    by (simp add: stack_mem_def init_regs_def sizeof_task_regs_def add.assoc store32_other memset_bytes)
qed

section \<open>The new task in the lists\<close>

definition fresh_task :: "u32 \<Rightarrow> string \<Rightarrow> u32 \<Rightarrow> u32 \<Rightarrow> task \<Rightarrow> task" where
  "fresh_task pid' name' sp rs x = x\<lparr>timeslice := 100, ttime := 0, pid := pid', tname := name', esp := sp,
     ss := 0x18, regs := rs, task_next := 0, task_prev := 0, run_next := 0, run_prev := 0,
     state := TASK_RUNNING, queue := 0, queue_next := 0, queue_prev := 0\<rparr>"

lemma at_task_at_task: "at_task t f (at_task t g s) = at_task t (\<lambda>x. f (g x)) s"
  by (simp add: at_task_def edit_def fun_eq_iff)

lemma init_task_eq: "init_task t pid' name' sp rs s = s\<lparr>tsk := edit t (fresh_task pid' name' sp rs) (tsk s)\<rparr>"
  unfolding init_task_def Let_def at_task_at_task by (simp add: at_task_def fresh_task_def [abs_def])

lemma link_task_eq: "link_task t s = s\<lparr>tsk := add_task (idle s) t (tsk s)\<rparr>"
  by (simp add: link_task_def add_task_def tasks.pair_def tasks.attach_def Let_def at_task_def)

lemma link_run_sel:
  "tsk (link_run p t s) = add_run (idle s) t (tsk s)" "current (link_run p t s) = current s"
  "idle (link_run p t s) = idle s" "qfirst (link_run p t s) = qfirst s" "klock (link_run p t s) = klock s"
  "mem (link_run p t s) = mem s" "ph (link_run p t s) = ph s" "bh (link_run p t s) = bh s"
  "intr (link_run p t s) = intr s" "saved_if (link_run p t s) = saved_if s"
  by (simp_all add: link_run_def add_run_def run.pair_def run.attach_def Let_def lock_simps)

lemma link_run_more: "ktask.more (link_run p t s) = ktask.more s" "kports (link_run p t s) = kports s"
  by (simp_all add: link_run_def Let_def at_task_def say_def)

lemma lock_more: "ktask.more (lock_kernel s) = ktask.more s" "ktask.more (unlock_kernel s) = ktask.more s"
  by (simp_all add: lock_kernel_def unlock_kernel_def Let_def)

lemma add_task_frame [link_frames]:
  "state (add_task h t st a) = state (st a)" "queue_next (add_task h t st a) = queue_next (st a)"
  "queue_prev (add_task h t st a) = queue_prev (st a)" "tname (add_task h t st a) = tname (st a)"
  "run_next (add_task h t st a) = run_next (st a)" "run_prev (add_task h t st a) = run_prev (st a)"
  "pid (add_task h t st a) = pid (st a)" "esp (add_task h t st a) = esp (st a)"
  "timeslice (add_task h t st a) = timeslice (st a)" "regs (add_task h t st a) = regs (st a)"
  by (simp_all add: add_task_def tasks.pair_def tasks.attach_def Let_def edit_apply)

lemma add_run_frame2 [link_frames]:
  "task_next (add_run h t st a) = task_next (st a)" "task_prev (add_run h t st a) = task_prev (st a)"
  "pid (add_run h t st a) = pid (st a)" "esp (add_run h t st a) = esp (st a)"
  "timeslice (add_run h t st a) = timeslice (st a)" "regs (add_run h t st a) = regs (st a)"
  by (simp_all add: add_run_def run.pair_def run.attach_def Let_def edit_apply)

lemma add_task_ring:
  assumes "tasks_ok as s" "t \<notin> set (idle s # as)" "t \<noteq> 0"
  shows "tasks.ring (add_task (idle s) t (tsk s)) (idle s # as @ [t])"
proof (cases "as = [] \<and> task_next (tsk s (idle s)) = 0")
  case True
  then show ?thesis using assms tasks.ring_pair [of "idle s" t] by (auto simp: add_task_def tasks_ok_def)
next
  case False
  then have r: "tasks.ring (tsk s) (idle s # as)" using assms(1) by (auto simp: tasks_ok_def)
  have "task_next (tsk s (idle s)) \<noteq> 0"
    using tasks.ring_next [of "tsk s" "[]" "idle s"] tasks.ring_last(1) [OF r] r
    by (cases as) (auto simp: tasks.ring_def)
  then show ?thesis using tasks.ring_attach [OF r assms(2,3)] by (simp add: add_task_def)
qed

lemma new_task_lists:
  assumes ok: "sched_ok xs W s" and tk: "tasks_ok as s" and nm: "name_ok name'"
    and t: "t \<notin> set (idle s # xs @ as)" "\<And>q. t \<notin> set (W q)" "t \<noteq> 0"
    and s': "tsk s' = add_run (idle s) t (add_task (idle s) t (edit t (fresh_task pid' name' sp rs) (tsk s)))"
      "current s' = current s" "idle s' = idle s" "qfirst s' = qfirst s"
  shows "sched_ok (xs @ [t]) W s'" and "tasks_ok (as @ [t]) s'"
proof -
  note D = sched_okD [OF ok]
  define st where "st = edit t (fresh_task pid' name' sp rs) (tsk s)"
  have st: "st a = tsk s a" if "a \<noteq> t" for a using that by (simp add: st_def edit_apply)
  have stt: "st t = fresh_task pid' name' sp rs (tsk s t)" by (simp add: st_def edit_apply)
  have other: "tsk s' a = add_run (idle s) t (add_task (idle s) t st) a" for a using s'(1) by (simp add: st_def)
  let ?s = "s\<lparr>tsk := add_task (idle s) t st\<rparr>"
  have an: "st a = tsk s a" if "a \<in> set (idle s # xs @ as)" for a using that t(1) by (intro st) auto
  have "run_ok xs ?s" by (rule run_ok_cong [OF D(1)]) (auto simp: link_frames an)
  from add_run_ring [OF this] have "run.ring (tsk s') (idle s # xs @ [t])"
    using t by (simp add: s'(1) st_def)
  then have run: "run_ok (xs @ [t]) s'" using D(1) by (simp add: run_ok_def s'(3))
  have q: "queue_ok q (W q) s'" for q
  proof (rule queue_ok_cong [OF D(2)])
    fix a assume "a \<in> set (W q)"
    then have "a \<noteq> t" using t(2) by blast
    then show "queue_next (tsk s' a) = queue_next (tsk s a) \<and> queue_prev (tsk s' a) = queue_prev (tsk s a)"
      by (simp add: other link_frames st)
  qed (simp add: s'(4))
  have "state (tsk s' a) = TASK_RUNNING \<and> queue_next (tsk s' a) = 0" if "a \<in> set (idle s' # xs @ [t])" for a
    using that D(4) [of a] stt st [of a] by (cases "a = t") (auto simp: other link_frames s'(2-4) fresh_task_def)
  moreover have "state (tsk s' a) \<noteq> TASK_RUNNING" if "a \<in> set (W q)" for a q
  proof -
    have "a \<noteq> t" using that t(2) by blast
    then show ?thesis using D(5) [OF that] by (simp add: other link_frames st)
  qed
  moreover have "name_ok (tname (tsk s' a))" for a
    using D(7) [of a] nm stt st [of a] by (cases "a = t") (auto simp: other link_frames fresh_task_def)
  moreover have "current s' \<in> set (idle s' # xs @ [t])" using D(3) by (auto simp: s'(2-4))
  ultimately show "sched_ok (xs @ [t]) W s'" unfolding sched_ok_def using run q D(6) by blast
  have "tasks_ok as (s\<lparr>tsk := st\<rparr>)"
    using tk tasks.ring_cong [of "tsk s" "idle s # as" st] by (auto simp: tasks_ok_def an)
  from add_task_ring [OF this] have r: "tasks.ring (add_task (idle s) t st) (idle s # as @ [t])" using t by simp
  have "tasks.ring (tsk s') (idle s # as @ [t])"
    by (rule tasks.ring_cong [OF r]) (simp add: other link_frames)
  then show "tasks_ok (as @ [t]) s'" using tk by (simp add: tasks_ok_def s'(3))
qed

lemma heap_address_nonzero:
  assumes "heap_ok lo ps bs s" "x \<in> ext_bytes 4096 ps \<union> ext_bytes 1 bs"
  shows "x \<noteq> 0"
proof -
  note d = pages_okD [OF heap_okD(1) [OF assms(1)]] blocks_okD [OF heap_okD(2) [OF assms(1)]]
  have "ext_set ps \<subseteq> {lo..}" "ext_set bs \<subseteq> {4096 * lo..}"
    using ext_ok_bound [OF d(4)] ext_ok_bound [OF d(9)] by auto
  then show ?thesis using assms(2) d(1) by (auto simp: ext_bytes_def)
qed

lemma create_process_spec:
  assumes ok: "sched_ok xs W s" and tk: "tasks_ok as s" and heap: "heap_ok lo ps bs s"
    and stack: "72 \<le> unat stack" "unat stack + 4 \<le> 65535 * 4096" and lock: "unat (klock s) < 2 ^ 32 - 2"
    and nm: "name_ok name'"
    and used: "\<forall>a \<in> set (idle s # xs @ as) \<union> (\<Union>q. set (W q)). a \<notin> ext_bytes 4096 ps \<union> ext_bytes 1 bs"
  shows "(\<exists>h. create_process pid' func name' stack s = Some (Inl h))
        \<and> Option.bind (abs_kalloc (unat stack + 4) ps bs) (\<lambda>(a, ps1, bs1). abs_kalloc (unat sizeof_task + 4) ps1 bs1) = None
    \<or> (\<exists>t s' sp ps' bs'. create_process pid' func name' stack s = Some (Inr (t, s'))
        \<and> t \<in> ext_bytes 4096 ps \<union> ext_bytes 1 bs
        \<and> sched_ok (xs @ [t]) W s' \<and> tasks_ok (as @ [t]) s' \<and> heap_ok lo ps' bs' s'
        \<and> current s' = current s \<and> klock s' = klock s \<and> intr s' = (klock s = 0)
        \<and> ktask.more s' = ktask.more s \<and> idle s' = idle s \<and> kports s' = kports s
        \<and> timeslice (tsk s' (idle s)) = timeslice (tsk s (idle s))
        \<and> (\<forall>x. x \<notin> heap_bytes ps bs s \<longrightarrow> mem s' x = mem s x)
        \<and> pid (tsk s' t) = pid' \<and> tname (tsk s' t) = name' \<and> timeslice (tsk s' t) = 100
        \<and> esp (tsk s' t) = sp \<and> regs (tsk s' t) = sp + 12
        \<and> (\<forall>k < 18. load32 (mem s') (sp + of_nat (4 * k)) = stack_words (restore s) func ! k)
        \<and> saved_if s' = (saved_if s)(t := False)
        \<and> span sp 72 \<inter> (ext_bytes 4096 ps' \<union> ext_bytes 1 bs') = {})"
proof (cases "abs_kalloc (unat stack + 4) ps bs")
  case None
  then obtain h where "kalloc stack s = Some (Inl h)" using kalloc_spec [OF heap stack(2) lock] by auto
  then show ?thesis using None by (simp add: create_process_def)
next
  case (Some x)
  then obtain a1 s1 where k1: "kalloc stack s = Some (Inr (a1, s1))"
    using kalloc_spec [OF heap stack(2) lock] by (cases x) auto
  obtain ps1 bs1 where r1: "heap_ok lo ps1 bs1 s1"
      "ext_bytes 4096 ps \<union> ext_bytes 1 bs = ext_bytes 4096 ps1 \<union> ext_bytes 1 bs1 \<union> span (a1 - 4) (unat stack + 4)"
      "span (a1 - 4) (unat stack + 4) \<inter> (ext_bytes 4096 ps1 \<union> ext_bytes 1 bs1) = {}"
      "\<And>x. x \<notin> heap_bytes ps bs s \<Longrightarrow> mem s1 x = mem s x" "klock s1 = klock s" "ph s1 = ph s" "bh s1 = bh s" "kmem.more s1 = kmem.more s"
      "kports s1 = kports s" "map_option snd (abs_kalloc (unat stack + 4) ps bs) = Some (ps1, bs1)"
    by (rule kalloc_region [OF heap stack(2) lock k1]) (rule that; assumption)
  have sz: "unat sizeof_task + 4 \<le> 65535 * 4096" by (simp add: sizeof_task_def)
  have lock1: "unat (klock s1) < 2 ^ 32 - 2" using lock r1(5) by simp
  show ?thesis
  proof (cases "abs_kalloc (unat sizeof_task + 4) ps1 bs1")
    case None
    then obtain h where "kalloc sizeof_task s1 = Some (Inl h)" using kalloc_spec [OF r1(1) sz lock1] by auto
    moreover have "Option.bind (abs_kalloc (unat stack + 4) ps bs) (\<lambda>(a, ps1, bs1). abs_kalloc (unat sizeof_task + 4) ps1 bs1) = None"
      using r1(10) None by (cases "abs_kalloc (unat stack + 4) ps bs") auto
    ultimately show ?thesis by (simp add: create_process_def k1)
  next
    case (Some y)
    then obtain t s2 where k2: "kalloc sizeof_task s1 = Some (Inr (t, s2))"
      using kalloc_spec [OF r1(1) sz lock1] by (cases y) auto
    obtain ps2 bs2 where r2: "heap_ok lo ps2 bs2 s2"
        "ext_bytes 4096 ps1 \<union> ext_bytes 1 bs1 = ext_bytes 4096 ps2 \<union> ext_bytes 1 bs2 \<union> span (t - 4) (unat sizeof_task + 4)"
        "\<And>x. x \<notin> heap_bytes ps1 bs1 s1 \<Longrightarrow> mem s2 x = mem s1 x" "klock s2 = klock s1" "ph s2 = ph s1" "bh s2 = bh s1" "kmem.more s2 = kmem.more s1"
        "kports s2 = kports s1"
      by (rule kalloc_region [OF r1(1) sz lock1 k2]) (rule that; assumption)
    note sel = kmem_more_sel [OF r2(7)] kmem_more_sel [OF r1(8)]
    have tin: "t \<in> span (t - 4) (unat sizeof_task + 4)"
      using span_mem [of 4 "unat sizeof_task + 4" "t - 4"] by (simp add: sizeof_task_def)
    then have tfree: "t \<in> ext_bytes 4096 ps \<union> ext_bytes 1 bs" using r1(2) r2(2) by blast
    have t0: "t \<noteq> 0" by (rule heap_address_nonzero [OF heap tfree])
    have tnew: "t \<notin> set (idle s # xs @ as)" "\<And>q. t \<notin> set (W q)" using used tfree by blast+
    define sp where "sp = a1 + stack - sizeof_task_regs - 12"
    have rs: "a1 + stack - sizeof_task_regs = sp + 12" by (simp add: sp_def)
    define s' where "s' = (link_run pid' t (link_task t (init_task t pid' name' sp (sp + 12)
        (init_stack sp (lock_kernel s2)))))"
    define s'' where "s'' = unlock_kernel (s'\<lparr>mem := init_regs (sp + 12) func (mem s'),
        saved_if := (saved_if s')(t := bit first_flags 9)\<rparr>)"
    have cp: "create_process pid' func name' stack s = Some (Inr (t, s''))"
      unfolding create_process_def Let_def k1 option.case sum.case prod.case k2 rs
      unfolding add_diff_cancel_right' s'_def [symmetric] s''_def [symmetric] ..
    have m'': "mem s'' = stack_mem sp (restore s) func (mem s2)"
      by (simp add: s''_def s'_def link_run_sel link_task_eq init_task_eq init_stack_def stack_mem_def Let_def sel)
    have sel'': "tsk s'' = add_run (idle s) t (add_task (idle s) t (edit t (fresh_task pid' name' sp (sp + 12)) (tsk s)))"
      "current s'' = current s" "idle s'' = idle s" "qfirst s'' = qfirst s" "klock s'' = klock s"
      "ph s'' = ph s2" "bh s'' = bh s2" "saved_if s'' = (saved_if s)(t := False)"
      by (simp_all add: s''_def s'_def link_run_sel link_task_eq init_task_eq init_stack_def Let_def sel r1 r2 lock_simps first_flags_off)
    have "idle s \<noteq> t" using used tfree by auto
    then have idle: "timeslice (tsk s'' (idle s)) = timeslice (tsk s (idle s))" by (simp add: sel''(1) link_frames edit_apply)
    have "ktask.more s2 = ktask.more s" using r2(7) r1(8) by (cases s; cases s1; cases s2) simp
    then have more: "ktask.more s'' = ktask.more s" "kports s'' = kports s" "intr s'' = (klock s = 0)"
      by (simp_all add: s''_def s'_def link_run_more link_run_sel link_task_eq init_task_eq init_stack_def Let_def r1 r2 lock_simps lock_more)
    note lists = new_task_lists [OF ok tk nm tnew t0 sel''(1-4)]
    have sub: "span sp 72 \<subseteq> span (a1 - 4) (unat stack + 4)"
    proof -
      have "(of_nat (unat stack - 68) :: u32) = stack - 68"
        using stack(1) by (simp add: of_nat_diff)
      then have "sp = a1 - 4 + of_nat (unat stack - 68)"
        by (simp add: sp_def sizeof_task_regs_def)
      then show ?thesis using span_shift [of "unat stack - 68" 72 "unat stack + 4" "a1 - 4"] stack(1) by simp
    qed
    have free2: "ext_bytes 4096 ps2 \<union> ext_bytes 1 bs2 \<subseteq> ext_bytes 4096 ps1 \<union> ext_bytes 1 bs1" using r2(2) by blast
    have dis: "span sp 72 \<inter> (ext_bytes 4096 ps2 \<union> ext_bytes 1 bs2) = {}" using sub r1(3) free2 by blast
    have fr: "\<forall>x. x \<notin> heap_bytes ps bs s \<longrightarrow> mem s'' x = mem s x"
    proof (intro allI impI)
      fix x assume x: "x \<notin> heap_bytes ps bs s"
      then have "x \<notin> span sp 72" "x \<notin> heap_bytes ps1 bs1 s1" using sub r1(2,6,7) by (auto simp: heap_bytes_def)
      then show "mem s'' x = mem s x" using r1(4) [OF x] r2(3) by (simp add: m'' stack_mem_other)
    qed
    have "heap_ok lo ps2 bs2 s''"
    proof (rule heap_ok_agree [OF r2(1) sel''(6,7)])
      fix x assume x: "x \<in> heap_bytes ps2 bs2 s2"
      have "x \<notin> span sp 72"
      proof
        assume "x \<in> span sp 72"
        then have "x \<in> ext_bytes 4096 ps \<union> ext_bytes 1 bs" "x \<notin> ext_bytes 4096 ps2 \<union> ext_bytes 1 bs2"
          using sub dis r1(2) by blast+
        moreover from this x have "x \<in> span (ph s) 8 \<union> span (bh s) 8" by (auto simp: heap_bytes_def r1 r2)
        ultimately show False using heads_outside [OF heap] by blast
      qed
      then show "mem s'' x = mem s2 x" by (simp add: m'' stack_mem_other)
    qed
    moreover have "pid (tsk s'' t) = pid'" "tname (tsk s'' t) = name'" "timeslice (tsk s'' t) = 100"
        "esp (tsk s'' t) = sp" "regs (tsk s'' t) = sp + 12"
      by (simp_all add: sel''(1) link_frames edit_apply fresh_task_def)
    moreover have "\<forall>k < 18. load32 (mem s'') (sp + of_nat (4 * k)) = stack_words (restore s) func ! k"
      unfolding m'' using stack_mem_words by blast
    ultimately show ?thesis using cp tfree lists sel''(2,3,5,8) dis idle more fr by blast
  qed
qed

text \<open>
  Property C13.  \<open>create_process\<close> always returns, with the kernel stopped for lack of memory or with a new
  task: its record is memory no task of the system uses, it is appended to the run list and to the task
  list, the invariants of the scheduler and of the heap hold afterwards, and the 72 bytes on top of its
  stack, which no free list shares, hold the frame that makes \<open>switch_to\<close> enter \<open>restore\<close> and start
  \<open>func\<close> with the kernel's segments and all other registers 0.  (The flags word is 18, not the
  interrupt flag its comment names, so the task starts with interrupts off.)
\<close>

theorem create_process_correct:
  assumes ok: "sched_ok xs W s" and tk: "tasks_ok as s" and heap: "heap_ok lo ps bs s"
    and stack: "72 \<le> unat stack" "unat stack + 4 \<le> 65535 * 4096" and lock: "unat (klock s) < 2 ^ 32 - 2"
    and nm: "name_ok name'"
    and used: "\<forall>a \<in> set (idle s # xs @ as) \<union> (\<Union>q. set (W q)). a \<notin> ext_bytes 4096 ps \<union> ext_bytes 1 bs"
  shows "(\<exists>h. create_process pid' func name' stack s = Some (Inl h))
    \<or> (\<exists>t s' sp ps' bs'. create_process pid' func name' stack s = Some (Inr (t, s'))
        \<and> t \<in> ext_bytes 4096 ps \<union> ext_bytes 1 bs
        \<and> sched_ok (xs @ [t]) W s' \<and> tasks_ok (as @ [t]) s' \<and> heap_ok lo ps' bs' s'
        \<and> current s' = current s \<and> klock s' = klock s
        \<and> pid (tsk s' t) = pid' \<and> tname (tsk s' t) = name' \<and> timeslice (tsk s' t) = 100
        \<and> esp (tsk s' t) = sp \<and> regs (tsk s' t) = sp + 12
        \<and> (\<forall>k < 18. load32 (mem s') (sp + of_nat (4 * k)) = stack_words (restore s) func ! k)
        \<and> saved_if s' = (saved_if s)(t := False)
        \<and> span sp 72 \<inter> (ext_bytes 4096 ps' \<union> ext_bytes 1 bs') = {})"
  using create_process_spec [OF assms, of pid' func] by blast

lemma booted_ok: "sched_ok [] (\<lambda>_. []) booted" "tasks_ok [] booted" "heap_ok 256 [(256, 4)] [] booted"
proof -
  show "sched_ok [] (\<lambda>_. []) booted"
    by (simp add: sched_ok_def run_ok_def queue_ok_def idle_task_init_def name_ok_def nul_def)
  show "tasks_ok [] booted" by (simp add: tasks_ok_def idle_task_init_def)
  show "heap_ok 256 [(256, 4)] [] booted" by (rule heap_ok_agree [OF four_pages_heap]) simp_all
qed

lemma booted_create: "\<exists>r. create_process 1 0x1234 ''init'' 4092 booted = Some (Inr r)"
proof -
  have u: "unat (4092 :: u32) + 4 = 4096" "unat sizeof_task + 4 = 68" by (simp_all add: sizeof_task_def)
  have a1: "abs_kalloc 4096 [(256, 4)] [] = Some (1060864, [(256, 2)], [(1056768, 4096)])"
    by (simp add: abs_kalloc_def abs_search.simps pages_for_def ext_insert_def attach_def)
  have a2: "abs_kalloc 68 [(256, 2)] [(1056768, 4096)] = Some (1060796, [(256, 2)], [(1056768, 4028)])"
    by (simp add: abs_kalloc_def abs_search.simps pages_for_def ext_insert_def attach_def)
  obtain t1 s1 where k1: "kalloc 4092 booted = Some (Inr (t1, s1))"
      and s1: "heap_ok 256 [(256, 2)] [(1056768, 4096)] s1" "klock s1 = klock booted"
    using kalloc_spec [OF booted_ok(3), of 4092] by (simp add: u a1) blast
  obtain t2 s2 where "kalloc sizeof_task s1 = Some (Inr (t2, s2))"
    using kalloc_spec [OF s1(1), of sizeof_task] s1(2) by (simp add: u a2) blast
  then show ?thesis by (simp add: create_process_def k1 Let_def)
qed

theorem create_process_correct_witness:
  "\<exists>t s'. create_process 1 0x1234 ''init'' 4092 booted = Some (Inr (t, s'))
    \<and> sched_ok [t] (\<lambda>_. []) s' \<and> tasks_ok [t] s' \<and> pid (tsk s' t) = 1
    \<and> load32 (mem s') (esp (tsk s' t) + of_nat (4 * 13)) = 0x1234"
proof -
  have "unat (4092 :: u32) + 4 \<le> 65535 * 4096" "72 \<le> unat (4092 :: u32)" by simp_all
  moreover have "name_ok ''init''" by (simp add: name_ok_def nul_def)
  moreover have "\<forall>a \<in> set (idle booted # [] @ []) \<union> (\<Union>q. set []). a \<notin> ext_bytes 4096 [(256, 4)] \<union> ext_bytes 1 []"
    by (simp add: ext_bytes_def)
  ultimately show ?thesis
    using create_process_correct [OF booted_ok, of 4092 "''init''" 1 "0x1234"] booted_create
    by (auto simp: stack_words_def dest!: spec [of _ 13])
qed

end
