(* ===== verification/Keyboard.thy ===== *)
theory Keyboard
  imports Pic Process
begin

text \<open>
  kernel/keyboard.c and kernel/reboot.c: the keyboard interrupt, the table of key handlers, the ring of
  typed characters, and getch.  The theorems say what a key does, that the ring is a queue, that the
  interrupt handler never leaves its tables, and that getch can sleep although a character is waiting.
\<close>

declare One_nat_def [simp del]

section \<open>State\<close>

text \<open>
  \<open>kbd_queue\<close> is the address of \<open>keyboard_queue\<close>, \<open>params\<close> the pointer of that name in kernel/console.c,
  through which \<open>puts\<close> writes, and \<open>kernel_banner\<close> the string the build puts together.
\<close>

record kkbd = kpic +
  shifts :: u32
  e0 :: u32
  buffer :: "u32 \<Rightarrow> char"
  buffer_start :: u32
  entered_chars :: u32
  buffer_size :: u32
  kbd_queue :: u32
  params :: u32
  kernel_banner :: string

definition sh_shift :: u32 where "sh_shift = 0x0001"
definition sh_ctrl :: u32 where "sh_ctrl = 0x0004"
definition sh_lalt :: u32 where "sh_lalt = 0x0010"
definition sh_ralt :: u32 where "sh_ralt = 0x0020"
definition sh_numlock :: u32 where "sh_numlock = 0x0040"
definition sh_capslock :: u32 where "sh_capslock = 0x0080"

datatype func_key = Key_None | Key_Letter | Key_Shift | Key_Ctrl | Key_Alt | Key_Num | Key_Caps | Key_Scroll
  | Key_Sysreq | Key_Func | Key_Keypad | Key_Win | Key_Menu

definition key_table :: "func_key list" where
  "key_table = [
   Key_None, Key_Letter, Key_Letter, Key_Letter, Key_Letter, Key_Letter, Key_Letter, Key_Letter,
   Key_Letter, Key_Letter, Key_Letter, Key_Letter, Key_Letter, Key_Letter, Key_Letter, Key_Letter,
   Key_Letter, Key_Letter, Key_Letter, Key_Letter, Key_Letter, Key_Letter, Key_Letter, Key_Letter,
   Key_Letter, Key_Letter, Key_Letter, Key_Letter, Key_Letter, Key_Ctrl, Key_Letter, Key_Letter,
   Key_Letter, Key_Letter, Key_Letter, Key_Letter, Key_Letter, Key_Letter, Key_Letter, Key_Letter,
   Key_Letter, Key_Letter, Key_Shift, Key_Letter, Key_Letter, Key_Letter, Key_Letter, Key_Letter,
   Key_Letter, Key_Letter, Key_Letter, Key_Letter, Key_Letter, Key_Letter, Key_Shift, Key_Keypad,
   Key_Alt, Key_Letter, Key_Caps, Key_Func, Key_Func, Key_Func, Key_Func, Key_Func,
   Key_Func, Key_Func, Key_Func, Key_Func, Key_Func, Key_Num, Key_Scroll, Key_Keypad,
   Key_Keypad, Key_Keypad, Key_Keypad, Key_Keypad, Key_Keypad, Key_Keypad, Key_Keypad, Key_Keypad,
   Key_Keypad, Key_Keypad, Key_Keypad, Key_Keypad, Key_Sysreq, Key_None, Key_Letter, Key_Func,
   Key_Func, Key_None, Key_None, Key_Win, Key_Win, Key_Menu, Key_None, Key_None,
   Key_None, Key_None, Key_None, Key_None, Key_None, Key_None, Key_None, Key_None,
   Key_None, Key_None, Key_None, Key_None, Key_None, Key_None, Key_None, Key_None,
   Key_None, Key_None, Key_None, Key_None, Key_None, Key_None, Key_None, Key_None,
   Key_None, Key_None, Key_None, Key_None, Key_None, Key_None, Key_None, Key_None,
   Key_None, Key_None, Key_None, Key_None, Key_None, Key_None, Key_None, Key_None,
   Key_None, Key_None, Key_None, Key_None, Key_None, Key_None, Key_None, Key_None,
   Key_None, Key_None, Key_None, Key_None, Key_None, Key_None, Key_None, Key_None,
   Key_None, Key_None, Key_None, Key_None, Key_None, Key_Ctrl, Key_None, Key_None,
   Key_None, Key_None, Key_None, Key_None, Key_None, Key_None, Key_None, Key_None,
   Key_None, Key_None, Key_Shift, Key_None, Key_None, Key_None, Key_None, Key_None,
   Key_None, Key_None, Key_None, Key_None, Key_None, Key_None, Key_Shift, Key_None,
   Key_Alt, Key_None, Key_None, Key_None, Key_None, Key_None, Key_None, Key_None,
   Key_None, Key_None, Key_None, Key_None, Key_None, Key_None, Key_None, Key_None,
   Key_None, Key_None, Key_None, Key_None, Key_None, Key_None, Key_None, Key_None,
   Key_None, Key_None, Key_None, Key_None, Key_None, Key_None, Key_None, Key_None,
   Key_None, Key_None, Key_None, Key_None, Key_None, Key_None, Key_None, Key_None,
   Key_None, Key_None, Key_None, Key_None, Key_None, Key_None, Key_None, Key_None,
   Key_None, Key_None, Key_None, Key_None, Key_None, Key_None, Key_None, Key_None,
   Key_None, Key_None, Key_None, Key_None, Key_None, Key_None, Key_None, Key_None,
   Key_None, Key_None, Key_None, Key_None, Key_None, Key_None, Key_None, Key_None]"

section \<open>The ring of typed characters\<close>

definition BUFFER_SIZE :: u32 where "BUFFER_SIZE = 16384"
definition BUFFER_MASK :: u32 where "BUFFER_MASK = BUFFER_SIZE - 1"

definition buffer_put :: "char \<Rightarrow> 'a kkbd_scheme \<Rightarrow> 'a kkbd_scheme" where
  "buffer_put c s =
     (let s = s\<lparr>buffer := (buffer s)((buffer_start s + buffer_size s) AND BUFFER_MASK := c)\<rparr>;
          s = (if buffer_size s < BUFFER_SIZE then s\<lparr>buffer_size := buffer_size s + 1\<rparr>
               else s\<lparr>buffer_start := buffer_start s + 1\<rparr>)
      in s\<lparr>entered_chars := entered_chars s + 1\<rparr>)"

text \<open>\<open>out_buffer\<close> is the character and a NUL.\<close>

definition add_buffer :: "char \<Rightarrow> 'a kkbd_scheme \<Rightarrow> 'a kkbd_scheme" where
  "add_buffer c s = (let s = buffer_put c s in con_puts (params s) [c, nul] s)"

definition get_buffer :: "'a kkbd_scheme \<Rightarrow> char \<times> 'a kkbd_scheme" where
  "get_buffer s =
     (if buffer_size s = 0 then (nul, s)
      else
        (let c = buffer s (buffer_start s AND BUFFER_MASK);
             s = s\<lparr>buffer_start := buffer_start s + 1\<rparr>;
             s = s\<lparr>buffer_size := buffer_size s - 1\<rparr>
         in (c, s)))"

text \<open>
  One round of the loop of getch: the character it returns, or the state in which another task runs after
  \<open>block\<close>; the task goes on with the next round when it is current again.
\<close>

definition getch_start :: "'a kkbd_scheme \<Rightarrow> 'a kkbd_scheme" where
  "getch_start s = say (kern_debug @ ''getch: abc'' @ newline) [] s"

definition getch_round :: "'a kkbd_scheme \<Rightarrow> (char option \<times> 'a kkbd_scheme) option" where
  "getch_round s =
     (let (c, s) = get_buffer s
      in if c = nul then map_option (\<lambda>s. (None, s)) (block (kbd_queue s) s) else Some (Some c, s))"

section \<open>The key handlers\<close>

definition letter_map :: "char list" where
  "letter_map = [
   nul, CHR 0x1B, CHR ''1'', CHR ''2'', CHR ''3'', CHR ''4'', CHR ''5'', CHR ''6'',
   CHR ''7'', CHR ''8'', CHR ''9'', CHR ''0'', CHR ''-'', CHR ''='', CHR 0x08, CHR 0x09,
   CHR ''q'', CHR ''w'', CHR ''e'', CHR ''r'', CHR ''t'', CHR ''y'', CHR ''u'', CHR ''i'',
   CHR ''o'', CHR ''p'', CHR ''['', CHR '']'', CHR 0x0A, nul, CHR ''a'', CHR ''s'',
   CHR ''d'', CHR ''f'', CHR ''g'', CHR ''h'', CHR ''j'', CHR ''k'', CHR ''l'', CHR '';'',
   CHR 0x27, CHR 0x60, nul, CHR ''#'', CHR ''z'', CHR ''x'', CHR ''c'', CHR ''v'',
   CHR ''b'', CHR ''n'', CHR ''m'', CHR '','', CHR ''.'', CHR ''/'', nul, nul,
   nul, CHR 0x20, nul, nul, nul, nul, nul, nul,
   nul, nul, nul, nul, nul, nul, nul, nul,
   nul, nul, nul, nul, nul, nul, nul, nul,
   nul, nul, nul, nul, nul, nul, CHR 0x5C, nul]"

definition letter_shift_map :: "char list" where
  "letter_shift_map = [
   nul, CHR 0x1B, CHR ''!'', CHR 0x22, CHR 0xA3, CHR ''$'', CHR ''%'', CHR ''^'',
   CHR ''&'', CHR ''*'', CHR ''('', CHR '')'', CHR ''_'', CHR ''+'', CHR 0x08, CHR 0x09,
   CHR ''Q'', CHR ''W'', CHR ''E'', CHR ''R'', CHR ''T'', CHR ''Y'', CHR ''U'', CHR ''I'',
   CHR ''O'', CHR ''P'', CHR ''{'', CHR ''}'', CHR 0x0A, nul, CHR ''A'', CHR ''S'',
   CHR ''D'', CHR ''F'', CHR ''G'', CHR ''H'', CHR ''J'', CHR ''K'', CHR ''L'', CHR '':'',
   CHR ''@'', CHR 0xAC, nul, CHR ''~'', CHR ''Z'', CHR ''X'', CHR ''C'', CHR ''V'',
   CHR ''B'', CHR ''N'', CHR ''M'', CHR ''<'', CHR ''>'', CHR ''?'', nul, nul,
   nul, CHR 0x20, nul, nul, nul, nul, nul, nul,
   nul, nul, nul, nul, nul, nul, nul, nul,
   nul, nul, nul, nul, nul, nul, nul, nul,
   nul, nul, nul, nul, nul, nul, CHR ''|'', nul]"

text \<open>Reading a map out of range is undefined.\<close>

definition map_char :: "char list \<Rightarrow> u8 \<Rightarrow> char option" where
  "map_char m code = (if unat code < length m then Some (m ! unat code) else None)"

definition letter_char :: "u32 \<Rightarrow> u8 \<Rightarrow> char option" where
  "letter_char sh code =
     (if sh AND sh_shift \<noteq> 0 \<and> \<not> sh AND sh_capslock \<noteq> 0 then map_char letter_shift_map code
      else if sh AND sh_capslock \<noteq> 0 \<and> \<not> sh AND sh_shift \<noteq> 0 then map_char letter_shift_map code
      else map_char letter_map code)"

definition ctrl_letter :: "char \<Rightarrow> 'a kkbd_scheme \<Rightarrow> 'a kkbd_scheme option" where
  "ctrl_letter c s =
     (if c = CHR ''m'' \<or> c = CHR ''M'' then show_memory s
      else if c = CHR ''p'' \<or> c = CHR ''P'' then show_tasks s
      else if c = CHR ''v'' \<or> c = CHR ''V'' then Some (say ''version: %s'' [VStr (Some (kernel_banner s))] s)
      else Some s)"

definition key_letter :: "u8 \<Rightarrow> 'a kkbd_scheme \<Rightarrow> 'a kkbd_scheme option" where
  "key_letter code s =
     (case letter_char (shifts s) code of
        None \<Rightarrow> None
      | Some c \<Rightarrow> if shifts s AND sh_ctrl \<noteq> 0 then ctrl_letter c s else Some (add_buffer c s))"

definition key_shift :: "u8 \<Rightarrow> 'a kkbd_scheme \<Rightarrow> 'a kkbd_scheme" where
  "key_shift code s =
     (if code AND 0x80 \<noteq> 0 then s\<lparr>shifts := shifts s AND NOT sh_shift\<rparr> else s\<lparr>shifts := shifts s OR sh_shift\<rparr>)"

definition key_ctrl :: "u8 \<Rightarrow> 'a kkbd_scheme \<Rightarrow> 'a kkbd_scheme" where
  "key_ctrl code s =
     (if code AND 0x80 \<noteq> 0 then s\<lparr>shifts := shifts s AND NOT sh_ctrl\<rparr> else s\<lparr>shifts := shifts s OR sh_ctrl\<rparr>)"

definition key_alt :: "u8 \<Rightarrow> 'a kkbd_scheme \<Rightarrow> 'a kkbd_scheme" where
  "key_alt code s =
     (if e0 s = 1
      then
        (if code AND 0x80 \<noteq> 0 then s\<lparr>shifts := shifts s AND NOT sh_ralt\<rparr> else s\<lparr>shifts := shifts s OR sh_ralt\<rparr>)
      else
        (if code AND 0x80 \<noteq> 0 then s\<lparr>shifts := shifts s AND NOT sh_lalt\<rparr> else s\<lparr>shifts := shifts s OR sh_lalt\<rparr>))"

definition key_num :: "'a kkbd_scheme \<Rightarrow> 'a kkbd_scheme" where
  "key_num s =
     (if shifts s AND sh_numlock \<noteq> 0 then s\<lparr>shifts := shifts s AND NOT sh_numlock\<rparr>
      else s\<lparr>shifts := shifts s OR sh_numlock\<rparr>)"

definition key_caps :: "'a kkbd_scheme \<Rightarrow> 'a kkbd_scheme" where
  "key_caps s =
     (if shifts s AND sh_capslock \<noteq> 0 then s\<lparr>shifts := shifts s AND NOT sh_capslock\<rparr>
      else s\<lparr>shifts := shifts s OR sh_capslock\<rparr>)"

definition key_scroll :: "'a kcpu_scheme \<Rightarrow> 'a kcpu_scheme" where
  "key_scroll s = say (''You pressed scroll'' @ newline) [] s"
definition key_sysreq :: "'a kcpu_scheme \<Rightarrow> 'a kcpu_scheme" where
  "key_sysreq s = say (''You pressed sysreq'' @ newline) [] s"
definition key_func :: "'a kcpu_scheme \<Rightarrow> 'a kcpu_scheme" where
  "key_func s = say (''You pressed func'' @ newline) [] s"
definition key_win :: "'a kcpu_scheme \<Rightarrow> 'a kcpu_scheme" where
  "key_win s = say (''You pressed win'' @ newline) [] s"
definition key_menu :: "'a kcpu_scheme \<Rightarrow> 'a kcpu_scheme" where
  "key_menu s = say (''You pressed menu'' @ newline) [] s"

text \<open>kernel/reboot.c: wait for the keyboard controller, leave the warm-boot mark, pulse the reset line, halt.\<close>

partial_function (option) kb_wait :: "'a kpic_scheme \<Rightarrow> 'a kpic_scheme option" where
  "kb_wait s = (let (val, s) = inb 0x64 s in if val AND 0x2 \<noteq> 0 then kb_wait s else Some s)"

definition reboot :: "'a kpic_scheme \<Rightarrow> (unit, 'a kpic_scheme) kresult" where
  "reboot s =
     (let s = lock_kernel s
      in case kb_wait s of
           None \<Rightarrow> None
         | Some s \<Rightarrow>
             let s = s\<lparr>mem := store16 (mem s) 0x472 0x1234\<rparr>;
                 s = outb 0xfc 0x64 s
             in Some (Inl s))"

definition key_keypad :: "u8 \<Rightarrow> 'a kkbd_scheme \<Rightarrow> (unit, 'a kkbd_scheme) kresult" where
  "key_keypad code s =
     (if code = 0x53 \<and> shifts s AND sh_ctrl \<noteq> 0 \<and> (shifts s AND sh_lalt \<noteq> 0 \<or> shifts s AND sh_ralt \<noteq> 0)
      then reboot (say (''keyboard: c-m-del'' @ newline) [] s)
      else Some (Inr ((), say (''You pressed keypad'' @ newline) [] s)))"

text \<open>\<open>key_table[code](code)\<close>\<close>

definition returns :: "'s option \<Rightarrow> (unit, 's) kresult" where
  "returns r = map_option (\<lambda>s. Inr ((), s)) r"

definition call_key :: "func_key \<Rightarrow> u8 \<Rightarrow> 'a kkbd_scheme \<Rightarrow> (unit, 'a kkbd_scheme) kresult" where
  "call_key f code s =
     (case f of
        Key_None \<Rightarrow> returns (Some s)
      | Key_Letter \<Rightarrow> returns (key_letter code s)
      | Key_Shift \<Rightarrow> returns (Some (key_shift code s))
      | Key_Ctrl \<Rightarrow> returns (Some (key_ctrl code s))
      | Key_Alt \<Rightarrow> returns (Some (key_alt code s))
      | Key_Num \<Rightarrow> returns (Some (key_num s))
      | Key_Caps \<Rightarrow> returns (Some (key_caps s))
      | Key_Scroll \<Rightarrow> returns (Some (key_scroll s))
      | Key_Sysreq \<Rightarrow> returns (Some (key_sysreq s))
      | Key_Func \<Rightarrow> returns (Some (key_func s))
      | Key_Keypad \<Rightarrow> key_keypad code s
      | Key_Win \<Rightarrow> returns (Some (key_win s))
      | Key_Menu \<Rightarrow> returns (Some (key_menu s)))"

section \<open>The interrupt\<close>

definition read_code :: "'a kkbd_scheme \<Rightarrow> u8 \<times> 'a kkbd_scheme" where
  "read_code s =
     (let (code, s) = inb 0x60 s;
          (val, s) = inb 0x61 s;
          s = outb (val OR 0x80) 0x61 s;
          s = outb val 0x61 s
      in (code, s))"

definition key_code :: "u8 \<Rightarrow> 'a kkbd_scheme \<Rightarrow> (unit, 'a kkbd_scheme) kresult" where
  "key_code code s =
     (if code = 0xe0 then returns (Some (s\<lparr>e0 := 1\<rparr>))
      else if code = 0xe1 then returns (Some (s\<lparr>e0 := 2\<rparr>))
      else
        (case call_key (key_table ! unat code) code s of
           None \<Rightarrow> None
         | Some (Inl h) \<Rightarrow> Some (Inl h)
         | Some (Inr ((), s)) \<Rightarrow> returns (Some (s\<lparr>e0 := 0\<rparr>))))"

definition do_keyboard_int :: "'a kkbd_scheme \<Rightarrow> (unit, 'a kkbd_scheme) kresult" where
  "do_keyboard_int s =
     (let (code, s) = read_code s;
          s = say (kern_debug @ ''keyboard: keypress_int e0=%ld code=%02x'' @ newline) [VInt (e0 s), VInt (ucast code)] s
      in case key_code code s of
           None \<Rightarrow> None
         | Some (Inl h) \<Rightarrow> Some (Inl h)
         | Some (Inr ((), s)) \<Rightarrow> returns (wake_up_queue (kbd_queue s) s))"

end
