(* ===== verification/Typing.thy ===== *)
theory Typing
  imports Keyboard
begin

text \<open>
  What the keyboard does: the report of show_memory, the ring as a queue, the effect of a key press, and that
  the interrupt handler always returns.  Theory Race has the race between getch and the interrupt.
\<close>

declare One_nat_def [simp del]

section \<open>The memory report\<close>

lemma free_pages_loop_seg:
  assumes "ext_ok 1 lo 65536 es" "0 < lo" "seg pg_size 4096 m a es 0"
  shows "free_pages_loop m a n = Some (n + of_nat (4096 * sum_list (map snd es)))"
  using assms
proof (induction es arbitrary: a n lo)
  case Nil
  then show ?case by (simp add: free_pages_loop.simps)
next
  case (Cons e es)
  have e: "0 < fst e" "fst e < 65536" "snd e < 65536" "a = node 4096 (fst e)" "pg_size m a = snd e"
    and tl: "ext_ok 1 (fst e + snd e + 1) 65536 es" "seg pg_size 4096 m (nxt m a) es 0"
    using Cons.prems by auto
  have "a \<noteq> 0" using e node_nonzero by simp
  moreover have "(ucast (load16 m a) :: u32) = of_nat (snd e)" using e by (simp add: load16_pg ucast_of_nat_page)
  ultimately have "free_pages_loop m a n = free_pages_loop m (nxt m a) (n + of_nat (snd e) * 4096)"
    by (subst free_pages_loop.simps) simp
  also have "\<dots> = Some (n + of_nat (snd e) * 4096 + of_nat (4096 * sum_list (map snd es)))"
    by (rule Cons.IH [OF tl(1) _ tl(2)]) simp
  finally show ?case by (simp add: algebra_simps)
qed

lemma free_blocks_loop_seg:
  assumes "ext_ok 8 lo (2 ^ 28) es" "0 < lo" "seg bl_size 1 m a es 0"
  shows "free_blocks_loop m a n = Some (n + of_nat (sum_list (map snd es)))"
  using assms
proof (induction es arbitrary: a n lo)
  case Nil
  then show ?case by (simp add: free_blocks_loop.simps)
next
  case (Cons e es)
  have e: "0 < fst e" "fst e \<le> 2 ^ 28" "a = node 1 (fst e)" "bl_size m a = snd e"
    and tl: "ext_ok 8 (fst e + snd e + 1) (2 ^ 28) es" "seg bl_size 1 m (nxt m a) es 0"
    using Cons.prems by auto
  have "a \<noteq> 0" using e node1_nonzero by simp
  moreover have "load32 m a = of_nat (snd e)" using e(4) by (simp add: bl_size_def flip: e(4))
  ultimately have "free_blocks_loop m a n = free_blocks_loop m (nxt m a) (n + of_nat (snd e))"
    by (subst free_blocks_loop.simps) simp
  also have "\<dots> = Some (n + of_nat (snd e) + of_nat (sum_list (map snd es)))"
    by (rule Cons.IH [OF tl(1) _ tl(2)]) simp
  finally show ?case by (simp add: algebra_simps)
qed

text \<open>The bytes the two free lists hold.\<close>

definition free_bytes :: "ext list \<Rightarrow> ext list \<Rightarrow> nat" where
  "free_bytes ps bs = 4096 * sum_list (map snd ps) + sum_list (map snd bs)"

lemma show_memory_eq:
  assumes "heap_ok lo ps bs s" and "ph s \<noteq> 0" "bh s \<noteq> 0"
  shows "show_memory s = Some (say (''Free Memory: %ldk/%ldk'' @ newline)
    [VInt (of_nat (free_bytes ps bs) div 1024), VInt (word_of_int (sint (npages s * 4096) sdiv 1024))] s)"
proof -
  note p = pages_okD [OF heap_okD(1) [OF assms(1)]]
  have b: "load32 (mem s) (bh s) = 0" "ext_ok 8 (4096 * lo) (2 ^ 28) bs"
    "seg bl_size 1 (mem s) (nxt (mem s) (bh s)) bs 0"
    using heap_okD(2) [OF assms(1)] by (simp_all add: blocks_ok_def)
  have "free_pages_loop (mem s) (ph s) 0 = Some (of_nat (4096 * sum_list (map snd ps)))"
    using free_pages_loop_seg [OF p(4,1,5), of 0] assms(2) p(3) by (subst free_pages_loop.simps) simp
  moreover have "free_blocks_loop (mem s) (bh s) n = Some (n + of_nat (sum_list (map snd bs)))" for n
    using free_blocks_loop_seg [OF b(2) _ b(3), of n] assms(3) b(1) p(1) by (subst free_blocks_loop.simps) simp
  ultimately show ?thesis by (simp add: show_memory_def free_bytes_def)
qed

lemma ext_ok_total: "ext_ok k lo hi es \<Longrightarrow> lo \<le> hi \<Longrightarrow> sum_list (map snd es) \<le> hi - lo"
proof (induction es arbitrary: lo)
  case (Cons e es)
  then have "lo \<le> fst e" "fst e + snd e \<le> hi" "ext_ok k (fst e + snd e + 1) hi es" by auto
  then show ?case using Cons.IH [of "fst e + snd e + 1"] by (cases es) auto
qed simp

text \<open>
  show_memory always returns on a well-formed heap; it prints, in kilobytes and without
  overflow, the number of bytes the page list and the block list hold together, and changes nothing.
\<close>

theorem show_memory_reports:
  assumes "heap_ok lo ps bs s" and "ph s \<noteq> 0" "bh s \<noteq> 0"
  shows "show_memory s = Some (s\<lparr>ktrace := ktrace s @ [(''Free Memory: %ldk/%ldk'' @ newline,
      [VInt (of_nat (free_bytes ps bs div 1024)), VInt (word_of_int (sint (npages s * 4096) sdiv 1024))])]\<rparr>)
    \<and> free_bytes ps bs < 2 ^ 30"
proof -
  have b: "0 < lo" "ext_ok 1 lo 65536 ps" "ext_ok 8 (4096 * lo) (2 ^ 28) bs"
    using heap_okD(1,2) [OF assms(1)] by (simp_all add: blocks_ok_def pages_ok_def)
  have "sum_list (map snd ps) \<le> 65536"
    using ext_ok_total [OF b(2)] b(2) by (cases ps; cases "lo \<le> 65536") auto
  moreover have "sum_list (map snd bs) \<le> 2 ^ 28"
    using ext_ok_total [OF b(3)] b(3) by (cases bs; cases "4096 * lo \<le> 2 ^ 28") auto
  ultimately have l: "free_bytes ps bs < 2 ^ 30" by (simp add: free_bytes_def)
  then have "unat ((of_nat (free_bytes ps bs) :: u32) div 1024) = unat (of_nat (free_bytes ps bs div 1024) :: u32)"
    by (simp add: unat_div unat_of_nat_small)
  then have "(of_nat (free_bytes ps bs) :: u32) div 1024 = of_nat (free_bytes ps bs div 1024)"
    by (rule unsigned_word_eqI)
  then show ?thesis using show_memory_eq [OF assms] l by (simp add: say_def)
qed

theorem show_memory_reports_witness:
  "show_memory four_pages = Some (four_pages\<lparr>ktrace := ktrace four_pages @ [(''Free Memory: %ldk/%ldk'' @ newline,
     [VInt 16, VInt (word_of_int (sint (npages four_pages * 4096) sdiv 1024))])]\<rparr>)"
  using show_memory_reports [OF four_pages_heap] by (simp add: four_pages_sel free_bytes_def)

section \<open>Frames\<close>

text \<open>What waking tasks and reporting them leaves alone: everything above the scheduler, and memory.\<close>

definition same_rest :: "'a ktask_scheme \<Rightarrow> 'a ktask_scheme \<Rightarrow> bool" where
  "same_rest s s' \<longleftrightarrow> mem s' = mem s \<and> ph s' = ph s \<and> bh s' = bh s \<and> npages s' = npages s
     \<and> kports s' = kports s \<and> ktask.more s' = ktask.more s \<and> saved_if s' = saved_if s"

named_theorems rest_simps

lemma same_rest_refl [simp, rest_simps]: "same_rest s s"
  by (simp add: same_rest_def)

lemma same_rest_trans: "same_rest s t \<Longrightarrow> same_rest t u \<Longrightarrow> same_rest s u"
  by (simp add: same_rest_def)

lemma same_rest_ops [rest_simps]:
  "same_rest s (lock_kernel s)" "same_rest s (unlock_kernel s)" "same_rest s (say f a s)"
  "same_rest s (at_task t g s)" "same_rest s (set_first q t s)" "same_rest s (wake_up t s)"
  by (simp_all add: same_rest_def lock_kernel_def unlock_kernel_def say_def at_task_def set_first_def wake_up_def Let_def)

lemma same_rest_wake_one: "same_rest s (wake_one q t s)"
  unfolding wake_one_def by (meson same_rest_ops same_rest_trans)

lemma same_rest_wake_step:
  "same_rest s (wake_up t (at_task t f (at_task t g (say a b s))))"
  by (meson same_rest_ops same_rest_trans)

lemma same_rest_wake_loop:
  assumes "wake_loop q t s = Some s'"
  shows "same_rest s s'"
proof (rule wake_loop.raw_induct [OF _ assms])
  fix wl q t and s s' :: "'a ktask_scheme"
  let ?s = "wake_up t (at_task t (put_queue_next 0) (at_task t (put_queue_prev 0)
    (say (kern_debug @ ''Waking %ld on queue %x'' @ newline) [VInt (pid (tsk s t)), VInt q] s)))"
  assume ih: "\<And>q t s s'. wl q t s = Some s' \<Longrightarrow> same_rest s s'"
    and b: "(if t = 0 then Some s
      else let s = say (kern_debug @ ''Waking %ld on queue %x'' @ newline) [VInt (pid (tsk s t)), VInt q] s;
               next' = queue_next (tsk s t); s = at_task t (put_queue_prev 0) s;
               s = at_task t (put_queue_next 0) s; s = wake_up t s
           in if next' = qfirst s q then Some s else wl q next' s) = Some s'"
  have "same_rest ?s u \<Longrightarrow> same_rest s u" for u by (rule same_rest_trans [OF same_rest_wake_step])
  then show "same_rest s s'"
    using b ih same_rest_wake_step by (auto simp: Let_def split: if_splits)
qed

lemma same_rest_wake_up_queue:
  assumes "wake_up_queue q s = Some s'"
  shows "same_rest s s'"
proof -
  let ?s = "say (kern_debug @ ''Waking all on queue %x'' @ newline) [VInt q] (lock_kernel s)"
  have 0: "same_rest s ?s" by (rule same_rest_trans [OF same_rest_ops(1) same_rest_ops(3)])
  have 1: "same_rest t (unlock_kernel (set_first q 0 t))" for t :: "'a ktask_scheme"
    by (rule same_rest_trans [OF same_rest_ops(5) same_rest_ops(2)])
  obtain t where "wake_loop q (qfirst ?s q) ?s = Some t" "s' = unlock_kernel (set_first q 0 t)"
    using assms by (auto simp: wake_up_queue_def Let_def split: option.splits)
  then show ?thesis using same_rest_trans [OF same_rest_trans [OF 0 same_rest_wake_loop] 1] by blast
qed

lemma same_rest_show_loop:
  assumes "show_loop c s = Some s'"
  shows "same_rest s s'"
proof (rule show_loop.raw_induct [OF _ assms])
  fix sl c and s s' :: "'a ktask_scheme"
  let ?s = "say (''  Task %ld (%08lx): \"%s\" %s next=%08lx'' @ newline)
    [VInt (pid (tsk s c)), VInt c, VStr (Some (tname (tsk s c))),
     VStr (Some (state_name (state (tsk s c)))), VInt (task_next (tsk s c))] s"
  assume ih: "\<And>c s s'. sl c s = Some s' \<Longrightarrow> same_rest s s'"
    and b: "(let s = say (''  Task %ld (%08lx): \"%s\" %s next=%08lx'' @ newline)
        [VInt (pid (tsk s c)), VInt c, VStr (Some (tname (tsk s c))),
         VStr (Some (state_name (state (tsk s c)))), VInt (task_next (tsk s c))] s;
        c = task_next (tsk s c)
      in if c \<noteq> idle s then sl c s else Some s) = Some s'"
  have "same_rest ?s u \<Longrightarrow> same_rest s u" for u by (rule same_rest_trans [OF same_rest_ops(3)])
  then show "same_rest s s'"
    using b ih same_rest_ops(3) by (auto simp: Let_def split: if_splits)
qed

lemma same_rest_show_tasks: "show_tasks s = Some s' \<Longrightarrow> same_rest s s'"
  unfolding show_tasks_def by (rule same_rest_trans [OF same_rest_ops(3) same_rest_show_loop])

section \<open>The ring of typed characters\<close>

interpretation typed: byte_queue buffer buffer_start buffer_size buffer_put get_buffer
  by unfold_locales
    (simp_all add: buffer_put_def get_buffer_def Let_def ring_mask_def BUFFER_MASK_def BUFFER_SIZE_def)

text \<open>The fields of the keyboard and of the port reads survive what only changes the layers below.\<close>

lemma kkbd_more_sel:
  fixes s s' :: "'a kkbd_scheme"
  assumes "ktask.more s' = ktask.more s"
  shows "shifts s' = shifts s" "e0 s' = e0 s" "buffer s' = buffer s" "buffer_start s' = buffer_start s"
    "buffer_size s' = buffer_size s" "kbd_queue s' = kbd_queue s" "params s' = params s"
    "port_in s' = port_in s" "port_reads s' = port_reads s"
  using assms by (cases s; cases s'; simp)+

lemma typed_cong:
  assumes "buffer s' = buffer s" "buffer_start s' = buffer_start s" "buffer_size s' = buffer_size s"
  shows "typed.contents s' = typed.contents s" "typed.bounded s' = typed.bounded s"
  using assms by (simp_all add: typed.contents_def typed.bounded_def)

lemma ktask_more_kmem:
  fixes s s' :: "'a ktask_scheme"
  shows "kmem.more s' = kmem.more s \<Longrightarrow> ktask.more s' = ktask.more s"
  by (cases s; cases s'; simp)

lemma con_puts_sel:
  "kmem.more (con_puts p c s) = kmem.more s" "klock (con_puts p c s) = klock s"
  by (simp only: con_puts_def kmem_view_write)
    (simp add: con_puts_def con_write_def Let_def case_prod_beta lock_simps)

lemma add_buffer_sel:
  fixes s :: "'a kkbd_scheme"
  shows "typed.contents (add_buffer c s) = typed.contents (buffer_put c s)"
    and "typed.bounded (add_buffer c s) = typed.bounded (buffer_put c s)"
    and "shifts (add_buffer c s) = shifts s" "e0 (add_buffer c s) = e0 s" "kbd_queue (add_buffer c s) = kbd_queue s"
    and "tsk (add_buffer c s) = tsk s" "current (add_buffer c s) = current s" "idle (add_buffer c s) = idle s"
    and "qfirst (add_buffer c s) = qfirst s" "klock (add_buffer c s) = klock s"
    and "mem (add_buffer c s) = mem (con_puts (params s) [c, nul] s)"
    and "saved_if (add_buffer c s) = saved_if s"
proof -
  let ?t = "buffer_put c s"
  have t: "shifts ?t = shifts s" "e0 ?t = e0 s" "kbd_queue ?t = kbd_queue s" "params ?t = params s"
    "tsk ?t = tsk s" "current ?t = current s" "idle ?t = idle s" "qfirst ?t = qfirst s" "klock ?t = klock s" "saved_if ?t = saved_if s"
    "kmem.truncate ?t = kmem.truncate s"
    by (simp_all add: buffer_put_def Let_def kmem.defs)
  have a: "add_buffer c s = con_puts (params s) [c, nul] ?t" by (simp add: add_buffer_def t)
  note m = con_puts_sel(1) [of "params s" "[c, nul]" ?t, folded a]
  note k = kkbd_more_sel [OF ktask_more_kmem [OF m]]
  show "typed.contents (add_buffer c s) = typed.contents ?t" "typed.bounded (add_buffer c s) = typed.bounded ?t"
    by (rule typed_cong; simp add: k)+
  show "shifts (add_buffer c s) = shifts s" "e0 (add_buffer c s) = e0 s" "kbd_queue (add_buffer c s) = kbd_queue s"
    by (simp_all add: k t)
  show "tsk (add_buffer c s) = tsk s" "current (add_buffer c s) = current s" "idle (add_buffer c s) = idle s"
    "qfirst (add_buffer c s) = qfirst s" "saved_if (add_buffer c s) = saved_if s" by (simp_all add: kmem_more_sel [OF m] t)
  show "klock (add_buffer c s) = klock s" by (simp add: a con_puts_sel t)
  have v: "mem u = mem (kmem.truncate u)" for u :: "'a kkbd_scheme" by (simp add: kmem.defs)
  show "mem (add_buffer c s) = mem (con_puts (params s) [c, nul] s)"
    by (subst (1 2) v) (simp add: a con_puts_def con_write_view t)
qed

section \<open>The tables\<close>

text \<open>Every key with the handler key_letter has a character in both maps, and its index is in range.\<close>

definition letter_entry :: "nat \<Rightarrow> bool" where
  "letter_entry n \<longleftrightarrow> (if key_table ! n = Key_Letter
     then n < length letter_map \<and> letter_map ! n \<noteq> nul \<and> n < length letter_shift_map \<and> letter_shift_map ! n \<noteq> nul
     else True)"

lemma letter_entries: "list_all letter_entry [0..<256]"
  by code_simp

lemma letter_entry: "n < 256 \<Longrightarrow> letter_entry n"
  using letter_entries by (simp add: list_all_iff)

lemma letter_char_some:
  assumes "key_table ! unat code = Key_Letter"
  obtains c where "letter_char sh code = Some c" "c \<noteq> nul"
    "c = (if (sh AND sh_shift \<noteq> 0) \<noteq> (sh AND sh_capslock \<noteq> 0) then letter_shift_map else letter_map) ! unat code"
proof -
  have "unat code < 256" by simp
  from letter_entry [OF this] assms
  have e: "unat code < length letter_map \<and> letter_map ! unat code \<noteq> nul
    \<and> unat code < length letter_shift_map \<and> letter_shift_map ! unat code \<noteq> nul"
    by (simp only: letter_entry_def if_True simp_thms)
  let ?m = "if (sh AND sh_shift \<noteq> 0) \<noteq> (sh AND sh_capslock \<noteq> 0) then letter_shift_map else letter_map"
  have "letter_char sh code = Some (?m ! unat code)"
    using e by (auto simp: letter_char_def map_char_def)
  moreover have "?m ! unat code \<noteq> nul" using e by auto
  ultimately show ?thesis by (rule that) simp
qed

section \<open>Reboot\<close>

text \<open>The \<open>n\<close>-th read of a port would find the keyboard controller ready.\<close>

definition ready_at :: "'a kpic_scheme \<Rightarrow> nat \<Rightarrow> bool" where
  "ready_at s n \<longleftrightarrow> port_in s n 0x64 AND 0x2 = 0"

lemma kb_wait_step: "kb_wait s = (if ready_at s (port_reads s) then Some (s\<lparr>port_reads := port_reads s + 1\<rparr>)
    else kb_wait (s\<lparr>port_reads := port_reads s + 1\<rparr>))"
  by (subst kb_wait.simps) (simp add: inb_def ready_at_def)

lemma kb_wait_reads:
  assumes "ready_at s (port_reads s + n)" "\<forall>k < n. \<not> ready_at s (port_reads s + k)"
  shows "kb_wait s = Some (s\<lparr>port_reads := port_reads s + n + 1\<rparr>)"
  using assms
proof (induction n arbitrary: s)
  case 0
  then show ?case by (subst kb_wait_step) simp
next
  case (Suc n)
  let ?s = "s\<lparr>port_reads := port_reads s + 1\<rparr>"
  have r: "ready_at (s\<lparr>port_reads := x\<rparr>) = ready_at s" for x by (simp add: ready_at_def fun_eq_iff)
  have "kb_wait ?s = Some (?s\<lparr>port_reads := port_reads ?s + n + 1\<rparr>)"
    by (rule Suc.IH) (use Suc.prems in \<open>auto simp: r One_nat_def\<close>)
  moreover have "kb_wait s = kb_wait ?s"
    using Suc.prems(2) by (subst kb_wait_step) auto
  ultimately show ?case by (simp add: One_nat_def)
qed

lemma kb_wait_some:
  assumes "kb_wait s = Some s'"
  shows "\<exists>n. ready_at s (port_reads s + n)"
proof (rule kb_wait.raw_induct [OF _ assms])
  fix kw and s s' :: "'a kpic_scheme"
  assume ih: "\<And>s s'. kw s = Some s' \<Longrightarrow> \<exists>n. ready_at s (port_reads s + n)"
    and b: "(let (val, s) = inb 0x64 s in if val AND 0x2 \<noteq> 0 then kw s else Some s) = Some s'"
  let ?s = "s\<lparr>port_reads := port_reads s + 1\<rparr>"
  show "\<exists>n. ready_at s (port_reads s + n)"
  proof (cases "ready_at s (port_reads s)")
    case True
    then show ?thesis by (intro exI [of _ 0]) simp
  next
    case False
    then have "kw ?s = Some s'" using b by (auto simp: inb_def ready_at_def split: if_splits)
    then obtain n where "ready_at ?s (port_reads ?s + n)" using ih by blast
    then show ?thesis by (intro exI [of _ "n + 1"]) (simp add: ready_at_def ac_simps)
  qed
qed

lemma kb_wait_iff: "kb_wait s = None \<longleftrightarrow> (\<forall>n. \<not> ready_at s (port_reads s + n))"
proof
  assume a: "kb_wait s = None"
  show "\<forall>n. \<not> ready_at s (port_reads s + n)"
  proof (rule ccontr)
    assume "\<not> (\<forall>n. \<not> ready_at s (port_reads s + n))"
    then obtain n where "ready_at s (port_reads s + n)" "\<forall>k < n. \<not> ready_at s (port_reads s + k)"
      using exists_least_iff [of "\<lambda>n. ready_at s (port_reads s + n)"] by auto
    from kb_wait_reads [OF this] a show False by simp
  qed
next
  assume "\<forall>n. \<not> ready_at s (port_reads s + n)"
  then show "kb_wait s = None" using kb_wait_some [of s] by (cases "kb_wait s") auto
qed

lemma kb_wait_same:
  assumes "kb_wait s = Some s'"
  shows "\<exists>n. s' = s\<lparr>port_reads := n\<rparr>"
proof -
  have "\<not> (\<forall>n. \<not> ready_at s (port_reads s + n))" using assms kb_wait_iff [of s] by auto
  then obtain n where "ready_at s (port_reads s + n)" "\<forall>k < n. \<not> ready_at s (port_reads s + k)"
    using exists_least_iff [of "\<lambda>n. ready_at s (port_reads s + n)"] by auto
  from kb_wait_reads [OF this] assms show ?thesis by auto
qed

text \<open>
  Property C35.  reboot waits until the keyboard controller is ready: if it never is, reboot polls for ever
  with the kernel locked; otherwise it ends in a halt after it has left the warm-boot mark at 0x472 and
  pulsed the reset line, with no other byte of memory changed.
\<close>

theorem reboot_resets:
  "case reboot s of
     None \<Rightarrow> \<forall>n. port_in s (port_reads s + n) 0x64 AND 0x2 \<noteq> 0
   | Some (Inr _) \<Rightarrow> False
   | Some (Inl h) \<Rightarrow> (\<exists>n. port_in s (port_reads s + n) 0x64 AND 0x2 = 0)
       \<and> kports h = kports s @ [(0x64, 0xfc)] \<and> mem h = (mem s)(0x472 := 0x34, 0x473 := 0x12) \<and> \<not> intr h \<and> klock h = klock s + 1"
proof -
  let ?s = "lock_kernel s"
  have p: "port_in ?s = port_in s" "port_reads ?s = port_reads s" by (simp_all add: lock_kernel_def)
  show ?thesis
  proof (cases "kb_wait ?s")
    case None
    then have "\<forall>n. \<not> ready_at ?s (port_reads ?s + n)" using kb_wait_iff [of ?s] by blast
    then have "\<forall>n. port_in s (port_reads s + n) 0x64 AND 0x2 \<noteq> 0" by (simp add: ready_at_def p)
    moreover have "reboot s = None" using None by (simp add: reboot_def)
    ultimately show ?thesis by simp
  next
    case (Some t)
    obtain n where t: "t = ?s\<lparr>port_reads := n\<rparr>" using kb_wait_same [OF Some] by blast
    obtain n' where "ready_at ?s (port_reads ?s + n')" using kb_wait_some [OF Some] by blast
    then have "port_in s (port_reads s + n') 0x64 AND 0x2 = 0" by (simp only: ready_at_def p)
    moreover have "reboot s = Some (Inl (outb 0xfc 0x64 (t\<lparr>mem := store16 (mem t) 0x472 0x1234\<rparr>)))"
      using Some by (simp add: reboot_def Let_def)
    moreover have "(ucast (0x1234 :: u16) :: u8) = 0x34" "(ucast (drop_bit 8 (0x1234 :: u16)) :: u8) = 0x12"
      "(0x472 :: u32) + 1 = 0x473" by (simp_all add: One_nat_def)
    then have "store16 m 0x472 0x1234 = m(0x472 := 0x34, 0x473 := 0x12)" for m :: mem
      by (simp only: store16_def)
    ultimately show ?thesis by (auto simp: t lock_kernel_def outb_def outp_def One_nat_def)
  qed
qed

section \<open>The key handlers\<close>

text \<open>The type of the keyboard's state: a bounded ring, only the bits of the six modifiers, a prefix 0, 1 or 2.\<close>

definition shifts_ok :: "u32 \<Rightarrow> bool" where
  "shifts_ok sh \<longleftrightarrow> sh AND NOT 0xf5 = 0"

definition kbd_ok :: "'a kkbd_scheme \<Rightarrow> bool" where
  "kbd_ok s \<longleftrightarrow> typed.bounded s \<and> shifts_ok (shifts s) \<and> e0 s \<le> 2"

lemma shifts_ok_ops:
  assumes "shifts_ok sh"
  shows "shifts_ok (sh AND c)" and "b AND NOT 0xf5 = 0 \<Longrightarrow> shifts_ok (sh OR b)"
proof -
  have "(sh AND c) AND NOT 0xf5 = (sh AND NOT 0xf5) AND c" by (simp add: ac_simps)
  then show "shifts_ok (sh AND c)" using assms by (simp add: shifts_ok_def)
  show "b AND NOT 0xf5 = 0 \<Longrightarrow> shifts_ok (sh OR b)"
    using assms unfolding shifts_ok_def bit.conj_disj_distrib2 by simp
qed

lemma modifier_bits:
  "sh_shift AND NOT 0xf5 = 0" "sh_ctrl AND NOT 0xf5 = 0" "sh_lalt AND NOT 0xf5 = 0" "sh_ralt AND NOT 0xf5 = 0"
  "sh_numlock AND NOT 0xf5 = 0" "sh_capslock AND NOT 0xf5 = 0"
  by (simp_all add: sh_shift_def sh_ctrl_def sh_lalt_def sh_ralt_def sh_numlock_def sh_capslock_def One_nat_def)

definition same_sched :: "'a kkbd_scheme \<Rightarrow> 'a kkbd_scheme \<Rightarrow> bool" where
  "same_sched s t \<longleftrightarrow> tsk t = tsk s \<and> current t = current s \<and> idle t = idle s \<and> qfirst t = qfirst s
     \<and> klock t = klock s \<and> kbd_queue t = kbd_queue s \<and> saved_if t = saved_if s"

text \<open>What a handler that returns has done.\<close>

definition handled :: "'a kkbd_scheme \<Rightarrow> 'a kkbd_scheme \<Rightarrow> bool" where
  "handled s t \<longleftrightarrow> kbd_ok t \<and> same_sched s t"

lemma handled_refl: "kbd_ok s \<Longrightarrow> handled s s"
  by (simp add: handled_def same_sched_def)

lemma handled_say: "kbd_ok s \<Longrightarrow> handled s (say f a s)"
  by (simp add: handled_def same_sched_def kbd_ok_def say_def typed.bounded_def)

lemma handled_trace: "kbd_ok s \<Longrightarrow> handled s (s\<lparr>ktrace := t\<rparr>)"
  by (simp add: handled_def same_sched_def kbd_ok_def typed.bounded_def)

lemma handled_shifts: "kbd_ok s \<Longrightarrow> shifts_ok sh \<Longrightarrow> handled s (s\<lparr>shifts := sh\<rparr>)"
  by (simp add: handled_def same_sched_def kbd_ok_def typed.bounded_def)

lemma handled_add: "kbd_ok s \<Longrightarrow> handled s (add_buffer c s)"
  using typed.put_bounded [of s c]
  by (simp add: handled_def same_sched_def kbd_ok_def add_buffer_sel)

lemma modifier_on:
  assumes "shifts_ok sh"
  shows "shifts_ok (sh OR sh_shift)" "shifts_ok (sh OR sh_ctrl)" "shifts_ok (sh OR sh_lalt)" "shifts_ok (sh OR sh_ralt)"
    "shifts_ok (sh OR sh_numlock)" "shifts_ok (sh OR sh_capslock)"
  by (rule shifts_ok_ops(2) [OF assms] modifier_bits)+

lemmas modifier_handled = handled_shifts shifts_ok_ops(1) modifier_on

text \<open>A machine on which the reports of the control keys end.\<close>

definition reports_ok :: "'a kkbd_scheme \<Rightarrow> bool" where
  "reports_ok s \<longleftrightarrow> (\<exists>lo ps bs. heap_ok lo ps bs s) \<and> ph s \<noteq> 0 \<and> bh s \<noteq> 0 \<and> (\<exists>as. tasks.ring (tsk s) (idle s # as))"

lemma show_tasks_ring:
  assumes "tasks.ring (tsk s) (idle s # as)"
  shows "\<exists>t. show_tasks s = Some (s\<lparr>ktrace := t\<rparr>)"
proof -
  let ?s = "say (''Task list:'' @ newline) [] s"
  have "tasks.linked (tsk ?s) (idle s # as @ [idle ?s])" "idle ?s \<notin> set as"
    using assms by (auto simp: tasks.ring_def)
  from show_loop_path [OF this] show ?thesis by (auto simp: show_tasks_def say_def)
qed

lemma key_letter_handled:
  assumes "kbd_ok s" "reports_ok s" "key_table ! unat code = Key_Letter"
  obtains t where "key_letter code s = Some t" "handled s t"
proof -
  obtain c where c: "letter_char (shifts s) code = Some c" using letter_char_some [OF assms(3)] by metis
  show ?thesis
  proof (cases "shifts s AND sh_ctrl = 0")
    case True
    then show ?thesis using c that handled_add [OF assms(1)] by (simp add: key_letter_def)
  next
    case False
    have m: "\<exists>t. show_memory s = Some t \<and> handled s t"
      using assms(1,2) show_memory_eq [of _ _ _ s] handled_say by (fastforce simp: reports_ok_def)
    have p: "\<exists>t. show_tasks s = Some t \<and> handled s t"
      using assms(1,2) show_tasks_ring [of s] handled_trace by (fastforce simp: reports_ok_def)
    have "\<exists>t. ctrl_letter c s = Some t \<and> handled s t"
      unfolding ctrl_letter_def using m p handled_say [OF assms(1)] handled_refl [OF assms(1)] by auto
    then show ?thesis using c False that by (auto simp: key_letter_def)
  qed
qed

definition reboot_key :: "u8 \<Rightarrow> u32 \<Rightarrow> bool" where
  "reboot_key code sh \<longleftrightarrow> code = 0x53 \<and> sh AND sh_ctrl \<noteq> 0 \<and> (sh AND sh_lalt \<noteq> 0 \<or> sh AND sh_ralt \<noteq> 0)"

lemma call_key_handled:
  assumes ok: "kbd_ok s" and rep: "reports_ok s" and f: "f = key_table ! unat code" and r: "\<not> reboot_key code (shifts s)"
  obtains t where "call_key f code s = Some (Inr ((), t))" "handled s t"
proof -
  have shifts: "shifts_ok (shifts s)" using ok by (simp add: kbd_ok_def)
  have "\<exists>t. call_key f code s = Some (Inr ((), t)) \<and> handled s t"
  proof (cases f)
    case Key_Letter
    then show ?thesis using key_letter_handled [OF ok rep, of code] f
      by (auto simp: call_key_def returns_def)
  qed (use ok r shifts in \<open>auto simp: call_key_def returns_def key_keypad_def reboot_key_def key_shift_def key_ctrl_def
      key_alt_def key_num_def key_caps_def key_scroll_def key_sysreq_def key_func_def key_win_def key_menu_def
      handled_refl handled_say intro: modifier_handled\<close>)
  then show ?thesis using that by blast
qed

section \<open>The interrupt\<close>

text \<open>The scan code the interrupt will read, and the state after reading it.\<close>

definition next_code :: "'a kkbd_scheme \<Rightarrow> u8" where
  "next_code s = port_in s (port_reads s) 0x60"

definition code_read :: "'a kkbd_scheme \<Rightarrow> 'a kkbd_scheme" where
  "code_read s = say (kern_debug @ ''keyboard: keypress_int e0=%ld code=%02x'' @ newline)
     [VInt (e0 (snd (read_code s))), VInt (ucast (fst (read_code s)))] (snd (read_code s))"

lemma do_keyboard_int_eq:
  "do_keyboard_int s = (case key_code (next_code s) (code_read s) of
       None \<Rightarrow> None
     | Some (Inl h) \<Rightarrow> Some (Inl h)
     | Some (Inr ((), s)) \<Rightarrow> returns (wake_up_queue (kbd_queue s) s))"
proof -
  have "fst (read_code s) = next_code s" by (simp add: read_code_def inb_def next_code_def)
  then show ?thesis by (simp add: do_keyboard_int_def case_prod_beta Let_def code_read_def)
qed

lemma code_read_sel:
  "tsk (code_read s) = tsk s" "current (code_read s) = current s" "idle (code_read s) = idle s"
  "qfirst (code_read s) = qfirst s" "klock (code_read s) = klock s" "kbd_queue (code_read s) = kbd_queue s"
  "mem (code_read s) = mem s" "ph (code_read s) = ph s" "bh (code_read s) = bh s" "params (code_read s) = params s"
  "shifts (code_read s) = shifts s" "e0 (code_read s) = e0 s" "typed.contents (code_read s) = typed.contents s"
  "typed.bounded (code_read s) = typed.bounded s" "saved_if (code_read s) = saved_if s"
  by (simp_all add: code_read_def read_code_def inb_def outb_def outp_def say_def typed.contents_def typed.bounded_def)

lemma code_read_ok:
  "kbd_ok s \<Longrightarrow> kbd_ok (code_read s)" "reports_ok s \<Longrightarrow> reports_ok (code_read s)"
  by (simp_all add: kbd_ok_def reports_ok_def heap_ok_def pages_ok_def blocks_ok_def code_read_sel)

lemma key_code_handled:
  assumes ok: "kbd_ok s" and rep: "reports_ok s" and r: "\<not> reboot_key code (shifts s)"
  obtains t where "key_code code s = Some (Inr ((), t))" "handled s t"
proof -
  have e: "handled s (t\<lparr>e0 := v\<rparr>)" if "handled s t" "v \<le> 2" for t v
    using that by (simp add: handled_def same_sched_def kbd_ok_def typed.bounded_def)
  obtain t where "call_key (key_table ! unat code) code s = Some (Inr ((), t))" "handled s t"
    using call_key_handled [OF ok rep refl r] by blast
  then have "\<exists>t. key_code code s = Some (Inr ((), t)) \<and> handled s t"
    using e [of t 0] e [of s 1] e [of s 2] handled_refl [OF ok] by (simp add: key_code_def returns_def split: unit.split)
  then show ?thesis using that by blast
qed

lemma sched_ok_same: "sched_ok xs W s \<Longrightarrow> same_sched s t \<Longrightarrow> sched_ok xs W t"
  unfolding same_sched_def by (rule sched_ok_agree) simp_all

lemma kbd_ok_rest: "same_rest s t \<Longrightarrow> kbd_ok s \<Longrightarrow> kbd_ok t"
  unfolding same_rest_def kbd_ok_def by (metis kkbd_more_sel(1-5) typed_cong(2))

lemma wake_readers:
  fixes s t :: "'a kkbd_scheme"
  assumes ok: "sched_ok xs W s" "klock s + 1 \<noteq> 0" and h: "same_sched s t"
  obtains u where "wake_up_queue (kbd_queue t) t = Some u" "same_rest t u"
    "sched_ok (xs @ W (kbd_queue s)) (W(kbd_queue s := [])) u" "current u = current s" "klock u = klock s"
proof -
  have t: "sched_ok xs W t" "klock t + 1 \<noteq> 0" "kbd_queue t = kbd_queue s" "current t = current s" "klock t = klock s"
    using sched_ok_same [OF ok(1) h] ok(2) h by (simp_all add: same_sched_def)
  obtain u where u: "wake_up_queue (kbd_queue t) t = Some u" "sched_ok (xs @ W (kbd_queue t)) (W(kbd_queue t := [])) u"
    "current u = current t" "klock u = klock t"
    using wake_up_queue_sched_ok [OF t(1,2), of "kbd_queue t"] by metis
  show ?thesis using that [OF u(1) same_rest_wake_up_queue [OF u(1)]] u(2-4) unfolding t(3-5) by blast
qed

text \<open>
  Property C23.  The keyboard interrupt always returns, whatever scan code the controller gives, unless it
  is the reboot key: no table is read out of range, every report ends, and all tasks that wait for a key
  become runnable.  The ring stays bounded, the shift state has no other bits than those of the six
  modifiers, the prefix is 0, 1 or 2, and the kernel lock is left as it was.
\<close>

theorem keyboard_int_returns:
  assumes "sched_ok xs W s" and "klock s + 1 \<noteq> 0" and "kbd_ok s" and "reports_ok s"
    and "\<not> reboot_key (next_code s) (shifts s)"
  shows "\<exists>t. do_keyboard_int s = Some (Inr ((), t)) \<and> kbd_ok t
    \<and> sched_ok (xs @ W (kbd_queue s)) (W(kbd_queue s := [])) t \<and> current t = current s \<and> klock t = klock s"
proof -
  obtain t where t: "key_code (next_code s) (code_read s) = Some (Inr ((), t))" "handled (code_read s) t"
    using key_code_handled [OF code_read_ok(1) [OF assms(3)] code_read_ok(2) [OF assms(4)]] assms(5)
    by (metis code_read_sel(11))
  have "same_sched s t" using t(2) by (simp add: handled_def same_sched_def code_read_sel)
  then obtain u where u: "wake_up_queue (kbd_queue t) t = Some u" "same_rest t u"
    "sched_ok (xs @ W (kbd_queue s)) (W(kbd_queue s := [])) u" "current u = current s" "klock u = klock s"
    using wake_readers [OF assms(1,2)] by blast
  have "do_keyboard_int s = Some (Inr ((), u))" by (simp add: do_keyboard_int_eq t(1) u(1) returns_def split: unit.split)
  then show ?thesis using u kbd_ok_rest [OF u(2)] t(2) by (simp add: handled_def)
qed

text \<open>A machine with one task beside the idle task, an empty ring, and the scan code of the key a next.\<close>

definition typist :: kkbd where
  "typist = kpic.extend (pic_reset\<lparr>tsk := (\<lambda>_. idle_task_init)(
       0x2000 := idle_task_init\<lparr>task_next := 0x3000, task_prev := 0x3000, run_next := 0x3000, run_prev := 0x3000\<rparr>,
       0x3000 := idle_task_init\<lparr>pid := 1, tname := ''reader'', task_next := 0x2000, task_prev := 0x2000,
                   run_next := 0x2000, run_prev := 0x2000\<rparr>),
     current := 0x3000, port_in := (\<lambda>_ _. 0x1e)\<rparr>)
     \<lparr>shifts = 0, e0 = 0, buffer = (\<lambda>_. nul), buffer_start = 0, entered_chars = 0, buffer_size = 0,
      kbd_queue = 0x5000, params = 0x8e000, kernel_banner = ''bootperl''\<rparr>"

lemma typist_sel:
  "current typist = 0x3000" "idle typist = 0x2000" "qfirst typist = (\<lambda>_. 0)" "klock typist = 0" "intr typist"
  "mem typist = mem four_pages" "ph typist = ph four_pages" "bh typist = bh four_pages"
  "next_code typist = 0x1e" "kbd_queue typist = 0x5000" "shifts typist = 0" "e0 typist = 0"
  "typed.contents typist = []" "typed.bounded typist"
  by (simp_all add: typist_def kpic.defs pic_reset_def klog.defs quiet_def ktask.defs booted_def kmem.defs
      four_pages_def next_code_def typed.contents_def typed.bounded_def)

lemma typist_tsk: "tsk typist = (\<lambda>_. idle_task_init)(
       0x2000 := idle_task_init\<lparr>task_next := 0x3000, task_prev := 0x3000, run_next := 0x3000, run_prev := 0x3000\<rparr>,
       0x3000 := idle_task_init\<lparr>pid := 1, tname := ''reader'', task_next := 0x2000, task_prev := 0x2000,
                   run_next := 0x2000, run_prev := 0x2000\<rparr>)"
  by (simp add: typist_def kpic.defs)

lemma typist_ok: "sched_ok [0x3000] (\<lambda>_. []) typist" "kbd_ok typist" "reports_ok typist"
proof -
  show "sched_ok [0x3000] (\<lambda>_. []) typist"
    by (auto simp: sched_ok_def run_ok_def run.ring_def queue_ok_def typist_sel typist_tsk idle_task_init_def
        name_ok_def nul_def)
  show "kbd_ok typist" by (simp add: kbd_ok_def typist_sel shifts_ok_def)
  have "heap_ok 256 [(256, 4)] [] typist"
    by (rule heap_ok_agree [OF four_pages_heap]) (simp_all add: typist_sel)
  moreover have "tasks.ring (tsk typist) (idle typist # [0x3000])"
    by (simp add: tasks.ring_def typist_sel typist_tsk)
  ultimately show "reports_ok typist" by (auto simp: reports_ok_def typist_sel four_pages_sel)
qed

theorem keyboard_int_returns_witness:
  "\<exists>t. do_keyboard_int typist = Some (Inr ((), t)) \<and> kbd_ok t \<and> sched_ok [0x3000] ((\<lambda>_. [])(0x5000 := [])) t"
proof -
  have "\<not> reboot_key (next_code typist) (shifts typist)" by (simp add: reboot_key_def typist_sel)
  then show ?thesis
    using keyboard_int_returns [OF typist_ok(1) _ typist_ok(2,3)] by (auto simp: typist_sel)
qed

section \<open>Typing a character\<close>

text \<open>The character a key with the handler key_letter stands for in a shift state.\<close>

definition key_char :: "u32 \<Rightarrow> u8 \<Rightarrow> char" where
  "key_char sh code =
     (if (sh AND sh_shift \<noteq> 0) \<noteq> (sh AND sh_capslock \<noteq> 0) then letter_shift_map else letter_map) ! unat code"

lemma letter_char_eq: "key_table ! unat code = Key_Letter \<Longrightarrow> letter_char sh code = Some (key_char sh code) \<and> key_char sh code \<noteq> nul"
  using letter_char_some [of code sh] by (metis key_char_def)

lemma letter_code_low:
  fixes code :: u8
  assumes "key_table ! unat code = Key_Letter"
  shows "code \<noteq> 0xe0" "code \<noteq> 0xe1"
proof -
  have "letter_entry (unat code)" by (rule letter_entry) simp
  then have "unat code < 88" using assms by (simp add: letter_entry_def letter_map_def)
  then show "code \<noteq> 0xe0" "code \<noteq> 0xe1" by auto
qed

lemma letter_interrupt:
  fixes s :: "'a kkbd_scheme"
  assumes ok: "sched_ok xs W s" "klock s + 1 \<noteq> 0" and b: "typed.bounded s"
    and l: "key_table ! unat (next_code s) = Key_Letter" and c: "shifts s AND sh_ctrl = 0"
  obtains t where "do_keyboard_int s = Some (Inr ((), t))" "typed.bounded t"
    "typed.contents t = last_n 16384 (typed.contents s @ [key_char (shifts s) (next_code s)])"
    "mem t = mem (con_puts (params s) [key_char (shifts s) (next_code s), nul] s)"
    "sched_ok (xs @ W (kbd_queue s)) (W(kbd_queue s := [])) t" "current t = current s" "klock t = klock s"
    "shifts t = shifts s" "e0 t = 0" "kbd_queue t = kbd_queue s"
proof -
  let ?c = "key_char (shifts s) (next_code s)" and ?s = "code_read s"
  define t where "t = (add_buffer ?c ?s)\<lparr>e0 := 0\<rparr>"
  have kc: "key_code (next_code s) ?s = Some (Inr ((), t))"
    using letter_char_eq [OF l, of "shifts s"] letter_code_low [OF l] l c
    by (simp add: key_code_def call_key_def key_letter_def returns_def code_read_sel t_def split: unit.split)
  have tb: "typed.bounded ?s" using b by (simp add: code_read_sel)
  have p: "mem (con_puts q w u) = mem (con_puts q w v)" if "mem u = mem v" for q w and u v :: "'a kkbd_scheme"
    using that by (simp add: con_puts_def con_write_def Let_def case_prod_beta lock_simps)
  have t: "typed.contents t = last_n 16384 (typed.contents s @ [?c])" "typed.bounded t" "same_sched s t"
    "shifts t = shifts s" "e0 t = 0" "kbd_queue t = kbd_queue s" "mem t = mem (con_puts (params s) [?c, nul] s)"
    using typed.put_contents [OF tb, of ?c] typed.put_bounded [OF tb, of ?c] p [of ?s s]
    by (simp_all add: t_def typed.contents_def [of "_\<lparr>e0 := 0\<rparr>"] typed.bounded_def [of "_\<lparr>e0 := 0\<rparr>"]
        same_sched_def add_buffer_sel code_read_sel flip: typed.contents_def typed.bounded_def)
  obtain u where u: "wake_up_queue (kbd_queue t) t = Some u" "same_rest t u"
    "sched_ok (xs @ W (kbd_queue s)) (W(kbd_queue s := [])) u" "current u = current s" "klock u = klock s"
    using wake_readers [OF ok t(3)] by blast
  have m: "ktask.more u = ktask.more t" "mem u = mem t" using u(2) by (simp_all add: same_rest_def)
  have "do_keyboard_int s = Some (Inr ((), u))"
    by (simp add: do_keyboard_int_eq kc u(1) returns_def split: unit.split)
  then show ?thesis
    by (rule that) (use t u kkbd_more_sel [OF m(1)] typed_cong [of u t] m(2) in simp_all)
qed

text \<open>
  Property C24.  Pressing a letter key without control types one character: the one of the shifted map
  when exactly one of shift and caps lock is on, of the plain map otherwise.  It is put at the end of the
  ring, shown on the console, and every task that waits for a key becomes runnable, in order; the shift
  state stays as it is and the prefix is cleared.
\<close>

theorem letter_key_types:
  assumes "sched_ok xs W s" and "klock s + 1 \<noteq> 0" and "typed.bounded s"
    and "key_table ! unat (next_code s) = Key_Letter" and "shifts s AND sh_ctrl = 0"
  shows "\<exists>t. do_keyboard_int s = Some (Inr ((), t))
    \<and> typed.contents t = last_n 16384 (typed.contents s @ [key_char (shifts s) (next_code s)])
    \<and> mem t = mem (con_puts (params s) [key_char (shifts s) (next_code s), nul] s)
    \<and> sched_ok (xs @ W (kbd_queue s)) (W(kbd_queue s := [])) t \<and> current t = current s \<and> klock t = klock s
    \<and> shifts t = shifts s \<and> e0 t = 0"
  by (rule letter_interrupt [OF assms]) blast

lemma typist_key: "key_table ! unat (next_code typist) = Key_Letter" "key_char 0 (next_code typist) = CHR ''a''"
  by (simp_all add: typist_sel key_table_def key_char_def letter_map_def One_nat_def)

theorem letter_key_types_witness:
  "\<exists>t. do_keyboard_int typist = Some (Inr ((), t)) \<and> typed.contents t = ''a''"
  using letter_key_types [OF typist_ok(1) _ _ typist_key(1)]
  by (auto simp: typist_sel(1-8,10-14) typist_key(2) last_n_def)

section \<open>The ring as a queue\<close>

datatype ring_event = Type char | Take

primrec ring_run :: "ring_event list \<Rightarrow> 'a kkbd_scheme \<Rightarrow> string \<times> 'a kkbd_scheme" where
  "ring_run [] s = ([], s)"
| "ring_run (e # es) s =
     (case e of
        Type c \<Rightarrow> ring_run es (add_buffer c s)
      | Take \<Rightarrow> (let (c, s) = get_buffer s; (cs, s) = ring_run es s in (c # cs, s)))"

text \<open>The specification: a queue that drops its oldest element when it would hold more than 16384.\<close>

primrec queue_run :: "ring_event list \<Rightarrow> string \<Rightarrow> string \<times> string" where
  "queue_run [] q = ([], q)"
| "queue_run (e # es) q =
     (case e of
        Type c \<Rightarrow> queue_run es (last_n 16384 (q @ [c]))
      | Take \<Rightarrow> (case q of [] \<Rightarrow> (let (cs, q) = queue_run es [] in (nul # cs, q))
                 | c # q \<Rightarrow> (let (cs, q) = queue_run es q in (c # cs, q))))"

text \<open>
  Property C25.  add_buffer and get_buffer implement a queue of characters: whatever the order of typing
  and taking, the characters come out in the order in which they went in, NUL when there is none, and only
  the oldest are lost when more than 16384 are waiting.
\<close>

theorem ring_refines_queue:
  assumes "typed.bounded s"
  shows "fst (ring_run es s) = fst (queue_run es (typed.contents s))
    \<and> typed.contents (snd (ring_run es s)) = snd (queue_run es (typed.contents s))"
  using assms
proof (induction es arbitrary: s)
  case (Cons e es)
  show ?case
  proof (cases e)
    case (Type c)
    have "typed.bounded (add_buffer c s)" using Cons.prems typed.put_bounded by (simp add: add_buffer_sel)
    from Cons.IH [OF this] show ?thesis using Type typed.put_contents [OF Cons.prems] by (simp add: add_buffer_sel)
  next
    case Take
    show ?thesis
    proof (cases "typed.contents s")
      case Nil
      then have "get_buffer s = (nul, s)" using typed.get_contents [OF Cons.prems] by simp
      then show ?thesis using Take Nil Cons.IH [OF Cons.prems] by (simp add: case_prod_beta Let_def)
    next
      case (Cons c q)
      then have g: "fst (get_buffer s) = c" "typed.contents (snd (get_buffer s)) = q" "typed.bounded (snd (get_buffer s))"
        using typed.get_contents [OF Cons.prems(1)] by auto
      show ?thesis using Take Cons Cons.IH [OF g(3)] g by (simp add: case_prod_beta Let_def)
    qed
  qed
qed simp

theorem ring_refines_queue_witness:
  "fst (ring_run [Type (CHR ''a''), Type (CHR ''b''), Take, Take, Take] typist) = [CHR ''a'', CHR ''b'', nul]"
  using ring_refines_queue [OF typist_sel(14), of "[Type (CHR ''a''), Type (CHR ''b''), Take, Take, Take]"]
  by (simp add: typist_sel last_n_def)

end
