(* ===== verification/Race.thy ===== *)
theory Race
  imports Typing
begin

text \<open>
  getch of kernel/keyboard.c against the keyboard interrupt.  A task in getch is a small state machine: it
  looks into the ring, and if it finds nothing it blocks on the keyboard queue; the interrupt and the
  scheduler act in between.  The reader is never lost from the lists of the scheduler, but looking and
  blocking are two steps: a key that arrives between them is not seen until the next one.
\<close>

declare One_nat_def [simp del]

section \<open>The interrupt keeps the invariants\<close>

lemma show_loop_trace:
  assumes "show_loop c s = Some s'"
  shows "\<exists>tr. s' = s\<lparr>ktrace := tr\<rparr>"
proof (rule show_loop.raw_induct [OF _ assms])
  fix sl c and s s' :: "'a ktask_scheme"
  let ?s = "say (''  Task %ld (%08lx): \"%s\" %s next=%08lx'' @ newline)
    [VInt (pid (tsk s c)), VInt c, VStr (Some (tname (tsk s c))),
     VStr (Some (state_name (state (tsk s c)))), VInt (task_next (tsk s c))] s"
  assume ih: "\<And>c s s'. sl c s = Some s' \<Longrightarrow> \<exists>tr. s' = s\<lparr>ktrace := tr\<rparr>"
    and b: "(let s = say (''  Task %ld (%08lx): \"%s\" %s next=%08lx'' @ newline)
        [VInt (pid (tsk s c)), VInt c, VStr (Some (tname (tsk s c))),
         VStr (Some (state_name (state (tsk s c)))), VInt (task_next (tsk s c))] s;
        c = task_next (tsk s c)
      in if c \<noteq> idle s then sl c s else Some s) = Some s'"
  have "?s = s' \<or> sl (task_next (tsk s c)) ?s = Some s'" using b by (auto simp: Let_def split: if_splits)
  then show "\<exists>tr. s' = s\<lparr>ktrace := tr\<rparr>"
  proof
    assume "?s = s'"
    then show ?thesis by (auto simp: say_def)
  next
    assume "sl (task_next (tsk s c)) ?s = Some s'"
    from ih [OF this] obtain tr where "s' = ?s\<lparr>ktrace := tr\<rparr>" by blast
    then have "s' = s\<lparr>ktrace := tr\<rparr>" by (simp add: say_def)
    then show ?thesis ..
  qed
qed

lemma ctrl_letter_keeps:
  assumes "ctrl_letter c s = Some t"
  shows "\<exists>tr. t = s\<lparr>ktrace := tr\<rparr>"
proof -
  have say: "\<exists>tr. say f a s = s\<lparr>ktrace := tr\<rparr>" for f a by (auto simp: say_def)
  have "\<exists>tr. t = s\<lparr>ktrace := tr\<rparr>" if "show_memory s = Some t"
    using that say by (auto simp: show_memory_def split: option.splits)
  moreover have "\<exists>tr. t = s\<lparr>ktrace := tr\<rparr>" if h: "show_tasks s = Some t"
  proof -
    obtain tr where "t = (say (''Task list:'' @ newline) [] s)\<lparr>ktrace := tr\<rparr>"
      using show_loop_trace [OF h [unfolded show_tasks_def]] by blast
    then have "t = s\<lparr>ktrace := tr\<rparr>" by (simp add: say_def)
    then show ?thesis ..
  qed
  moreover have "\<exists>tr. t = s\<lparr>ktrace := tr\<rparr>" if "t = s"
    using that by (intro exI [of _ "ktrace s"]) simp
  moreover have "show_memory s = Some t \<or> show_tasks s = Some t
      \<or> t = say (''version: %s'') [VStr (Some (kernel_banner s))] s \<or> t = s"
    using assms by (auto simp: ctrl_letter_def split: if_splits)
  ultimately show ?thesis using say by blast
qed

lemma key_letter_keeps:
  assumes "kbd_ok s" "key_letter code s = Some t"
  shows "handled s t"
proof -
  obtain c where "ctrl_letter c s = Some t \<or> t = add_buffer c s"
    using assms(2) by (auto simp: key_letter_def split: option.splits if_splits)
  then show ?thesis
    using ctrl_letter_keeps handled_trace [OF assms(1)] handled_add [OF assms(1)] by blast
qed

lemma call_key_keeps:
  assumes "kbd_ok s" "call_key f code s = Some (Inr ((), t))"
  shows "handled s t"
proof -
  have shifts: "shifts_ok (shifts s)" using assms(1) by (simp add: kbd_ok_def)
  have r: "reboot u \<noteq> Some (Inr ((), t))" for u by (simp add: reboot_def Let_def split: option.splits)
  show ?thesis
  proof (cases f)
    case Key_Letter
    then show ?thesis using assms key_letter_keeps by (auto simp: call_key_def returns_def)
  qed (use assms shifts r in \<open>auto simp: call_key_def returns_def key_keypad_def key_shift_def key_ctrl_def
      key_alt_def key_num_def key_caps_def key_scroll_def key_sysreq_def key_func_def key_win_def key_menu_def
      handled_refl handled_say intro: modifier_handled split: if_splits\<close>)
qed

lemma key_code_keeps:
  assumes "kbd_ok s" "key_code code s = Some (Inr ((), t))"
  shows "handled s t"
proof -
  have e: "handled s (u\<lparr>e0 := v\<rparr>)" if "handled s u" "v \<le> 2" for u v
    using that by (simp add: handled_def same_sched_def kbd_ok_def typed.bounded_def)
  show ?thesis
  proof (cases "code = 0xe0 \<or> code = 0xe1")
    case True
    then show ?thesis using assms(2) e [OF handled_refl [OF assms(1)]] by (auto simp: key_code_def returns_def)
  next
    case False
    then obtain u where "call_key (key_table ! unat code) code s = Some (Inr ((), u))" "t = u\<lparr>e0 := 0\<rparr>"
      using assms(2) by (auto simp: key_code_def returns_def split: option.splits sum.splits unit.splits)
    then show ?thesis using e [OF call_key_keeps [OF assms(1)]] by simp
  qed
qed

lemma keyboard_int_keeps:
  fixes s t :: "'a kkbd_scheme"
  assumes "sched_ok xs W s" "klock s + 1 \<noteq> 0" "kbd_ok s" "do_keyboard_int s = Some (Inr ((), t))"
  shows "sched_ok (xs @ W (kbd_queue s)) (W(kbd_queue s := [])) t" "kbd_ok t" "current t = current s" "idle t = idle s"
    "klock t = klock s" "kbd_queue t = kbd_queue s" "saved_if t = saved_if s"
proof -
  obtain u where u: "key_code (next_code s) (code_read s) = Some (Inr ((), u))" "wake_up_queue (kbd_queue u) u = Some t"
    using assms(4) by (auto simp: do_keyboard_int_eq returns_def split: option.splits sum.splits unit.splits)
  have h: "handled (code_read s) u" by (rule key_code_keeps [OF code_read_ok(1) [OF assms(3)] u(1)])
  then have same: "same_sched s u" "kbd_queue u = kbd_queue s" "saved_if u = saved_if s" by (simp_all add: handled_def same_sched_def code_read_sel)
  obtain v where v: "wake_up_queue (kbd_queue u) u = Some v" "same_rest u v"
    "sched_ok (xs @ W (kbd_queue s)) (W(kbd_queue s := [])) v" "current v = current s" "klock v = klock s"
    using wake_readers [OF assms(1,2) same(1)] by blast
  have "idle t = idle s"
  proof -
    have "sched_ok xs W u" "klock u + 1 \<noteq> 0"
      using sched_ok_same [OF assms(1) same(1)] assms(2) same(1) by (simp_all add: same_sched_def)
    from wake_up_queue_sched_ok [OF this, of "kbd_queue u"] show ?thesis using u(2) same(1) by (metis option.inject same_sched_def)
  qed
  moreover have "kbd_queue t = kbd_queue s"
    using v(1,2) u(2) same(2) kkbd_more_sel(6) by (metis option.inject same_rest_def)
  moreover have "saved_if t = saved_if s"
    using v(1,2) u(2) same(3) by (simp add: same_rest_def)
  ultimately show "sched_ok (xs @ W (kbd_queue s)) (W(kbd_queue s := [])) t" "kbd_ok t" "current t = current s" "idle t = idle s"
    "klock t = klock s" "kbd_queue t = kbd_queue s" "saved_if t = saved_if s"
    using v u(2) kbd_ok_rest [OF v(2)] h by (simp_all add: handled_def)
qed

section \<open>A task in getch\<close>

text \<open>
  Where the reader is: about to look into the ring; it has found nothing and is about to block; asleep;
  or it has its character.
\<close>

datatype reader = Looking | Blocking | Asleep | Got char

text \<open>
  The steps of the reader \<open>r\<close>, of the keyboard interrupt, which runs with the kernel locked, and of a
  rescheduling by the clock.  The last two need interrupts to be on.  (Taking a character out of the ring
  is one step here, although the code does not lock the kernel for it.)
\<close>

definition keyboard_interrupt :: "'a kkbd_scheme \<Rightarrow> (unit, 'a kkbd_scheme) kresult" where
  "keyboard_interrupt s = (case do_keyboard_int (lock_kernel s) of
       None \<Rightarrow> None | Some (Inl h) \<Rightarrow> Some (Inl h) | Some (Inr (_, s)) \<Rightarrow> Some (Inr ((), unlock_kernel s)))"

text \<open>
  The end of an interrupt after which the current task is rescheduled: its flags are on its stack, the
  kernel is locked, and the task that \<open>schedule\<close> chooses runs on through UNLOCK_KERNEL and \<open>iret\<close>.
\<close>

definition preempted :: "'a ktask_scheme \<Rightarrow> 'a ktask_scheme option" where
  "preempted s = map_option (\<lambda>s. iret (unlock_kernel s)) (schedule (lock_kernel (push_flags s)))"

inductive getch_step :: "u32 \<Rightarrow> reader \<times> 'a kkbd_scheme \<Rightarrow> reader \<times> 'a kkbd_scheme \<Rightarrow> bool" for r where
  take_char: "current s = r \<Longrightarrow> get_buffer s = (c, t) \<Longrightarrow> c \<noteq> nul \<Longrightarrow> getch_step r (Looking, s) (Got c, t)"
| find_empty: "current s = r \<Longrightarrow> get_buffer s = (nul, t) \<Longrightarrow> getch_step r (Looking, s) (Blocking, t)"
| fall_asleep: "current s = r \<Longrightarrow> block (kbd_queue s) s = Some t \<Longrightarrow> getch_step r (Blocking, s) (Asleep, t)"
| go_on: "current s = r \<Longrightarrow> getch_step r (Asleep, s) (Looking, s)"
| interrupt: "intr s \<Longrightarrow> keyboard_interrupt s = Some (Inr ((), t)) \<Longrightarrow> getch_step r (p, s) (p, t)"
| preempt: "intr s \<Longrightarrow> preempted s = Some t \<Longrightarrow> getch_step r (p, s) (p, t)"

inductive_cases look_cases: "getch_step r (Looking, s) x"
inductive_cases block_cases: "getch_step r (Blocking, s) x"
inductive_cases asleep_cases: "getch_step r (Asleep, s) x"

section \<open>The reader is never lost\<close>

text \<open>
  The reader is runnable unless it is asleep, and then it is runnable or waits on the keyboard queue.  (It
  is in no other queue, and in only one of the lists: the queues and the run list are disjoint.)
\<close>

definition reader_ok :: "u32 \<Rightarrow> reader \<times> 'a kkbd_scheme \<Rightarrow> bool" where
  "reader_ok r = (\<lambda>(p, s). \<exists>xs W. sched_ok xs W s \<and> kbd_ok s \<and> klock s = 0 \<and> r \<noteq> idle s
     \<and> (r \<in> set xs \<or> p = Asleep \<and> r \<in> set (W (kbd_queue s))))"

text \<open>Interrupts are on, and every suspended task returns to them on.\<close>

definition all_on :: "reader \<times> 'a kkbd_scheme \<Rightarrow> bool" where
  "all_on = (\<lambda>(p, s). intr s \<and> (\<forall>t. saved_if s t))"

lemma get_buffer_same:
  "same_sched s (snd (get_buffer s))" "shifts (snd (get_buffer s)) = shifts s" "e0 (snd (get_buffer s)) = e0 s"
  "idle (snd (get_buffer s)) = idle s" "intr (snd (get_buffer s)) = intr s"
  "saved_if (snd (get_buffer s)) = saved_if s"
  by (simp_all add: get_buffer_def same_sched_def)

lemma get_buffer_ok:
  assumes "kbd_ok s"
  shows "kbd_ok (snd (get_buffer s))"
proof -
  have b: "typed.bounded s" using assms by (simp add: kbd_ok_def)
  have "typed.bounded (snd (get_buffer s))"
    using typed.get_contents [OF b] b by (cases "typed.contents s") auto
  then show ?thesis using assms by (simp add: kbd_ok_def get_buffer_same)
qed

lemma keyboard_interrupt_keeps:
  assumes "sched_ok xs W s" "klock s = 0" "kbd_ok s" "keyboard_interrupt s = Some (Inr ((), t))"
  shows "sched_ok (xs @ W (kbd_queue s)) (W(kbd_queue s := [])) t" "kbd_ok t" "current t = current s" "idle t = idle s"
    "klock t = 0" "intr t" "kbd_queue t = kbd_queue s" "saved_if t = saved_if s"
proof -
  obtain u where u: "do_keyboard_int (lock_kernel s) = Some (Inr ((), u))" "t = unlock_kernel u"
    using assms(4) by (auto simp: keyboard_interrupt_def split: option.splits sum.splits)
  have l: "sched_ok xs W (lock_kernel s)" by (rule sched_ok_agree [OF assms(1)]) simp_all
  have k: "kbd_ok (lock_kernel s)" "kbd_queue (lock_kernel s) = kbd_queue s" "klock (lock_kernel s) = 1"
    using assms(2,3) by (simp_all add: kbd_ok_def typed.bounded_def lock_kernel_def)
  have "klock (lock_kernel s) + 1 \<noteq> 0" unfolding k(3) by simp
  note i = keyboard_int_keeps [OF l this k(1) u(1), unfolded k(2,3)]
  show "sched_ok (xs @ W (kbd_queue s)) (W(kbd_queue s := [])) t" by (rule sched_ok_agree [OF i(1)]) (simp_all add: u(2))
  show "kbd_ok t" "current t = current s" "idle t = idle s" "klock t = 0" "intr t" "kbd_queue t = kbd_queue s" "saved_if t = saved_if s"
    using i(2-7) by (simp_all add: u(2) kbd_ok_def typed.bounded_def unlock_kernel_def Let_def)
qed

text \<open>The scheduler leaves everything above it alone.\<close>

lemma schedule_more:
  assumes "schedule s = Some t"
  shows "ktask.more t = ktask.more s"
proof -
  let ?l = "schedule_locked s"
  have l: "ktask.more (snd ?l) = ktask.more s"
    by (simp add: schedule_locked_def Let_def leave_cpu_eq say_def lock_kernel_def unlock_kernel_def)
  obtain u where u: "update_status (fst ?l) (current s) (snd ?l) = Some u" "t = switch_to (fst ?l) (current s) u"
    using assms by (auto simp: schedule_def Let_def case_prod_beta split: option.splits)
  have "ktask.more u = ktask.more (snd ?l)"
    using u(1) by (auto simp: update_status_def Let_def case_prod_beta split: option.splits if_splits)
  then show ?thesis using l u(2) by (simp add: switch_to_def)
qed

lemma do_block_more: "ktask.more (do_block q s) = ktask.more s"
  by (simp add: do_block_def Let_def at_task_def set_first_def say_def)

lemma block_more:
  assumes "block q s = Some t"
  shows "ktask.more t = ktask.more s"
proof -
  obtain u where u: "schedule (do_block q (lock_kernel (push_flags s))) = Some u" "t = iret (unlock_kernel u)"
    using assms by (auto simp: block_def)
  have "ktask.more t = ktask.more u" by (simp add: u(2) unlock_kernel_def Let_def)
  also have "\<dots> = ktask.more (lock_kernel (push_flags s))" using schedule_more [OF u(1)] by (simp add: do_block_more)
  finally show ?thesis by (simp add: lock_kernel_def)
qed

lemma preempted_sched_ok:
  assumes ok: "sched_ok xs W s"
  obtains t where "preempted s = Some t" "sched_ok xs W t" "idle t = idle s" "klock t = klock s"
    "ktask.more t = ktask.more s" "saved_if t = (saved_if s)(current s := intr s)" "intr t = saved_if t (current t)"
proof -
  let ?l = "lock_kernel (push_flags s)"
  have "sched_ok xs W ?l" by (rule sched_ok_agree [OF ok]) simp_all
  then obtain u where u: "schedule ?l = Some u" "sched_ok xs W u" "idle u = idle ?l" "klock u = klock ?l"
    by (rule schedule_sched_ok)
  let ?t = "iret (unlock_kernel u)"
  have p: "preempted s = Some ?t" by (simp add: preempted_def u(1))
  have "sched_ok xs W ?t" by (rule sched_ok_agree [OF u(2)]) simp_all
  moreover have "idle ?t = idle s" "klock ?t = klock s" using u(3,4) by (simp_all add: lock_simps)
  moreover have "ktask.more ?t = ktask.more s" using schedule_more [OF u(1)] by (simp add: lock_more)
  moreover have "saved_if ?t = (saved_if s)(current s := intr s)" using schedule_saved [OF u(1)] by simp
  ultimately show ?thesis using that [OF p] by simp
qed

lemma kbd_ok_more: "ktask.more t = ktask.more s \<Longrightarrow> kbd_ok s \<Longrightarrow> kbd_ok t"
  unfolding kbd_ok_def by (metis kkbd_more_sel(1-5) typed_cong(2))

lemma reader_okI:
  assumes "sched_ok xs W s" "kbd_ok s" "klock s = 0" "r \<noteq> idle s" "r \<in> set xs \<or> p = Asleep \<and> r \<in> set (W (kbd_queue s))"
  shows "reader_ok r (p, s)"
  using assms unfolding reader_ok_def by blast

lemma getch_step_ok:
  assumes "getch_step r x y" "reader_ok r x"
  shows "reader_ok r y \<and> (all_on x \<longrightarrow> all_on y)"
proof -
  obtain p s where x: "x = (p, s)" by (cases x)
  obtain xs W where ok: "sched_ok xs W s" "kbd_ok s" "klock s = 0" "r \<noteq> idle s"
    and r: "r \<in> set xs \<or> p = Asleep \<and> r \<in> set (W (kbd_queue s))"
    using assms(2) unfolding x reader_ok_def by auto
  have run: "r \<in> set xs" if "current s = r" using sched_okD(3) [OF ok(1)] ok(4) that by simp
  have look: "reader_ok r (q, t) \<and> (all_on x \<longrightarrow> all_on (q, t))" if "get_buffer s = (c, t)" "current s = r" for q c t
  proof (intro conjI reader_okI)
    have t: "t = snd (get_buffer s)" using that(1) by simp
    show "all_on x \<longrightarrow> all_on (q, t)" by (auto simp: all_on_def x t get_buffer_same)
    show "sched_ok xs W t" unfolding t by (rule sched_ok_same [OF ok(1) get_buffer_same(1)])
    show "kbd_ok t" unfolding t by (rule get_buffer_ok [OF ok(2)])
    show "klock t = 0" "r \<noteq> idle t" using ok get_buffer_same(1,4,5) [of s] by (simp_all add: t same_sched_def)
  qed (use run [OF that(2)] in simp)
  have "getch_step r (p, s) y" using assms(1) by (simp only: x)
  then show ?thesis
  proof (cases rule: getch_step.cases)
    case (take_char c t)
    then show ?thesis using look by simp
  next
    case (find_empty t)
    then show ?thesis using look by simp
  next
    case (fall_asleep t)
    have c: "current s \<noteq> idle s" "klock s + 1 \<noteq> 0" using ok(3,4) fall_asleep by simp_all
    obtain u where u: "block (kbd_queue s) s = Some u"
      "sched_ok (remove1 (current s) xs) (W(kbd_queue s := W (kbd_queue s) @ [current s])) u"
      "idle u = idle s" "klock u = klock s" "intr u = saved_if s (current u)" "saved_if u = (saved_if s)(current s := intr s)"
      by (rule block_sched_ok [OF ok(1) c, of "kbd_queue s"])
    have t: "t = u" using fall_asleep u(1) by simp
    note m = block_more [OF u(1)]
    have "reader_ok r (Asleep, u)"
      by (rule reader_okI [OF u(2) kbd_ok_more [OF m ok(2)]]) (use u ok fall_asleep kkbd_more_sel(6) [OF m] in simp_all)
    moreover have "all_on x \<longrightarrow> all_on (Asleep, u)" using u(5,6) by (auto simp: all_on_def x)
    ultimately show ?thesis using fall_asleep t by simp
  next
    case go_on
    then show ?thesis using reader_okI [OF ok] run by (auto simp: all_on_def x)
  next
    case (interrupt t)
    note k = keyboard_interrupt_keeps [OF ok(1,3,2) interrupt(3)]
    have "reader_ok r (p, t)" by (rule reader_okI [OF k(1,2)]) (use k ok r in auto)
    then show ?thesis using interrupt k(6,8) by (auto simp: all_on_def x)
  next
    case (preempt t)
    obtain u where u: "preempted s = Some u" "sched_ok xs W u" "idle u = idle s" "klock u = klock s"
      "ktask.more u = ktask.more s" "saved_if u = (saved_if s)(current s := intr s)" "intr u = saved_if u (current u)"
      by (rule preempted_sched_ok [OF ok(1)])
    note m = u(5)
    have "reader_ok r (p, u)"
      by (rule reader_okI [OF u(2) kbd_ok_more [OF m ok(2)]]) (use u ok r kkbd_more_sel(6) [OF m] in simp_all)
    moreover have "all_on x \<longrightarrow> all_on (p, u)" using u(6,7) by (auto simp: all_on_def x)
    ultimately show ?thesis using preempt u(1) by simp
  qed
qed

text \<open>
  Property C17.  However the keyboard interrupt and the scheduler interleave with a task in getch, the task
  is never lost: in every reachable state it is in the run list, or asleep in the keyboard queue; the lists
  of the scheduler and the state of the keyboard stay well formed and the kernel unlocked.  If interrupts
  are on at the start, for the current task and for all suspended ones, they stay on.
\<close>

theorem reader_never_lost:
  assumes "(getch_step r)\<^sup>*\<^sup>* x y" and "reader_ok r x"
  shows "reader_ok r y \<and> (all_on x \<longrightarrow> all_on y)"
  using assms by (induction rule: rtranclp_induct) (auto dest: getch_step_ok)

lemma typist_intr: "intr typist"
  by (simp add: typist_sel)

lemma typist_reader: "reader_ok 0x3000 (Looking, typist)"
  by (rule reader_okI [OF typist_ok(1,2)]) (simp_all add: typist_sel)

section \<open>The lost wakeup\<close>

text \<open>Reschedulings only, any number of them.\<close>

abbreviation reschedulings :: "'a ktask_scheme \<Rightarrow> 'a ktask_scheme \<Rightarrow> bool" where
  "reschedulings \<equiv> (\<lambda>a b. preempted a = Some b)\<^sup>*\<^sup>*"

lemma reschedulings_keep:
  assumes "reschedulings s t" "sched_ok xs W s"
  shows "sched_ok xs W t" "ktask.more t = ktask.more s" "klock t = klock s"
proof -
  have "sched_ok xs W t \<and> ktask.more t = ktask.more s \<and> klock t = klock s"
    using assms
  proof (induction rule: rtranclp_induct)
    case (step u v)
    then have "sched_ok xs W u" by simp
    then obtain w where "preempted u = Some w" "sched_ok xs W w" "klock w = klock u" "ktask.more w = ktask.more u"
      by (rule preempted_sched_ok)
    then show ?case using step by simp
  qed simp
  then show "sched_ok xs W t" "ktask.more t = ktask.more s" "klock t = klock s" by simp_all
qed

lemma waiting_not_current: "sched_ok xs W s \<Longrightarrow> r \<in> set (W q) \<Longrightarrow> current s \<noteq> r"
  using sched_okD(3,4,5) by blast

text \<open>
  Property C38.  getch loses a wakeup: a key typed after the reader has found the ring empty and before it
  has blocked leaves it asleep with the character in the ring, and no rescheduling ever makes it current
  again; it takes another interrupt of the keyboard to wake it.
\<close>

theorem getch_loses_wakeup:
  assumes "sched_ok xs W s" and "kbd_ok s" and "klock s = 0" and "intr s" and "current s = r" and "r \<noteq> idle s"
    and "typed.contents s = []" and "key_table ! unat (next_code s) = Key_Letter" and "shifts s AND sh_ctrl = 0"
  shows "\<exists>t. (getch_step r)\<^sup>*\<^sup>* (Looking, s) (Asleep, t) \<and> typed.contents t = [key_char (shifts s) (next_code s)]
    \<and> (\<forall>u. reschedulings t u \<longrightarrow> current u \<noteq> r \<and> typed.contents u = typed.contents t
         \<and> (\<forall>v. keyboard_interrupt u = Some (Inr ((), v)) \<longrightarrow> (\<exists>ys W'. sched_ok ys W' v \<and> r \<in> set ys)))"
proof -
  let ?q = "kbd_queue s" and ?l = "lock_kernel s" and ?c = "key_char (shifts s) (next_code s)"
  have b: "typed.bounded s" using assms(2) by (simp add: kbd_ok_def)
  have l: "typed.bounded ?l" "typed.contents ?l = typed.contents s" "next_code ?l = next_code s" "shifts ?l = shifts s"
    "kbd_queue ?l = ?q" "klock ?l = 1" "current ?l = r"
    using assms(3,5) b by (simp_all add: typed.bounded_def typed.contents_def next_code_def lock_kernel_def)
  have "sched_ok xs W ?l" by (rule sched_ok_agree [OF assms(1)]) simp_all
  moreover have "klock ?l + 1 \<noteq> 0" unfolding l(6) by simp
  ultimately obtain u where u: "do_keyboard_int ?l = Some (Inr ((), u))"
    "typed.contents u = last_n 16384 (typed.contents ?l @ [key_char (shifts ?l) (next_code ?l)])"
    using letter_interrupt [of xs W ?l] assms(8,9) l(1,3,4) by metis
  define v where "v = unlock_kernel u"
  have i: "keyboard_interrupt s = Some (Inr ((), v))" by (simp add: keyboard_interrupt_def u(1) v_def)
  have cv: "typed.contents v = [?c]"
    using u(2) l assms(7) by (simp add: v_def typed.contents_def unlock_kernel_def Let_def last_n_def)
  note k = keyboard_interrupt_keeps [OF assms(1,3,2) i]
  have "current v \<noteq> idle v" "klock v + 1 \<noteq> 0" using k assms(5,6) by simp_all
  then obtain t where t: "block (kbd_queue v) v = Some t"
    "sched_ok (remove1 (current v) (xs @ W ?q)) ((W(?q := []))(kbd_queue v := (W(?q := [])) (kbd_queue v) @ [current v])) t"
    "idle t = idle v" "klock t = klock v"
    by (rule block_sched_ok [OF k(1)])
  have sched: "sched_ok (remove1 r (xs @ W ?q)) (W(?q := [r])) t" using t(2) k(3,7) assms(5) by simp
  note m = block_more [OF t(1)]
  have ct: "typed.contents t = [?c]" using typed_cong(1) [of t v] kkbd_more_sel [OF m] cv by simp
  have 1: "getch_step r (Looking, s) (Blocking, s)"
    using assms(5,7) typed.get_contents [OF b] by (intro find_empty) simp_all
  have 2: "getch_step r (Blocking, s) (Blocking, v)" by (rule interrupt [OF assms(4) i])
  have 3: "getch_step r (Blocking, v) (Asleep, t)" by (rule fall_asleep) (use k assms(5) t(1) in simp_all)
  have steps: "(getch_step r)\<^sup>*\<^sup>* (Looking, s) (Asleep, t)"
    by (rule converse_rtranclp_into_rtranclp [OF 1 converse_rtranclp_into_rtranclp [of "getch_step r", OF 2 r_into_rtranclp [of "getch_step r", OF 3]]])
  have "current w \<noteq> r \<and> typed.contents w = typed.contents t
      \<and> (\<forall>x. keyboard_interrupt w = Some (Inr ((), x)) \<longrightarrow> (\<exists>ys W'. sched_ok ys W' x \<and> r \<in> set ys))"
    if rs: "reschedulings t w" for w
  proof -
    note w = reschedulings_keep [OF rs sched]
    have mw: "ktask.more w = ktask.more v" using w(2) m by simp
    have kw: "kbd_ok w" "klock w = 0" "kbd_queue w = ?q"
      using kbd_ok_more [OF mw] k w(3) t(4) kkbd_more_sel(6) [OF mw] by simp_all
    have "current w \<noteq> r" by (rule waiting_not_current [OF w(1), of r ?q]) simp
    moreover have "typed.contents w = typed.contents t" using typed_cong(1) [of w t] kkbd_more_sel [OF w(2)] by simp
    moreover have "\<exists>ys W'. sched_ok ys W' x \<and> r \<in> set ys" if "keyboard_interrupt w = Some (Inr ((), x))" for x
      using keyboard_interrupt_keeps(1) [OF w(1) kw(2,1) that, unfolded kw(3)] by fastforce
    ultimately show ?thesis by blast
  qed
  then show ?thesis using steps ct by blast
qed

theorem getch_loses_wakeup_witness:
  "\<exists>t. (getch_step 0x3000)\<^sup>*\<^sup>* (Looking, typist) (Asleep, t) \<and> typed.contents t = ''a'' \<and> current t \<noteq> 0x3000"
proof -
  have e: "klock typist = 0" "current typist = 0x3000" "(0x3000 :: u32) \<noteq> idle typist" "typed.contents typist = []"
    "shifts typist AND sh_ctrl = 0" "key_char (shifts typist) (next_code typist) = CHR ''a''"
    using typist_key(2) by (simp_all add: typist_sel(1-8,10-14))
  show ?thesis
    using getch_loses_wakeup [OF typist_ok(1,2) e(1) typist_intr e(2,3,4) typist_key(1) e(5)] unfolding e(6) by blast
qed

theorem reader_never_lost_witness:
  "\<exists>t. block 0x5000 (typist\<lparr>saved_if := \<lambda>_. True\<rparr>) = Some t \<and> reader_ok 0x3000 (Asleep, t) \<and> intr t"
proof -
  let ?s = "typist\<lparr>saved_if := \<lambda>_. True\<rparr>"
  have ok: "sched_ok [0x3000] (\<lambda>_. []) ?s" by (rule sched_ok_agree [OF typist_ok(1)]) simp_all
  have kbd: "kbd_ok ?s" using typist_ok(2) by (simp add: kbd_ok_def typed.bounded_def)
  have sel: "current ?s = 0x3000" "idle ?s = 0x2000" "klock ?s = 0" "intr ?s" "kbd_queue ?s = 0x5000"
    by (simp_all add: typist_sel)
  have r: "reader_ok 0x3000 (Blocking, ?s)" by (rule reader_okI [OF ok kbd]) (simp_all add: sel)
  have "current ?s \<noteq> idle ?s" "klock ?s + 1 \<noteq> 0" unfolding sel by simp_all
  then obtain t where t: "block 0x5000 ?s = Some t" by (rule block_sched_ok [OF ok])
  then have "getch_step 0x3000 (Blocking, ?s) (Asleep, t)" by (intro fall_asleep) (simp_all add: sel(1,5))
  then have "reader_ok 0x3000 (Asleep, t) \<and> (all_on (Blocking, ?s) \<longrightarrow> all_on (Asleep, t))"
    using reader_never_lost [OF r_into_rtranclp [of "getch_step 0x3000"] r] by blast
  then show ?thesis using t sel(4) by (auto simp: all_on_def)
qed

end
