(* ===== verification/Libc.thy ===== *)
theory Libc
  imports Process Format
begin

text \<open>
  The parts of kernel/perlwrap.c that do work: the allocation functions over kalloc and kfree, the string
  functions over the bytes of memory, and the number scanner strtoul with atoi.  A string function that
  meets no end is a loop that never ends: its result is \<open>None\<close>.
\<close>

declare One_nat_def [simp del]

section \<open>Memory\<close>

definition malloc :: "u32 \<Rightarrow> 'a kmem_scheme \<Rightarrow> (u32, 'a kmem_scheme) kresult" where
  "malloc n s = kalloc n s"

definition free :: "u32 \<Rightarrow> 'a kmem_scheme \<Rightarrow> 'a kmem_scheme option" where
  "free p s = kfree p s"

definition calloc :: "u32 \<Rightarrow> u32 \<Rightarrow> 'a kmem_scheme \<Rightarrow> (u32, 'a kmem_scheme) kresult" where
  "calloc nmemb sz s =
     (case kalloc (nmemb * sz) s of
        None \<Rightarrow> None
      | Some (Inl h) \<Rightarrow> Some (Inl h)
      | Some (Inr (p, s)) \<Rightarrow> Some (Inr (p, s\<lparr>mem := memset p 0 (nmemb * sz) (mem s)\<rparr>)))"

text \<open>The second half of realloc, once \<open>newmem\<close> has its value.\<close>

definition realloc_move :: "u32 \<Rightarrow> u32 \<Rightarrow> u32 \<Rightarrow> 'a kmem_scheme \<Rightarrow> (u32, 'a kmem_scheme) kresult" where
  "realloc_move ptr sz newmem s =
     (if sz \<noteq> 0 \<and> newmem = 0 then Some (Inr (0, s))
      else
        (let s = (if ptr \<noteq> 0 \<and> sz \<noteq> 0 then s\<lparr>mem := memcpy newmem ptr sz (mem s)\<rparr> else s)
         in case (if ptr \<noteq> 0 then kfree ptr s else Some s) of
              None \<Rightarrow> None
            | Some s \<Rightarrow> Some (Inr (newmem, s))))"

definition realloc :: "u32 \<Rightarrow> u32 \<Rightarrow> 'a kmem_scheme \<Rightarrow> (u32, 'a kmem_scheme) kresult" where
  "realloc ptr sz s =
     (if sz \<noteq> 0
      then
        (case kalloc sz s of
           None \<Rightarrow> None
         | Some (Inl h) \<Rightarrow> Some (Inl h)
         | Some (Inr (newmem, s)) \<Rightarrow> realloc_move ptr sz newmem s)
      else realloc_move ptr sz 0 s)"

section \<open>Strings\<close>

text \<open>A \<open>char\<close> is signed; compared with an \<open>int\<close> it is sign extended.\<close>

definition char_at :: "mem \<Rightarrow> u32 \<Rightarrow> u32" where
  "char_at m a = scast (m a)"

text \<open>The counter is an \<open>int\<close>, compared as unsigned with the size; the last argument is the number of rounds left.\<close>

primrec memchr_loop :: "u32 \<Rightarrow> u32 \<Rightarrow> nat \<Rightarrow> mem \<Rightarrow> nat \<Rightarrow> u32" where
  "memchr_loop s c i m 0 = 0"
| "memchr_loop s c i m (Suc k) = (if char_at m (s + of_nat i) = c then s + of_nat i else memchr_loop s c (i + 1) m k)"

definition memchr :: "u32 \<Rightarrow> u32 \<Rightarrow> u32 \<Rightarrow> mem \<Rightarrow> u32" where
  "memchr s c n m = memchr_loop s c 0 m (unat n)"

partial_function (option) strend :: "u32 \<Rightarrow> mem \<Rightarrow> u32 option" where
  "strend dest m = (if m dest \<noteq> 0 then strend (dest + 1) m else Some dest)"

partial_function (option) strcpy_loop :: "u32 \<Rightarrow> u32 \<Rightarrow> mem \<Rightarrow> mem option" where
  "strcpy_loop dest src m =
     (if m src \<noteq> 0 then strcpy_loop (dest + 1) (src + 1) (m(dest := m src)) else Some (m(dest := 0)))"

definition strcpy :: "u32 \<Rightarrow> u32 \<Rightarrow> mem \<Rightarrow> (u32 \<times> mem) option" where
  "strcpy dest src m = map_option (\<lambda>m. (dest, m)) (strcpy_loop dest src m)"

definition strcat :: "u32 \<Rightarrow> u32 \<Rightarrow> mem \<Rightarrow> (u32 \<times> mem) option" where
  "strcat dest src m =
     (case strend dest m of None \<Rightarrow> None | Some e \<Rightarrow> map_option (\<lambda>m. (dest, m)) (strcpy_loop e src m))"

partial_function (option) strchr :: "u32 \<Rightarrow> u32 \<Rightarrow> mem \<Rightarrow> u32 option" where
  "strchr s c m =
     (if m s \<noteq> 0 then if char_at m s = c then Some s else strchr (s + 1) c m else Some 0)"

partial_function (option) strrchr_loop :: "u32 \<Rightarrow> u32 \<Rightarrow> u32 \<Rightarrow> mem \<Rightarrow> u32 option" where
  "strrchr_loop match s c m =
     (if m s \<noteq> 0 then strrchr_loop (if char_at m s = c then s else match) (s + 1) c m else Some match)"

definition strrchr :: "u32 \<Rightarrow> u32 \<Rightarrow> mem \<Rightarrow> u32 option" where
  "strrchr s c m = strrchr_loop 0 s c m"

text \<open>Neither pointer is ever advanced.\<close>

partial_function (option) strcmp :: "u32 \<Rightarrow> u32 \<Rightarrow> mem \<Rightarrow> int option" where
  "strcmp s1 s2 m =
     (if m s1 \<noteq> 0 \<and> m s2 \<noteq> 0
      then if sint (m s1) < sint (m s2) then Some (-1)
           else if sint (m s1) > sint (m s2) then Some 1
           else strcmp s1 s2 m
      else if sint (m s1) < sint (m s2) then Some (-1)
      else if sint (m s1) > sint (m s2) then Some 1
      else Some 0)"

primrec strncmp_loop :: "u32 \<Rightarrow> u32 \<Rightarrow> nat \<Rightarrow> mem \<Rightarrow> nat \<Rightarrow> int" where
  "strncmp_loop s1 s2 i m 0 = 0"
| "strncmp_loop s1 s2 i m (Suc k) =
     (let a = m (s1 + of_nat i); b = m (s2 + of_nat i)
      in if sint a < sint b then -1
         else if sint a > sint b then 1
         else if a = 0 \<or> b = 0 then 0
         else strncmp_loop s1 s2 (i + 1) m k)"

definition strncmp :: "u32 \<Rightarrow> u32 \<Rightarrow> u32 \<Rightarrow> mem \<Rightarrow> int" where
  "strncmp s1 s2 n m = strncmp_loop s1 s2 0 m (unat n)"

section \<open>Strings in memory\<close>

text \<open>The bytes \<open>bs\<close> are at \<open>a\<close>, followed by the first NUL.\<close>

primrec str_at :: "mem \<Rightarrow> u32 \<Rightarrow> u8 list \<Rightarrow> bool" where
  "str_at m a [] \<longleftrightarrow> m a = 0"
| "str_at m a (b # bs) \<longleftrightarrow> m a = b \<and> b \<noteq> 0 \<and> str_at m (a + 1) bs"

lemma span_Suc: "span a (Suc n) = insert a (span (a + 1) n)"
proof -
  have "{..<Suc n} = insert 0 (Suc ` {..<n})" by (rule lessThan_Suc_eq_insert_0)
  then show ?thesis by (auto simp: span_def image_image algebra_simps)
qed

lemma str_at_cong: "(\<And>x. x \<in> span a (Suc (length bs)) \<Longrightarrow> m x = m' x) \<Longrightarrow> str_at m a bs = str_at m' a bs"
proof (induction bs arbitrary: a)
  case Nil
  then show ?case by (simp add: span_Suc)
next
  case (Cons b bs)
  have "m a = m' a" "str_at m (a + 1) bs = str_at m' (a + 1) bs"
    using Cons by (simp_all add: span_Suc [of a])
  then show ?case by simp
qed

lemma str_at_write: "x \<notin> span a (Suc (length bs)) \<Longrightarrow> str_at (m(x := b)) a bs = str_at m a bs"
  by (rule str_at_cong) auto

lemma not_in_next: "n < 2 ^ 32 \<Longrightarrow> a \<notin> span (a + 1) n" for a :: u32
proof
  assume n: "n < 2 ^ 32" and "a \<in> span (a + 1) n"
  then obtain i where i: "i < n" "a = a + 1 + of_nat i" by (auto simp: span_def)
  then have "(of_nat (Suc i) :: u32) = 0" by (simp add: algebra_simps)
  moreover have "unat (of_nat (Suc i) :: u32) = Suc i" using n i(1) by (intro unat_of_nat_small) simp
  ultimately show False by simp
qed

lemma strend_at: "str_at m a bs \<Longrightarrow> strend a m = Some (a + of_nat (length bs))"
proof (induction bs arbitrary: a)
  case (Cons b bs)
  then show ?case by (subst strend.simps) (simp add: algebra_simps)
qed (subst strend.simps, simp)

lemma strcpy_loop_at:
  assumes "str_at m src bs" "Suc (length bs) < 2 ^ 32"
    and "span dest (Suc (length bs)) \<inter> span src (Suc (length bs)) = {}"
  shows "\<exists>m'. strcpy_loop dest src m = Some m' \<and> str_at m' dest bs \<and> (\<forall>x. x \<notin> span dest (Suc (length bs)) \<longrightarrow> m' x = m x)"
  using assms
proof (induction bs arbitrary: dest src m)
  case Nil
  then show ?case by (subst strcpy_loop.simps) (simp add: span_Suc)
next
  case (Cons b bs)
  let ?m = "m(dest := b)" and ?n = "Suc (length bs)"
  have sp: "span dest (Suc (length (b # bs))) = insert dest (span (dest + 1) ?n)"
    "span src (Suc (length (b # bs))) = insert src (span (src + 1) ?n)" by (simp_all add: span_Suc)
  have d: "dest \<notin> span (src + 1) ?n" "span (dest + 1) ?n \<inter> span (src + 1) ?n = {}"
    using Cons.prems(3) unfolding sp by auto
  have m: "m src = b" "b \<noteq> 0" "str_at m (src + 1) bs" using Cons.prems(1) by auto
  have "str_at ?m (src + 1) bs" using m(3) d(1) by (simp add: str_at_write)
  moreover have "?n < 2 ^ 32" using Cons.prems(2) by simp
  ultimately obtain m' where m': "strcpy_loop (dest + 1) (src + 1) ?m = Some m'" "str_at m' (dest + 1) bs"
    "\<forall>x. x \<notin> span (dest + 1) ?n \<longrightarrow> m' x = ?m x" using Cons.IH d(2) by blast
  have nd: "dest \<notin> span (dest + 1) ?n" by (rule not_in_next) (use Cons.prems(2) in simp)
  have "strcpy_loop dest src m = Some m'" using m m'(1) by (subst strcpy_loop.simps) simp
  moreover have "m' dest = b" using m'(3) nd by simp
  moreover have "m' x = m x" if "x \<notin> span dest (Suc (length (b # bs)))" for x
    using that m'(3) unfolding sp by auto
  ultimately show ?case using m(2) m'(2) by auto
qed

lemma str_at_append:
  "str_at m a (as @ bs) \<longleftrightarrow> (\<forall>i < length as. m (a + of_nat i) = as ! i \<and> as ! i \<noteq> 0) \<and> str_at m (a + of_nat (length as)) bs"
proof (induction as arbitrary: a)
  case (Cons b as)
  have "(\<forall>i < Suc (length as). P i) \<longleftrightarrow> P 0 \<and> (\<forall>i < length as. P (Suc i))" for P by (auto simp: less_Suc_eq_0_disj)
  then show ?case using Cons [of "a + 1"] by (simp add: algebra_simps)
qed simp

text \<open>
  strcpy and strcat return and work on well separated strings: strcpy leaves a copy of the
  source at the destination, strcat leaves the destination followed by the source; both return the
  destination and change no byte outside the room they need, so the source is as it was.
\<close>

theorem string_copies:
  assumes "str_at m src bs" and "str_at m dest as" and "Suc (length as + length bs) < 2 ^ 32"
    and "span dest (Suc (length as + length bs)) \<inter> span src (Suc (length bs)) = {}"
  shows "(\<exists>m'. strcpy dest src m = Some (dest, m') \<and> str_at m' dest bs \<and> str_at m' src bs
      \<and> (\<forall>x. x \<notin> span dest (Suc (length bs)) \<longrightarrow> m' x = m x))
    \<and> (\<exists>m'. strcat dest src m = Some (dest, m') \<and> str_at m' dest (as @ bs) \<and> str_at m' src bs
      \<and> (\<forall>x. x \<notin> span dest (Suc (length as + length bs)) \<longrightarrow> m' x = m x))"
proof -
  have sub: "span dest (Suc (length bs)) \<subseteq> span dest (Suc (length as + length bs))" by (rule span_mono) simp
  let ?e = "dest + of_nat (length as)"
  have sub': "span ?e (Suc (length bs)) \<subseteq> span dest (Suc (length as + length bs))"
    by (rule span_shift) simp
  have keep: "str_at m' src bs" if o: "\<forall>x. x \<notin> A \<longrightarrow> m' x = m x" and A: "A \<subseteq> span dest (Suc (length as + length bs))" for m' A
  proof -
    have "m' x = m x" if "x \<in> span src (Suc (length bs))" for x
    proof -
      have "x \<notin> A" using that A assms(4) by blast
      then show ?thesis using o by simp
    qed
    then have "str_at m' src bs = str_at m src bs" by (rule str_at_cong)
    then show ?thesis using assms(1) by simp
  qed
  obtain m1 where 1: "strcpy_loop dest src m = Some m1" "str_at m1 dest bs" "\<forall>x. x \<notin> span dest (Suc (length bs)) \<longrightarrow> m1 x = m x"
    using strcpy_loop_at [OF assms(1), of dest] assms(3,4) sub by auto
  obtain m2 where 2: "strcpy_loop ?e src m = Some m2" "str_at m2 ?e bs" "\<forall>x. x \<notin> span ?e (Suc (length bs)) \<longrightarrow> m2 x = m x"
    using strcpy_loop_at [OF assms(1), of ?e] assms(3,4) sub' by auto
  have "m2 (dest + of_nat i) = as ! i \<and> as ! i \<noteq> 0" if "i < length as" for i
  proof -
    have "dest + of_nat i \<notin> span ?e (Suc (length bs))"
    proof
      assume "dest + of_nat i \<in> span ?e (Suc (length bs))"
      then obtain j where j: "j < Suc (length bs)" "(of_nat i :: u32) = of_nat (length as + j)"
        by (auto simp: span_def algebra_simps)
      have "unat (of_nat i :: u32) = i" "unat (of_nat (length as + j) :: u32) = length as + j"
        using that j(1) assms(3) by (simp_all add: unat_of_nat_small del: of_nat_add)
      then show False using j(2) that by simp
    qed
    then have "m2 (dest + of_nat i) = m (dest + of_nat i)" using 2(3) by simp
    then show ?thesis using assms(2) str_at_append [of m dest as "[]"] that by simp
  qed
  then have "str_at m2 dest (as @ bs)" using 2(2) by (simp add: str_at_append)
  moreover have "str_at m1 src bs" "str_at m2 src bs" using keep [OF 1(3) sub] keep [OF 2(3) sub'] by simp_all
  moreover have "\<forall>x. x \<notin> span dest (Suc (length as + length bs)) \<longrightarrow> m2 x = m x" using 2(3) sub' by blast
  ultimately show ?thesis using 1 2 strend_at [OF assms(2)] by (simp add: strcpy_def strcat_def)
qed

theorem string_copies_witness:
  "\<exists>m'. strcat 0x2000 0x1000 ((\<lambda>_. 0)(0x1000 := 98, 0x2000 := 97)) = Some (0x2000, m') \<and> str_at m' 0x2000 [97, 98]"
proof -
  let ?m = "(\<lambda>_. 0)(0x1000 := 98, 0x2000 := 97) :: mem"
  have "str_at ?m 0x1000 [98]" "str_at ?m 0x2000 [97]" by simp_all
  moreover have "span (0x2000 :: u32) (Suc (length [97 :: u8] + length [98 :: u8])) \<inter> span 0x1000 (Suc (length [98 :: u8])) = {}"
  proof -
    have "Suc (length [97 :: u8] + length [98 :: u8]) = 3" "Suc (length [98 :: u8]) = 2" by simp_all
    moreover have "span (0x1000 :: u32) 2 \<inter> span 0x2000 3 = {}" by (rule span_disjoint) simp_all
    ultimately show ?thesis by (simp only: Int_commute)
  qed
  ultimately have "\<exists>m'. strcat 0x2000 0x1000 ?m = Some (0x2000, m') \<and> str_at m' 0x2000 ([97] @ [98]) \<and> str_at m' 0x1000 [98]
      \<and> (\<forall>x. x \<notin> span 0x2000 (Suc (length [97 :: u8] + length [98 :: u8])) \<longrightarrow> m' x = ?m x)"
    using string_copies [of ?m "0x1000" "[98]" "0x2000" "[97]"] by simp
  then show ?thesis by auto
qed

section \<open>Searching and comparing\<close>

text \<open>The address of the first byte of \<open>bs\<close> that, sign extended, is \<open>c\<close>; 0 when there is none.\<close>

definition first_at :: "u32 \<Rightarrow> u32 \<Rightarrow> u8 list \<Rightarrow> u32" where
  "first_at s c bs = (let i = length (takeWhile (\<lambda>b. scast b \<noteq> c) bs) in if i < length bs then s + of_nat i else 0)"

lemma first_at_simps: "first_at s c [] = 0" "first_at s c (b # bs) = (if scast b = c then s else first_at (s + 1) c bs)"
  by (simp_all add: first_at_def Let_def algebra_simps)

lemma strchr_at: "str_at m s bs \<Longrightarrow> strchr s c m = Some (first_at s c bs)"
proof (induction bs arbitrary: s)
  case (Cons b bs)
  then show ?case by (subst strchr.simps) (simp add: first_at_simps char_at_def)
qed (subst strchr.simps, simp add: first_at_simps)

text \<open>The address of the last one.\<close>

definition last_at :: "u32 \<Rightarrow> u32 \<Rightarrow> u8 list \<Rightarrow> u32" where
  "last_at s c bs = foldl (\<lambda>a (i, b). if scast b = c then s + of_nat i else a) 0 (zip [0..<0 + length bs] bs)"

lemma zip_upt_Cons: "zip [i..<i + length (b # bs)] (b # bs) = (i, b) # zip [Suc i..<Suc i + length bs] bs"
  by (simp add: upt_conv_Cons del: upt_Suc)

lemma strrchr_loop_at:
  "str_at m (s + of_nat i) bs \<Longrightarrow>
   strrchr_loop a (s + of_nat i) c m =
     Some (foldl (\<lambda>a (i, b). if scast b = c then s + of_nat i else a) a (zip [i..<i + length bs] bs))"
proof (induction bs arbitrary: i a)
  case (Cons b bs)
  have "str_at m (s + of_nat (Suc i)) bs" using Cons.prems by (simp add: algebra_simps)
  from Cons.IH [OF this, of "if scast b = c then s + of_nat i else a"] show ?case
    using Cons.prems unfolding zip_upt_Cons by (subst strrchr_loop.simps) (simp add: char_at_def algebra_simps del: upt_Suc)
qed (subst strrchr_loop.simps, simp)

lemma strrchr_at: "str_at m s bs \<Longrightarrow> strrchr s c m = Some (last_at s c bs)"
  using strrchr_loop_at [of m s 0 bs 0 c] by (simp add: strrchr_def last_at_def)

lemma memchr_loop_at:
  "memchr_loop s c i m k = first_at (s + of_nat i) c (map (\<lambda>j. m (s + of_nat j)) [i..<i + k])"
proof (induction k arbitrary: i)
  case (Suc k)
  have "map (\<lambda>j. m (s + of_nat j)) [i..<i + Suc k] = m (s + of_nat i) # map (\<lambda>j. m (s + of_nat j)) [Suc i..<Suc i + k]"
    by (simp add: upt_conv_Cons del: upt_Suc)
  moreover have "memchr_loop s c (i + 1) m k = first_at (s + of_nat (Suc i)) c (map (\<lambda>j. m (s + of_nat j)) [Suc i..<Suc i + k])"
    using Suc [of "Suc i"] by (simp only: Suc_eq_plus1)
  ultimately show ?case by (simp add: first_at_simps char_at_def algebra_simps del: upt_Suc)
qed (simp add: first_at_simps)

text \<open>Comparison of two strings as signed characters, in the order of the dictionary.\<close>

fun cmp :: "u8 list \<Rightarrow> u8 list \<Rightarrow> int" where
  "cmp (a # as) (b # bs) = (if sint a < sint b then -1 else if sint a > sint b then 1 else cmp as bs)"
| "cmp [] (b # bs) = (if 0 < sint b then -1 else 1)"
| "cmp (a # as) [] = (if sint a < 0 then -1 else 1)"
| "cmp [] [] = 0"

lemma sint_char: "sint (scast (b :: u8) :: u32) = sint b"
  by (rule sint_up_scast) (simp add: is_up.rep_eq)

lemma sint_nonzero: "(b :: u8) \<noteq> 0 \<Longrightarrow> sint b \<noteq> 0"
  by (metis signed_0 signed_word_eqI)

lemma strncmp_loop_at:
  assumes "str_at m (s1 + of_nat i) as" "str_at m (s2 + of_nat i) bs"
  shows "strncmp_loop s1 s2 i m k = cmp (take k as) (take k bs)"
  using assms
proof (induction k arbitrary: i as bs)
  case (Suc k)
  note ih = Suc.IH [of "Suc i"]
  show ?case
  proof (cases as; cases bs)
    fix a as' b bs' assume ab: "as = a # as'" "bs = b # bs'"
    have s: "a \<noteq> 0" "b \<noteq> 0" "m (s1 + of_nat i) = a" "m (s2 + of_nat i) = b"
      "str_at m (s1 + of_nat (Suc i)) as'" "str_at m (s2 + of_nat (Suc i)) bs'"
      using Suc.prems ab by (simp_all add: algebra_simps)
    have "strncmp_loop s1 s2 (i + 1) m k = cmp (take k as') (take k bs')" using ih [OF s(5,6)] by (simp only: Suc_eq_plus1)
    then show ?thesis using s ab by (simp add: Let_def)
  qed (use Suc.prems sint_nonzero in \<open>auto simp: Let_def\<close>)
qed simp

lemma strncmp_at: "str_at m s1 as \<Longrightarrow> str_at m s2 bs \<Longrightarrow> strncmp s1 s2 n m = cmp (take (unat n) as) (take (unat n) bs)"
  using strncmp_loop_at [of m s1 0 as s2 bs "unat n"] by (simp add: strncmp_def)

text \<open>
  Property C29.  The search functions find what they look for: strchr the first and strrchr the last
  occurrence of a character in a string, memchr the first within \<open>n\<close> bytes, all with characters sign
  extended, and strncmp compares the first \<open>n\<close> characters in the order of signed characters.  None of
  them finds the terminating NUL, and a character from 128 to 255 passed as such is never found.
\<close>

theorem string_searches:
  assumes "str_at m s1 as" and "str_at m s2 bs"
  shows "strchr s1 c m = Some (first_at s1 c as) \<and> strrchr s1 c m = Some (last_at s1 c as)
    \<and> memchr s1 c n m = first_at s1 c (map (\<lambda>j. m (s1 + of_nat j)) [0..<unat n])
    \<and> strncmp s1 s2 n m = cmp (take (unat n) as) (take (unat n) bs)
    \<and> first_at s1 0 as = 0 \<and> (\<forall>xs. 128 \<le> c \<and> c < 256 \<longrightarrow> first_at s1 c xs = 0)"
proof -
  have "memchr s1 c n m = first_at s1 c (map (\<lambda>j. m (s1 + of_nat j)) [0..<unat n])"
    using memchr_loop_at [of s1 c 0 m "unat n"] by (simp add: memchr_def)
  moreover have "first_at s1 0 as = 0"
    using assms(1)
  proof (induction as arbitrary: s1)
    case (Cons b bs)
    have "(scast b :: u32) \<noteq> 0" using Cons.prems sint_nonzero [of b] sint_char [of b] by (metis signed_0 str_at.simps(2))
    then show ?case using Cons by (simp add: first_at_simps)
  qed (simp add: first_at_simps)
  moreover have "first_at s1 c xs = 0" if c: "128 \<le> c" "c < 256" for xs
  proof (induction xs arbitrary: s1)
    case (Cons b bs)
    have "(scast b :: u32) \<noteq> c"
    proof
      assume e: "scast b = c"
      have "sint c = sint b" by (simp add: sint_char flip: e)
      moreover have "sint b < 128" using sint_lt [of b] by simp
      moreover have "128 \<le> uint c" "uint c < 256" using c by (simp_all add: word_le_def word_less_def)
      then have "128 \<le> sint c" by (simp add: sint_uint signed_take_bit_int_eq_self)
      ultimately show False by simp
    qed
    then show ?case using Cons by (simp add: first_at_simps)
  qed (simp add: first_at_simps)
  ultimately show ?thesis
    using strchr_at [OF assms(1)] strrchr_at [OF assms(1)] strncmp_at [OF assms] by blast
qed

theorem string_searches_witness:
  "let m = (\<lambda>_. 0)(0x1000 := 97, 0x1001 := 98, 0x2000 := 97) in
     strchr 0x1000 98 m = Some 0x1001 \<and> strncmp 0x1000 0x2000 5 m = 1 \<and> strncmp 0x1000 0x2000 1 m = 0"
proof -
  let ?m = "(\<lambda>_. 0)(0x1000 := 97, 0x1001 := 98, 0x2000 := 97) :: mem"
  have a: "str_at ?m 0x1000 [97, 98]" "str_at ?m 0x2000 [97]" by simp_all
  have n: "unat (5 :: u32) = Suc (Suc (Suc (Suc (Suc 0))))" "unat (1 :: u32) = Suc 0" by (simp_all add: One_nat_def)
  have f: "first_at 0x1000 98 [97, 98] = 0x1001"
    by (simp add: first_at_simps) (simp add: One_nat_def)
  have "strncmp 0x1000 0x2000 5 ?m = 1" "strncmp 0x1000 0x2000 1 ?m = 0"
    using string_searches [OF a] by (simp_all add: n del: cmp.simps) (simp_all add: One_nat_def)
  then show ?thesis using string_searches [OF a, of 98] f by (simp add: Let_def)
qed

text \<open>
  strcmp looks at the first characters only: it returns exactly when they differ or the first string is
  empty, and then the sign of their difference; when the strings begin with the same character it never
  returns, since neither pointer is ever advanced.
\<close>

lemma strcmp_at:
  "strcmp s1 s2 m = (if m s1 = m s2 \<and> m s1 \<noteq> 0 then None else Some (sgn (sint (m s1) - sint (m s2))))"
proof (cases "m s1 = m s2 \<and> m s1 \<noteq> 0")
  case True
  have "False" if "strcmp s1 s2 m = Some r" for r
  proof -
    have "\<not> (m s1 = m s2 \<and> m s1 \<noteq> 0)"
    proof (rule strcmp.raw_induct [OF _ that])
      fix sc s1 s2 m r
      assume ih: "\<And>s1 s2 m r. sc s1 s2 m = Some r \<Longrightarrow> \<not> (m s1 = m s2 \<and> m s1 \<noteq> 0)"
        and b: "(if m s1 \<noteq> 0 \<and> m s2 \<noteq> 0
          then if sint (m s1) < sint (m s2) then Some (-1)
               else if sint (m s2) < sint (m s1) then Some 1 else sc s1 s2 m
          else if sint (m s1) < sint (m s2) then Some (-1)
          else if sint (m s2) < sint (m s1) then Some 1 else Some 0) = Some r"
      show "\<not> (m s1 = m s2 \<and> m s1 \<noteq> 0)" using ih [of s1 s2 m r] b by (auto split: if_splits)
    qed
    then show False using True by simp
  qed
  then show ?thesis using True by (cases "strcmp s1 s2 m") auto
next
  case False
  consider "sint (m s1) < sint (m s2)" | "sint (m s2) < sint (m s1)" | "sint (m s1) = sint (m s2)" by linarith
  then have "strcmp s1 s2 m = Some (sgn (sint (m s1) - sint (m s2)))"
  proof cases
    case 3
    then have "m s1 = m s2" by (rule signed_word_eqI)
    then show ?thesis using False by (subst strcmp.simps) simp
  qed (subst strcmp.simps, simp)+
  then show ?thesis using False by simp
qed

section \<open>calloc and realloc\<close>

lemma allocated_step:
  assumes "allocated lo ps bs s a n" "\<And>x. x \<in> span (node 1 a) 4 \<Longrightarrow> mem s' x = mem s x"
    and "ext_bytes 4096 ps' \<union> ext_bytes 1 bs' \<subseteq> A" "ext_bytes 1 [(a, unat n + 4)] \<inter> A = {}"
  shows "allocated lo ps' bs' s' a n"
proof -
  have "load32 (mem s') (node 1 a) = load32 (mem s) (node 1 a)" by (rule load32_cong [OF assms(2)])
  then show ?thesis using assms(1,3,4) by (auto simp: allocated_def)
qed

text \<open>A byte is copied when its source is not written.\<close>

lemma memcpy_loop_from:
  assumes "j < k" "i + k \<le> 2 ^ 32" "\<And>l. l < k \<Longrightarrow> s + of_nat (i + j) \<noteq> d + of_nat (i + l)"
  shows "memcpy_loop d s i m k (d + of_nat (i + j)) = m (s + of_nat (i + j))"
  using assms
proof (induction k arbitrary: i m j)
  case (Suc k)
  let ?m = "m(d + of_nat i := m (s + of_nat i))"
  show ?case
  proof (cases j)
    case 0
    have "memcpy_loop d s (i + 1) ?m k (d + of_nat i) = ?m (d + of_nat i)"
    proof (rule memcpy_loop_other)
      fix l assume "l < k"
      then have "unat (of_nat (i + 1 + l) :: u32) = i + 1 + l" "unat (of_nat i :: u32) = i"
        using Suc.prems(2) by (simp_all add: unat_of_nat_small del: of_nat_add)
      then show "d + of_nat i \<noteq> d + of_nat (i + 1 + l)" by (metis add_left_cancel less_add_one less_irrefl add.assoc le_add1 not_le)
    qed
    with 0 show ?thesis by simp
  next
    case (Suc j')
    have "s + of_nat (i + 1 + j') \<noteq> d + of_nat (i + 1 + l)" if "l < k" for l
      using Suc.prems(3) [of "Suc l"] Suc that by simp
    then have "memcpy_loop d s (i + 1) ?m k (d + of_nat (i + 1 + j')) = ?m (s + of_nat (i + 1 + j'))"
      using Suc.prems Suc by (intro Suc.IH) simp_all
    moreover have "s + of_nat (i + 1 + j') \<noteq> d + of_nat i" using Suc.prems(3) [of 0] Suc by simp
    ultimately show ?thesis using Suc by (simp add: ac_simps)
  qed
qed simp

lemma memcpy_from:
  assumes "j < unat n" "s + of_nat j \<notin> span d (unat n)"
  shows "memcpy d s n m (d + of_nat j) = m (s + of_nat j)"
  using memcpy_loop_from [of j "unat n" 0 s d m] assms unat_bounds(3) [of n]
  by (auto simp: memcpy_def span_def simp del: unat_bounds)

text \<open>The copy of realloc from one block to another.\<close>

lemma copy_block:
  assumes ok: "heap_ok lo ps bs s" and b: "allocated lo ps bs s b m" and a: "allocated lo ps bs s a n"
    and apart: "ext_bytes 1 [(a, unat n + 4)] \<inter> ext_bytes 1 [(b, unat m + 4)] = {}"
    and s': "s' = s\<lparr>mem := memcpy (node 1 (b + 4)) (node 1 (a + 4)) m (mem s)\<rparr>"
  shows "heap_ok lo ps bs s'" "allocated lo ps bs s' a n" "allocated lo ps bs s' b m"
    and "\<And>i. i < unat n \<Longrightarrow> i < unat m \<Longrightarrow> mem s' (node 1 (b + 4 + i)) = mem s (node 1 (a + 4 + i))"
proof -
  let ?d = "span (node 1 (b + 4)) (unat m)"
  have d: "?d \<subseteq> ext_bytes 1 [(b, unat m + 4)]" using b by (intro content_span) (simp add: allocated_def)
  have other: "mem s' x = mem s x" if "x \<notin> ?d" for x using that by (simp add: s' memcpy_other)
  have free: "ext_bytes 4096 ps \<union> ext_bytes 1 bs \<subseteq> heap_bytes ps bs s" by (auto simp: heap_bytes_def)
  note out = allocated_outside [OF ok b] allocated_outside [OF ok a]
  show "heap_ok lo ps bs s'"
  proof (rule heap_ok_agree [OF ok])
    show "mem s' x = mem s x" if "x \<in> heap_bytes ps bs s" for x using that d out(1) by (intro other) blast
  qed (simp_all add: s')
  have ha: "span (node 1 a) 4 \<subseteq> ext_bytes 1 [(a, unat n + 4)]" using a by (intro header_span) (simp add: allocated_def)
  show "allocated lo ps bs s' a n"
    by (rule allocated_step [OF a other free out(2)]) (use ha d apart in blast)
  show "allocated lo ps bs s' b m"
    by (rule allocated_step [OF b other free out(1)]) (use header_apart [of b "unat m"] b in \<open>auto simp: allocated_def\<close>)
  show "mem s' (node 1 (b + 4 + i)) = mem s (node 1 (a + 4 + i))" if "i < unat n" "i < unat m" for i
  proof -
    have "node 1 (a + 4) + of_nat i \<in> ext_bytes 1 [(a, unat n + 4)]"
      using content_span [of a "unat n"] a span_mem [OF that(1), of "node 1 (a + 4)"] by (auto simp: allocated_def)
    then have "node 1 (a + 4) + of_nat i \<notin> ?d" using d apart by blast
    from memcpy_from [OF that(2) this, of "mem s"] show ?thesis by (simp add: s' node1_add)
  qed
qed

text \<open>
  Property C26.  realloc of a block of 4 to 4095 bytes in use, to a size other than 0 for which the allocator
  finds room, allocates the new block, copies the first \<open>min n sz\<close> bytes of the old contents into it, gives the
  old block back to the free list, and leaves the heap well formed; the new block is in use with its header
  set.  This holds when the old block, put back, does not become the start of a free block of 4096 bytes or
  more by joining the one above it (\<open>small\<close>): there mem_free would hand whole pages inside it to the page
  list while they stay in the block list, as in property C36.
\<close>

theorem realloc_keeps_contents:
  assumes ok: "heap_ok lo ps bs s" and a: "allocated lo ps bs s a n" and n: "4 \<le> unat n" "unat n < 4096"
    and sz: "sz \<noteq> 0" "unat sz + 4 \<le> 65535 * 4096" and lock: "unat (klock s) < 2 ^ 32 - 2"
    and ab: "abs_kalloc (unat sz + 4) ps bs = Some (b, ps', bs')"
    and small: "\<forall>n'. (a, n') \<in> set (ext_insert a (unat n + 4) bs') \<longrightarrow> n' < 4096"
  shows "\<exists>t. realloc (node 1 (a + 4)) sz s = Some (Inr (node 1 (b + 4), t))
    \<and> heap_ok lo ps' (ext_insert a (unat n + 4) bs') t
    \<and> allocated lo ps' (ext_insert a (unat n + 4) bs') t b sz
    \<and> (\<forall>i < min (unat n) (unat sz). mem t (node 1 (b + 4 + i)) = mem s (node 1 (a + 4 + i)))"
proof -
  let ?A = "ext_bytes 1 [(a, unat n + 4)]" and ?B = "ext_bytes 1 [(b, unat sz + 4)]"
  obtain s1 where k: "kalloc sz s = Some (Inr (node 1 (b + 4), s1))" and ok1: "heap_ok lo ps' bs' s1"
    and bb: "4096 * lo \<le> b" "b + (unat sz + 4) \<le> 2 ^ 28" "load32 (mem s1) (node 1 b) = sz"
    and o: "\<And>x. x \<notin> heap_bytes ps bs s \<Longrightarrow> mem s1 x = mem s x"
    and u: "ext_bytes 4096 ps \<union> ext_bytes 1 bs = ext_bytes 4096 ps' \<union> ext_bytes 1 bs' \<union> ?B"
    and dis: "?B \<inter> (ext_bytes 4096 ps' \<union> ext_bytes 1 bs') = {}"
    by (rule kalloc_block [OF ok sz(2) lock]) (use kalloc_spec [OF ok sz(2) lock] ab in auto)
  note outa = allocated_outside [OF ok a]
  have apart: "?A \<inter> ?B = {}" and da: "?A \<inter> (ext_bytes 4096 ps' \<union> ext_bytes 1 bs') = {}"
    using a u by (auto simp: allocated_def)
  have keep: "mem s1 x = mem s x" if "x \<in> ?A" for x using that outa by (intro o) blast
  have ca: "span (node 1 a) 4 \<subseteq> ?A" "span (node 1 (a + 4)) (unat n) \<subseteq> ?A"
    using header_span [of a "unat n"] content_span [of a "unat n"] a by (simp_all add: allocated_def)
  have a1: "allocated lo ps' bs' s1 a n"
    by (rule allocated_step [OF a keep subset_refl da]) (use ca in blast)
  have b1: "allocated lo ps' bs' s1 b sz" using bb dis by (simp add: allocated_def)
  define s2 where "s2 = s1\<lparr>mem := memcpy (node 1 (b + 4)) (node 1 (a + 4)) sz (mem s1)\<rparr>"
  note c = copy_block [OF ok1 b1 a1 apart s2_def]
  obtain t where f: "kfree (node 1 (a + 4)) s2 = Some t" and okt: "heap_ok lo ps' (ext_insert a (unat n + 4) bs') t"
    and st: "heap_step (span (bh s2 + 4) 4 \<union> ext_bytes 1 bs' \<union> ?A) s2 t"
    using kfree_spec [OF c(1) _ _ n(1) _ _ n(2) small] c(2) unfolding allocated_def by blast
  have hb: "span (bh s2 + 4) 4 \<subseteq> heap_bytes ps' bs' s2" "ext_bytes 1 bs' \<subseteq> heap_bytes ps' bs' s2"
    using span8 [of "bh s2"] by (auto simp: heap_bytes_def)
  have keepb: "mem t x = mem s2 x" if "x \<in> ?B" for x
    using that hb allocated_outside [OF c(1,3)] apart by (intro heap_step_mem [OF st]) blast
  have "0 < unat sz" "a + (unat n + 4) \<le> 2 ^ 28" using sz(1) a by (simp_all add: unat_gt_0 allocated_def)
  then have "unat (node 1 (b + 4)) = b + 4" "unat (node 1 (a + 4)) = a + 4"
    using bb(2) n(1) by (simp_all add: node1_unat)
  then have "node 1 (b + 4) \<noteq> 0" "node 1 (a + 4) \<noteq> 0" by auto
  then have "realloc (node 1 (a + 4)) sz s = Some (Inr (node 1 (b + 4), t))"
    using sz(1) k f by (simp add: realloc_def realloc_move_def s2_def Let_def)
  moreover have "allocated lo ps' (ext_insert a (unat n + 4) bs') t b sz"
  proof (rule allocated_step [OF c(3)])
    show "mem t x = mem s2 x" if "x \<in> span (node 1 b) 4" for x
      using that header_span [OF bb(2)] by (intro keepb) blast
    show "?B \<inter> (?A \<union> (ext_bytes 4096 ps' \<union> ext_bytes 1 bs')) = {}" using apart dis by blast
  qed (auto simp: ext_bytes_insert)
  moreover have "mem t (node 1 (b + 4 + i)) = mem s (node 1 (a + 4 + i))" if "i < min (unat n) (unat sz)" for i
  proof -
    have "node 1 (b + 4 + i) \<in> ?B" "node 1 (a + 4 + i) \<in> ?A"
      using that content_span [OF bb(2)] ca(2) span_mem [of i "unat sz" "node 1 (b + 4)"]
        span_mem [of i "unat n" "node 1 (a + 4)"] by (auto simp: node1_add)
    then show ?thesis using that c(4) [of i] keepb keep by simp
  qed
  ultimately show ?thesis using okt by blast
qed

theorem realloc_keeps_contents_witness:
  "\<exists>(s :: kmem) t. heap_ok 256 [(256, 3)] [(1060864, 3992)] s \<and> realloc (node 1 1064860) 200 s = Some (Inr (node 1 1064656, t))
    \<and> heap_ok 256 [(256, 3)] [(1060864, 3788), (1064856, 104)] t
    \<and> (\<forall>i < 100. mem t (node 1 (1064656 + i)) = mem s (node 1 (1064860 + i)))"
proof -
  have u: "unat (100 :: u32) + 4 = 104" "unat (200 :: u32) + 4 = 204" by simp_all
  have ab: "abs_kalloc 104 [(256, 4)] [] = Some (1064856, [(256, 3)], [(1060864, 3992)])"
    and ab2: "abs_kalloc 204 [(256, 3)] [(1060864, 3992)] = Some (1064652, [(256, 3)], [(1060864, 3788)])"
    by (simp_all add: abs_kalloc_def abs_search.simps pages_for_def ext_insert_def attach_def)
  have "\<exists>s :: kmem. heap_ok 256 [(256, 3)] [(1060864, 3992)] s \<and> allocated 256 [(256, 3)] [(1060864, 3992)] s 1064856 100
    \<and> klock s = klock four_pages"
  proof (rule kalloc_block [OF four_pages_heap, of 100])
    assume "\<exists>h. kalloc 100 four_pages = Some (Inl h)"
    then show ?thesis using four_pages_kalloc by auto
  next
    fix a ps' bs' and s' :: kmem
    assume h: "abs_kalloc (unat (100 :: u32) + 4) [(256, 4)] [] = Some (a, ps', bs')" "heap_ok 256 ps' bs' s'"
      "4096 * 256 \<le> a" "a + (unat (100 :: u32) + 4) \<le> 2 ^ 28" "load32 (mem s') (node 1 a) = 100"
      "klock s' = klock four_pages" "ext_bytes 1 [(a, unat (100 :: u32) + 4)] \<inter> (ext_bytes 4096 ps' \<union> ext_bytes 1 bs') = {}"
    have e: "a = 1064856" "ps' = [(256, 3)]" "bs' = [(1060864, 3992)]" using h(1) unfolding u ab by simp_all
    have "allocated 256 ps' bs' s' a 100" using h(3-5,7) by (simp only: allocated_def simp_thms)
    then show ?thesis using h(2,6) unfolding e by blast
  qed (simp_all add: four_pages_sel)
  then obtain s :: kmem where s: "heap_ok 256 [(256, 3)] [(1060864, 3992)] s" "allocated 256 [(256, 3)] [(1060864, 3992)] s 1064856 100"
    "klock s = klock four_pages" by blast
  have ins: "ext_insert 1064856 104 [(1060864, 3788)] = [(1060864, 3788), (1064856, 104)]"
    by (simp add: ext_insert_def attach_def)
  have "\<exists>t. realloc (node 1 (1064856 + 4)) 200 s = Some (Inr (node 1 (1064652 + 4), t))
    \<and> heap_ok 256 [(256, 3)] (ext_insert 1064856 (unat (100 :: u32) + 4) [(1060864, 3788)]) t
    \<and> allocated 256 [(256, 3)] (ext_insert 1064856 (unat (100 :: u32) + 4) [(1060864, 3788)]) t 1064652 200
    \<and> (\<forall>i < min (unat (100 :: u32)) (unat (200 :: u32)). mem t (node 1 (1064652 + 4 + i)) = mem s (node 1 (1064856 + 4 + i)))"
    by (rule realloc_keeps_contents [OF s(1,2)]) (use ab2 in \<open>simp_all add: u s(3) four_pages_sel ins\<close>)
  then show ?thesis using s(1) by (auto simp: u ins)
qed

text \<open>calloc: the block handed out is zero, and its size is the product modulo \<open>2 ^ 32\<close>.\<close>

lemma calloc_zeroes:
  assumes ok: "heap_ok lo ps bs s" and n: "unat (nmemb * sz) + 4 \<le> 65535 * 4096" and lock: "unat (klock s) < 2 ^ 32 - 2"
    and c: "calloc nmemb sz s = Some (Inr (p, t))"
  shows "\<exists>a ps' bs'. p = node 1 (a + 4) \<and> heap_ok lo ps' bs' t \<and> allocated lo ps' bs' t a (nmemb * sz)
    \<and> (\<forall>i < unat (nmemb * sz). mem t (p + of_nat i) = 0)"
proof (rule kalloc_block [OF ok n lock])
  assume "\<exists>h. kalloc (nmemb * sz) s = Some (Inl h)"
  then show ?thesis using c by (auto simp: calloc_def)
next
  fix a ps' bs' s'
  assume k: "kalloc (nmemb * sz) s = Some (Inr (node 1 (a + 4), s'))" and ok': "heap_ok lo ps' bs' s'"
    and a: "4096 * lo \<le> a" "a + (unat (nmemb * sz) + 4) \<le> 2 ^ 28" "load32 (mem s') (node 1 a) = nmemb * sz"
    and dis: "ext_bytes 1 [(a, unat (nmemb * sz) + 4)] \<inter> (ext_bytes 4096 ps' \<union> ext_bytes 1 bs') = {}"
  have al: "allocated lo ps' bs' s' a (nmemb * sz)" using a dis by (simp add: allocated_def)
  have t: "p = node 1 (a + 4)" "t = s'\<lparr>mem := memset p 0 (nmemb * sz) (mem s')\<rparr>"
    using c k by (auto simp: calloc_def)
  have other: "mem t x = mem s' x" if "x \<notin> span p (unat (nmemb * sz))" for x using that t(2) by (simp add: memset_bytes)
  have sub: "span p (unat (nmemb * sz)) \<subseteq> ext_bytes 1 [(a, unat (nmemb * sz) + 4)]"
    unfolding t(1) by (rule content_span [OF a(2)])
  have "heap_ok lo ps' bs' t"
    by (rule heap_ok_agree [OF ok']) (use allocated_outside [OF ok' al] sub other t(2) in auto)
  moreover have "allocated lo ps' bs' t a (nmemb * sz)"
    by (rule allocated_step [OF al other subset_refl dis]) (use header_apart [OF a(2)] t(1) in auto)
  moreover have "mem t (p + of_nat i) = 0" if "i < unat (nmemb * sz)" for i
    using t(2) span_mem [OF that, of p] by (simp add: memset_bytes)
  ultimately show ?thesis using t(1) by blast
qed

end
