(* ===== verification/Scan.thy ===== *)
theory Scan
  imports Format
begin

text \<open>
  The number scanner of the C library for perl: strtoul and atoi of kernel/perlwrap.c, with the character
  classes of the kernel.  A position is an index into the string.  The lemmas give the result for every
  input: which characters are read, the value, the sign, the answer when the number is too large.
\<close>

section \<open>Definitions\<close>

definition char_at_index :: "string \<Rightarrow> nat \<Rightarrow> char" where
  "char_at_index p i = peek (drop i p)"

definition einval :: int where "einval = 22"
definition erange :: int where "erange = 34"

text \<open>What a call does: the value returned, the position stored through \<open>endptr\<close> when that is not null, and the value stored in \<open>errno\<close>.\<close>

type_synonym scan = "u32 \<times> nat option \<times> int option"

primrec skip_space :: "string \<Rightarrow> nat \<Rightarrow> nat" where
  "skip_space [] s = s"
| "skip_space (c # cs) s = (if isspace c then skip_space cs (s + 1) else s)"

definition scan_sign :: "string \<Rightarrow> nat \<Rightarrow> bool \<times> nat" where
  "scan_sign p s =
     (if char_at_index p s = CHR ''-'' then (True, s + 1)
      else if char_at_index p s = CHR ''+'' then (False, s + 1)
      else (False, s))"

definition scan_prefix :: "string \<Rightarrow> nat \<Rightarrow> int \<Rightarrow> nat \<times> int" where
  "scan_prefix p s base =
     (if char_at_index p s = CHR ''0''
      then if (base = 0 \<or> base = 16) \<and> toupper (char_at_index p (s + 1)) = CHR ''X'' then (s + 2, 16)
           else if base = 0 then (s, 8)
           else (s, base)
      else if base = 0 then (s, 10)
      else (s, base))"

text \<open>The value of a character as a digit, an \<open>unsigned char\<close>; \<open>None\<close> where the loop breaks off.\<close>

definition conv_digit :: "char \<Rightarrow> u8 option" where
  "conv_digit c =
     (if 48 \<le> byte_of c \<and> byte_of c \<le> 57 then Some (of_nat (byte_of c) - 48)
      else if isalpha c then Some (of_nat (byte_of (toupper c)) - 65 + 10)
      else None)"

text \<open>The loop over the digits; \<open>end\<close> is the null pointer, which \<open>s\<close> never is.\<close>

fun conv_loop :: "string \<Rightarrow> int \<Rightarrow> nat \<Rightarrow> u32 \<Rightarrow> bool \<Rightarrow> nat \<times> u32 \<times> bool" where
  "conv_loop [] base s i overflow = (s, i, overflow)"
| "conv_loop (c # cs) base s i overflow =
     (if c = nul then (s, i, overflow)
      else case conv_digit c of
        None \<Rightarrow> (s, i, overflow)
      | Some c \<Rightarrow>
          if uint c \<ge> base then (s, i, overflow)
          else
            (let cutoff = (- 1 :: u32) div of_int base; cutlim = (- 1 :: u32) mod of_int base
             in if i > cutoff \<or> (i = cutoff \<and> ucast c > cutlim)
                then conv_loop cs base (s + 1) i True
                else conv_loop cs base (s + 1) (i * of_int base + ucast c) overflow))"

definition noconv :: "string \<Rightarrow> nat \<Rightarrow> scan" where
  "noconv p save =
     (0, Some (if save \<ge> 2 \<and> toupper (char_at_index p (save - 1)) = CHR ''X'' \<and> char_at_index p (save - 2) = CHR ''0''
               then save - 1 else 0), None)"

definition strtoul :: "string \<Rightarrow> int \<Rightarrow> scan" where
  "strtoul nptr base =
     (if base < 0 \<or> base = 1 \<or> base > 36 then (0, None, Some einval)
      else
        let s = skip_space nptr 0 in
        if char_at_index nptr s = nul then noconv nptr 0
        else
          let (negative, s) = scan_sign nptr s;
              (s, base) = scan_prefix nptr s base;
              save = s;
              (s, i, overflow) = conv_loop (drop s nptr) base s 0 False
          in if s = save then noconv nptr save
             else if overflow then (- 1, Some s, Some erange)
             else (if negative then - i else i, Some s, None))"

definition atoi :: "string \<Rightarrow> u32" where
  "atoi nptr = fst (strtoul nptr 10)"

section \<open>Digits\<close>

text \<open>The digits of the bases up to 36, and the number a text in such a base stands for.\<close>

definition alnum_value :: "char \<Rightarrow> nat" where
  "alnum_value c =
     (if 48 \<le> byte_of c \<and> byte_of c \<le> 57 then byte_of c - 48
      else if 65 \<le> byte_of c \<and> byte_of c \<le> 90 then byte_of c - 55
      else if 97 \<le> byte_of c \<and> byte_of c \<le> 122 then byte_of c - 87
      else 255)"

definition text_value :: "nat \<Rightarrow> string \<Rightarrow> nat" where
  "text_value b ds = foldl (\<lambda>a c. a * b + alnum_value c) 0 ds"

definition base_digit :: "int \<Rightarrow> char \<Rightarrow> bool" where
  "base_digit b c \<longleftrightarrow> int (alnum_value c) < b"

lemma isalpha_iff:
  "isalpha c \<longleftrightarrow> 65 \<le> byte_of c \<and> byte_of c \<le> 90 \<or> 97 \<le> byte_of c \<and> byte_of c \<le> 122
     \<or> 192 \<le> byte_of c \<and> byte_of c \<noteq> 215 \<and> byte_of c \<noteq> 247"
  unfolding isalpha_def
  by (rule ctype_tableI [where p = "\<lambda>n. 65 \<le> n \<and> n \<le> 90 \<or> 97 \<le> n \<and> n \<le> 122 \<or> 192 \<le> n \<and> n \<noteq> 215 \<and> n \<noteq> 247"])
    (simp add: ctype_table_def ct_bits)

lemma u8_diff: "k \<le> n \<Longrightarrow> n < 256 \<Longrightarrow> unat (of_nat n - of_nat k :: u8) = n - k"
  by (simp flip: of_nat_diff add: unat_of_nat)

lemma conv_digit_value:
  "case conv_digit c of None \<Rightarrow> alnum_value c = 255
   | Some d \<Rightarrow> unat d = alnum_value c \<or> 36 < unat d \<and> alnum_value c = 255"
proof -
  let ?n = "byte_of c"
  have up: "of_nat m - 65 + 10 = (of_nat m - of_nat 55 :: u8)" for m :: nat by simp
  consider "48 \<le> ?n" "?n \<le> 57" | "65 \<le> ?n" "?n \<le> 90" | "97 \<le> ?n" "?n \<le> 122"
    | "192 \<le> ?n" "?n \<le> 222" "?n \<noteq> 215" | "223 \<le> ?n" "?n \<noteq> 247" | "\<not> isalpha c" "\<not> (48 \<le> ?n \<and> ?n \<le> 57)"
    by (fastforce simp: isalpha_iff)
  then show ?thesis
  proof cases
    case 1
    then show ?thesis using u8_diff [of 48 ?n] by (simp add: conv_digit_def alnum_value_def)
  next
    case 2
    then have "\<not> islower c" "isalpha c" by (auto simp: islower_iff isalpha_iff)
    with 2 show ?thesis using u8_diff [of 55 ?n] by (simp add: conv_digit_def alnum_value_def toupper_id up)
  next
    case 3
    then have "isalpha c" by (simp add: isalpha_iff)
    with 3 show ?thesis using u8_diff [of 55 "?n - 32"]
      by (simp add: conv_digit_def alnum_value_def byte_of_toupper_ascii up)
  next
    case 4
    then have "\<not> islower c" "isalpha c" by (auto simp: islower_iff isalpha_iff)
    moreover have "36 < ?n - 55" using 4 by linarith
    ultimately show ?thesis using 4 u8_diff [of 55 ?n] by (simp add: conv_digit_def alnum_value_def toupper_id up)
  next
    case 5
    then have "islower c" "isalpha c" by (auto simp: islower_iff isalpha_iff)
    moreover have "byte_of (toupper c) = ?n - 32"
    proof -
      obtain k where k: "?n = k + 32" using 5(1) nat_le_iff_add [of 32 ?n] by auto
      then have "toupper c = char_of (k + 256)" using \<open>islower c\<close> by (simp add: toupper_def)
      moreover have "k < 256" using k byte_of_less [of c] by linarith
      ultimately show ?thesis using k by (simp add: byte_of_def)
    qed
    moreover have "36 < ?n - 32 - 55" using 5 by linarith
    moreover have "unat (of_nat (?n - 32) - of_nat 55 :: u8) = ?n - 32 - 55"
      by (rule u8_diff) (use 5 byte_of_less [of c] in linarith)+
    ultimately show ?thesis using 5 by (simp add: conv_digit_def alnum_value_def up)
  next
    case 6
    then have "\<not> (65 \<le> ?n \<and> ?n \<le> 90)" "\<not> (97 \<le> ?n \<and> ?n \<le> 122)" by (auto simp: isalpha_iff)
    with 6 show ?thesis by (auto simp add: conv_digit_def alnum_value_def)
  qed
qed

lemma base_digit_conv:
  assumes "2 \<le> b" "b \<le> 36"
  shows "base_digit b c \<longleftrightarrow> c \<noteq> nul \<and> (\<exists>d. conv_digit c = Some d \<and> \<not> b \<le> uint d)"
    and "base_digit b c \<Longrightarrow> conv_digit c = Some (of_nat (alnum_value c))"
proof -
  have nul: "conv_digit nul = None" by (simp add: conv_digit_def isalpha_iff)
  show "base_digit b c \<longleftrightarrow> c \<noteq> nul \<and> (\<exists>d. conv_digit c = Some d \<and> \<not> b \<le> uint d)"
  proof (cases "conv_digit c")
    case (Some d)
    then have c: "c \<noteq> nul" using nul by auto
    consider "alnum_value c = unat d" | "36 < unat d" "alnum_value c = 255"
      using conv_digit_value [of c] Some by auto
    then show ?thesis
    proof cases
      case 2
      then have "int 36 < int (unat d)" by (simp only: of_nat_less_iff)
      then have "36 < uint d" by simp
      then show ?thesis using 2 Some assms by (simp add: base_digit_def)
    qed (use Some c in \<open>simp add: base_digit_def not_le\<close>)
  qed (use conv_digit_value [of c] assms in \<open>simp add: base_digit_def\<close>)
  show "conv_digit c = Some (of_nat (alnum_value c))" if "base_digit b c"
  proof (cases "conv_digit c")
    case (Some d)
    then have "unat d = alnum_value c" using conv_digit_value [of c] that assms by (auto simp: base_digit_def)
    moreover have "of_nat (unat d) = d" by simp
    ultimately have "of_nat (alnum_value c) = d" by simp
    then show ?thesis using Some by simp
  qed (use conv_digit_value [of c] that assms in \<open>simp add: base_digit_def\<close>)
qed

text \<open>The test against the cut-off is exact: it holds when the next value leaves 32 bits.\<close>

lemma cutoff_exact:
  fixes i :: u32
  assumes "2 \<le> b" "b \<le> 36" "d < nat b"
  shows "i > (- 1 :: u32) div of_int b \<or> (i = (- 1 :: u32) div of_int b \<and> (of_nat d :: u32) > (- 1 :: u32) mod of_int b)
    \<longleftrightarrow> 2 ^ 32 \<le> unat i * nat b + d"
proof -
  let ?q = "4294967295 div nat b" and ?r = "4294967295 mod nat b"
  have m: "unat (- 1 :: u32) = 4294967295" by (simp add: unsigned_minus_1_eq_mask mask_eq_exp_minus_1)
  have b: "unat (of_int b :: u32) = nat b"
  proof -
    have "(of_int b :: u32) = of_nat (nat b)" using assms by simp
    moreover have "unat (of_nat (nat b) :: u32) = nat b" using assms by (intro unat_of_nat_small) simp
    ultimately show ?thesis by simp
  qed
  have q: "unat ((- 1 :: u32) div of_int b) = ?q" by (simp only: unat_div m b)
  have r: "unat ((- 1 :: u32) mod of_int b) = ?r" by (simp only: unat_mod m b)
  have d: "unat (of_nat d :: u32) = d" using assms by (intro unat_of_nat_small) simp
  have e: "?q * nat b + ?r = 4294967295" by (rule div_mult_mod_eq)
  have rb: "?r < nat b" using assms by simp
  have "?q < unat i \<or> ?q = unat i \<and> ?r < d \<longleftrightarrow> 4294967295 < unat i * nat b + d"
  proof -
    consider "?q + 1 \<le> unat i" | "?q = unat i" | "unat i + 1 \<le> ?q" by linarith
    then show ?thesis
    proof cases
      case 1
      then have "(?q + 1) * nat b \<le> unat i * nat b" by (rule mult_le_mono1)
      then have "?q * nat b + nat b \<le> unat i * nat b" by (simp add: algebra_simps)
      then have "4294967295 < unat i * nat b + d" using e rb by linarith
      then show ?thesis using 1 by auto
    next
      case 2
      then have "unat i * nat b + ?r = 4294967295" using e by simp
      then show ?thesis using 2 by auto
    next
      case 3
      then have "(unat i + 1) * nat b \<le> ?q * nat b" by (rule mult_le_mono1)
      then have "unat i * nat b + nat b \<le> ?q * nat b" by (simp add: algebra_simps)
      then have "\<not> 4294967295 < unat i * nat b + d" using e assms(3) by linarith
      then show ?thesis using 3 by auto
    qed
  qed
  moreover have "(2 :: nat) ^ 32 = Suc 4294967295" by simp
  ultimately show ?thesis
    by (simp only: word_less_nat_alt word_unat_eq_iff q r d Suc_le_eq) auto
qed

lemma text_value_step: "foldl (\<lambda>a c. a * b + alnum_value c) n ds \<ge> n" if "0 < b" for n b :: nat
proof (induction ds arbitrary: n)
  case (Cons d ds)
  have "n \<le> n * b + alnum_value d" using that by (simp add: trans_le_add1)
  then show ?case using Cons [of "n * b + alnum_value d"] by simp
qed simp

lemma conv_loop_spec:
  assumes "2 \<le> b" "b \<le> 36" "overflow \<longleftrightarrow> 2 ^ 32 \<le> n" "\<not> overflow \<Longrightarrow> unat i = n"
  shows "\<exists>i'. conv_loop cs b s i overflow =
      (s + length (takeWhile (base_digit b) cs), i', 2 ^ 32 \<le> foldl (\<lambda>a c. a * nat b + alnum_value c) n (takeWhile (base_digit b) cs))
    \<and> (foldl (\<lambda>a c. a * nat b + alnum_value c) n (takeWhile (base_digit b) cs) < 2 ^ 32
       \<longrightarrow> unat i' = foldl (\<lambda>a c. a * nat b + alnum_value c) n (takeWhile (base_digit b) cs))"
  using assms(3,4)
proof (induction cs arbitrary: s i overflow n)
  case Nil
  then show ?case by (simp add: not_le [symmetric])
next
  case (Cons c cs)
  show ?case
  proof (cases "base_digit b c")
    case False
    then have "conv_loop (c # cs) b s i overflow = (s, i, overflow)"
      using base_digit_conv(1) [OF assms(1,2), of c] by (auto split: option.split)
    then show ?thesis using False Cons.prems by (simp add: not_le [symmetric])
  next
    case True
    let ?d = "alnum_value c" and ?n = "n * nat b + alnum_value c"
    have d: "?d < nat b" "?d < 256" using True assms(1,2) by (simp_all add: base_digit_def)
    have nn: "c \<noteq> nul" "\<not> b \<le> uint (of_nat ?d :: u8)"
      using True base_digit_conv [OF assms(1,2), of c] by auto
    have u: "ucast (of_nat ?d :: u8) = (of_nat ?d :: u32)"
      using d by (simp add: word_unat_eq_iff unat_ucast_up unat_of_nat_small)
    let ?ov = "i > (- 1 :: u32) div of_int b \<or> (i = (- 1 :: u32) div of_int b \<and> (of_nat ?d :: u32) > (- 1 :: u32) mod of_int b)"
    have eq: "conv_loop (c # cs) b s i overflow =
        (if ?ov then conv_loop cs b (s + 1) i True
         else conv_loop cs b (s + 1) (i * of_int b + of_nat ?d) overflow)"
      using nn base_digit_conv(2) [OF assms(1,2) True] by (simp add: u Let_def)
    have ov: "?ov \<longleftrightarrow> 2 ^ 32 \<le> unat i * nat b + ?d" by (rule cutoff_exact [OF assms(1,2) d(1)])
    have step: "\<exists>i2 ov2. conv_loop (c # cs) b s i overflow = conv_loop cs b (s + 1) i2 ov2
        \<and> (ov2 \<longleftrightarrow> 2 ^ 32 \<le> ?n) \<and> (\<not> ov2 \<longrightarrow> unat i2 = ?n)"
    proof (cases overflow)
      case True
      have "n \<le> ?n" using text_value_step [of "nat b" n "[c]"] assms(1) by simp
      then show ?thesis using True Cons.prems(1) unfolding eq by (cases ?ov) auto
    next
      case False
      then have i: "unat i = n" by (rule Cons.prems(2))
      show ?thesis
      proof (cases ?ov)
        case True
        then show ?thesis using ov i eq by auto
      next
        case no: False
        have "unat (i * of_int b + of_nat ?d) = ?n"
        proof -
          have "i * of_int b + of_nat ?d = (of_nat ?n :: u32)"
          proof -
            have "of_nat (unat i) = i" by simp
            then have "i = of_nat n" using i by simp
            then show ?thesis using assms(1) by simp
          qed
          moreover have "?n < 2 ^ LENGTH(32)" using no ov i by simp
          ultimately show ?thesis by (metis unat_of_nat_small)
        qed
        then show ?thesis using no ov i False eq by auto
      qed
    qed
    then obtain i2 ov2 where e: "conv_loop (c # cs) b s i overflow = conv_loop cs b (s + 1) i2 ov2"
      and i2: "ov2 \<longleftrightarrow> 2 ^ 32 \<le> ?n" "\<not> ov2 \<Longrightarrow> unat i2 = ?n" by auto
    from Cons.IH [OF i2, of "s + 1"] show ?thesis using True unfolding e by (simp add: add.assoc)
  qed
qed

section \<open>What strtoul returns\<close>

text \<open>
  The base \<open>b\<close> in which the rest \<open>cs\<close> of the text is read, after a prefix \<open>p\<close>, when the caller asks for \<open>base\<close>.
\<close>

inductive number_base :: "int \<Rightarrow> string \<Rightarrow> int \<Rightarrow> string \<Rightarrow> bool" where
  hex: "base = 0 \<or> base = 16 \<Longrightarrow> p = ''0x'' \<or> p = ''0X'' \<Longrightarrow> number_base base p 16 cs"
| oct: "peek cs = CHR ''0'' \<Longrightarrow> toupper (peek (tl cs)) \<noteq> CHR ''X'' \<Longrightarrow> number_base 0 [] 8 cs"
| dec: "peek cs \<noteq> CHR ''0'' \<Longrightarrow> number_base 0 [] 10 cs"
| given: "2 \<le> base \<Longrightarrow> base \<le> 36 \<Longrightarrow> base \<noteq> 16 \<or> peek cs \<noteq> CHR ''0'' \<or> toupper (peek (tl cs)) \<noteq> CHR ''X'' \<Longrightarrow>
    number_base base [] base cs"

lemma index_append: "char_at_index (as @ cs) (length as + k) = char_at_index cs k"
  by (simp add: char_at_index_def)

lemma index_0: "char_at_index cs 0 = peek cs" "char_at_index cs 1 = peek (tl cs)"
  by (simp_all add: char_at_index_def drop_Suc One_nat_def)

lemma toupper_x: "toupper (CHR ''x'') = CHR ''X''" "toupper (CHR ''X'') = CHR ''X''"
  by code_simp+

lemma base_range: "number_base base p b cs \<Longrightarrow> 2 \<le> b \<and> b \<le> 36 \<and> 0 \<le> base \<and> base \<noteq> 1 \<and> base \<le> 36"
  by (induction rule: number_base.induct) auto

lemma scan_prefix_at:
  assumes "number_base base p b cs"
  shows "scan_prefix (as @ p @ cs) (length as) base = (length as + length p, b)"
proof -
  have i: "char_at_index (as @ p @ cs) (length as) = peek (p @ cs)"
    "char_at_index (as @ p @ cs) (length as + 1) = peek (tl (p @ cs))"
    using index_append [of as "p @ cs" 0] index_append [of as "p @ cs" 1] index_0 [of "p @ cs"] by simp_all
  show ?thesis
    using assms unfolding scan_prefix_def i
    by cases (auto simp: toupper_x)
qed

lemma skip_space_at: "list_all isspace ws \<Longrightarrow> \<not> isspace (peek cs) \<Longrightarrow> skip_space (ws @ cs) s = s + length ws"
proof (induction ws arbitrary: s)
  case Nil
  then show ?case by (cases cs) simp_all
qed simp

definition sign_ok :: "string \<Rightarrow> string \<Rightarrow> bool" where
  "sign_ok sg cs \<longleftrightarrow> sg = ''-'' \<or> sg = ''+'' \<or> sg = [] \<and> peek cs \<noteq> CHR ''-'' \<and> peek cs \<noteq> CHR ''+'' \<and> \<not> isspace (peek cs)"

lemma scan_sign_at:
  assumes "sign_ok sg cs"
  shows "scan_sign (ws @ sg @ cs) (length ws) = (sg = ''-'', length ws + length sg)"
proof -
  have i: "char_at_index (ws @ sg @ cs) (length ws) = peek (sg @ cs)"
    using index_append [of ws "sg @ cs" 0] by (simp add: index_0)
  show ?thesis using assms unfolding scan_sign_def i by (auto simp: sign_ok_def)
qed

lemma take_digits:
  assumes "list_all P ds" "rest = [] \<or> \<not> P (hd rest)"
  shows "takeWhile P (ds @ rest) = ds"
  using assms by (cases rest) (auto simp: list_all_iff takeWhile_append2)

lemma blank_no_prefix: "isspace c \<or> c = CHR ''-'' \<or> c = CHR ''+'' \<Longrightarrow> toupper c \<noteq> CHR ''X''"
proof -
  have x: "byte_of (CHR ''X'') = 88" by code_simp
  have "toupper (CHR ''-'') \<noteq> CHR ''X''" "toupper (CHR ''+'') \<noteq> CHR ''X''" by code_simp+
  moreover have "toupper c \<noteq> CHR ''X''" if "isspace c"
  proof -
    have "\<not> islower c" "byte_of c \<noteq> 88" using that by (auto simp: isspace_iff islower_iff)
    then show ?thesis using x by (auto simp: toupper_id)
  qed
  ultimately show "isspace c \<or> c = CHR ''-'' \<or> c = CHR ''+'' \<Longrightarrow> toupper c \<noteq> CHR ''X''" by auto
qed

lemma noconv_at:
  assumes "list_all isspace ws" "sign_ok sg (p @ cs)" "number_base base p b cs"
  shows "noconv (ws @ sg @ p @ cs) (length ws + length sg + length p) =
    (0, Some (if p = [] then 0 else length ws + length sg + 1), None)"
proof (cases "p = []")
  case True
  have "toupper (char_at_index (ws @ sg @ cs) (length (ws @ sg) - 1)) \<noteq> CHR ''X''" if "2 \<le> length (ws @ sg)"
  proof -
    have ne: "ws @ sg \<noteq> []" using that by auto
    then have "char_at_index (ws @ sg @ cs) (length (ws @ sg) - 1) = last (ws @ sg)"
      unfolding append_assoc [symmetric] char_at_index_def using that
      by (cases "ws @ sg" rule: rev_cases) (simp_all add: One_nat_def)
    moreover have "isspace (last (ws @ sg)) \<or> last (ws @ sg) = CHR ''-'' \<or> last (ws @ sg) = CHR ''+''"
      using assms(1,2) ne by (auto simp: sign_ok_def list_all_iff last_append)
    ultimately show ?thesis using blank_no_prefix by metis
  qed
  then show ?thesis using True by (auto simp: noconv_def)
next
  case False
  from assms(3) False have "p = ''0x'' \<or> p = ''0X''" by cases simp_all
  then obtain x where p: "p = [CHR ''0'', x]" "toupper x = CHR ''X''" using toupper_x by metis
  have "char_at_index (ws @ sg @ p @ cs) (length ws + length sg + k) = char_at_index (p @ cs) k" for k
    using index_append [of "ws @ sg" "p @ cs" k] by simp
  from this [of 0] this [of 1] show ?thesis
    using p index_0 [of "p @ cs"] by (simp add: noconv_def)
qed

lemma strtoul_at:
  assumes "list_all isspace ws" "sign_ok sg (p @ ds @ rest)" "number_base base p b (ds @ rest)"
    and "list_all (base_digit b) ds" "rest = [] \<or> \<not> base_digit b (hd rest)"
  shows "strtoul (ws @ sg @ p @ ds @ rest) base =
    (let n = text_value (nat b) ds; e = length (ws @ sg @ p @ ds)
     in if ds = [] then (0, Some (if p = [] then 0 else length ws + length sg + 1), None)
        else if 2 ^ 32 \<le> n then (- 1, Some e, Some erange)
        else (if sg = ''-'' then - of_nat n else of_nat n, Some e, None))"
proof -
  let ?cs = "p @ ds @ rest" and ?e = "length ws + length sg + length p"
  let ?nptr = "ws @ sg @ ?cs"
  have b: "2 \<le> b" "b \<le> 36" "\<not> (base < 0 \<or> base = 1 \<or> 36 < base)" using base_range [OF assms(3)] by auto
  have sp: "\<not> isspace (peek (sg @ ?cs))" using assms(2) by (auto simp: sign_ok_def isspace_iff byte_of_def)
  then have skip: "skip_space ?nptr 0 = length ws" using skip_space_at [OF assms(1)] by simp
  have pk: "char_at_index ?nptr (length ws) = peek (sg @ ?cs)"
    using index_append [of ws "sg @ ?cs" 0] by (simp add: index_0)
  have sg: "scan_sign ?nptr (length ws) = (sg = ''-'', length ws + length sg)" by (rule scan_sign_at [OF assms(2)])
  have pre: "scan_prefix ?nptr (length ws + length sg) base = (?e, b)"
    using scan_prefix_at [OF assms(3), of "ws @ sg"] by simp
  have dr: "drop ?e ?nptr = ds @ rest" by simp
  obtain i where loop: "conv_loop (ds @ rest) b ?e 0 False = (?e + length ds, i, 2 ^ 32 \<le> text_value (nat b) ds)"
    and i: "text_value (nat b) ds < 2 ^ 32 \<Longrightarrow> unat i = text_value (nat b) ds"
    using conv_loop_spec [OF b(1,2), of False 0 0 "ds @ rest" ?e] take_digits [OF assms(4,5)]
    by (auto simp: text_value_def)
  show ?thesis
  proof (cases "peek (sg @ ?cs) = nul")
    case True
    have "sg = []" using True assms(2) by (auto simp: sign_ok_def nul_def)
    moreover have "p = []" using assms(3) True \<open>sg = []\<close> by cases (auto simp: nul_def)
    moreover have "ds = []" using assms(4) True base_digit_conv(1) [OF b(1,2), of nul] calculation by (cases ds) auto
    ultimately show ?thesis using b(3) skip pk True by (simp add: strtoul_def noconv_def)
  next
    case False
    have "of_nat (text_value (nat b) ds) = i" if "text_value (nat b) ds < 2 ^ 32"
    proof -
      have "of_nat (unat i) = i" by simp
      then show ?thesis using i [OF that] by simp
    qed
    moreover have nc: "noconv ?nptr ?e = (0, Some (if p = [] then 0 else length ws + length sg + 1), None)"
      by (rule noconv_at [OF assms(1-3)])
    moreover have "strtoul ?nptr base =
        (if ds = [] then (0, Some (if p = [] then 0 else length ws + length sg + 1), None)
         else if 2 ^ 32 \<le> text_value (nat b) ds then (- 1, Some (?e + length ds), Some erange)
         else (if sg = ''-'' then - i else i, Some (?e + length ds), None))"
      using b(3) False by (simp add: strtoul_def skip pk sg pre dr loop nc [simplified] Let_def del: append_assoc split del: if_split cong: if_cong)
    ultimately show ?thesis by (simp add: Let_def not_le)
  qed
qed

text \<open>
  Property C27.  strtoul on every text in a valid base: after blanks and a sign it takes the base of the
  prefix, reads the longest run of digits of that base, and leaves \<open>endptr\<close> behind it; the result is the
  number, negated modulo \<open>2 ^ 32\<close> after a minus sign, or \<open>ULONG_MAX\<close> with \<open>ERANGE\<close> exactly when the number
  does not fit 32 bits.  With no digit the result is 0 and \<open>endptr\<close> is the start, or the \<open>x\<close> of a lone \<open>0x\<close>.
\<close>

theorem strtoul_reads_number:
  assumes "list_all isspace ws" "sign_ok sg (p @ ds @ rest)" "number_base base p b (ds @ rest)"
    and "list_all (base_digit b) ds" "rest = [] \<or> \<not> base_digit b (hd rest)"
  shows "strtoul (ws @ sg @ p @ ds @ rest) base =
    (let n = text_value (nat b) ds; e = length (ws @ sg @ p @ ds)
     in if ds = [] then (0, Some (if p = [] then 0 else length ws + length sg + 1), None)
        else if 2 ^ 32 \<le> n then (- 1, Some e, Some erange)
        else (if sg = ''-'' then - of_nat n else of_nat n, Some e, None))"
  by (rule strtoul_at [OF assms])

theorem strtoul_reads_number_witness:
  "strtoul '' -0x1fz'' 0 = (- 31, Some 6, None) \<and> strtoul ''4294967296'' 10 = (- 1, Some 10, Some erange)"
proof -
  have d: "list_all (base_digit 16) ''1f''" "\<not> base_digit 16 (hd ''z'')" "list_all isspace '' ''"
    "list_all (base_digit 10) ''4294967296''" "text_value 16 ''1f'' = 31" "text_value 10 ''4294967296'' = 4294967296"
    by (simp_all add: base_digit_def alnum_value_def text_value_def byte_of_def isspace_iff)
  have "number_base 0 ''0x'' 16 (''1f'' @ ''z'')" by (rule number_base.hex) simp_all
  note 1 = strtoul_reads_number [OF d(3) _ this d(1) disjI2 [OF d(2)], of "''-''"]
  have "number_base 10 [] 10 (''4294967296'' @ [])" by (rule number_base.given) simp_all
  note 2 = strtoul_reads_number [OF _ _ this d(4) disjI1 [OF refl], of "[]" "[]"]
  have "\<not> isspace (CHR ''4'')" by code_simp
  then show ?thesis using 1 2 d(5,6) by (simp add: sign_ok_def Let_def)
qed

section \<open>Reading back what the formatter prints\<close>

lemma decimal_digit:
  assumes "is_digit 10 c"
  shows "base_digit 10 c" "alnum_value c = hexval c" "\<not> isspace c" "c \<noteq> CHR ''-''" "c \<noteq> CHR ''+''"
proof -
  have c: "48 \<le> byte_of c \<and> byte_of c \<le> 57" using assms by (auto simp: is_digit_def isxdigit_iff hexval_def split: if_splits)
  then show "base_digit 10 c" "alnum_value c = hexval c" "\<not> isspace c"
    by (simp_all add: base_digit_def alnum_value_def hexval_def isspace_iff)
  have "byte_of (CHR ''-'') = 45" "byte_of (CHR ''+'') = 43" by (simp_all add: byte_of_def)
  then show "c \<noteq> CHR ''-''" "c \<noteq> CHR ''+''" using c by auto
qed

lemma text_value_positional: "list_all (is_digit 10) ds \<Longrightarrow> text_value 10 ds = positional 10 ds"
  by (induction ds rule: rev_induct) (simp_all add: text_value_def decimal_digit)

lemma strtoul_decimal:
  assumes "n < 2 ^ 32" "sg = [] \<or> sg = ''-''"
  shows "strtoul (sg @ digits_text 10 n) 10 =
    (if sg = ''-'' then - of_nat n else of_nat n, Some (length sg + length (digits_text 10 n)), None)"
proof -
  let ?ds = "digits_text 10 n"
  have ds: "list_all (is_digit 10) ?ds" "positional 10 ?ds = n" "?ds \<noteq> []"
    using digits_text_digits [of 10] digits_text_peek [of 10 n] by simp_all
  then have "is_digit 10 (peek ?ds)" by (cases ?ds) simp_all
  then have so: "sign_ok sg ([] @ ?ds @ [])" using assms(2) by (auto simp: sign_ok_def decimal_digit)
  have bd: "list_all (base_digit 10) ?ds" using ds(1) by (auto simp: list_all_iff decimal_digit)
  have nb: "number_base 10 [] 10 (?ds @ [])" by (rule number_base.given) simp_all
  have "strtoul ([] @ sg @ [] @ ?ds @ []) 10 =
    (let n = text_value (nat 10) ?ds; e = length ([] @ sg @ [] @ ?ds)
     in if ?ds = [] then (0, Some (if ([] :: string) = [] then 0 else length ([] :: string) + length sg + 1), None)
        else if 2 ^ 32 \<le> n then (- 1, Some e, Some erange)
        else (if sg = ''-'' then - of_nat n else of_nat n, Some e, None))"
    by (rule strtoul_at [OF _ so nb bd]) simp_all
  then show ?thesis using ds assms(1) by (simp add: text_value_positional Let_def)
qed

text \<open>
  Property C28.  atoi reads back every C int that %d prints, the most negative one included, although it
  goes through the unsigned scanner.
\<close>

theorem atoi_of_printed_int:
  "\<exists>out len. vsprintf ''%d'' [VInt w] = Some (out @ [nul], len, []) \<and> atoi out = w"
proof -
  have "vsprintf ''%d'' [VInt w] = Some (dec_text (sint w) @ [nul], int (length (dec_text (sint w))), [])"
    using vsp_pieces [of "[Dec w]" 0] by (simp add: vsprintf_def)
  moreover have "atoi (dec_text (sint w)) = w"
  proof -
    let ?n = "nat \<bar>sint w\<bar>"
    have "\<bar>sint w\<bar> \<le> 2 ^ 31" using sint_less [of w] sint_ge [of w] by simp
    then have n: "?n < 2 ^ 32" by simp
    have "(if sint w < 0 then - of_nat ?n else of_nat ?n) = w" by simp
    then show ?thesis
      using strtoul_decimal [OF n, of "if sint w < 0 then ''-'' else []"]
      by (simp add: atoi_def dec_text_def split: if_splits)
  qed
  ultimately show ?thesis by blast
qed

end
