(* ===== verification/Desc.thy ===== *)
theory Desc
  imports Machine
begin

text \<open>
  include/kernel/bitmap.h, include/kernel/gdt.h and include/asm/system.h: bit maps in memory, the fields
  of segment descriptors, and the gates of the interrupt descriptor table.
\<close>

declare One_nat_def [simp del]

section \<open>Bit maps\<close>

definition bitmap_set :: "u32 \<Rightarrow> u32 \<Rightarrow> mem \<Rightarrow> mem" where
  "bitmap_set bitmap n m =
     (let target_byte = bitmap + n div 8
      in m(target_byte := m target_byte OR push_bit (unat (n mod 8)) 1))"

definition bitmap_reset :: "u32 \<Rightarrow> u32 \<Rightarrow> mem \<Rightarrow> mem" where
  "bitmap_reset bitmap n m =
     (let target_byte = bitmap + n div 8
      in m(target_byte := m target_byte AND NOT (push_bit (unat (n mod 8)) 1)))"

definition bitmap_test :: "u32 \<Rightarrow> u32 \<Rightarrow> mem \<Rightarrow> u8" where
  "bitmap_test bitmap n m =
     (let target_byte = bitmap + n div 8 in m target_byte AND push_bit (unat (n mod 8)) 1)"

text \<open>
  \<open>for (i = start; i <= finish; i++)\<close> with unsigned \<open>i\<close>: when \<open>finish\<close> is the largest unsigned number the
  condition never fails.
\<close>

partial_function (option) range_loop :: "(u32 \<Rightarrow> mem \<Rightarrow> mem) \<Rightarrow> u32 \<Rightarrow> u32 \<Rightarrow> mem \<Rightarrow> mem option" where
  "range_loop f i finish m = (if i \<le> finish then range_loop f (i + 1) finish (f i m) else Some m)"

definition bitmap_set_range :: "u32 \<Rightarrow> u32 \<Rightarrow> u32 \<Rightarrow> mem \<Rightarrow> mem option" where
  "bitmap_set_range bitmap start finish m = range_loop (bitmap_set bitmap) start finish m"

definition bitmap_reset_range :: "u32 \<Rightarrow> u32 \<Rightarrow> u32 \<Rightarrow> mem \<Rightarrow> mem option" where
  "bitmap_reset_range bitmap start finish m = range_loop (bitmap_reset bitmap) start finish m"

text \<open>The set of numbers a bit map holds.\<close>

definition members :: "u32 \<Rightarrow> mem \<Rightarrow> u32 set" where
  "members bitmap m = {n. bitmap_test bitmap n m \<noteq> 0}"

lemma in_members: "n \<in> members b m \<longleftrightarrow> bit (m (b + n div 8)) (unat (n mod 8))"
proof -
  have "push_bit k (1 :: u8) = 2 ^ k" for k by (simp add: push_bit_eq_mult)
  then show ?thesis by (simp add: members_def bitmap_test_def Let_def and_exp_eq_0_iff_not_bit)
qed

lemma same_bit:
  fixes n k :: u32
  shows "n div 8 = k div 8 \<and> unat (n mod 8) = unat (k mod 8) \<longleftrightarrow> n = k"
proof
  assume a: "n div 8 = k div 8 \<and> unat (n mod 8) = unat (k mod 8)"
  then have "n mod 8 = k mod 8" by (auto intro: unsigned_word_eqI)
  then show "n = k" using a by (metis mult_div_mod_eq)
qed simp

lemma mod8: "unat ((n :: u32) mod 8) < 8"
  by (simp add: unat_mod)

lemma members_ops:
  "members b (bitmap_set b n m) = insert n (members b m)"
  "members b (bitmap_reset b n m) = members b m - {n}"
proof -
  have bits: "bit (push_bit (unat (n mod 8)) 1 :: u8) (unat (k mod 8)) \<longleftrightarrow> unat (k mod 8) = unat (n mod 8)" for k :: u32
    using mod8 [of k] mod8 [of n] by (auto simp: bit_simps)
  have "k \<in> members b (bitmap_set b n m) \<longleftrightarrow> k \<in> insert n (members b m)" for k
    using same_bit [of k n] bits [of k]
    by (auto simp: in_members bitmap_set_def Let_def bit_or_iff)
  then show "members b (bitmap_set b n m) = insert n (members b m)" by blast
  have "k \<in> members b (bitmap_reset b n m) \<longleftrightarrow> k \<in> members b m - {n}" for k
    using same_bit [of k n] bits [of k] mod8 [of k]
    by (auto simp: in_members bitmap_reset_def Let_def bit_and_iff bit_not_iff)
  then show "members b (bitmap_reset b n m) = members b m - {n}" by blast
qed

lemma range_loop_end:
  assumes "finish \<noteq> -1"
  shows "range_loop f i finish m = Some (fold f (map of_nat [unat i..<Suc (unat finish)]) m)"
  using assms
proof (induction "Suc (unat finish) - unat i" arbitrary: i m)
  case 0
  then have "\<not> i \<le> finish" by (simp add: word_le_nat_alt)
  then show ?case using 0 by (subst range_loop.simps) simp
next
  case (Suc k)
  then have le: "i \<le> finish" "unat i \<le> unat finish" by (simp_all add: word_le_nat_alt)
  have "unat (-1 :: u32) = 4294967295" by (simp add: unsigned_minus_1_eq_mask mask_eq_exp_minus_1)
  then have "unat finish \<noteq> 4294967295" using Suc.prems unsigned_word_eqI [of finish "-1"] by metis
  moreover have "unat finish < 4294967296" by simp
  ultimately have "unat i + 1 < 4294967296" using le(2) by linarith
  then have n: "unat (i + 1) = Suc (unat i)" using unat_add_nowrap [of i 1] by simp
  have "range_loop f i finish m = range_loop f (i + 1) finish (f i m)"
    using le(1) by (subst range_loop.simps) simp
  also have "\<dots> = Some (fold f (map of_nat [unat (i + 1)..<Suc (unat finish)]) (f i m))"
    by (rule Suc.hyps(1)) (use Suc n in auto)
  also have "\<dots> = Some (fold f (map of_nat [unat i..<Suc (unat finish)]) m)"
    using le(2) by (simp add: n upt_conv_Cons del: upt_Suc)
  finally show ?case .
qed

lemma range_loop_some:
  assumes "range_loop f i finish m = Some r"
  shows "finish \<noteq> -1"
proof (rule range_loop.raw_induct [OF _ assms])
  fix rl f r and i finish :: u32 and m :: mem
  assume ih: "\<And>f i finish m r. rl f i finish m = Some r \<Longrightarrow> finish \<noteq> -1"
    and b: "(if i \<le> finish then rl f (i + 1) finish (f i m) else Some m) = Some r"
  have "i \<le> -1" by (rule word_order.extremum)
  then show "finish \<noteq> -1" using b ih by (auto split: if_splits)
qed

lemma range_loop_forever: "range_loop f i (-1) m = None"
  using range_loop_some [of f i "-1" m] by (cases "range_loop f i (-1) m") auto

lemma fold_members:
  "members b (fold (bitmap_set b) ks m) = members b m \<union> set ks"
  "members b (fold (bitmap_reset b) ks m) = members b m - set ks"
  by (induction ks arbitrary: m) (auto simp: members_ops)

lemma fold_bytes:
  assumes "a \<notin> (\<lambda>k. b + k div 8) ` set ks"
  shows "fold (bitmap_set b) ks m a = m a" "fold (bitmap_reset b) ks m a = m a"
  using assms by (induction ks arbitrary: m) (auto simp: bitmap_set_def bitmap_reset_def Let_def)

lemma word_interval:
  fixes i j :: u32
  shows "set (map of_nat [unat i..<Suc (unat j)]) = {i..j}"
proof -
  have "k \<in> set (map of_nat [unat i..<Suc (unat j)]) \<longleftrightarrow> k \<in> {i..j}" for k :: u32
  proof
    assume "k \<in> set (map of_nat [unat i..<Suc (unat j)])"
    then obtain n where n: "k = of_nat n" "unat i \<le> n" "n \<le> unat j" by auto
    moreover have "n < 2 ^ 32" using n(3) unsigned_less [of j] by (simp add: le_less_trans)
    then have "unat k = n" using n(1) by (simp add: unat_of_nat_small)
    ultimately show "k \<in> {i..j}" by (simp add: word_le_nat_alt)
  next
    assume "k \<in> {i..j}"
    then have "unat k \<in> set [unat i..<Suc (unat j)]" by (auto simp: word_le_nat_alt simp del: upt_Suc)
    moreover have "k = of_nat (unat k)" by simp
    ultimately show "k \<in> set (map of_nat [unat i..<Suc (unat j)])" by (metis image_eqI set_map)
  qed
  then show ?thesis by blast
qed

text \<open>
  bitmap_set_range adds exactly the numbers from \<open>start\<close> to \<open>finish\<close> to the set a bit map
  holds, bitmap_reset_range removes exactly these, and both change no byte but those of the range, when
  \<open>finish\<close> is not the largest unsigned number; when it is, neither of them ever returns.
\<close>

theorem bitmap_ranges:
  "(if finish = -1 then bitmap_set_range b start finish m = None \<and> bitmap_reset_range b start finish m = None
    else \<exists>m1 m2. bitmap_set_range b start finish m = Some m1 \<and> bitmap_reset_range b start finish m = Some m2
      \<and> members b m1 = members b m \<union> {start..finish} \<and> members b m2 = members b m - {start..finish}
      \<and> {a. m1 a \<noteq> m a} \<union> {a. m2 a \<noteq> m a} \<subseteq> (\<lambda>k. b + k div 8) ` {start..finish})"
proof (cases "finish = -1")
  case True
  then show ?thesis by (simp add: bitmap_set_range_def bitmap_reset_range_def range_loop_forever)
next
  case False
  let ?ks = "map of_nat [unat start..<Suc (unat finish)] :: u32 list"
  have "{a. fold (bitmap_set b) ?ks m a \<noteq> m a} \<union> {a. fold (bitmap_reset b) ?ks m a \<noteq> m a}
      \<subseteq> (\<lambda>k. b + k div 8) ` set ?ks"
    using fold_bytes [of _ b ?ks m] by blast
  then show ?thesis
    unfolding bitmap_set_range_def bitmap_reset_range_def range_loop_end [OF False] word_interval [symmetric]
    using False fold_members [of b ?ks m] by (simp only: if_False) blast
qed

section \<open>Segment descriptors\<close>

text \<open>The bit fields of \<open>struct gdt_entry\<close> at their widths.\<close>

record gdt_entry =
  limit_low :: "16 word"
  base_low :: "16 word"
  base_middle :: "8 word"
  seg_type :: "4 word"
  desc_type :: "1 word"
  dpl :: "2 word"
  present :: "1 word"
  limit_high :: "4 word"
  avail :: "1 word"
  reserved :: "1 word"
  op_size :: "1 word"
  granularity :: "1 word"
  base_high :: "8 word"

definition gdt_get_limit :: "gdt_entry \<Rightarrow> u32" where
  "gdt_get_limit g = ucast (limit_low g) OR push_bit 16 (ucast (limit_high g))"

definition gdt_set_limit :: "u32 \<Rightarrow> gdt_entry \<Rightarrow> gdt_entry" where
  "gdt_set_limit limit g =
     (let g = g\<lparr>limit_low := ucast (drop_bit 0 limit AND 0xffff)\<rparr>
      in g\<lparr>limit_high := ucast (drop_bit 16 limit AND 0xf)\<rparr>)"

definition gdt_get_base :: "gdt_entry \<Rightarrow> u32" where
  "gdt_get_base g = ucast (base_low g) OR push_bit 16 (ucast (base_middle g)) OR push_bit 24 (ucast (base_high g))"

definition gdt_set_base :: "u32 \<Rightarrow> gdt_entry \<Rightarrow> gdt_entry" where
  "gdt_set_base base g =
     (let g = g\<lparr>base_low := ucast (drop_bit 0 base AND 0xffff)\<rparr>;
          g = g\<lparr>base_middle := ucast (drop_bit 16 base AND 0xff)\<rparr>
      in g\<lparr>base_high := ucast (drop_bit 24 base AND 0xff)\<rparr>)"

lemma masks: "(0xffff :: u32) = mask 16" "(0xff :: u32) = mask 8" "(0xf :: u32) = mask 4" "(0xfffff :: u32) = mask 20"
  by (simp_all add: mask_eq_exp_minus_1)

text \<open>
  The fields of a segment descriptor are read as they were written: the base comes back
  whole, the limit as its low twenty bits, and neither setter disturbs what the other wrote.
\<close>

theorem gdt_fields_roundtrip:
  "gdt_get_base (gdt_set_base b g) = b \<and> gdt_get_limit (gdt_set_limit l g) = l AND 0xfffff
   \<and> gdt_get_limit (gdt_set_base b g) = gdt_get_limit g \<and> gdt_get_base (gdt_set_limit l g) = gdt_get_base g"
proof -
  have b: "gdt_get_base (gdt_set_base b g) = b"
  proof (rule bit_word_eqI)
    fix n assume "n < LENGTH(32)"
    then show "bit (gdt_get_base (gdt_set_base b g)) n = bit b n"
      unfolding gdt_get_base_def gdt_set_base_def Let_def masks
      by (cases "n < 16"; cases "n < 24") (auto simp: bit_simps)
  qed
  have l: "gdt_get_limit (gdt_set_limit l g) = l AND 0xfffff"
    unfolding gdt_get_limit_def gdt_set_limit_def Let_def masks
    by (rule bit_word_eqI) (auto simp: bit_simps)
  show ?thesis using b l by (simp add: gdt_get_limit_def gdt_set_base_def gdt_get_base_def gdt_set_limit_def Let_def)
qed

section \<open>Gates\<close>

definition KERNEL_CODE :: u16 where "KERNEL_CODE = 0x10"
definition KERNEL_DATA :: u16 where "KERNEL_DATA = 0x18"

definition set_gate :: "u32 \<Rightarrow> u8 \<Rightarrow> u8 \<Rightarrow> u32 \<Rightarrow> u16 \<Rightarrow> mem \<Rightarrow> mem" where
  "set_gate desc type dpl' addr segment m =
     (let m = store32 m desc (push_bit 16 (ucast segment) + (addr AND 0xffff))
      in store32 m (desc + 4)
           ((addr AND 0xffff0000) + push_bit 15 1 + push_bit 13 (ucast dpl') + push_bit 8 (ucast type)))"

text \<open>\<open>&idt[n]\<close>: a gate has eight bytes.\<close>

definition set_intr_gate :: "u32 \<Rightarrow> u16 \<Rightarrow> u32 \<Rightarrow> mem \<Rightarrow> mem" where
  "set_intr_gate idt n addr m = set_gate (idt + 8 * ucast n) 14 0 addr KERNEL_CODE m"

definition set_trap_gate :: "u32 \<Rightarrow> u16 \<Rightarrow> u32 \<Rightarrow> mem \<Rightarrow> mem" where
  "set_trap_gate idt n addr m = set_gate (idt + 8 * ucast n) 15 0 addr KERNEL_CODE m"

text \<open>How the processor reads a gate: the entry point, the selector, the type, the level and the present bit.\<close>

definition gate_entry :: "u32 \<Rightarrow> mem \<Rightarrow> u32" where
  "gate_entry d m = (load32 m d AND 0xffff) OR (load32 m (d + 4) AND 0xffff0000)"
definition gate_selector :: "u32 \<Rightarrow> mem \<Rightarrow> u16" where
  "gate_selector d m = ucast (drop_bit 16 (load32 m d))"
definition gate_type :: "u32 \<Rightarrow> mem \<Rightarrow> u32" where
  "gate_type d m = take_bit 5 (drop_bit 8 (load32 m (d + 4)))"
definition gate_dpl :: "u32 \<Rightarrow> mem \<Rightarrow> u32" where
  "gate_dpl d m = take_bit 2 (drop_bit 13 (load32 m (d + 4)))"
definition gate_present :: "u32 \<Rightarrow> mem \<Rightarrow> bool" where
  "gate_present d m \<longleftrightarrow> bit (load32 m (d + 4)) 15"

lemma high_bits_clear:
  fixes x :: u8
  assumes "unat x < 2 ^ k" "k \<le> n"
  shows "\<not> bit x n"
proof -
  have "unat (take_bit k x) = unat x" using assms(1) by (simp add: unsigned_take_bit_eq take_bit_nat_eq_self)
  then have "take_bit k x = x" by (rule unsigned_word_eqI)
  then show ?thesis using assms(2) by (metis bit_take_bit_iff not_le)
qed

lemma present_bit: "bit (32768 :: int) n \<longleftrightarrow> n = 15" "bit (256 :: int) n \<longleftrightarrow> n = 8" "bit (8 :: int) n \<longleftrightarrow> n = 3"
proof -
  have "(32768 :: int) = 2 ^ 15" "(256 :: int) = 2 ^ 8" "(8 :: int) = 2 ^ 3" by simp_all
  then show "bit (32768 :: int) n \<longleftrightarrow> n = 15" "bit (256 :: int) n \<longleftrightarrow> n = 8" "bit (8 :: int) n \<longleftrightarrow> n = 3"
    by (simp_all only: bit_exp_iff possible_bit_def) auto
qed

text \<open>The two words of a gate: the sums are unions of disjoint fields.\<close>

lemma gate_words:
  fixes addr :: u32 and segment :: u16 and dpl' type :: u8
  assumes d: "dpl' < 4" and t: "type < 32"
  shows "push_bit 16 (ucast segment) + (addr AND 0xffff) = push_bit 16 (ucast segment) OR (addr AND 0xffff)"
    and "(addr AND 0xffff0000) + push_bit 15 1 + push_bit 13 (ucast dpl') + push_bit 8 (ucast type) =
      (addr AND 0xffff0000) OR push_bit 15 1 OR push_bit 13 (ucast dpl') OR push_bit 8 (ucast type)"
proof -
  have m: "(0xffff0000 :: u32) = push_bit 16 (mask 16)" by (simp add: mask_eq_exp_minus_1 push_bit_eq_mult)
  have d': "\<not> bit dpl' n" if "2 \<le> n" for n
    by (rule high_bits_clear [OF _ that]) (use d in \<open>simp add: word_less_nat_alt\<close>)
  have t': "\<not> bit type n" if "5 \<le> n" for n
    by (rule high_bits_clear [OF _ that]) (use t in \<open>simp add: word_less_nat_alt\<close>)
  show "push_bit 16 (ucast segment) + (addr AND 0xffff) = push_bit 16 (ucast segment) OR (addr AND 0xffff)"
    unfolding masks by (rule disjunctive_add_eq_or) (rule bit_word_eqI, auto simp: bit_simps present_bit)
  have 1: "(addr AND 0xffff0000) + push_bit 15 1 = (addr AND 0xffff0000) OR push_bit 15 1"
    unfolding m by (rule disjunctive_add_eq_or) (rule bit_word_eqI, auto simp: bit_simps present_bit)
  have 2: "((addr AND 0xffff0000) OR push_bit 15 1) + push_bit 13 (ucast dpl') =
      ((addr AND 0xffff0000) OR push_bit 15 1) OR push_bit 13 (ucast dpl')"
    unfolding m by (rule disjunctive_add_eq_or) (rule bit_word_eqI, auto simp: bit_simps present_bit d')
  have 3: "(((addr AND 0xffff0000) OR push_bit 15 1) OR push_bit 13 (ucast dpl')) + push_bit 8 (ucast type) =
      (((addr AND 0xffff0000) OR push_bit 15 1) OR push_bit 13 (ucast dpl')) OR push_bit 8 (ucast type)"
    unfolding m by (rule disjunctive_add_eq_or) (rule bit_word_eqI, auto simp: bit_simps present_bit t')
  show "(addr AND 0xffff0000) + push_bit 15 1 + push_bit 13 (ucast dpl') + push_bit 8 (ucast type) =
      (addr AND 0xffff0000) OR push_bit 15 1 OR push_bit 13 (ucast dpl') OR push_bit 8 (ucast type)"
    unfolding 1 2 3 by (simp add: or.assoc)
qed

lemma gate_fields:
  fixes addr d :: u32 and segment :: u16 and dpl' type :: u8 and m :: mem
  assumes "dpl' < 4" "type < 32"
  defines "m' \<equiv> set_gate d type dpl' addr segment m"
  shows "gate_entry d m' = addr" "gate_selector d m' = segment" "gate_type d m' = ucast type"
    "gate_dpl d m' = ucast dpl'" "gate_present d m'" "x \<notin> span d 8 \<Longrightarrow> m' x = m x"
proof -
  have hi: "(0xffff0000 :: u32) = push_bit 16 (mask 16)" by (simp add: mask_eq_exp_minus_1 push_bit_eq_mult)
  have apart: "span d 4 \<inter> span (d + 4) 4 = {}"
  proof -
    have "x = 0 \<or> x = 1 \<or> x = 2 \<or> x = 3 \<Longrightarrow> y = 4 \<or> y = 5 \<or> y = 6 \<or> y = 7 \<Longrightarrow> d + x \<noteq> d + y" for x y :: u32
      by auto
    then show ?thesis by (auto simp: span4 add.assoc)
  qed
  have w: "load32 m' d = push_bit 16 (ucast segment) OR (addr AND 0xffff)"
    "load32 m' (d + 4) = (addr AND 0xffff0000) OR push_bit 15 1 OR push_bit 13 (ucast dpl') OR push_bit 8 (ucast type)"
    unfolding m'_def set_gate_def Let_def gate_words [OF assms(1,2)]
    using load32_store32_other [OF apart] by (simp_all add: mem_simps)
  have d': "\<not> bit dpl' n" if "2 \<le> n" for n
    by (rule high_bits_clear [OF _ that]) (use assms(1) in \<open>simp add: word_less_nat_alt\<close>)
  have t': "\<not> bit type n" if "5 \<le> n" for n
    by (rule high_bits_clear [OF _ that]) (use assms(2) in \<open>simp add: word_less_nat_alt\<close>)
  have d'': "bit dpl' n \<Longrightarrow> n < 2" for n using d' not_le by blast
  show "gate_entry d m' = addr"
    unfolding gate_entry_def w hi masks by (rule bit_word_eqI) (auto simp: bit_simps present_bit d' t')
  show "gate_selector d m' = segment"
    unfolding gate_selector_def w masks by (rule bit_word_eqI) (auto simp: bit_simps present_bit)
  show "gate_type d m' = ucast type"
    unfolding gate_type_def w hi by (rule bit_word_eqI) (auto simp: bit_simps present_bit d' t')
  show "gate_dpl d m' = ucast dpl'"
    unfolding gate_dpl_def w hi
    by (rule bit_word_eqI) (use d' in \<open>auto simp: bit_simps present_bit t' dest: d''\<close>)
  show "gate_present d m'"
    unfolding gate_present_def w hi by (auto simp: bit_simps present_bit)
  assume "x \<notin> span d 8"
  moreover have "span d 4 \<subseteq> span d 8" by (rule span_mono) simp
  moreover have "span (d + 4) 4 \<subseteq> span d 8" using span_shift [of 4 4 8 d] by simp
  ultimately have "x \<notin> span d 4" "x \<notin> span (d + 4) 4" by blast+
  then show "m' x = m x" by (simp add: m'_def set_gate_def Let_def store32_other)
qed

text \<open>What a gate says, as one value.\<close>

definition gate :: "u32 \<Rightarrow> mem \<Rightarrow> u32 \<times> u16 \<times> u32 \<times> u32 \<times> bool" where
  "gate d m = (gate_entry d m, gate_selector d m, gate_type d m, gate_dpl d m, gate_present d m)"

lemma gate_cong: "(\<And>x. x \<in> span d 8 \<Longrightarrow> m x = m' x) \<Longrightarrow> gate d m = gate d m'"
proof -
  assume a: "\<And>x. x \<in> span d 8 \<Longrightarrow> m x = m' x"
  have "span d 4 \<subseteq> span d 8" by (rule span_mono) simp
  then have 1: "load32 m d = load32 m' d" by (intro load32_cong a) auto
  have "span (d + 4) 4 \<subseteq> span d 8" using span_shift [of 4 4 8 d] by simp
  then have 2: "load32 m (d + 4) = load32 m' (d + 4)" by (intro load32_cong a) auto
  show ?thesis
    using 1 2 by (simp add: gate_def gate_entry_def gate_selector_def gate_type_def gate_dpl_def gate_present_def)
qed

text \<open>The gate of vector \<open>n\<close>; the table has 256 of them.\<close>

definition idt_gate :: "u32 \<Rightarrow> u16 \<Rightarrow> mem \<Rightarrow> u32 \<times> u16 \<times> u32 \<times> u32 \<times> bool" where
  "idt_gate idt n m = gate (idt + 8 * ucast n) m"

definition idt_fits :: "u32 \<Rightarrow> bool" where
  "idt_fits idt \<longleftrightarrow> unat idt + 8 * 256 \<le> 2 ^ 32"

lemma idt_addr:
  assumes "idt_fits idt" "n < 256"
  shows "unat (idt + 8 * ucast (n :: u16)) = unat idt + 8 * unat n"
proof -
  have n: "unat n < 256" using assms(2) by (simp add: word_less_nat_alt)
  have "unat (ucast n :: u32) = unat n" by (rule unat_ucast_up) simp
  then have "unat (8 * (ucast n :: u32)) = 8 * unat n" using n by (simp add: unat_word_ariths)
  then show ?thesis using assms(1) n by (simp add: idt_fits_def unat_word_ariths)
qed

lemma idt_gates_apart:
  fixes n k :: u16
  assumes "idt_fits idt" "n < 256" "k < 256" "n \<noteq> k"
  shows "span (idt + 8 * ucast n) 8 \<inter> span (idt + 8 * ucast k) 8 = {}"
proof -
  have u: "unat n < 256" "unat k < 256" "unat n \<noteq> unat k"
    using assms(2-4) by (auto simp: word_less_nat_alt intro: unsigned_word_eqI)
  have a: "unat (idt + 8 * ucast n) = unat idt + 8 * unat n" "unat (idt + 8 * ucast k) = unat idt + 8 * unat k"
    using idt_addr assms by blast+
  have t: "unat idt + 2048 \<le> 2 ^ 32" using assms(1) by (simp add: idt_fits_def)
  show ?thesis
  proof (cases "unat n < unat k")
    case True
    then show ?thesis by (intro span_disjoint) (use a u t in linarith)+
  next
    case False
    then have "span (idt + 8 * ucast k) 8 \<inter> span (idt + 8 * ucast n) 8 = {}"
      by (intro span_disjoint) (use a u t in linarith)+
    then show ?thesis by blast
  qed
qed

lemma set_gate_other:
  fixes n k :: u16
  assumes "idt_fits idt" "n < 256" "k < 256" "n \<noteq> k" "t < 32" "p < 4"
  shows "idt_gate idt k (set_gate (idt + 8 * ucast n) t p a seg m) = idt_gate idt k m"
  unfolding idt_gate_def
  by (rule gate_cong, rule gate_fields(6) [OF assms(6,5)]) (use idt_gates_apart [OF assms(1-4)] in blast)

lemma intr_gate_at:
  assumes "idt_fits idt" "n < 256" "k < 256"
  shows "idt_gate idt k (set_intr_gate idt n a m) = (if k = n then (a, KERNEL_CODE, 14, 0, True) else idt_gate idt k m)"
  using set_gate_other [OF assms, of 14 0] gate_fields [of 0 14]
  by (auto simp: set_intr_gate_def idt_gate_def gate_def)

lemma trap_gate_at:
  assumes "idt_fits idt" "n < 256" "k < 256"
  shows "idt_gate idt k (set_trap_gate idt n a m) = (if k = n then (a, KERNEL_CODE, 15, 0, True) else idt_gate idt k m)"
  using set_gate_other [OF assms, of 15 0] gate_fields [of 0 15]
  by (auto simp: set_trap_gate_def idt_gate_def gate_def)

end
