(* ===== verification/Irq.thy ===== *)
theory Irq
  imports Typing Desc
begin

text \<open>
  kernel/irq.c, the start-up of kernel/clock.c and kernel/keyboard.c, kernel/exception.c,
  kernel/syscall.c and the interrupt table of kernel/setup.c: who handles which vector, and what the
  common handlers do.
\<close>

declare One_nat_def [simp del]

section \<open>State\<close>

text \<open>
  \<open>handler\<close> points to do_timer_int, to do_keyboard_int, or to nothing.  \<open>hnd\<close> is the store of handler
  structures by address.  The entry points the assembler parts define are addresses of the state:
  \<open>interrupts\<close> and \<open>exception_funcs\<close> are the arrays of these names.
\<close>

datatype handler_fun = Timer_Int | Keyboard_Int

record irq_handler =
  irq :: u8
  handler :: "handler_fun option"
  hname :: string
  hnext :: u32
  hprev :: u32

record kirq = kkbd +
  hnd :: "u32 \<Rightarrow> irq_handler"
  irq_handlers :: "nat \<Rightarrow> u32"
  idt :: u32
  interrupts :: "nat \<Rightarrow> u32"
  exception_funcs :: "nat \<Rightarrow> u32"
  unexpected_int :: u32
  int3 :: u32
  syscall_entry :: u32
  timer_int :: u32
  keyboard_int :: u32

definition on_mem :: "(mem \<Rightarrow> mem) \<Rightarrow> 'a kmem_scheme \<Rightarrow> 'a kmem_scheme" where
  "on_mem f s = s\<lparr>mem := f (mem s)\<rparr>"

section \<open>kernel/irq.c\<close>

definition FIRST_VECTOR :: nat where "FIRST_VECTOR = 0x20"

function vectors_loop :: "nat \<Rightarrow> 'a kirq_scheme \<Rightarrow> 'a kirq_scheme" where
  "vectors_loop i s =
     (if i < 16
      then
        (let s = on_mem (set_intr_gate (idt s) (of_nat (FIRST_VECTOR + i)) (interrupts s i)) s;
             s = s\<lparr>irq_handlers := (irq_handlers s)(i := 0)\<rparr>
         in vectors_loop (i + 1) s)
      else s)"
  by pat_completeness auto
termination by (relation "measure (\<lambda>(i, s). 16 - i)") auto

declare vectors_loop.simps [simp del]

definition init_irq_vectors :: "'a kirq_scheme \<Rightarrow> 'a kirq_scheme" where
  "init_irq_vectors s = vectors_loop 0 s"

text \<open>
  The handler goes to the top of the linked list of its line; \<open>irq_handlers\<close> has sixteen entries, any
  other index is out of range.
\<close>

definition link_handler :: "u32 \<Rightarrow> nat \<Rightarrow> 'a kirq_scheme \<Rightarrow> 'a kirq_scheme" where
  "link_handler h n s =
     (let s = s\<lparr>hnd := (hnd s)(h := (hnd s h)\<lparr>hnext := irq_handlers s n\<rparr>)\<rparr>;
          s = s\<lparr>hnd := (hnd s)(h := (hnd s h)\<lparr>hprev := 0\<rparr>)\<rparr>;
          k = hnext (hnd s h);
          s = (if k \<noteq> 0 then s\<lparr>hnd := (hnd s)(k := (hnd s k)\<lparr>hprev := h\<rparr>)\<rparr> else s)
      in s\<lparr>irq_handlers := (irq_handlers s)(n := h)\<rparr>)"

definition register_irq_handler :: "u32 \<Rightarrow> 'a kirq_scheme \<Rightarrow> 'a kirq_scheme option" where
  "register_irq_handler h s =
     (let s = lock_kernel s;
          n = unat (irq (hnd s h))
      in if 16 \<le> n then None
         else
           (let s = link_handler h n s;
                s = enable_irq (irq (hnd s h)) s
            in Some (unlock_kernel s)))"

definition call_handler :: "handler_fun \<Rightarrow> 'a kirq_scheme \<Rightarrow> (unit, 'a kirq_scheme) kresult" where
  "call_handler f s = (case f of Timer_Int \<Rightarrow> returns (Some (do_timer_int s)) | Keyboard_Int \<Rightarrow> do_keyboard_int s)"

partial_function (option) handlers_loop :: "u32 \<Rightarrow> 'a kirq_scheme \<Rightarrow> (unit, 'a kirq_scheme) kresult" where
  "handlers_loop cur s =
     (if cur = 0 then Some (Inr ((), s))
      else
        (case handler (hnd s cur) of
           None \<Rightarrow> handlers_loop (hnext (hnd s cur)) s
         | Some f \<Rightarrow>
             (case call_handler f s of
                None \<Rightarrow> None
              | Some (Inl h) \<Rightarrow> Some (Inl h)
              | Some (Inr (_, s)) \<Rightarrow> handlers_loop (hnext (hnd s cur)) s)))"

text \<open>\<open>regs->orig_eax\<close>, at its offset in \<open>struct task_regs\<close>.\<close>

definition orig_eax :: "'a ktask_scheme \<Rightarrow> u32" where
  "orig_eax s = load32 (mem s) (regs (tsk s (current s)) + 0x24)"

definition handle_irq :: "'a kirq_scheme \<Rightarrow> (unit, 'a kirq_scheme) kresult" where
  "handle_irq s =
     (let n = ucast (orig_eax s);
          s = ack_irq n s
      in if 16 \<le> unat n then None
         else
           (let cur = irq_handlers s (unat n);
                s = (if cur = 0
                     then say (''handle_IRQ: no registered interrupt handler, IRQ%d'' @ newline) [VInt (ucast n)] s
                     else s);
                s = say (kern_debug @ ''Interrupt %i occured'' @ newline) [VInt (ucast n)] s
            in case handlers_loop cur s of
                 None \<Rightarrow> None
               | Some (Inl h) \<Rightarrow> Some (Inl h)
               | Some (Inr (_, s)) \<Rightarrow> returns (Some (enable_irq n s))))"

section \<open>The handlers of the clock and of the keyboard\<close>

definition HZ :: nat where "HZ = 100"
definition CLOCK_TICK_RATE :: nat where "CLOCK_TICK_RATE = 1193180"
definition LATCH :: nat where "LATCH = (CLOCK_TICK_RATE + HZ div 2) div HZ"

definition timer_handler :: irq_handler where
  "timer_handler = \<lparr>irq = 0, handler = Some Timer_Int, hname = ''timer'', hnext = 0, hprev = 0\<rparr>"

definition keyboard_handler :: irq_handler where
  "keyboard_handler = \<lparr>irq = 1, handler = Some Keyboard_Int, hname = ''keyboard'', hnext = 0, hprev = 0\<rparr>"

definition setup_clock :: "'a kirq_scheme \<Rightarrow> 'a kirq_scheme option" where
  "setup_clock s =
     (let s = outb_p 0x34 0x43 s;
          s = outb_p (of_nat LATCH AND 0xff) 0x40 s;
          s = outb (of_nat (LATCH div 2 ^ 8)) 0x40 s
      in register_irq_handler (timer_int s) s)"

definition setup_keyboard :: "'a kirq_scheme \<Rightarrow> 'a kirq_scheme option" where
  "setup_keyboard s = register_irq_handler (keyboard_int s) s"

section \<open>kernel/exception.c\<close>

definition exception_names :: "string list" where
  "exception_names = [
   ''de'', ''db'', ''NMI'', ''bp'', ''of'', ''br'', ''ud'', ''nm'',
   ''df'', ''reserved'', ''ts'', ''np'', ''ss'', ''gp'', ''pf'', ''reserved'',
   ''mf'', ''ac'', ''mc'', ''xf'', ''reserved'', ''reserved'', ''reserved'', ''reserved'',
   ''reserved'', ''reserved'', ''reserved'', ''reserved'',
   ''reserved'', ''reserved'', ''reserved'', ''reserved'']"

definition common_exception :: "u32 \<Rightarrow> 'a kcpu_scheme \<Rightarrow> (unit, 'a kcpu_scheme) kresult" where
  "common_exception n s =
     (if length exception_names \<le> unat n then None
      else
        (let s = lock_kernel s;
             s = say (kern_emerg @ ''exception: #%s'') [VStr (Some (exception_names ! unat n))] s
         in panic ''A processor exception occured'' [] s))"

definition common_exception_ec :: "u32 \<Rightarrow> u32 \<Rightarrow> 'a kcpu_scheme \<Rightarrow> (unit, 'a kcpu_scheme) kresult" where
  "common_exception_ec n errorcode s =
     (if length exception_names \<le> unat n then None
      else
        (let s = lock_kernel s;
             s = say (''exception: #%s error code %08lx, %s%ssegment %04lx'' @ newline)
                   [VStr (Some (exception_names ! unat n)), VInt errorcode,
                    VStr (Some (if errorcode AND 0x1 \<noteq> 0 then ''external, '' else '''')),
                    VStr (Some (if errorcode AND 0x2 \<noteq> 0 then ''LDT, ''
                                else if errorcode AND 0x4 \<noteq> 0 then ''LDT, '' else ''GDT, '')),
                    VInt (word_of_int (sint errorcode div 2 ^ 3))] s
         in panic ''A processor exception occured'' [] s))"

function exceptions_loop :: "nat \<Rightarrow> 'a kirq_scheme \<Rightarrow> 'a kirq_scheme" where
  "exceptions_loop i s =
     (if i < 32 then exceptions_loop (i + 1) (on_mem (set_intr_gate (idt s) (of_nat i) (exception_funcs s i)) s) else s)"
  by pat_completeness auto
termination by (relation "measure (\<lambda>(i, s). 32 - i)") auto

declare exceptions_loop.simps [simp del]

definition setup_exceptions :: "'a kirq_scheme \<Rightarrow> 'a kirq_scheme" where
  "setup_exceptions s = exceptions_loop 0 s"

section \<open>kernel/setup.c: the interrupt table\<close>

function unexpected_loop :: "nat \<Rightarrow> 'a kirq_scheme \<Rightarrow> 'a kirq_scheme" where
  "unexpected_loop i s =
     (if i < 256 then unexpected_loop (i + 1) (on_mem (set_intr_gate (idt s) (of_nat i) (unexpected_int s)) s) else s)"
  by pat_completeness auto
termination by (relation "measure (\<lambda>(i, s). 256 - i)") auto

declare unexpected_loop.simps [simp del]

text \<open>The load of the table register is left out.\<close>

definition setup_interrupts :: "'a kirq_scheme \<Rightarrow> (unit, 'a kirq_scheme) kresult" where
  "setup_interrupts s =
     (case kalloc (256 * 8) s of
        None \<Rightarrow> None
      | Some (Inl h) \<Rightarrow> Some (Inl h)
      | Some (Inr (p, s)) \<Rightarrow>
          (let s = s\<lparr>idt := p\<rparr>;
               s = unexpected_loop 0 s;
               s = on_mem (set_intr_gate (idt s) 3 (int3 s)) s
           in Some (Inr ((), s))))"

section \<open>kernel/syscall.c\<close>

text \<open>
  A call that waits for a key leaves the processor to other tasks: the result says whether the call has
  finished, or waits in getch; the task goes on with \<open>syscall_getch\<close> when it is current again.
\<close>

datatype sysresult = Finished | In_Getch

definition set_result :: "u32 \<Rightarrow> 'a ktask_scheme \<Rightarrow> 'a ktask_scheme" where
  "set_result v s =
     (let s = on_mem (\<lambda>m. store32 m (regs (tsk s (current s)) + 0x18) v) s
      in on_mem (\<lambda>m. store32 m (regs (tsk s (current s)) + 0x24) v) s)"

definition syscall_getch :: "u32 \<Rightarrow> 'a kirq_scheme \<Rightarrow> (sysresult \<times> 'a kirq_scheme) option" where
  "syscall_getch saved_regs s =
     (case getch_round s of
        None \<Rightarrow> None
      | Some (None, s) \<Rightarrow> Some (In_Getch, s)
      | Some (Some c, s) \<Rightarrow>
          (let retval = word_of_int (char_val c);
               s = say (kern_debug @ ''call getch = %08lx'' @ newline) [VInt retval] s;
               s = say (kern_debug @ ''%08lx -> %08lx'' @ newline) [VInt saved_regs, VInt (regs (tsk s (current s)))] s;
               s = lock_kernel s
           in Some (Finished, set_result retval s)))"

text \<open>The string at an address, up to its NUL.\<close>

partial_function (option) string_at :: "mem \<Rightarrow> u32 \<Rightarrow> string option" where
  "string_at m a =
     (if m a = 0 then Some []
      else Option.bind (string_at m (a + 1)) (\<lambda>cs. Some (char_of (unat (m a)) # cs)))"

definition handle_syscall :: "'a kirq_scheme \<Rightarrow> (sysresult \<times> 'a kirq_scheme) option" where
  "handle_syscall s =
     (let n = orig_eax s;
          flags = (if intr s then 2 ^ 9 else 0);
          s = say (kern_debug @ ''syscall: n=%ld _kernel_lock=%ld %01ld'' @ newline) [VInt n, VInt (klock s), VInt flags] s
      in if n = 12 \<or> n = 1
         then
           (let s = unlock_kernel s
            in syscall_getch (regs (tsk s (current s))) (getch_start s))
         else if n = 2
         then
           (let s = say (kern_debug @ ''calling puts'' @ newline) [] s
            in case string_at (mem s) (load32 (mem s) (regs (tsk s (current s)))) of
                 None \<Rightarrow> None
               | Some c \<Rightarrow> Some (Finished, set_result 0 (con_puts (params s) c s)))
         else if n = 3
         then Some (Finished, set_result 0xdeadbeef (say (''Syscall Checkpoint'' @ newline) [] s))
         else Some (Finished, set_result (-1) (say (''Unknown syscall'' @ newline) [] s)))"

text \<open>
  init_syscalls, up to its two test calls: the gate of vector 0x40, and the first line it prints.
\<close>

definition init_syscalls :: "'a kirq_scheme \<Rightarrow> 'a kirq_scheme" where
  "init_syscalls s =
     (let s = on_mem (set_intr_gate (idt s) 0x40 (syscall_entry s)) s
      in say (''syscall tests:'' @ newline) [] s)"

definition setup_IRQs :: "'a kirq_scheme \<Rightarrow> 'a kirq_scheme" where
  "setup_IRQs s =
     (let s = init_8259A s;
          s = init_irq_vectors s
      in init_syscalls s)"

section \<open>The chains of handlers\<close>

text \<open>\<open>hs\<close> are the handlers from \<open>a\<close> on, linked forwards and back; \<open>p\<close> is the one before them.\<close>

primrec chain :: "(u32 \<Rightarrow> irq_handler) \<Rightarrow> u32 \<Rightarrow> u32 \<Rightarrow> u32 list \<Rightarrow> bool" where
  "chain m p a [] \<longleftrightarrow> a = 0"
| "chain m p a (h # hs) \<longleftrightarrow> a = h \<and> h \<noteq> 0 \<and> hprev (m h) = p \<and> chain m h (hnext (m h)) hs"

lemma chain_cong: "(\<And>h. h \<in> set hs \<Longrightarrow> m' h = m h) \<Longrightarrow> chain m' p a hs = chain m p a hs"
  by (induction hs arbitrary: p a) auto

lemma chain_nonzero: "chain m p a hs \<Longrightarrow> h \<in> set hs \<Longrightarrow> h \<noteq> 0"
  by (induction hs arbitrary: p a) auto

text \<open>The handlers of each line: no handler twice, and each on the line it names.\<close>

definition chains_ok :: "(nat \<Rightarrow> u32 list) \<Rightarrow> 'a kirq_scheme \<Rightarrow> bool" where
  "chains_ok C s \<longleftrightarrow> (\<forall>n < 16. chain (hnd s) 0 (irq_handlers s n) (C n) \<and> distinct (C n)
     \<and> (\<forall>h \<in> set (C n). unat (irq (hnd s h)) = n))"

lemma chains_okD:
  assumes "chains_ok C s" "n < 16"
  shows "chain (hnd s) 0 (irq_handlers s n) (C n)" "distinct (C n)" "h \<in> set (C n) \<Longrightarrow> unat (irq (hnd s h)) = n"
  using assms by (simp_all add: chains_ok_def)

lemma chains_ok_agree: "chains_ok C s \<Longrightarrow> hnd t = hnd s \<Longrightarrow> irq_handlers t = irq_handlers s \<Longrightarrow> chains_ok C t"
  by (simp add: chains_ok_def)

text \<open>Putting a handler at the head of a chain.\<close>

definition hook :: "u32 \<Rightarrow> u32 \<Rightarrow> (u32 \<Rightarrow> irq_handler) \<Rightarrow> u32 \<Rightarrow> irq_handler" where
  "hook h k m = (let m = m(h := (m h)\<lparr>hnext := k, hprev := 0\<rparr>)
     in if k \<noteq> 0 then m(k := (m k)\<lparr>hprev := h\<rparr>) else m)"

lemma hook_irq: "irq (hook h k m x) = irq (m x)" "handler (hook h k m x) = handler (m x)"
  by (simp_all add: hook_def Let_def)

lemma hook_other: "x \<noteq> h \<Longrightarrow> x \<noteq> k \<Longrightarrow> hook h k m x = m x"
  by (simp add: hook_def Let_def)

lemma chain_hook:
  assumes "chain m 0 k hs" "distinct hs" "h \<notin> set hs" "h \<noteq> 0"
  shows "chain (hook h k m) 0 h (h # hs)"
proof (cases hs)
  case Nil
  then show ?thesis using assms by (simp add: hook_def)
next
  case (Cons k' ks)
  then have k: "k' = k" "k \<noteq> 0" "chain m k (hnext (m k)) ks" "k \<notin> set ks" "h \<noteq> k" "h \<notin> set ks"
    using assms by auto
  have "chain (hook h k m) k (hnext (m k)) ks = chain m k (hnext (m k)) ks"
    by (rule chain_cong) (use k in \<open>auto intro: hook_other\<close>)
  then show ?thesis using k Cons assms(4) by (simp add: hook_def Let_def)
qed

lemma kpic_more_sel:
  fixes s s' :: "'a kirq_scheme"
  assumes "kpic.more s' = kpic.more s"
  shows "hnd s' = hnd s" "irq_handlers s' = irq_handlers s" "timer_int s' = timer_int s" "keyboard_int s' = keyboard_int s"
  using assms by (cases s; cases s'; simp)+

lemma mask_ops_more: "kpic.more (enable_irq n s) = kpic.more s" "kpic.more (ack_irq n s) = kpic.more s"
  by (simp add: mask_ops_eq write_mask_def outb_def outp_def) (simp add: ack_irq_eq)

lemma link_handler_eq:
  "link_handler h n s = s\<lparr>hnd := hook h (irq_handlers s n) (hnd s), irq_handlers := (irq_handlers s)(n := h)\<rparr>"
  by (cases s) (simp add: link_handler_def hook_def Let_def)

lemma lock_kernel_kirq [simp]:
  "hnd (lock_kernel s) = hnd s" "irq_handlers (lock_kernel s) = irq_handlers s" "idt (lock_kernel s) = idt s"
  "timer_int (lock_kernel s) = timer_int s" "keyboard_int (lock_kernel s) = keyboard_int s"
  by (simp_all add: lock_kernel_def)

lemma register_irq_handler_eq:
  assumes "unat (irq (hnd s h)) < 16"
  shows "register_irq_handler h s = Some (unlock_kernel (enable_irq (irq (hnd s h))
    (link_handler h (unat (irq (hnd s h))) (lock_kernel s))))"
proof -
  have "irq (hnd (link_handler h n t) h) = irq (hnd t h)" for n and t :: "'a kirq_scheme"
    by (simp add: link_handler_eq hook_irq)
  then show ?thesis using assms by (simp add: register_irq_handler_def Let_def)
qed

section \<open>What the handlers leave alone\<close>

text \<open>The masks, cached and in the chips, and the chains of handlers.\<close>

definition irq_same :: "'a kirq_scheme \<Rightarrow> 'a kirq_scheme \<Rightarrow> bool" where
  "irq_same s t \<longleftrightarrow> cached_irq_mask t = cached_irq_mask s \<and> last_out 0x21 (kports t) = last_out 0x21 (kports s)
     \<and> last_out 0xa1 (kports t) = last_out 0xa1 (kports s) \<and> hnd t = hnd s \<and> irq_handlers t = irq_handlers s"

lemma irq_same_refl [simp]: "irq_same s s"
  by (simp add: irq_same_def)

lemma irq_same_trans: "irq_same s t \<Longrightarrow> irq_same t u \<Longrightarrow> irq_same s u"
  by (simp add: irq_same_def)

lemma irq_same_ok:
  "irq_same s t \<Longrightarrow> masks_ok s \<Longrightarrow> masks_ok t" "irq_same s t \<Longrightarrow> masked t n = masked s n"
  "irq_same s t \<Longrightarrow> chains_ok C s \<Longrightarrow> chains_ok C t"
  by (auto simp: irq_same_def masks_ok_def masked_def intro: chains_ok_agree)

lemma irq_sel_ktask:
  fixes s t :: "'a kirq_scheme"
  shows "ktask.more t = ktask.more s \<Longrightarrow> kports t = kports s \<Longrightarrow> irq_same s t"
  by (cases s; cases t; simp add: irq_same_def)

lemma irq_same_rest: "same_rest s t \<Longrightarrow> irq_same s t"
  by (rule irq_sel_ktask) (simp_all add: same_rest_def)

lemma irq_same_say: "irq_same s (say f a s)"
  by (simp add: irq_same_def say_def)

lemma irq_same_fields:
  "irq_same s (s\<lparr>shifts := x\<rparr>)" "irq_same s (s\<lparr>e0 := y\<rparr>)" "irq_same s (s\<lparr>port_reads := z\<rparr>)" "irq_same s (buffer_put c s)"
  by (simp_all add: irq_same_def buffer_put_def Let_def)

lemma irq_same_out: "p \<noteq> 0x21 \<Longrightarrow> p \<noteq> 0xa1 \<Longrightarrow> irq_same s (outp p v s)"
  by (simp add: irq_same_def outp_def)

lemma con_puts_ports:
  "last_out 0x21 (kports (con_puts p c s)) = last_out 0x21 (kports s)"
  "last_out 0xa1 (kports (con_puts p c s)) = last_out 0xa1 (kports s)"
  by (simp_all add: con_puts_def con_write_def Let_def case_prod_beta outb_p_def outp_def lock_kernel_def
      unlock_kernel_def vidport_def One_nat_def)

lemma irq_same_puts: "irq_same s (con_puts p c s)"
proof -
  have "ktask.more (con_puts p c s) = ktask.more s" by (rule ktask_more_kmem [OF con_puts_sel(1)])
  then have "irq_same s ((con_puts p c s)\<lparr>kports := kports s\<rparr>)" by (intro irq_sel_ktask) simp_all
  then show ?thesis using con_puts_ports [of p c s] by (simp add: irq_same_def)
qed

lemma irq_same_timer: "irq_same s (do_timer_int s)"
  by (simp add: irq_same_def do_timer_int_def Let_def at_task_def say_def)

lemma irq_same_memory: "show_memory s = Some t \<Longrightarrow> irq_same s t"
  by (auto simp: show_memory_def irq_same_say split: option.splits)

lemma irq_same_add: "irq_same s (add_buffer c s)"
  unfolding add_buffer_def Let_def by (rule irq_same_trans [OF irq_same_fields(4) irq_same_puts])

lemma irq_same_ctrl: "ctrl_letter c s = Some t \<Longrightarrow> irq_same s t"
  unfolding ctrl_letter_def
  by (auto simp only: option.inject intro: irq_same_say irq_same_refl
      dest: irq_same_memory irq_same_rest [OF same_rest_show_tasks] split: if_splits)

lemma irq_same_letter:
  assumes "key_letter code s = Some t"
  shows "irq_same s t"
proof -
  obtain c where "ctrl_letter c s = Some t \<or> t = add_buffer c s"
    using assms by (auto simp: key_letter_def split: option.splits if_splits)
  then show ?thesis using irq_same_ctrl irq_same_add by blast
qed

lemma irq_same_call_key:
  assumes "call_key f code s = Some (Inr ((), t))"
  shows "irq_same s t"
proof (cases f)
  case Key_Letter
  then show ?thesis using assms irq_same_letter by (auto simp: call_key_def returns_def)
next
  case Key_Keypad
  have "reboot u \<noteq> Some (Inr ((), t))" for u by (simp add: reboot_def Let_def split: option.splits)
  then show ?thesis using assms Key_Keypad by (auto simp: call_key_def key_keypad_def irq_same_say split: if_splits)
qed (use assms in \<open>auto simp: call_key_def returns_def key_shift_def key_ctrl_def key_alt_def key_num_def key_caps_def
      key_scroll_def key_sysreq_def key_func_def key_win_def key_menu_def irq_same_say irq_same_fields\<close>)

lemma irq_same_key_code:
  assumes "key_code code s = Some (Inr ((), t))"
  shows "irq_same s t"
proof (cases "code = 0xe0 \<or> code = 0xe1")
  case True
  then show ?thesis using assms irq_same_fields(2) by (auto simp: key_code_def returns_def)
next
  case False
  show ?thesis
  proof (cases "call_key (key_table ! unat code) code s")
    case None
    then show ?thesis using False assms by (simp add: key_code_def)
  next
    case (Some r)
    show ?thesis
    proof (cases r)
      case (Inl h)
      then show ?thesis using False assms Some by (simp add: key_code_def)
    next
      case (Inr r)
      obtain u where r: "r = ((), u)" by (cases r) simp
      have "t = u\<lparr>e0 := 0\<rparr>" using False assms Some Inr r by (simp add: key_code_def returns_def split: unit.splits)
      then show ?thesis
        using irq_same_trans [OF irq_same_call_key irq_same_fields(2)] Some Inr r by simp
    qed
  qed
qed

lemma irq_same_read: "irq_same s (code_read s)"
  by (simp add: irq_same_def code_read_def read_code_def inb_def outb_def outp_def say_def)

lemma irq_same_keyboard:
  assumes "do_keyboard_int s = Some (Inr ((), t))"
  shows "irq_same s t"
proof -
  obtain u where u: "key_code (next_code s) (code_read s) = Some (Inr ((), u))" "wake_up_queue (kbd_queue u) u = Some t"
    using assms by (auto simp: do_keyboard_int_eq returns_def split: option.splits sum.splits unit.splits)
  show ?thesis
    using irq_same_trans [OF irq_same_read irq_same_trans [OF irq_same_key_code [OF u(1)]
        irq_same_rest [OF same_rest_wake_up_queue [OF u(2)]]]] .
qed

lemma irq_same_handler: "call_handler f s = Some (Inr ((), t)) \<Longrightarrow> irq_same s t"
  using irq_same_timer [of s] irq_same_keyboard [of s t] by (cases f) (auto simp: call_handler_def returns_def)

section \<open>Registering and serving\<close>

lemma unlock_kernel_kirq [simp]:
  "hnd (unlock_kernel s) = hnd s" "irq_handlers (unlock_kernel s) = irq_handlers s" "kports (unlock_kernel s) = kports s"
  "timer_int (unlock_kernel s) = timer_int s" "keyboard_int (unlock_kernel s) = keyboard_int s"
  by (simp_all add: unlock_kernel_def Let_def)

lemma masks_ok_locks [simp]:
  "masks_ok (lock_kernel s) = masks_ok s" "masks_ok (unlock_kernel s) = masks_ok s"
  "masked (lock_kernel s) = masked s" "masked (unlock_kernel s) = masked s"
  by (simp_all add: masks_ok_def masked_def lock_simps fun_eq_iff)

lemma link_handler_sel [simp]:
  "masks_ok (link_handler h n s) = masks_ok s" "cached_irq_mask (link_handler h n s) = cached_irq_mask s"
  "hnd (link_handler h n s) = hook h (irq_handlers s n) (hnd s)"
  "irq_handlers (link_handler h n s) = (irq_handlers s)(n := h)"
  "timer_int (link_handler h n s) = timer_int s" "keyboard_int (link_handler h n s) = keyboard_int s"
  by (simp_all add: link_handler_eq masks_ok_def)

lemma chains_ok_link:
  assumes C: "chains_ok C s" and n: "n = unat (irq (hnd s h))" "n < 16" and h: "h \<noteq> 0" "h \<notin> set (C n)"
  shows "chains_ok (C(n := h # C n)) (link_handler h n s)"
  unfolding chains_ok_def
proof (intro allI impI)
  fix j :: nat assume j: "j < 16"
  note c = chains_okD [OF C j] and cn = chains_okD [OF C n(2)]
  let ?D = "C(n := h # C n)" and ?m = "hook h (irq_handlers s n) (hnd s)"
  have "chain ?m 0 (((irq_handlers s)(n := h)) j) (?D j) \<and> distinct (?D j) \<and> (\<forall>x \<in> set (?D j). unat (irq (?m x)) = j)"
  proof (cases "j = n")
    case True
    then show ?thesis
      using chain_hook [OF cn(1,2) h(2,1)] cn(2,3) h(2) n(1) unfolding hook_irq by simp
  next
    case False
    have "chain ?m 0 (irq_handlers s j) (C j) = chain (hnd s) 0 (irq_handlers s j) (C j)"
    proof (rule chain_cong)
      fix x assume x: "x \<in> set (C j)"
      have j': "unat (irq (hnd s x)) = j" by (rule c(3) [OF x])
      then have "x \<noteq> h" using n(1) False by auto
      moreover have "x \<noteq> irq_handlers s n"
      proof
        assume "x = irq_handlers s n"
        moreover have "x \<noteq> 0" by (rule chain_nonzero [OF c(1) x])
        ultimately have "x \<in> set (C n)" using cn(1) by (cases "C n") auto
        then show False using cn(3) j' False by blast
      qed
      ultimately show "?m x = hnd s x" by (rule hook_other)
    qed
    then show ?thesis using False c unfolding hook_irq by simp
  qed
  then show "chain (hnd (link_handler h n s)) 0 (irq_handlers (link_handler h n s) j) (?D j)
    \<and> distinct (?D j) \<and> (\<forall>x \<in> set (?D j). unat (irq (hnd (link_handler h n s) x)) = j)" by simp
qed

lemma register_irq_handler_ok:
  assumes C: "chains_ok C s" and m: "masks_ok s" and n: "n = unat (irq (hnd s h))" "n < 16" and h: "h \<noteq> 0" "h \<notin> set (C n)"
  obtains t where "register_irq_handler h s = Some t" "chains_ok (C(n := h # C n)) t" "masks_ok t"
    "cached_irq_mask t = cached_irq_mask s AND NOT (irq_bit (irq (hnd s h)))" "klock t = klock s"
    "hnd t = hook h (irq_handlers s n) (hnd s)" "timer_int t = timer_int s" "keyboard_int t = keyboard_int s"
proof -
  let ?q = "irq (hnd s h)" and ?u = "link_handler h n (lock_kernel s)"
  have q: "unat ?q < 16" using n by simp
  have "chains_ok C (lock_kernel s)" by (rule chains_ok_agree [OF C]) simp_all
  then have u: "masks_ok ?u" "chains_ok (C(n := h # C n)) ?u"
    using m chains_ok_link [of C "lock_kernel s" n h] n h by simp_all
  note e = enable_irq_masks [OF u(1) q] and k = kpic_more_sel [OF mask_ops_more(1) [of ?q ?u]]
  show ?thesis
  proof (rule that)
    show "register_irq_handler h s = Some (unlock_kernel (enable_irq ?q ?u))"
      using register_irq_handler_eq [of s h] n by simp
    show "chains_ok (C(n := h # C n)) (unlock_kernel (enable_irq ?q ?u))"
      by (rule chains_ok_agree [OF u(2)]) (simp_all only: unlock_kernel_kirq k)
    show "klock (unlock_kernel (enable_irq ?q ?u)) = klock s"
      by (simp add: unlock_kernel_def Let_def e) (simp add: link_handler_eq lock_kernel_def)
  qed (use e k in \<open>simp_all add: lock_simps\<close>)
qed

text \<open>
  Property C19.  register_irq_handler puts a handler at the head of the chain of the line it names and
  unmasks that line.  All sixteen chains stay well linked, forwards and back, every other line keeps its
  chain and its mask, and the kernel lock is left as it was; a line number of 16 or more is out of range.
\<close>

theorem register_keeps_chains:
  assumes "chains_ok C s" and "masks_ok s" and "h \<noteq> 0" and "h \<notin> set (C (unat (irq (hnd s h))))"
  shows "(let n = unat (irq (hnd s h)) in
    case register_irq_handler h s of
      None \<Rightarrow> 16 \<le> n
    | Some t \<Rightarrow> n < 16 \<and> chains_ok (C(n := h # C n)) t \<and> masks_ok t \<and> klock t = klock s
        \<and> (\<forall>k < 16. masked t k = (masked s k \<and> k \<noteq> n)))"
proof (cases "unat (irq (hnd s h)) < 16")
  case True
  from register_irq_handler_ok [OF assms(1,2) refl this assms(3,4)]
  obtain t where "register_irq_handler h s = Some t" "chains_ok (C(unat (irq (hnd s h)) := h # C (unat (irq (hnd s h))))) t"
    "masks_ok t" "cached_irq_mask t = cached_irq_mask s AND NOT (irq_bit (irq (hnd s h)))" "klock t = klock s"
    by blast
  then show ?thesis using True by (simp add: Let_def masked_def masked_ops)
next
  case False
  then show ?thesis by (simp add: register_irq_handler_def Let_def)
qed

text \<open>The functions of the handlers of a chain, in order, and their calls one after the other.\<close>

definition funs :: "u32 list \<Rightarrow> 'a kirq_scheme \<Rightarrow> handler_fun list" where
  "funs hs s = concat (map (\<lambda>h. case handler (hnd s h) of None \<Rightarrow> [] | Some f \<Rightarrow> [f]) hs)"

primrec serve :: "handler_fun list \<Rightarrow> 'a kirq_scheme \<Rightarrow> (unit, 'a kirq_scheme) kresult" where
  "serve [] s = Some (Inr ((), s))"
| "serve (f # fs) s = (case call_handler f s of
     None \<Rightarrow> None | Some (Inl h) \<Rightarrow> Some (Inl h) | Some (Inr (_, s)) \<Rightarrow> serve fs s)"

lemma handlers_loop_serve:
  "chain (hnd s) p a hs \<Longrightarrow> handlers_loop a s = serve (funs hs s) s"
proof (induction hs arbitrary: p a s)
  case Nil
  then show ?case by (simp add: handlers_loop.simps funs_def)
next
  case (Cons h hs)
  then have h: "a = h" "h \<noteq> 0" "chain (hnd s) h (hnext (hnd s h)) hs" by auto
  show ?case
  proof (cases "handler (hnd s h)")
    case None
    then show ?thesis using h Cons.IH [OF h(3)] by (subst handlers_loop.simps) (simp add: funs_def)
  next
    case (Some f)
    have "handlers_loop (hnext (hnd t h)) t = serve (funs hs s) t" if "call_handler f s = Some (Inr ((), t))" for t
    proof -
      have "hnd t = hnd s" using irq_same_handler [OF that] by (simp add: irq_same_def)
      then show ?thesis using Cons.IH [of t h] h(3) by (simp add: funs_def)
    qed
    then show ?thesis
      using h Some by (subst handlers_loop.simps) (auto simp: funs_def split: option.split sum.split)
  qed
qed

lemma irq_same_serve: "serve fs s = Some (Inr ((), t)) \<Longrightarrow> irq_same s t"
proof (induction fs arbitrary: s)
  case (Cons f fs)
  then obtain u where "call_handler f s = Some (Inr ((), u))" "serve fs u = Some (Inr ((), t))"
    by (auto split: option.splits sum.splits)
  then show ?case using Cons.IH irq_same_handler irq_same_trans by blast
qed simp

text \<open>The state in which the handlers of line \<open>n\<close> are called: acknowledged, and noted in the log.\<close>

definition noted :: "u8 \<Rightarrow> u32 list \<Rightarrow> 'a kirq_scheme \<Rightarrow> 'a kirq_scheme" where
  "noted n hs s = say (kern_debug @ ''Interrupt %i occured'' @ newline) [VInt (ucast n)]
     (if hs = [] then say (''handle_IRQ: no registered interrupt handler, IRQ%d'' @ newline) [VInt (ucast n)] (ack_irq n s)
      else ack_irq n s)"

lemma noted_sel:
  assumes "masks_ok s" "unat n < 16"
  shows "masks_ok (noted n hs s)" "cached_irq_mask (noted n hs s) = cached_irq_mask s OR irq_bit n"
    "kpic.more (noted n hs s) = kpic.more s"
  using ack_irq_masks [OF assms] by (simp_all add: noted_def masks_ok_def say_def mask_ops_more)

lemma chain_head: "chain m p a hs \<Longrightarrow> a = 0 \<longleftrightarrow> hs = []"
  by (cases hs) auto

lemma handle_irq_eq:
  assumes "chains_ok C s" "unat n < 16" "n = ucast (orig_eax s)"
  shows "handle_irq s = (case serve (funs (C (unat n)) s) (noted n (C (unat n)) s) of
       None \<Rightarrow> None
     | Some (Inl h) \<Rightarrow> Some (Inl h)
     | Some (Inr (_, s)) \<Rightarrow> Some (Inr ((), enable_irq n s)))"
proof -
  let ?t = "noted n (C (unat n)) s"
  note c = chains_okD(1) [OF assms(1,2)]
  have t: "hnd ?t = hnd s" "irq_handlers (ack_irq n s) = irq_handlers s"
    using kpic_more_sel [OF mask_ops_more(2) [of n s]] by (simp_all add: noted_def say_def)
  have "handlers_loop (irq_handlers s (unat n)) ?t = serve (funs (C (unat n)) s) ?t"
    using handlers_loop_serve [of ?t 0 _ "C (unat n)"] c t by (simp add: funs_def)
  moreover have "handle_irq s = (case handlers_loop (irq_handlers s (unat n)) ?t of
       None \<Rightarrow> None | Some (Inl h) \<Rightarrow> Some (Inl h) | Some (Inr (_, s)) \<Rightarrow> returns (Some (enable_irq n s)))"
    using assms(2) chain_head [OF c] by (simp add: handle_irq_def Let_def noted_def t(2) flip: assms(3))
  ultimately show ?thesis by (simp add: returns_def cong: option.case_cong sum.case_cong)
qed

text \<open>
  Property C18.  handle_irq calls exactly the handlers of the interrupt's line, each once, the one
  registered last first, with the line acknowledged and masked.  It returns when they do; then the chains
  and the masks of the other lines are as before and the line is unmasked, in the chips too, whether or
  not it has a handler.
\<close>

theorem handle_irq_serves:
  assumes "chains_ok C s" and "masks_ok s" and "n = ucast (orig_eax s)" and "unat n < 16"
  shows "masked (noted n (C (unat n)) s) (unat n)
    \<and> (case serve (funs (C (unat n)) s) (noted n (C (unat n)) s) of
         None \<Rightarrow> handle_irq s = None
       | Some (Inl h) \<Rightarrow> handle_irq s = Some (Inl h)
       | Some (Inr (_, u)) \<Rightarrow> (\<exists>t. handle_irq s = Some (Inr ((), t)) \<and> t = enable_irq n u \<and> chains_ok C t \<and> masks_ok t
           \<and> (\<forall>k < 16. masked t k = (masked s k \<and> k \<noteq> unat n))))"
proof -
  let ?t = "noted n (C (unat n)) s"
  note t = noted_sel [OF assms(2,4), of "C (unat n)"] and e = handle_irq_eq [OF assms(1,4,3)]
  have m: "masked ?t (unat n)" using t(2) assms(4) by (simp add: masked_def masked_ops)
  show ?thesis
  proof (cases "\<exists>u. serve (funs (C (unat n)) s) ?t = Some (Inr ((), u))")
    case True
    then obtain u where u: "serve (funs (C (unat n)) s) ?t = Some (Inr ((), u))" by blast
    have same: "irq_same ?t u" by (rule irq_same_serve [OF u])
    have "masks_ok u" using irq_same_ok(1) [OF same t(1)] .
    note f = enable_irq_masks [OF this assms(4)]
    have "cached_irq_mask u = cached_irq_mask s OR irq_bit n" using same t(2) by (simp add: irq_same_def)
    then have "masked (enable_irq n u) k = (masked s k \<and> k \<noteq> unat n)" if "k < 16" for k
      using that f(2) by (auto simp: masked_def masked_ops)
    moreover have "chains_ok C (enable_irq n u)"
      by (rule chains_ok_agree [OF assms(1)])
        (use same kpic_more_sel [OF t(3)] kpic_more_sel [OF mask_ops_more(1) [of n u]] in \<open>simp_all add: irq_same_def\<close>)
    ultimately show ?thesis using m e u f(1) by simp
  next
    case False
    then show ?thesis using m e by (auto split: option.split sum.split)
  qed
qed

section \<open>Instances\<close>

text \<open>The machine of the typist with the controllers set up and no handler registered yet.\<close>

definition wired :: kirq where
  "wired = init_8259A (kkbd.extend typist \<lparr>hnd = (\<lambda>_. timer_handler)(0x7100 := keyboard_handler),
     irq_handlers = (\<lambda>_. 0), idt = 0x9000, interrupts = (\<lambda>n. 0x10000 + 16 * of_nat n),
     exception_funcs = (\<lambda>n. 0x11000 + 32 * of_nat n), unexpected_int = 0x12000, int3 = 0x12100,
     syscall_entry = 0x12200, timer_int = 0x7000, keyboard_int = 0x7100\<rparr>)"

lemma init_8259A_more: "kmem.more (init_8259A s) = kmem.more s" "mem (init_8259A s) = mem s"
    "ph (init_8259A s) = ph s" "bh (init_8259A s) = bh s" "kpic.more (init_8259A s) = kpic.more s"
    "jiffies (init_8259A s) = jiffies s"
  by (simp_all add: init_8259A_eq outs_def)

lemma wired_sel:
  "hnd wired = (\<lambda>_. timer_handler)(0x7100 := keyboard_handler)" "irq_handlers wired = (\<lambda>_. 0)" "masks_ok wired"
  "cached_irq_mask wired = 0xffff" "klock wired = 0" "mem wired = mem four_pages" "timer_int wired = 0x7000"
  "keyboard_int wired = 0x7100" "tsk wired = tsk typist" "current wired = 0x3000" "jiffies wired = 0"
  "ph wired = ph four_pages" "bh wired = bh four_pages"
proof -
  let ?u = "kkbd.extend typist \<lparr>hnd = (\<lambda>_. timer_handler)(0x7100 := keyboard_handler),
     irq_handlers = (\<lambda>_. 0), idt = 0x9000, interrupts = (\<lambda>n. 0x10000 + 16 * of_nat n),
     exception_funcs = (\<lambda>n. 0x11000 + 32 * of_nat n), unexpected_int = 0x12000, int3 = 0x12100,
     syscall_entry = 0x12200, timer_int = 0x7000, keyboard_int = 0x7100\<rparr>"
  note k = kpic_more_sel [OF init_8259A_more(5) [of ?u], folded wired_def]
    kmem_more_sel [OF init_8259A_more(1) [of ?u], folded wired_def]
  have c: "cached_irq_mask typist = 0xffff" "jiffies typist = 0"
    by (simp_all add: typist_def kpic.defs pic_reset_def klog.defs quiet_def ktask.defs booted_def kmem.defs)
  show "hnd wired = (\<lambda>_. timer_handler)(0x7100 := keyboard_handler)" "irq_handlers wired = (\<lambda>_. 0)"
    "timer_int wired = 0x7000" "keyboard_int wired = 0x7100" "tsk wired = tsk typist" "current wired = 0x3000" "jiffies wired = 0"
    by (simp_all add: k kkbd.defs typist_sel c)
  show "masks_ok wired" by (simp add: wired_def init_8259A_sel)
  show "cached_irq_mask wired = 0xffff" "klock wired = 0"
    by (simp_all add: wired_def init_8259A_sel) (simp_all add: kkbd.defs c typist_sel)
  show "mem wired = mem four_pages" "ph wired = ph four_pages" "bh wired = bh four_pages"
    by (simp_all add: wired_def init_8259A_more) (simp_all add: kkbd.defs typist_sel)
qed

lemma wired_chains: "chains_ok (\<lambda>_. []) wired"
  by (simp add: chains_ok_def wired_sel)

lemma sixteen_masked: "n < 16 \<Longrightarrow> bit (0xffff :: u16) n"
proof -
  have "(0xffff :: u16) = mask 16" by (simp add: mask_eq_exp_minus_1)
  then show "n < 16 \<Longrightarrow> bit (0xffff :: u16) n" by (simp only: bit_mask_iff) simp
qed

theorem register_keeps_chains_witness:
  "\<exists>t. register_irq_handler 0x7100 wired = Some t \<and> chains_ok ((\<lambda>_. [])(1 := [0x7100])) t \<and> \<not> masked t 1 \<and> masked t 2"
proof -
  have i: "unat (irq (hnd wired 0x7100)) = 1" by (simp add: wired_sel keyboard_handler_def One_nat_def)
  have "masked wired 2" unfolding masked_def wired_sel by (rule sixteen_masked) simp
  then show ?thesis
    using register_keeps_chains [OF wired_chains wired_sel(3), of "0x7100"] unfolding i
    by (auto simp: Let_def split: option.splits)
qed

text \<open>The machine after the clock is registered.  The interrupted task has a 0 on its stack: line 0.\<close>

definition clocked :: kirq where "clocked = the (register_irq_handler 0x7000 wired)"

lemma clocked_ok:
  "chains_ok ((\<lambda>_. [])(0 := [0x7000])) clocked" "masks_ok clocked" "hnd clocked = hook 0x7000 0 (hnd wired)"
proof -
  have i: "0 = unat (irq (hnd wired 0x7000))" by (simp add: wired_sel timer_handler_def)
  obtain t where "register_irq_handler 0x7000 wired = Some t" "chains_ok ((\<lambda>_. [])(0 := [0x7000])) t" "masks_ok t"
    "hnd t = hook 0x7000 (irq_handlers wired 0) (hnd wired)"
    by (rule register_irq_handler_ok [OF wired_chains wired_sel(3) i]) auto
  then show "chains_ok ((\<lambda>_. [])(0 := [0x7000])) clocked" "masks_ok clocked" "hnd clocked = hook 0x7000 0 (hnd wired)"
    by (simp_all add: clocked_def wired_sel)
qed

lemma clocked_eax: "orig_eax clocked = 0"
proof -
  have e: "clocked = unlock_kernel (enable_irq 0 (link_handler 0x7000 0 (lock_kernel wired)))"
    using register_irq_handler_eq [of wired "0x7000"] by (simp add: clocked_def wired_sel timer_handler_def)
  have "tsk (enable_irq 0 s) = tsk s \<and> current (enable_irq 0 s) = current s \<and> mem (enable_irq 0 s) = mem s" for s :: kirq
    by (cases s) (simp add: mask_ops_eq write_mask_def outb_def outp_def)
  then have "mem clocked = mem four_pages" "tsk clocked = tsk typist" "current clocked = 0x3000"
    using wired_sel by (simp_all add: e link_handler_eq)
  then show ?thesis by (simp add: orig_eax_def typist_tsk load32_def four_pages_sel idle_task_init_def)
qed

theorem handle_irq_serves_witness:
  "\<exists>u t. serve [Timer_Int] (noted 0 [0x7000] clocked) = Some (Inr ((), u)) \<and> handle_irq clocked = Some (Inr ((), t))
     \<and> masks_ok t \<and> \<not> masked t 0"
proof -
  have f: "funs [0x7000] clocked = [Timer_Int]"
    by (simp add: funs_def clocked_ok hook_irq wired_sel timer_handler_def)
  show ?thesis
    using handle_irq_serves [OF clocked_ok(1,2), of 0] f
    by (auto simp: clocked_eax call_handler_def returns_def split: option.splits sum.splits)
qed

end
