(* ===== verification/Delay.thy ===== *)
theory Delay
  imports Irq Format
begin

text \<open>
  kernel/delay.c and calibrate_delay of init/main.c: the delay loops and the search for the number of
  loops a clock tick takes.  Time is counted in decrements of the delay loop: \<open>now\<close> is how many have
  gone by, and a poll of a clock takes the time of one.  \<open>jiffies_at\<close> is what the volatile counter
  \<open>jiffies\<close>, which the timer interrupt increments, holds at a time, \<open>tsc_at\<close> the low word of the time
  stamp counter.
\<close>

declare One_nat_def [simp del]

record kdelay = kirq +
  now :: nat
  jiffies_at :: "nat \<Rightarrow> u32"
  tsc_at :: "nat \<Rightarrow> u32"
  x86_udelay_tsc :: u32
  loops_per_jiffy :: u32

section \<open>kernel/delay.c\<close>

text \<open>\<open>do now = rdtsc while (now - bclock < loops)\<close>: when the loop ends, if it does.\<close>

partial_function (option) rdtsc_loop :: "(nat \<Rightarrow> u32) \<Rightarrow> u32 \<Rightarrow> u32 \<Rightarrow> nat \<Rightarrow> nat option" where
  "rdtsc_loop tsc bclock loops t =
     (if tsc t - bclock < loops then rdtsc_loop tsc bclock loops (t + 1) else Some (t + 1))"

definition rdtsc_delay :: "u32 \<Rightarrow> 'a kdelay_scheme \<Rightarrow> 'a kdelay_scheme option" where
  "rdtsc_delay loops s =
     map_option (\<lambda>t. s\<lparr>now := t\<rparr>) (rdtsc_loop (tsc_at s) (tsc_at s (now s)) loops (now s + 1))"

text \<open>\<open>2: decl; jns 2b\<close>: the time after the loop.\<close>

function loop_decl :: "u32 \<Rightarrow> nat \<Rightarrow> nat" where
  "loop_decl d t = (let d = d - 1 in if 0 \<le> sint d then loop_decl d (t + 1) else t + 1)"
  by pat_completeness auto

definition loop_delay :: "u32 \<Rightarrow> 'a kdelay_scheme \<Rightarrow> 'a kdelay_scheme" where
  "loop_delay loops s = s\<lparr>now := loop_decl loops (now s)\<rparr>"

definition delay :: "u32 \<Rightarrow> 'a kdelay_scheme \<Rightarrow> 'a kdelay_scheme option" where
  "delay loops s = (if x86_udelay_tsc s \<noteq> 0 then rdtsc_delay loops s else Some (loop_delay loops s))"

text \<open>\<open>mull\<close> leaves the high word of the product in \<open>edx\<close>.\<close>

definition mul_high :: "u32 \<Rightarrow> u32 \<Rightarrow> u32" where
  "mul_high a b = ucast (drop_bit 32 (ucast a * ucast b :: u64))"

definition const_udelay :: "u32 \<Rightarrow> 'a kdelay_scheme \<Rightarrow> 'a kdelay_scheme option" where
  "const_udelay xloops s = delay (mul_high xloops (loops_per_jiffy s) * of_nat HZ) s"

definition udelay :: "u32 \<Rightarrow> 'a kdelay_scheme \<Rightarrow> 'a kdelay_scheme option" where
  "udelay usecs s = const_udelay (usecs * 0x10c6) s"

section \<open>calibrate_delay\<close>

text \<open>\<open>while (ticks == jiffies);\<close>\<close>

partial_function (option) wait_tick :: "(nat \<Rightarrow> u32) \<Rightarrow> u32 \<Rightarrow> nat \<Rightarrow> nat option" where
  "wait_tick j ticks t = (if ticks = j t then wait_tick j ticks (t + 1) else Some t)"

text \<open>
  Waits for the start of a tick, then runs the delay loop; the result is by how much \<open>jiffies\<close> grew.
\<close>

definition time_loops :: "'a kdelay_scheme \<Rightarrow> (u32 \<times> 'a kdelay_scheme) option" where
  "time_loops s =
     (case wait_tick (jiffies_at s) (jiffies_at s (now s)) (now s) of
        None \<Rightarrow> None
      | Some t \<Rightarrow>
          let s = s\<lparr>now := t\<rparr>; ticks = jiffies_at s (now s)
          in case delay (loops_per_jiffy s) s of
               None \<Rightarrow> None
             | Some s \<Rightarrow> Some (jiffies_at s (now s) - ticks, s))"

text \<open>\<open>while (loops_per_jiffy <<= 1)\<close>\<close>

partial_function (option) double_loop :: "'a kdelay_scheme \<Rightarrow> 'a kdelay_scheme option" where
  "double_loop s =
     (let s = s\<lparr>loops_per_jiffy := push_bit 1 (loops_per_jiffy s)\<rparr>
      in if loops_per_jiffy s = 0 then Some s
         else case time_loops s of
                None \<Rightarrow> None
              | Some (ticks, s) \<Rightarrow> if ticks \<noteq> 0 then Some s else double_loop s)"

definition LPS_PREC :: nat where "LPS_PREC = 8"

text \<open>\<open>while (lps_precision-- && (loopbit >>= 1))\<close>\<close>

primrec approximate :: "nat \<Rightarrow> u32 \<Rightarrow> 'a kdelay_scheme \<Rightarrow> 'a kdelay_scheme option" where
  "approximate 0 loopbit s = Some s"
| "approximate (Suc precision) loopbit s =
     (let loopbit = drop_bit 1 loopbit
      in if loopbit = 0 then Some s
         else
           let s = s\<lparr>loops_per_jiffy := loops_per_jiffy s OR loopbit\<rparr>
           in case time_loops s of
                None \<Rightarrow> None
              | Some (ticks, s) \<Rightarrow>
                  let s = (if ticks \<noteq> 0 then s\<lparr>loops_per_jiffy := loops_per_jiffy s AND NOT loopbit\<rparr> else s)
                  in approximate precision loopbit s)"

definition calibrate_delay :: "'a kdelay_scheme \<Rightarrow> 'a kdelay_scheme option" where
  "calibrate_delay s =
     (let s = s\<lparr>loops_per_jiffy := push_bit 12 1\<rparr>;
          s = say ''Calibrating delay loop... '' [] s
      in case double_loop s of
           None \<Rightarrow> None
         | Some s \<Rightarrow>
             let s = s\<lparr>loops_per_jiffy := drop_bit 1 (loops_per_jiffy s)\<rparr>;
                 loopbit = loops_per_jiffy s
             in case approximate LPS_PREC loopbit s of
                  None \<Rightarrow> None
                | Some s \<Rightarrow>
                    Some (say (''%lu loops per jiffy, thats %lu.%02lu BogoMIPS'' @ newline)
                      [VInt (loops_per_jiffy s),
                       VInt (loops_per_jiffy s div of_nat (500000 div HZ)),
                       VInt ((loops_per_jiffy s div of_nat (5000 div HZ)) mod 100)] s))"

section \<open>The delay loop\<close>

lemma sint_pred: "0 \<le> sint (d - 1) \<longleftrightarrow> 0 < unat d \<and> unat d \<le> 2 ^ 31" for d :: u32
proof (cases "d = 0")
  case False
  have s: "0 \<le> sint w \<longleftrightarrow> unat w < 2 ^ 31" for w :: u32
  proof
    assume w: "0 \<le> sint w"
    have "sint w < 2 ^ 31" using sint_lt [of w] by simp
    then have "uint w < 2 ^ 31" using uint_eq_sint [OF w] by simp
    then have "int (unat w) < int (2 ^ 31)" by simp
    then show "unat w < 2 ^ 31" by (simp only: of_nat_less_iff)
  next
    assume "unat w < 2 ^ 31"
    then have "int (unat w) < int (2 ^ 31)" by (simp only: of_nat_less_iff)
    then have "uint w < 2 ^ 31" by simp
    moreover have "- (2 ^ 31) \<le> uint w" by (rule order_trans [of _ 0]) simp_all
    ultimately have "sint w = uint w" by (simp add: sint_uint signed_take_bit_int_eq_self)
    then show "0 \<le> sint w" by simp
  qed
  have "unat (d - 1) = unat d - 1" using False by (simp add: unat_minus_one)
  moreover have "0 < unat d" using False by (simp add: unat_gt_0)
  ultimately show ?thesis using s [of "d - 1"] by auto
qed simp

termination loop_decl
  by (relation "measure (\<lambda>(d, t). unat d)") (auto simp: sint_pred unat_minus_one unat_gt_0)

declare loop_decl.simps [simp del]

lemma loop_decl_length: "loop_decl d t = t + (if unat d \<le> 2 ^ 31 then unat d + 1 else 1)"
proof (induction d t rule: loop_decl.induct)
  case (1 d t)
  show ?case
  proof (cases "0 < unat d \<and> unat d \<le> 2 ^ 31")
    case True
    then have "unat (d - 1) = unat d - 1" by (auto simp: unat_minus_one unat_gt_0)
    moreover have "loop_decl (d - 1) (t + 1) = t + 1 + (if unat (d - 1) \<le> 2 ^ 31 then unat (d - 1) + 1 else 1)"
      by (rule "1.IH" [OF refl]) (use True in \<open>simp add: sint_pred\<close>)
    ultimately show ?thesis using True by (subst loop_decl.simps) (auto simp: sint_pred Let_def)
  next
    case False
    then show ?thesis by (subst loop_decl.simps) (auto simp: sint_pred Let_def)
  qed
qed

text \<open>
  The delay loop always ends; it takes one decrement more than it is asked for, up to
  \<open>2 ^ 31\<close> loops, and a single one for any larger number, whose first decrement is already negative.
\<close>

theorem loop_delay_length:
  "loop_delay loops s = s\<lparr>now := now s + (if unat loops \<le> 2 ^ 31 then unat loops + 1 else 1)\<rparr>"
  by (simp add: loop_delay_def loop_decl_length)

section \<open>Microseconds\<close>

lemma mul_high_value: "unat (mul_high a b) = unat a * unat b div 2 ^ 32"
proof -
  have le: "unat a * unat b < 2 ^ 64"
  proof -
    have "unat a * unat b \<le> (2 ^ 32 - 1) * (2 ^ 32 - 1)"
      using unat_bounds(3) [of a] unat_bounds(3) [of b] by (intro mult_le_mono) (simp_all del: unat_bounds)
    then show ?thesis by simp
  qed
  then have "unat (ucast a * ucast b :: u64) = unat a * unat b"
    by (simp add: unat_word_ariths unat_ucast_up)
  then have "unat (drop_bit 32 (ucast a * ucast b :: u64)) = unat a * unat b div 2 ^ 32"
    by (simp add: drop_bit_eq_div unat_div)
  moreover have "unat a * unat b div 2 ^ 32 < 2 ^ 32" using le by (simp add: div_less_iff_less_mult)
  ultimately show ?thesis by (simp add: mul_high_def unsigned_ucast_eq take_bit_nat_eq_self)
qed

text \<open>A machine whose clock ticks every 10000 decrements.\<close>

definition timed :: kdelay where
  "timed = kirq.extend wired \<lparr>now = 0, jiffies_at = (\<lambda>t. of_nat (t div 10000)), tsc_at = of_nat,
     x86_udelay_tsc = 0, loops_per_jiffy = 9984\<rparr>"

lemma timed_sel: "x86_udelay_tsc timed = 0" "loops_per_jiffy timed = 9984" "jiffies_at timed t = of_nat (t div 10000)" "now timed = 0"
  by (simp_all add: timed_def kirq.defs)

text \<open>
  Property C31.  udelay, up to a second and on a machine of less than \<open>2 ^ 31\<close> loops per second, gives the
  delay loop a count of no more loops than the time asked for holds, and of at most HZ loops and one part in
  4000 fewer, because the factor 4294 is \<open>2 ^ 32 / 10 ^ 6\<close> rounded down and the product is truncated.
  The loop decrements its counter once more than its count, so a delay can be one decrement longer than asked
  for.  (Beyond these bounds the 32-bit products can wrap.)
\<close>

theorem udelay_bounds:
  assumes "x86_udelay_tsc s = 0" "unat usecs \<le> 10 ^ 6" "unat (loops_per_jiffy s) * HZ < 2 ^ 31"
  shows "\<exists>loops. udelay usecs s = Some (s\<lparr>now := now s + loops + 1\<rparr>)
    \<and> loops * 10 ^ 6 \<le> unat usecs * (unat (loops_per_jiffy s) * HZ)
    \<and> unat usecs * (unat (loops_per_jiffy s) * HZ) * 3999 \<le> (loops + HZ) * 10 ^ 6 * 4000"
proof -
  let ?l = "unat (loops_per_jiffy s)" and ?u = "unat usecs"
  define q where "q = ?u * 4294 * ?l div 2 ^ 32"
  have "unat (usecs * 0x10c6) = ?u * 4294" using assms(2) by (simp add: unat_word_ariths)
  then have m: "unat (mul_high (usecs * 0x10c6) (loops_per_jiffy s)) = q" by (simp add: mul_high_value q_def)
  have "q * 2 ^ 32 \<le> ?u * 4294 * ?l" "?u * 4294 * ?l < (q + 1) * 2 ^ 32"
    unfolding q_def by (simp_all add: dividend_less_div_times)
  then have q: "q * 4294967296 \<le> ?u * ?l * 4294" "?u * ?l * 4294 < (q + 1) * 4294967296" by (simp_all add: ac_simps)
  have "?u * ?l \<le> 1000000 * ?l" by (intro mult_le_mono1) (use assms(2) in simp)
  then have "q \<le> ?l" using q(1) by linarith
  then have "q * HZ < 2 ^ 31" using assms(3) by (meson mult_le_mono1 order.strict_trans1)
  then have w: "unat (mul_high (usecs * 0x10c6) (loops_per_jiffy s) * of_nat HZ) = q * HZ"
    by (simp add: unat_word_ariths m HZ_def)
  have "udelay usecs s = Some (s\<lparr>now := now s + q * HZ + 1\<rparr>)"
    using assms(1) \<open>q * HZ < 2 ^ 31\<close>
    by (simp add: udelay_def const_udelay_def delay_def loop_delay_def loop_decl_length w)
  moreover have "q * HZ * 10 ^ 6 \<le> ?u * (?l * HZ)"
  proof -
    have "q * 10 ^ 6 \<le> ?u * ?l" using q(1) by simp
    from mult_le_mono1 [OF this, of HZ] show ?thesis by (simp add: ac_simps)
  qed
  moreover have "?u * (?l * HZ) * 3999 \<le> (q * HZ + HZ) * 10 ^ 6 * 4000"
  proof -
    have "?u * ?l * 3999 \<le> (q + 1) * (10 ^ 6 * 4000)" using q(2) by simp
    from mult_le_mono1 [OF this, of HZ] show ?thesis by (simp add: algebra_simps)
  qed
  ultimately show ?thesis by blast
qed

theorem udelay_bounds_witness:
  "\<exists>loops. udelay 100 timed = Some (timed\<lparr>now := loops + 1\<rparr>) \<and> loops \<le> 99 \<and> 0 < loops + HZ"
proof -
  have "unat (100 :: u32) = 100" by simp
  then obtain loops where "udelay 100 timed = Some (timed\<lparr>now := now timed + loops + 1\<rparr>)" "loops * 10 ^ 6 \<le> 100 * (9984 * HZ)"
    using udelay_bounds [of timed 100] by (auto simp: timed_sel HZ_def)
  then show ?thesis by (intro exI [of _ loops]) (simp add: timed_sel HZ_def)
qed

section \<open>Calibration\<close>

text \<open>
  A clock that ticks every \<open>tick\<close> decrements, and a delay loop that is run as a loop.
\<close>

definition regular :: "nat \<Rightarrow> 'a kdelay_scheme \<Rightarrow> bool" where
  "regular tick s \<longleftrightarrow> x86_udelay_tsc s = 0 \<and> (\<forall>t. jiffies_at s t = of_nat (t div tick))"

lemma regularD: "regular tick s \<Longrightarrow> jiffies_at s t = of_nat (t div tick)"
  by (simp add: regular_def)

lemma wait_tick_next:
  assumes "0 < tick" "\<And>t. j t = (of_nat (t div tick) :: u32)"
  shows "\<exists>k. wait_tick j (j t) t = Some (k * tick)"
proof -
  have step: "wait_tick j (j t) u = Some ((t div tick + 1) * tick)" if "u div tick = t div tick" for u
    using that
  proof (induction "(t div tick + 1) * tick - u" arbitrary: u rule: less_induct)
    case less
    have b: "u < (t div tick + 1) * tick" using less.prems assms(1) dividend_less_div_times [of tick u] by (simp add: algebra_simps)
    have e: "wait_tick j (j t) u = wait_tick j (j t) (u + 1)"
      using less.prems assms(2) by (subst wait_tick.simps) simp
    show ?case
    proof (cases "u + 1 = (t div tick + 1) * tick")
      case True
      then have "(u + 1) div tick = t div tick + 1" using assms(1) by simp
      moreover have "(of_nat (t div tick) :: u32) \<noteq> of_nat (t div tick) + 1" by simp
      ultimately have "wait_tick j (j t) (u + 1) = Some (u + 1)"
        using assms(2) by (subst wait_tick.simps) (simp add: algebra_simps)
      then show ?thesis using e True by simp
    next
      case False
      then have "u + 1 < (t div tick + 1) * tick" using b by simp
      then have "(u + 1) div tick < t div tick + 1" by (simp add: div_less_iff_less_mult assms(1))
      moreover have "u div tick \<le> (u + 1) div tick" by (rule div_le_mono) simp
      ultimately have "(u + 1) div tick = t div tick" using less.prems by linarith
      then show ?thesis using less.hyps [of "u + 1"] b e by simp
    qed
  qed
  show ?thesis using step [OF refl] by blast
qed

text \<open>One measurement: \<open>jiffies\<close> has moved exactly when the loop is at least as long as a tick.\<close>

lemma time_loops_regular:
  assumes "regular tick s" "0 < tick" "unat (loops_per_jiffy s) \<le> 2 ^ 31"
  shows "\<exists>n d. time_loops s = Some (d, s\<lparr>now := n\<rparr>) \<and> (d \<noteq> 0 \<longleftrightarrow> tick \<le> unat (loops_per_jiffy s) + 1)"
proof -
  let ?l = "unat (loops_per_jiffy s) + 1"
  note j = regularD [OF assms(1)]
  obtain k where k: "wait_tick (jiffies_at s) (jiffies_at s (now s)) (now s) = Some (k * tick)"
    using wait_tick_next [OF assms(2), of "jiffies_at s" "now s"] j by auto
  have "(k * tick + ?l) div tick = k + ?l div tick" using assms(2) by simp
  then have "jiffies_at s (k * tick + ?l) - jiffies_at s (k * tick) = of_nat (?l div tick)"
    using assms(2) by (simp add: j)
  moreover have "(of_nat (?l div tick) :: u32) \<noteq> 0 \<longleftrightarrow> tick \<le> ?l"
  proof -
    have "?l div tick \<le> ?l" by (rule div_le_dividend)
    moreover have "?l < 2 ^ LENGTH(32)" using assms(3) by simp
    ultimately have "unat (of_nat (?l div tick) :: u32) = ?l div tick"
      by (intro unat_of_nat_small) (rule le_less_trans)
    moreover have "?l div tick = 0 \<longleftrightarrow> ?l < tick" using assms(2) by (simp add: div_eq_0_iff)
    ultimately show ?thesis by (metis not_le unat_eq_0)
  qed
  ultimately show ?thesis using k assms(1,3)
    by (intro exI [of _ "k * tick + ?l"]) (simp add: time_loops_def delay_def loop_delay_def loop_decl_length regular_def Let_def)
qed

lemma unat_power_2: "i < 32 \<Longrightarrow> unat (2 ^ i :: u32) = 2 ^ i"
proof -
  assume "i < 32"
  then have "(2 :: nat) ^ i < 2 ^ LENGTH(32)" by (intro power_strict_increasing) simp_all
  then have "unat (of_nat (2 ^ i) :: u32) = 2 ^ i" by (rule unat_of_nat_small)
  then show ?thesis by simp
qed

lemma shift_power_2:
  "push_bit 1 (2 ^ i :: u32) = 2 ^ Suc i"
  "i < 31 \<Longrightarrow> drop_bit 1 (2 ^ Suc i :: u32) = 2 ^ i"
proof -
  show "push_bit 1 (2 ^ i :: u32) = 2 ^ Suc i" by (simp add: push_bit_eq_mult)
  assume "i < 31"
  then show "drop_bit 1 (2 ^ Suc i :: u32) = 2 ^ i" 
    using unat_power_2 [of "Suc i"] unat_power_2 [of i]
    by (simp add: drop_bit_eq_div word_unat_eq_iff unat_div)
qed

lemma double_loop_regular:
  assumes "regular tick s" "0 < tick" "tick \<le> 2 ^ 31" "loops_per_jiffy s = 2 ^ i" "12 \<le> i" "i < 31"
    and "i = 12 \<or> 2 ^ i + 1 < tick"
  shows "\<exists>n k. i < k \<and> k \<le> 31 \<and> double_loop s = Some (s\<lparr>now := n, loops_per_jiffy := 2 ^ k\<rparr>)
    \<and> tick \<le> 2 ^ k + 1 \<and> (k = 13 \<or> 2 ^ (k - 1) + 1 < tick)"
  using assms(1,4-)
proof (induction "31 - i" arbitrary: i s rule: less_induct)
  case less
  let ?s = "s\<lparr>loops_per_jiffy := 2 ^ Suc i\<rparr>"
  have u: "unat (2 ^ Suc i :: u32) = 2 ^ Suc i" using less.prems(4) by (intro unat_power_2) simp
  then have nz: "(2 ^ Suc i :: u32) \<noteq> 0" by (metis power_not_zero unat_0 zero_neq_numeral)
  have p: "(2 :: nat) ^ Suc i \<le> 2 ^ 31" using less.prems(4) by (intro power_increasing) simp_all
  have r: "regular tick ?s" using less.prems(1) by (simp add: regular_def)
  obtain n d where t: "time_loops ?s = Some (d, ?s\<lparr>now := n\<rparr>)" and d: "d \<noteq> 0 \<longleftrightarrow> tick \<le> 2 ^ Suc i + 1"
    using time_loops_regular [OF r assms(2)] u p by (auto simp del: power_Suc)
  have push: "push_bit 1 (loops_per_jiffy s) = 2 ^ Suc i" using less.prems(2) shift_power_2(1) by simp
  show ?case
  proof (cases "tick \<le> 2 ^ Suc i + 1")
    case True
    then have "double_loop s = Some (s\<lparr>now := n, loops_per_jiffy := 2 ^ Suc i\<rparr>)"
      using t d nz by (subst double_loop.simps) (simp add: push Let_def)
    moreover have "Suc i = 13 \<or> 2 ^ (Suc i - 1) + 1 < tick" using less.prems(5) by (simp only: diff_Suc_1) linarith
    ultimately show ?thesis using True less.prems(4) by (intro exI [of _ n] exI [of _ "Suc i"]) simp
  next
    case False
    let ?t = "?s\<lparr>now := n\<rparr>"
    have e: "double_loop s = double_loop ?t"
      using t d nz False by (subst double_loop.simps) (simp add: push Let_def)
    have "Suc i < 31"
    proof (rule ccontr)
      assume "\<not> Suc i < 31"
      then have "Suc i = 31" using less.prems(4) by simp
      then show False using False assms(3) by simp
    qed
    then have "\<exists>n k. Suc i < k \<and> k \<le> 31 \<and> double_loop ?t = Some (?t\<lparr>now := n, loops_per_jiffy := 2 ^ k\<rparr>)
        \<and> tick \<le> 2 ^ k + 1 \<and> (k = 13 \<or> 2 ^ (k - 1) + 1 < tick)"
      using less.prems r False by (intro less.hyps) (auto simp: regular_def)
    then obtain n' k where "Suc i < k" "k \<le> 31" "double_loop ?t = Some (?t\<lparr>now := n', loops_per_jiffy := 2 ^ k\<rparr>)"
      "tick \<le> 2 ^ k + 1" "k = 13 \<or> 2 ^ (k - 1) + 1 < tick" by blast
    then show ?thesis unfolding e by (intro exI [of _ n'] exI [of _ k]) simp
  qed
qed

text \<open>
  The binary approximation: the number of loops stays below a tick, and the distance to it below the bit
  that was tried last.
\<close>

lemma or_bit:
  fixes l :: u32
  assumes "2 ^ Suc i dvd unat l" "i < 32" "unat l + 2 ^ i < 2 ^ 32"
  shows "unat (l OR 2 ^ i) = unat l + 2 ^ i" "(l OR 2 ^ i) AND NOT (2 ^ i) = l"
proof -
  have "even (unat l div 2 ^ i)" using assms(1) by (auto elim!: dvdE)
  then have "\<not> bit (unat l) i" by (simp add: bit_iff_odd)
  then have n: "\<not> bit l i" by (simp add: bit_unsigned_iff)
  then have z: "l AND 2 ^ i = 0" by (intro bit_eqI) (auto simp: bit_simps)
  show "(l OR 2 ^ i) AND NOT (2 ^ i) = l" using n by (intro bit_eqI) (auto simp: bit_simps)
  have "l OR 2 ^ i = l + 2 ^ i" using disjunctive_add_eq_or [OF z] by simp
  moreover have "unat (l + 2 ^ i) = unat l + unat (2 ^ i :: u32)"
    by (rule unat_add_nowrap) (use assms in \<open>simp add: unat_power_2\<close>)
  ultimately show "unat (l OR 2 ^ i) = unat l + 2 ^ i" using assms(2) by (simp add: unat_power_2)
qed

lemma dvd_room: "d dvd a \<Longrightarrow> d dvd b \<Longrightarrow> a < b \<Longrightarrow> a + d \<le> b" for a b d :: nat
  using dvd_imp_le [of d "b - a"] dvd_diff_nat [of d b a] by simp

lemma approximate_regular:
  assumes "0 < tick" "tick \<le> 2 ^ 31" "n \<le> i" "i < 31" "2 ^ i dvd unat (loops_per_jiffy s)" "regular tick s"
    and "unat (loops_per_jiffy s) + 1 < tick" "tick \<le> unat (loops_per_jiffy s) + 1 + 2 ^ i"
  shows "\<exists>m l. approximate n (2 ^ i) s = Some (s\<lparr>now := m, loops_per_jiffy := l\<rparr>)
    \<and> unat (loops_per_jiffy s) \<le> unat l \<and> unat l + 1 < tick \<and> tick \<le> unat l + 1 + 2 ^ (i - n)"
  using assms(3-)
proof (induction n arbitrary: i s)
  case 0
  then show ?case by (intro exI [of _ "now s"] exI [of _ "loops_per_jiffy s"]) simp
next
  case (Suc n)
  let ?l = "loops_per_jiffy s"
  obtain i' where i: "i = Suc i'" using Suc.prems(1) by (cases i) auto
  let ?b = "2 ^ i' :: u32"
  have db: "drop_bit 1 (2 ^ i :: u32) = ?b" using Suc.prems(2) i shift_power_2(2) [of i'] by simp
  have ub: "unat ?b = 2 ^ i'" using i Suc.prems(2) by (intro unat_power_2) simp
  then have nz: "?b \<noteq> 0" by (metis power_not_zero unat_0 zero_neq_numeral)
  have p: "2 ^ i' \<le> (2 :: nat) ^ 30" using i Suc.prems(2) by (intro power_increasing) simp_all
  have o: "unat (?l OR ?b) = unat ?l + 2 ^ i'" "(?l OR ?b) AND NOT ?b = ?l"
    by (rule or_bit; use Suc.prems i assms(2) p in simp)+
  let ?s = "s\<lparr>loops_per_jiffy := ?l OR ?b\<rparr>"
  have r: "regular tick ?s" using Suc.prems(4) by (simp add: regular_def)
  have "unat ?l + 2 ^ i \<le> 2 ^ 31"
    by (rule dvd_room [OF Suc.prems(3) le_imp_power_dvd]) (use Suc.prems assms(2) in simp_all)
  then have "unat (?l OR ?b) \<le> 2 ^ 31" using o(1) i by simp
  then obtain m d where t: "time_loops ?s = Some (d, ?s\<lparr>now := m\<rparr>)" and d: "d \<noteq> 0 \<longleftrightarrow> tick \<le> unat ?l + 2 ^ i' + 1"
    using time_loops_regular [OF r assms(1)] o(1) by auto
  let ?u = "s\<lparr>loops_per_jiffy := if d \<noteq> 0 then ?l else ?l OR ?b, now := m\<rparr>"
  have e: "approximate (Suc n) (2 ^ i) s = approximate n ?b ?u"
    using t nz o(2) by (simp add: db Let_def)
  have "\<exists>m l. approximate n ?b ?u = Some (?u\<lparr>now := m, loops_per_jiffy := l\<rparr>)
    \<and> unat (loops_per_jiffy ?u) \<le> unat l \<and> unat l + 1 < tick \<and> tick \<le> unat l + 1 + 2 ^ (i' - n)"
  proof (rule Suc.IH)
    show "2 ^ i' dvd unat (loops_per_jiffy ?u)" using Suc.prems(3) o(1) i by (auto elim: dvd_trans [rotated])
  qed (use Suc.prems i d o(1) in \<open>auto simp: regular_def\<close>)
  then obtain m' l where a: "approximate n ?b ?u = Some (?u\<lparr>now := m', loops_per_jiffy := l\<rparr>)"
    "unat (loops_per_jiffy ?u) \<le> unat l" "unat l + 1 < tick" "tick \<le> unat l + 1 + 2 ^ (i' - n)" by blast
  have "unat ?l \<le> unat l" using a(2) o(1) by (cases "d = 0") simp_all
  then show ?case unfolding e a(1) using a(3,4) i by (intro exI [of _ m'] exI [of _ l]) simp
qed

text \<open>With a tick shorter than the first guess every bit is taken back.\<close>

lemma approximate_short:
  assumes "0 < tick" "n \<le> i" "i < 31" "2 ^ i dvd unat (loops_per_jiffy s)" "regular tick s"
    and "unat (loops_per_jiffy s) < 2 ^ 30" "tick \<le> unat (loops_per_jiffy s) + 1"
  shows "\<exists>m. approximate n (2 ^ i) s = Some (s\<lparr>now := m\<rparr>)"
  using assms(2-)
proof (induction n arbitrary: i s)
  case 0
  then show ?case by (intro exI [of _ "now s"]) simp
next
  case (Suc n)
  let ?l = "loops_per_jiffy s"
  obtain i' where i: "i = Suc i'" using Suc.prems(1) by (cases i) auto
  let ?b = "2 ^ i' :: u32" and ?s = "s\<lparr>loops_per_jiffy := ?l OR 2 ^ i'\<rparr>"
  have db: "drop_bit 1 (2 ^ i :: u32) = ?b" using Suc.prems(2) i shift_power_2(2) [of i'] by simp
  have "unat ?b = 2 ^ i'" using i Suc.prems(2) by (intro unat_power_2) simp
  then have nz: "?b \<noteq> 0" by (metis power_not_zero unat_0 zero_neq_numeral)
  have p: "2 ^ i' \<le> (2 :: nat) ^ 30" using i Suc.prems(2) by (intro power_increasing) simp_all
  have o: "unat (?l OR ?b) = unat ?l + 2 ^ i'" "(?l OR ?b) AND NOT ?b = ?l"
    by (rule or_bit; use Suc.prems i p in simp)+
  have r: "regular tick ?s" using Suc.prems(4) by (simp add: regular_def)
  have "unat (loops_per_jiffy ?s) \<le> 2 ^ 31" using o(1) p Suc.prems(5) by simp
  from time_loops_regular [OF r assms(1) this] obtain m d
    where t: "time_loops ?s = Some (d, ?s\<lparr>now := m\<rparr>)" and d: "d \<noteq> 0" using o(1) Suc.prems(6) by auto
  have e: "approximate (Suc n) (2 ^ i) s = approximate n ?b (s\<lparr>now := m\<rparr>)"
    using t d nz o(2) by (simp add: db Let_def)
  have "\<exists>m'. approximate n ?b (s\<lparr>now := m\<rparr>) = Some (s\<lparr>now := m\<rparr>\<lparr>now := m'\<rparr>)"
    by (rule Suc.IH) (use Suc.prems i in \<open>auto simp: regular_def elim: dvd_trans [rotated]\<close>)
  then show ?case unfolding e by simp
qed

lemma calibrate_spec:
  assumes "regular tick s" "0 < tick" "tick \<le> 2 ^ 31"
  shows "\<exists>n l t. calibrate_delay s = Some (s\<lparr>now := n, loops_per_jiffy := l, ktrace := t\<rparr>)
    \<and> 4096 \<le> unat l \<and> (if tick \<le> 4097 then unat l = 4096 else unat l + 1 < tick \<and> (tick - 1 - unat l) * 256 \<le> unat l)"
proof -
  let ?s = "say ''Calibrating delay loop... '' [] (s\<lparr>loops_per_jiffy := push_bit 12 1\<rparr>)"
  have reg: "regular tick ?s" "loops_per_jiffy ?s = 2 ^ 12" using assms(1) by (simp_all add: regular_def say_def)
  obtain n k where k: "12 < k" "k \<le> 31" "double_loop ?s = Some (?s\<lparr>now := n, loops_per_jiffy := 2 ^ k\<rparr>)"
    "tick \<le> 2 ^ k + 1" "k = 13 \<or> 2 ^ (k - 1) + 1 < tick"
    using double_loop_regular [OF reg(1) assms(2,3) reg(2)] by auto
  obtain i where i: "k = Suc i" "12 \<le> i" "i < 31" using k(1,2) by (cases k) auto
  let ?t = "?s\<lparr>now := n, loops_per_jiffy := 2 ^ i\<rparr>"
  have db: "drop_bit 1 (2 ^ k :: u32) = 2 ^ i" using shift_power_2(2) [OF i(3)] i(1) by simp
  have t: "regular tick ?t" "unat (loops_per_jiffy ?t) = 2 ^ i"
    using reg(1) unat_power_2 [of i] i(3) by (simp_all add: regular_def)
  have ge: "2 ^ 12 \<le> (2 :: nat) ^ i" using i(2) by (intro power_increasing) simp_all
  have c: "\<exists>n t. calibrate_delay s = Some (s\<lparr>now := n, loops_per_jiffy := l, ktrace := t\<rparr>)"
    if "approximate 8 (2 ^ i) ?t = Some (?t\<lparr>now := m, loops_per_jiffy := l\<rparr>)" for m l
    by (intro exI) (use k(3) that db in \<open>simp add: calibrate_delay_def Let_def LPS_PREC_def say_def\<close>)
  show ?thesis
  proof (cases "tick \<le> 4097")
    case True
    have "i = 12"
    proof -
      have "k = 13" using k(5) True ge i(1) by auto
      then show ?thesis using i(1) by simp
    qed
    then obtain m where "approximate 8 (2 ^ i) ?t = Some (?t\<lparr>now := m\<rparr>)"
      using approximate_short [OF assms(2), of 8 i ?t] t True by auto
    then have "approximate 8 (2 ^ i) ?t = Some (?t\<lparr>now := m, loops_per_jiffy := 2 ^ i\<rparr>)" by (simp add: say_def)
    then obtain n t where "calibrate_delay s = Some (s\<lparr>now := n, loops_per_jiffy := 2 ^ i, ktrace := t\<rparr>)"
      using c by blast
    then show ?thesis using t(2) \<open>i = 12\<close> True
      by (intro exI [of _ n] exI [of _ "2 ^ i"] exI [of _ t]) simp
  next
    case False
    then have lo: "2 ^ i + 1 < tick" using k(5) i(1) by auto
    have hi: "tick \<le> 2 ^ i + 1 + 2 ^ i" using k(4) i(1) by simp
    obtain m l where a: "approximate 8 (2 ^ i) ?t = Some (?t\<lparr>now := m, loops_per_jiffy := l\<rparr>)"
      "2 ^ i \<le> unat l" "unat l + 1 < tick" "tick \<le> unat l + 1 + 2 ^ (i - 8)"
      using approximate_regular [OF assms(2,3), of 8 i ?t] t i lo hi by auto
    have "(2 :: nat) ^ i = 2 ^ (i - 8) * 256" 
    proof -
      have "(2 :: nat) ^ (i - 8 + 8) = 2 ^ (i - 8) * 2 ^ 8" by (rule power_add)
      then show ?thesis using i(2) by simp
    qed
    then have "(tick - 1 - unat l) * 256 \<le> unat l" using a(2-4) by simp
    moreover obtain n t where "calibrate_delay s = Some (s\<lparr>now := n, loops_per_jiffy := l, ktrace := t\<rparr>)"
      using c a(1) by blast
    moreover have "4096 \<le> unat l" using ge a(2) by simp
    ultimately show ?thesis using False a(3) by (intro exI [of _ n] exI [of _ l] exI [of _ t]) simp
  qed
qed

text \<open>
  Property C30.  With a clock that ticks every \<open>tick\<close> decrements, calibrate_delay returns, and when a tick
  takes more than 4097 decrements the number of loops it leaves is shorter than a tick, by at most one part
  in 256.  The first guess is a floor: the result is never below 4096, and it is 4096 for every tick of no
  more than 4097 decrements, however short.
\<close>

theorem calibrate_delay_accuracy:
  assumes "regular tick s" "0 < tick" "tick \<le> 2 ^ 31"
  shows "\<exists>s'. calibrate_delay s = Some s'
    \<and> (let l = unat (loops_per_jiffy s')
       in 4096 \<le> l \<and> (if tick \<le> 4097 then l = 4096 else l + 1 < tick \<and> (tick - 1 - l) * 256 \<le> l))"
  using calibrate_spec [OF assms] by (force simp: Let_def)

theorem calibrate_delay_accuracy_witness:
  "\<exists>s'. calibrate_delay timed = Some s' \<and> 9900 \<le> unat (loops_per_jiffy s') \<and> unat (loops_per_jiffy s') < 9999"
proof -
  have "regular 10000 timed" by (simp add: regular_def timed_sel)
  from calibrate_delay_accuracy [OF this] obtain s' where "calibrate_delay timed = Some s'"
    and l: "unat (loops_per_jiffy s') + 1 < 10000" "(10000 - 1 - unat (loops_per_jiffy s')) * 256 \<le> unat (loops_per_jiffy s')"
    by (auto simp: Let_def)
  moreover have "9900 \<le> unat (loops_per_jiffy s')" using l by linarith
  ultimately show ?thesis by auto
qed

end
