(* ===== verification/Vectors.thy ===== *)
theory Vectors
  imports Irq Format
begin

text \<open>
  The interrupt table and the boot of the interrupt system: what each of the 256 gates holds once
  setup_interrupts, setup_exceptions and setup_IRQs of kernel/setup.c and kernel/exception.c have run,
  which lines are open once the clock and the keyboard are registered, and how an exception ends.
\<close>

declare One_nat_def [simp del]

section \<open>Runs of gates\<close>

text \<open>Gates \<open>i\<close> to \<open>n - 1\<close> of the table are set.\<close>

definition gates :: "u32 \<Rightarrow> (nat \<Rightarrow> u32) \<Rightarrow> nat \<Rightarrow> nat \<Rightarrow> mem \<Rightarrow> mem" where
  "gates d f i n m = fold (\<lambda>j. set_intr_gate d (of_nat j) (f j)) [i..<n] m"

lemma gates_step: "gates d f i n m = (if i < n then gates d f (i + 1) n (set_intr_gate d (of_nat i) (f i) m) else m)"
  by (simp add: gates_def upt_conv_Cons One_nat_def)

lemma gates_at:
  assumes "idt_fits d" "n \<le> 256" "k < 256"
  shows "idt_gate d k (gates d f i n m) =
    (if i \<le> unat k \<and> unat k < n then (f (unat k), KERNEL_CODE, 14, 0, True) else idt_gate d k m)"
proof (induction "n - i" arbitrary: i m)
  case 0
  then show ?case by (subst gates_step) auto
next
  case (Suc x)
  then have i: "i < n" by simp
  then have u: "unat (of_nat i :: u16) = i" using assms(2) by (simp add: unat_of_nat_small)
  have l: "(of_nat i :: u16) < 256" using i assms(2) u by (simp add: word_less_nat_alt)
  have e: "k = of_nat i \<longleftrightarrow> unat k = i" using u by (metis unsigned_word_eqI)
  have "x = n - (i + 1)" using Suc.hyps(2) by simp
  from Suc.hyps(1) [OF this] show ?case
    using i intr_gate_at [OF assms(1) l assms(3)] e by (subst gates_step) auto
qed

lemma set_intr_gate_frame:
  assumes "idt_fits d" "n < 256" "x \<notin> span d 2048"
  shows "set_intr_gate d n a m x = m x"
proof -
  have n: "unat n < 256" using assms(2) by (simp add: word_less_nat_alt)
  have "(ucast n :: u32) = of_nat (unat n)" by (rule unsigned_word_eqI) (use n in \<open>simp add: unat_of_nat_small unat_ucast_up\<close>)
  then have "span (d + 8 * ucast n) 8 \<subseteq> span d 2048" using span_shift [of "8 * unat n" 8 2048 d] n by simp
  then show ?thesis
    unfolding set_intr_gate_def by (intro gate_fields(6)) (use assms(3) in auto)
qed

lemma gates_frame:
  assumes "idt_fits d" "n \<le> 256" "x \<notin> span d 2048"
  shows "gates d f i n m x = m x"
proof (induction "n - i" arbitrary: i m)
  case (Suc y)
  then have i: "i < n" "y = n - (i + 1)" by simp_all
  then have "(of_nat i :: u16) < 256" using assms(2) by (simp add: word_less_nat_alt unat_of_nat_small)
  then show ?case
    using i(1) Suc.hyps(1) [OF i(2)] set_intr_gate_frame [OF assms(1) _ assms(3)] by (subst gates_step) simp
qed (subst gates_step, simp)

lemma on_mem_sel [simp]:
  "mem (on_mem f s) = f (mem s)" "kmem.more (on_mem f s) = kmem.more s" "ph (on_mem f s) = ph s" "bh (on_mem f s) = bh s"
  "klock (on_mem f s) = klock s" "intr (on_mem f s) = intr s" "kports (on_mem f s) = kports s" "on_mem f (on_mem g s) = on_mem (\<lambda>m. f (g m)) s"
  "on_mem (\<lambda>m. m) s = s"
  by (simp_all add: on_mem_def)

lemma kirq_sel_more:
  fixes s t :: "'a kirq_scheme"
  assumes "kmem.more t = kmem.more s"
  shows "idt t = idt s" "interrupts t = interrupts s" "exception_funcs t = exception_funcs s"
    "unexpected_int t = unexpected_int s" "int3 t = int3 s" "syscall_entry t = syscall_entry s" "hnd t = hnd s"
    "irq_handlers t = irq_handlers s" "cached_irq_mask t = cached_irq_mask s"
  using assms by (cases s; cases t; simp)+

lemma exceptions_loop_eq: "exceptions_loop i s = on_mem (gates (idt s) (exception_funcs s) i 32) s"
proof (induction i s rule: exceptions_loop.induct)
  case (1 i s)
  show ?case
    using 1 unfolding exceptions_loop.simps [of i s] gates_step [of _ _ i] by (simp add: kirq_sel_more [OF on_mem_sel(2)])
qed

lemma unexpected_loop_eq: "unexpected_loop i s = on_mem (gates (idt s) (\<lambda>_. unexpected_int s) i 256) s"
proof (induction i s rule: unexpected_loop.induct)
  case (1 i s)
  show ?case
    using 1 unfolding unexpected_loop.simps [of i s] gates_step [of _ _ i] by (simp add: kirq_sel_more [OF on_mem_sel(2)])
qed

lemma vectors_loop_eq:
  "vectors_loop i s = (on_mem (gates (idt s) (\<lambda>j. interrupts s (j - 32)) (32 + i) 48) s)
     \<lparr>irq_handlers := (\<lambda>k. if i \<le> k \<and> k < 16 then 0 else irq_handlers s k)\<rparr>"
proof (induction "16 - i" arbitrary: i s)
  case 0
  then have "\<not> (i \<le> k \<and> k < 16)" for k by linarith
  then have "(\<lambda>k. if i \<le> k \<and> k < 16 then 0 else irq_handlers s k) = irq_handlers s" by (simp only: if_False)
  moreover have "vectors_loop i s = s" using 0 by (simp add: vectors_loop.simps)
  moreover have "gates d f (32 + i) 48 m = m" for d f m using 0 by (simp add: gates_def)
  ultimately show ?case by (simp add: on_mem_def)
next
  case (Suc x)
  then have i: "i < 16" "x = 16 - (i + 1)" by simp_all
  let ?t = "(on_mem (set_intr_gate (idt s) (of_nat (32 + i)) (interrupts s i)) s)\<lparr>irq_handlers := (irq_handlers s)(i := 0)\<rparr>"
  have "vectors_loop i s = vectors_loop (i + 1) ?t"
    using i by (subst vectors_loop.simps) (simp add: Let_def FIRST_VECTOR_def on_mem_def)
  also have "\<dots> = (on_mem (gates (idt ?t) (\<lambda>j. interrupts ?t (j - 32)) (32 + (i + 1)) 48) ?t)
     \<lparr>irq_handlers := (\<lambda>k. if i + 1 \<le> k \<and> k < 16 then 0 else irq_handlers ?t k)\<rparr>"
    by (rule Suc.hyps(1) [OF i(2)])
  also have "\<dots> = (on_mem (gates (idt s) (\<lambda>j. interrupts s (j - 32)) (32 + i) 48) s)
     \<lparr>irq_handlers := (\<lambda>k. if i \<le> k \<and> k < 16 then 0 else irq_handlers s k)\<rparr>"
  proof -
    have "(\<lambda>k. if i + 1 \<le> k \<and> k < 16 then 0 else ((irq_handlers s)(i := 0)) k) =
      (\<lambda>k. if i \<le> k \<and> k < 16 then 0 else irq_handlers s k)" using i by (auto simp: fun_eq_iff)
    moreover have "gates d f (32 + i) 48 = (\<lambda>m. gates d f (32 + (i + 1)) 48 (set_intr_gate d (of_nat (32 + i)) (f (32 + i)) m))"
      for d f by (rule ext, subst gates_step) (use i in simp)
    moreover have "irq_handlers ?t = (irq_handlers s)(i := 0)" by simp
    ultimately show ?thesis by (simp only:) (simp add: on_mem_def)
  qed
  finally show ?case .
qed

section \<open>The layout of the table\<close>

text \<open>The entry point of each vector: exceptions, interrupt lines, the system call, and nothing else.\<close>

definition entry_of :: "'a kirq_scheme \<Rightarrow> nat \<Rightarrow> u32" where
  "entry_of s n = (if n < 32 then exception_funcs s n else if n < 48 then interrupts s (n - 32)
     else if n = 0x40 then syscall_entry s else unexpected_int s)"

definition table_mem :: "u32 \<Rightarrow> 'a kirq_scheme \<Rightarrow> mem \<Rightarrow> mem" where
  "table_mem d s m = set_intr_gate d 0x40 (syscall_entry s) (gates d (\<lambda>j. interrupts s (j - 32)) 32 48
     (gates d (exception_funcs s) 0 32 (set_intr_gate d 3 (int3 s) (gates d (\<lambda>_. unexpected_int s) 0 256 m))))"

lemma table_mem_at:
  fixes k :: u16
  assumes d: "idt_fits d" and k: "k < 256"
  shows "idt_gate d k (table_mem d s m) = (entry_of s (unat k), KERNEL_CODE, 14, 0, True)"
proof -
  have c: "(3 :: u16) < 256" "(0x40 :: u16) < 256" by simp_all
  have "k = 0x40 \<longleftrightarrow> unat k = unat (0x40 :: u16)" by (metis unsigned_word_eqI)
  then have e: "k = 0x40 \<longleftrightarrow> unat k = 0x40" by simp
  have "k = 3 \<Longrightarrow> unat k = 3" "unat k < 256" using k by (simp_all add: word_less_nat_alt)
  then show ?thesis
    by (simp add: table_mem_def entry_of_def intr_gate_at [OF d c(2) k] intr_gate_at [OF d c(1) k] gates_at [OF d _ k] e)
qed

lemma table_mem_frame: "idt_fits d \<Longrightarrow> x \<notin> span d 2048 \<Longrightarrow> table_mem d s m x = m x"
  unfolding table_mem_def by (subst set_intr_gate_frame gates_frame, assumption, simp, assumption)+ simp

text \<open>What setup_IRQs does, piece by piece.\<close>

lemma init_irq_vectors_sel:
  "mem (init_irq_vectors s) = gates (idt s) (\<lambda>j. interrupts s (j - 32)) 32 48 (mem s)"
  "irq_handlers (init_irq_vectors s) = (\<lambda>k. if k < 16 then 0 else irq_handlers s k)"
  "hnd (init_irq_vectors s) = hnd s" "cached_irq_mask (init_irq_vectors s) = cached_irq_mask s"
  "kports (init_irq_vectors s) = kports s" "klock (init_irq_vectors s) = klock s" "intr (init_irq_vectors s) = intr s"
  "idt (init_irq_vectors s) = idt s" "syscall_entry (init_irq_vectors s) = syscall_entry s"
  "ph (init_irq_vectors s) = ph s" "bh (init_irq_vectors s) = bh s"
  "timer_int (init_irq_vectors s) = timer_int s" "keyboard_int (init_irq_vectors s) = keyboard_int s"
  by (simp_all add: init_irq_vectors_def vectors_loop_eq) (simp_all add: on_mem_def)

lemma kirq_init_8259A:
  "irq_handlers (init_8259A s) = irq_handlers s" "hnd (init_8259A s) = hnd s" "idt (init_8259A s) = idt s"
  "interrupts (init_8259A s) = interrupts s" "syscall_entry (init_8259A s) = syscall_entry s"
  "timer_int (init_8259A s) = timer_int s" "keyboard_int (init_8259A s) = keyboard_int s"
  "exception_funcs (init_8259A s) = exception_funcs s"
  by (simp_all add: init_8259A_eq outs_def)

lemma init_syscalls_sel:
  "mem (init_syscalls s) = set_intr_gate (idt s) 0x40 (syscall_entry s) (mem s)"
  "irq_handlers (init_syscalls s) = irq_handlers s" "hnd (init_syscalls s) = hnd s"
  "cached_irq_mask (init_syscalls s) = cached_irq_mask s" "kports (init_syscalls s) = kports s"
  "klock (init_syscalls s) = klock s" "intr (init_syscalls s) = intr s" "idt (init_syscalls s) = idt s"
  "ph (init_syscalls s) = ph s" "bh (init_syscalls s) = bh s"
  "timer_int (init_syscalls s) = timer_int s" "keyboard_int (init_syscalls s) = keyboard_int s"
  by (simp_all add: init_syscalls_def Let_def) (simp_all add: say_def on_mem_def)

lemma setup_IRQs_sel:
  "mem (setup_IRQs s) = set_intr_gate (idt s) 0x40 (syscall_entry s) (gates (idt s) (\<lambda>j. interrupts s (j - 32)) 32 48 (mem s))"
  "irq_handlers (setup_IRQs s) = (\<lambda>k. if k < 16 then 0 else irq_handlers s k)" "hnd (setup_IRQs s) = hnd s"
  "cached_irq_mask (setup_IRQs s) = cached_irq_mask s" "klock (setup_IRQs s) = klock s" "intr (setup_IRQs s) = intr s"
  "idt (setup_IRQs s) = idt s" "ph (setup_IRQs s) = ph s" "bh (setup_IRQs s) = bh s"
  "timer_int (setup_IRQs s) = timer_int s" "keyboard_int (setup_IRQs s) = keyboard_int s"
  by (simp_all add: setup_IRQs_def Let_def init_syscalls_sel init_irq_vectors_sel kirq_init_8259A init_8259A_more init_8259A_sel
      cong: if_cong)

lemma setup_IRQs_ok: "masks_ok (setup_IRQs s)" "chains_ok (\<lambda>_. []) (setup_IRQs s)"
  using init_8259A_sel(4) [of s]
  by (simp_all add: masks_ok_def chains_ok_def setup_IRQs_sel)
    (simp_all add: setup_IRQs_def Let_def init_syscalls_sel init_irq_vectors_sel init_8259A_sel)

lemma exceptions_sel:
  "mem (setup_exceptions s) = gates (idt s) (exception_funcs s) 0 32 (mem s)"
  "kmem.more (setup_exceptions s) = kmem.more s" "ph (setup_exceptions s) = ph s" "bh (setup_exceptions s) = bh s"
  by (simp_all add: setup_exceptions_def exceptions_loop_eq)

lemma setup_interrupts_eq:
  assumes "kalloc (256 * 8) s = Some (Inr (p, s1))"
  obtains u where "setup_interrupts s = Some (Inr ((), u))" "idt u = p" "ph u = ph s1" "bh u = bh s1" "kmem.more u = kmem.more (s1\<lparr>idt := p\<rparr>)"
    "klock u = klock s1" "intr u = intr s1" "kports u = kports s1" "mem u = set_intr_gate p 3 (int3 s1) (gates p (\<lambda>_. unexpected_int s1) 0 256 (mem s1))"
proof -
  let ?u = "on_mem (set_intr_gate p 3 (int3 s1)) (unexpected_loop 0 (s1\<lparr>idt := p\<rparr>))"
  have u: "kmem.more ?u = kmem.more (s1\<lparr>idt := p\<rparr>)" by (simp add: unexpected_loop_eq)
  note k = kirq_sel_more [OF this]
  have "setup_interrupts s = Some (Inr ((), ?u))"
    using assms by (simp add: setup_interrupts_def Let_def unexpected_loop_eq) (simp add: on_mem_def)
  then show ?thesis
    by (rule that) (simp_all add: u k, simp_all add: unexpected_loop_eq)
qed

text \<open>The interrupt table, when the allocator has room for it.\<close>

lemma table_stage:
  assumes ok: "heap_ok lo ps bs s" and lock: "unat (klock s) < 2 ^ 32 - 2" and ab: "abs_kalloc 2052 ps bs = Some (a, ps', bs')"
  obtains u where "setup_interrupts s = Some (Inr ((), u))" "kmem.more u = kmem.more (s\<lparr>idt := node 1 (a + 4)\<rparr>)"
    "ph u = ph s" "bh u = bh s" "klock u = klock s" "intr u = (klock s = 0)" "kports u = kports s"
    "idt (setup_IRQs (setup_exceptions u)) = node 1 (a + 4)"
    "\<forall>k < 256. idt_gate (node 1 (a + 4)) k (mem (setup_IRQs (setup_exceptions u))) = (entry_of s (unat k), KERNEL_CODE, 14, 0, True)"
    "heap_ok lo ps' bs' (setup_IRQs (setup_exceptions u))"
    "span (node 1 (a + 4)) 2048 \<inter> heap_bytes ps' bs' s = {}"
    "\<And>x. x \<notin> heap_bytes ps bs s \<Longrightarrow> mem (setup_IRQs (setup_exceptions u)) x = mem s x"
    "span (node 1 (a + 4)) 2048 \<subseteq> ext_bytes 4096 ps \<union> ext_bytes 1 bs"
proof -
  have n: "unat (2048 :: u32) + 4 \<le> 65535 * 4096" "unat (2048 :: u32) + 4 = 2052" by simp_all
  let ?p = "node 1 (a + 4)"
  obtain s1 where k: "kalloc 2048 s = Some (Inr (?p, s1))" and hp: "heap_ok lo ps' bs' s1" and bd: "4096 * lo \<le> a" "a + 2052 \<le> 2 ^ 28"
    and hd: "load32 (mem s1) (node 1 a) = 2048"
    and r: "klock s1 = klock s" "ph s1 = ph s" "bh s1 = bh s" "kmem.more s1 = kmem.more s" "intr s1 = (klock s = 0)" "kports s1 = kports s"
    and fr: "\<And>x. x \<notin> heap_bytes ps bs s \<Longrightarrow> mem s1 x = mem s x"
    and reg: "ext_bytes 4096 ps \<union> ext_bytes 1 bs = ext_bytes 4096 ps' \<union> ext_bytes 1 bs' \<union> ext_bytes 1 [(a, 2052)]"
      "ext_bytes 1 [(a, 2052)] \<inter> (ext_bytes 4096 ps' \<union> ext_bytes 1 bs') = {}"
    by (rule kalloc_block [OF ok n(1) lock]) (use ab n(2) kalloc_spec [OF ok n(1) lock] in \<open>auto simp: n(2)\<close>)
  have "kalloc (256 * 8) s = Some (Inr (?p, s1))" using k by simp
  then obtain u where u: "setup_interrupts s = Some (Inr ((), u))" "idt u = ?p" "ph u = ph s1" "bh u = bh s1"
      "kmem.more u = kmem.more (s1\<lparr>idt := ?p\<rparr>)" "klock u = klock s1" "intr u = intr s1" "kports u = kports s1"
      "mem u = set_intr_gate ?p 3 (int3 s1) (gates ?p (\<lambda>_. unexpected_int s1) 0 256 (mem s1))"
    by (rule setup_interrupts_eq)
  let ?t = "setup_IRQs (setup_exceptions u)"
  have d: "idt_fits ?p" using node1_unat [of "a + 4"] bd by (simp add: idt_fits_def)
  have more: "kmem.more u = kmem.more (s\<lparr>idt := ?p\<rparr>)" unfolding u(5) using r(4) by (cases s; cases s1) simp
  have sel: "interrupts u = interrupts s" "exception_funcs u = exception_funcs s"
    "syscall_entry u = syscall_entry s" "unexpected_int s1 = unexpected_int s" "int3 s1 = int3 s"
    using kirq_sel_more [OF more] kirq_sel_more [OF r(4)] by simp_all
  have m: "idt ?t = ?p" "mem ?t = table_mem ?p s (mem s1)"
    using kirq_sel_more [OF exceptions_sel(2) [of u]]
    by (simp_all add: setup_IRQs_sel exceptions_sel sel u(2) table_mem_def u(9))
  have sub: "span ?p 2048 \<subseteq> ext_bytes 1 [(a, 2052)]" using content_span [of a 2048] bd(2) by simp
  have "allocated lo ps' bs' s1 a 2048" using bd hd reg(2) by (simp add: allocated_def)
  then have "ext_bytes 1 [(a, 2052)] \<inter> heap_bytes ps' bs' s1 = {}" using allocated_outside [OF hp] by fastforce
  then have out: "span ?p 2048 \<inter> heap_bytes ps' bs' s1 = {}" using sub by blast
  have hok: "heap_ok lo ps' bs' ?t"
  proof (rule heap_ok_agree [OF hp])
    show "ph ?t = ph s1" "bh ?t = bh s1" by (simp_all add: setup_IRQs_sel exceptions_sel u)
    fix x assume "x \<in> heap_bytes ps' bs' s1"
    then have "x \<notin> span ?p 2048" using out by blast
    then show "mem ?t x = mem s1 x" by (simp add: m table_mem_frame [OF d])
  qed
  have fr2: "mem ?t x = mem s x" if "x \<notin> heap_bytes ps bs s" for x
  proof -
    have "x \<notin> span ?p 2048" using that sub reg(1) by (auto simp: heap_bytes_def)
    then show ?thesis using fr [OF that] by (simp add: m table_mem_frame [OF d])
  qed
  have hb: "span ?p 2048 \<inter> heap_bytes ps' bs' s = {}" using out r by (simp add: heap_bytes_def)
  show ?thesis
    by (rule that [OF u(1) more _ _ _ _ _ m(1) _ hok hb fr2])
      (use u(3,4,6-8) r table_mem_at [OF d, of _ s "mem s1"] sub reg(1) in \<open>auto simp: m\<close>)
qed

text \<open>
  Property C20.  The set-up of the interrupt table: it stops the kernel when there is no memory for the
  table; otherwise all 256 gates are present interrupt gates of the kernel, the 32 exceptions, the 16
  lines from vector 32 on and the system call at 0x40 lead to their own entry points and all others to
  unexpected_int.  The table is in memory no free list holds, the heap stays well formed, the masks of the
  controllers are in step, and no line has a handler.
\<close>

theorem idt_layout:
  assumes "heap_ok lo ps bs s" and "unat (klock s) < 2 ^ 32 - 2"
  shows "case setup_interrupts s of
      None \<Rightarrow> False
    | Some (Inl _) \<Rightarrow> abs_kalloc 2052 ps bs = None
    | Some (Inr (_, u)) \<Rightarrow>
        (let t = setup_IRQs (setup_exceptions u)
         in (\<forall>n. n < 256 \<longrightarrow> idt_gate (idt t) n (mem t) = (entry_of s (unat n), KERNEL_CODE, 14, 0, True))
          \<and> (\<exists>ps' bs'. heap_ok lo ps' bs' t \<and> span (idt t) 2048 \<inter> (ext_bytes 4096 ps' \<union> ext_bytes 1 bs') = {})
          \<and> masks_ok t \<and> chains_ok (\<lambda>_. []) t)"
proof -
  have n: "unat (2048 :: u32) + 4 \<le> 65535 * 4096" "unat (2048 :: u32) + 4 = 2052" by simp_all
  show ?thesis
  proof (cases "abs_kalloc 2052 ps bs")
    case None
    then obtain h where "kalloc 2048 s = Some (Inl h)"
      using kalloc_spec [OF assms(1) n(1) assms(2), unfolded n(2)] by auto
    then show ?thesis using None by (simp add: setup_interrupts_def)
  next
    case (Some r)
    then obtain a ps' bs' where ab: "abs_kalloc 2052 ps bs = Some (a, ps', bs')" by (cases r) auto
    obtain u where u: "setup_interrupts s = Some (Inr ((), u))"
        "idt (setup_IRQs (setup_exceptions u)) = node 1 (a + 4)"
        "\<forall>k < 256. idt_gate (node 1 (a + 4)) k (mem (setup_IRQs (setup_exceptions u))) = (entry_of s (unat k), KERNEL_CODE, 14, 0, True)"
        "heap_ok lo ps' bs' (setup_IRQs (setup_exceptions u))" "span (node 1 (a + 4)) 2048 \<inter> heap_bytes ps' bs' s = {}"
      by (rule table_stage [OF assms ab])
    have "span (node 1 (a + 4)) 2048 \<inter> (ext_bytes 4096 ps' \<union> ext_bytes 1 bs') = {}"
      using u(5) by (auto simp: heap_bytes_def)
    then show ?thesis
      using u(3,4) setup_IRQs_ok [of "setup_exceptions u"] unfolding u(1) Let_def by (auto simp: u(2))
  qed
qed

theorem idt_layout_witness:
  "\<exists>u. setup_interrupts wired = Some (Inr ((), u)) \<and> (let t = setup_IRQs (setup_exceptions u) in
     idt_gate (idt t) 3 (mem t) = (0x11060, KERNEL_CODE, 14, 0, True) \<and> idt_gate (idt t) 0x40 (mem t) = (0x12200, KERNEL_CODE, 14, 0, True))"
proof -
  have h: "heap_ok 256 [(256, 4)] [] wired" by (rule heap_ok_agree [OF four_pages_heap]) (simp_all add: wired_sel)
  have a: "abs_kalloc 2052 [(256, 4)] [] \<noteq> None"
    by (simp add: abs_kalloc_def abs_search.simps pages_for_def ext_insert_def attach_def)
  have e: "exception_funcs wired 3 = 0x11060" "syscall_entry wired = 0x12200"
    by (simp_all add: wired_def kirq_init_8259A) (simp_all add: kkbd.defs)
  have "unat (klock wired) < 2 ^ 32 - 2" by (simp add: wired_sel)
  from idt_layout [OF h this] a show ?thesis
    by (auto simp: Let_def entry_of_def e split: option.splits sum.splits)
qed

section \<open>The lines open after the boot\<close>

text \<open>The writes that program the clock.\<close>

definition clock_ports :: "(u16 \<times> u32) list" where
  "clock_ports = [(0x43, 0x34), (0x80, 0x34), (0x40, of_nat LATCH AND 0xff), (0x80, of_nat LATCH AND 0xff),
     (0x40, ucast (of_nat (LATCH div 2 ^ 8) :: u8))]"

lemma kirq_outs:
  "timer_int (outs ws s) = timer_int s" "keyboard_int (outs ws s) = keyboard_int s" "hnd (outs ws s) = hnd s"
  "irq_handlers (outs ws s) = irq_handlers s" "klock (outs ws s) = klock s" "kports (outs ws s) = kports s @ ws"
  by (simp_all add: outs_def)

lemma kports_outs: "kports (outs ws s) = kports s @ ws"
  by (simp add: outs_def)

lemma setup_clock_eq: "setup_clock s = register_irq_handler (timer_int s) (outs clock_ports s)"
  unfolding setup_clock_def Let_def outb_def outb_p_def outp_outs clock_ports_def by (simp add: kirq_outs)

lemma clock_masks: "masks_ok s \<Longrightarrow> masks_ok (outs clock_ports s)"
  by (simp add: masks_ok_def kports_outs clock_ports_def)

lemma boot_lines_spec:
  assumes "hnd s (timer_int s) = timer_handler" and "hnd s (keyboard_int s) = keyboard_handler"
    and "timer_int s \<noteq> 0" and "keyboard_int s \<noteq> 0" and "cached_irq_mask s = 0xffff"
  shows "\<exists>t u. setup_clock (setup_IRQs s) = Some t \<and> setup_keyboard t = Some u
    \<and> masks_ok u \<and> chains_ok ((\<lambda>_. [])(0 := [timer_int s], 1 := [keyboard_int s])) u
    \<and> (\<forall>n < 16. masked u n = (n \<noteq> 0 \<and> n \<noteq> 1)) \<and> klock u = klock s
    \<and> (\<forall>h v. 8 \<le> unat (irq (hnd u h)) \<and> register_irq_handler h u = Some v \<longrightarrow> masked v 2)"
proof -
  let ?s = "setup_IRQs s" and ?o = "outs clock_ports (setup_IRQs s)"
  have o: "chains_ok (\<lambda>_. []) ?o" "masks_ok ?o"
    using setup_IRQs_ok [of s] chains_ok_agree [of _ ?s ?o] by (simp_all add: kirq_outs clock_masks)
  have h: "hnd ?o = hnd s" "timer_int ?s = timer_int s" "keyboard_int ?s = keyboard_int s" "irq_handlers ?o 0 = 0"
    by (simp_all add: kirq_outs setup_IRQs_sel)
  have i: "0 = unat (irq (hnd ?o (timer_int s)))" using assms(1) h by (simp add: timer_handler_def)
  obtain t where t: "register_irq_handler (timer_int s) ?o = Some t" "chains_ok ((\<lambda>_. [])(0 := [timer_int s])) t"
      "masks_ok t" "cached_irq_mask t = 0xffff AND NOT (irq_bit 0)" "klock t = klock s"
      "hnd t = hook (timer_int s) 0 (hnd s)" "keyboard_int t = keyboard_int s"
    by (rule register_irq_handler_ok [OF o i _ assms(3)])
      (use assms(1,5) h in \<open>simp_all add: kirq_outs setup_IRQs_sel timer_handler_def\<close>)
  have j: "1 = unat (irq (hnd t (keyboard_int s)))" "keyboard_int t = keyboard_int s"
    using assms(2) t(6,7) by (simp_all add: hook_irq keyboard_handler_def One_nat_def)
  obtain u where u: "register_irq_handler (keyboard_int s) t = Some u"
      "chains_ok ((\<lambda>_. [])(0 := [timer_int s], 1 := [keyboard_int s])) u"
      "masks_ok u" "cached_irq_mask u = (0xffff AND NOT (irq_bit 0)) AND NOT (irq_bit 1)" "klock u = klock s"
    by (rule register_irq_handler_ok [OF t(2,3) j(1)]) (use assms(2,4) t j in \<open>simp_all add: hook_irq keyboard_handler_def\<close>)
  have m: "masked u n = (n \<noteq> 0 \<and> n \<noteq> 1)" if "n < 16" for n
    unfolding masked_def u(4) masked_ops [OF that] using sixteen_masked [OF that] by (auto simp: One_nat_def)
  have "masked v 2" if "8 \<le> unat (irq (hnd u h))" "register_irq_handler h u = Some v" for h v
  proof -
    have "unat (irq (hnd u h)) < 16" using that(2) by (simp add: register_irq_handler_def Let_def split: if_splits)
    moreover from this have "v = unlock_kernel (enable_irq (irq (hnd u h)) (link_handler h (unat (irq (hnd u h))) (lock_kernel u)))"
      using that(2) register_irq_handler_eq [of u h] by simp
    ultimately have "cached_irq_mask v = cached_irq_mask u AND NOT (irq_bit (irq (hnd u h)))"
      using u(3) by (simp add: lock_simps enable_irq_masks)
    then show ?thesis using that(1) m [of 2] by (simp add: masked_def masked_ops)
  qed
  then have "\<forall>h v. 8 \<le> unat (irq (hnd u h)) \<and> register_irq_handler h u = Some v \<longrightarrow> masked v 2" by blast
  then show ?thesis
    using t(1) u m h(2) j(2) by (simp add: setup_clock_eq setup_keyboard_def setup_IRQs_sel)
qed

text \<open>Handlers registered one after the other, and the lines they are for.\<close>

primrec register_all :: "u32 list \<Rightarrow> 'a kirq_scheme \<Rightarrow> 'a kirq_scheme option" where
  "register_all [] s = Some s"
| "register_all (h # hs) s = (case register_irq_handler h s of None \<Rightarrow> None | Some s \<Rightarrow> register_all hs s)"

definition lines_of :: "u32 list \<Rightarrow> 'a kirq_scheme \<Rightarrow> nat set" where
  "lines_of hs s = (\<lambda>h. unat (irq (hnd s h))) ` set hs"

text \<open>
  Line \<open>n\<close> can interrupt the processor: it is open, and if it belongs to the second controller so is line 2,
  which that controller is cascaded through.
\<close>

definition can_interrupt :: "'a kpic_scheme \<Rightarrow> nat \<Rightarrow> bool" where
  "can_interrupt s n \<longleftrightarrow> \<not> masked s n \<and> (n < 8 \<or> \<not> masked s 2)"

lemma register_irq_handler_lines:
  assumes m: "masks_ok s" and r: "register_irq_handler h s = Some t"
  shows "masks_ok t" "irq (hnd t x) = irq (hnd s x)"
    "n < 16 \<Longrightarrow> masked t n \<longleftrightarrow> masked s n \<and> n \<noteq> unat (irq (hnd s h))"
proof -
  let ?q = "irq (hnd s h)"
  let ?u = "link_handler h (unat ?q) (lock_kernel s)"
  have q: "unat ?q < 16" using r by (simp add: register_irq_handler_def Let_def split: if_splits)
  have t: "t = unlock_kernel (enable_irq ?q ?u)" using r register_irq_handler_eq [OF q] by simp
  have u: "masks_ok ?u" using m by simp
  note e = enable_irq_masks [OF u q] and k = kpic_more_sel [OF mask_ops_more(1) [of ?q ?u]]
  show "masks_ok t" "irq (hnd t x) = irq (hnd s x)" using e k by (simp_all add: t hook_irq)
  have "cached_irq_mask t = cached_irq_mask s AND NOT (irq_bit ?q)" using e by (simp add: t lock_simps)
  then show "masked t n \<longleftrightarrow> masked s n \<and> n \<noteq> unat ?q" if "n < 16"
    using that by (auto simp: masked_def masked_ops)
qed

lemma register_all_lines:
  "masks_ok s \<Longrightarrow> register_all hs s = Some t \<Longrightarrow> n < 16 \<Longrightarrow> masked t n \<longleftrightarrow> masked s n \<and> n \<notin> lines_of hs s"
proof (induction hs arbitrary: s)
  case (Cons h hs)
  from Cons.prems(2) obtain u where u: "register_irq_handler h s = Some u" "register_all hs u = Some t"
    by (auto split: option.splits)
  note r = register_irq_handler_lines [OF Cons.prems(1) u(1)]
  have "lines_of hs u = lines_of hs s" by (simp add: lines_of_def r(2))
  then show ?case using Cons.IH [OF r(1) u(2) Cons.prems(3)] r(3) [OF Cons.prems(3)] by (auto simp: lines_of_def)
qed (simp add: lines_of_def)

text \<open>
  Property C21.  After setup_IRQs, setup_clock and setup_keyboard exactly lines 0 and 1 are open, with the
  clock and the keyboard as their only handlers.  Whatever handlers are registered from then on, the open
  lines are these two and the lines of the handlers; and a line of the second controller can interrupt only
  if a handler was registered for it and one for line 2 as well, through which that controller is cascaded
  and for which the kernel has no handler.
\<close>

theorem boot_lines:
  assumes "hnd s (timer_int s) = timer_handler" and "hnd s (keyboard_int s) = keyboard_handler"
    and "timer_int s \<noteq> 0" and "keyboard_int s \<noteq> 0" and "cached_irq_mask s = 0xffff"
  shows "\<exists>t u. setup_clock (setup_IRQs s) = Some t \<and> setup_keyboard t = Some u
    \<and> masks_ok u \<and> chains_ok ((\<lambda>_. [])(0 := [timer_int s], 1 := [keyboard_int s])) u
    \<and> (\<forall>n < 16. masked u n = (n \<noteq> 0 \<and> n \<noteq> 1)) \<and> klock u = klock s
    \<and> (\<forall>hs v. register_all hs u = Some v \<longrightarrow>
         (\<forall>n < 16. masked v n = (n \<noteq> 0 \<and> n \<noteq> 1 \<and> n \<notin> lines_of hs u))
         \<and> (\<forall>n. 8 \<le> n \<and> n < 16 \<longrightarrow> can_interrupt v n = (n \<in> lines_of hs u \<and> 2 \<in> lines_of hs u)))"
proof -
  obtain t u where u: "setup_clock (setup_IRQs s) = Some t" "setup_keyboard t = Some u" "masks_ok u"
    "chains_ok ((\<lambda>_. [])(0 := [timer_int s], 1 := [keyboard_int s])) u"
    "\<forall>n < 16. masked u n = (n \<noteq> 0 \<and> n \<noteq> 1)" "klock u = klock s"
    using boot_lines_spec [OF assms] by blast
  have m: "masked v n = (n \<noteq> 0 \<and> n \<noteq> 1 \<and> n \<notin> lines_of hs u)" if "register_all hs u = Some v" "n < 16" for hs v n
    using register_all_lines [OF u(3) that] u(5) that(2) by simp
  have "can_interrupt v n = (n \<in> lines_of hs u \<and> 2 \<in> lines_of hs u)"
    if "register_all hs u = Some v" "8 \<le> n" "n < 16" for hs v n
    using m [OF that(1,3)] m [OF that(1), of 2] that(2) by (auto simp: can_interrupt_def)
  then show ?thesis using u m by blast
qed

theorem boot_lines_witness:
  "\<exists>t u. setup_clock (setup_IRQs wired) = Some t \<and> setup_keyboard t = Some u \<and> \<not> masked u 0 \<and> \<not> masked u 1
     \<and> masked u 9 \<and> \<not> can_interrupt u 9"
proof -
  have "hnd wired (timer_int wired) = timer_handler" "hnd wired (keyboard_int wired) = keyboard_handler"
    "timer_int wired \<noteq> 0" "keyboard_int wired \<noteq> 0" "cached_irq_mask wired = 0xffff"
    by (simp_all add: wired_sel)
  from boot_lines [OF this] obtain t u where u: "setup_clock (setup_IRQs wired) = Some t" "setup_keyboard t = Some u"
    "\<forall>n < 16. masked u n = (n \<noteq> 0 \<and> n \<noteq> 1)"
    "\<forall>hs v. register_all hs u = Some v \<longrightarrow>
         (\<forall>n. 8 \<le> n \<and> n < 16 \<longrightarrow> can_interrupt v n = (n \<in> lines_of hs u \<and> 2 \<in> lines_of hs u))" by blast
  have "\<not> can_interrupt u 9" using u(4) [rule_format, of "[]" u 9] by (simp add: lines_of_def)
  then show ?thesis using u(1-3) by (intro exI [of _ t] exI [of _ u]) (simp add: One_nat_def)
qed

section \<open>Exceptions\<close>

text \<open>The text of a message of the log.\<close>

definition message_text :: "string \<times> varg list \<Rightarrow> string option" where
  "message_text m = map_option fst (vsprintf (fst m) (snd m))"

lemma message_pieces:
  "list_all piece_ok ps \<Longrightarrow> message_text (concat (map piece_fmt ps), concat (map piece_args ps)) =
     Some (concat (map piece_text ps) @ [nul])"
  by (simp add: message_text_def vsprintf_def vsp_pieces)

lemma exception_name_ok: "n < 32 \<Longrightarrow> piece_ok (Text (Some (exception_names ! n)))"
proof -
  have "list_all (\<lambda>t. piece_ok (Text (Some t))) exception_names"
    by (simp add: exception_names_def nul_def)
  then show "n < 32 \<Longrightarrow> piece_ok (Text (Some (exception_names ! n)))"
    by (simp add: list_all_length exception_names_def)
qed

lemma bochs_debug_sel [simp]:
  "intr (bochs_debug s) = intr s" "klock (bochs_debug s) = klock s"
  by (simp_all add: bochs_debug_def outp_def say_def)

text \<open>A machine halted by a panic after one more message.\<close>

definition stopped_after :: "'a kcpu_scheme \<Rightarrow> string \<Rightarrow> 'a kcpu_scheme \<Rightarrow> bool" where
  "stopped_after s text h \<longleftrightarrow> \<not> intr h \<and> klock h = klock s + 2
     \<and> (\<exists>m ms. ktrace h = ktrace s @ m # ms \<and> message_text m = Some (text @ [nul]))"

lemma panic_after:
  assumes "CHR ''%'' \<notin> set msg" "nul \<notin> set msg" "length msg < panic_buf_size" "message_text (fmt, args) = Some (text @ [nul])"
  obtains h where "panic msg [] (say fmt args (lock_kernel s)) = Some (Inl h)" "stopped_after s text h"
proof (rule that)
  let ?h = "halted_by msg (say fmt args (lock_kernel s))"
  show "panic msg [] (say fmt args (lock_kernel s)) = Some (Inl ?h)" by (rule panic_plain [OF assms(1-3)])
  have "\<exists>ms. ktrace ?h = ktrace s @ (fmt, args) # ms"
    by (cases "kbochs s") (simp_all add: halted_by_def bochs_debug_def outp_def lock_kernel_def say_def)
  then show "stopped_after s text ?h"
    using assms(4) by (auto simp: stopped_after_def halted_by_def lock_kernel_def say_def)
qed

definition table_name :: "u32 \<Rightarrow> string" where
  "table_name ec = (if bit ec 1 \<or> bit ec 2 then ''LDT, '' else ''GDT, '')"

lemma bit_test: "ec AND 1 \<noteq> 0 \<longleftrightarrow> bit ec 0" "ec AND 2 \<noteq> 0 \<longleftrightarrow> bit ec 1" "ec AND 4 \<noteq> 0 \<longleftrightarrow> bit ec 2" for ec :: u32
  using and_exp_eq_0_iff_not_bit [of ec 0] and_exp_eq_0_iff_not_bit [of ec 1] and_exp_eq_0_iff_not_bit [of ec 2]
  by (simp_all add: One_nat_def)

lemma newline_ok: "list_all (\<lambda>c. c \<noteq> CHR ''%'' \<and> c \<noteq> nul) newline"
  by code_simp

text \<open>
  Property C34.  No processor exception ever returns.  For each of the 32 exceptions the kernel is locked,
  one report is written and the kernel halts in a panic with interrupts off.  The report names the
  exception; one with an error code prints the code in hexadecimal, whether its source was external, the
  selector without its three low bits, sign extended, and the table: "LDT" when bit 1 or bit 2 is set,
  "GDT" otherwise, so a selector of the interrupt table is reported as one of the LDT.  A number beyond
  the table is out of range.
\<close>

theorem exceptions_halt:
  "if unat n < 32
   then (\<exists>h. common_exception n s = Some (Inl h) \<and> stopped_after s (kern_emerg @ ''exception: #'' @ exception_names ! unat n) h)
      \<and> (\<exists>h. common_exception_ec n ec s = Some (Inl h) \<and> stopped_after s (concat [''exception: #'', exception_names ! unat n,
           '' error code '', piece_text (Hex8 ec), '', '', if bit ec 0 then ''external, '' else '''', table_name ec,
           ''segment '', piece_text (Hex4 (word_of_int (sint ec div 8))), newline]) h)
   else common_exception n s = None \<and> common_exception_ec n ec s = None"
proof (cases "unat n < 32")
  case True
  let ?m = "''A processor exception occured''" and ?nm = "exception_names ! unat n"
  have m: "CHR ''%'' \<notin> set ?m" "nul \<notin> set ?m" "length ?m < panic_buf_size" by (simp_all add: nul_def panic_buf_size_def)
  have len: "length exception_names = 32" by (simp add: exception_names_def)
  note nm = exception_name_ok [OF True]
  let ?ps = "[Lit (kern_emerg @ ''exception: #''), Text (Some ?nm)]"
  let ?ext = "if bit ec 0 then ''external, '' else ''''"
  let ?qs = "[Lit ''exception: #'', Text (Some ?nm), Lit '' error code '', Hex8 ec, Lit '', '', Text (Some ?ext),
    Text (Some (table_name ec)), Lit ''segment '', Hex4 (word_of_int (sint ec div 8)), Lit newline]"
  have ps: "list_all piece_ok ?ps" using nm by (simp add: kern_emerg_def nul_def)
  have qs: "list_all piece_ok ?qs" using nm newline_ok by (simp add: table_name_def nul_def)
  have le: "\<not> 32 \<le> unat n" using True by simp
  have "common_exception n s = panic ?m [] (say (concat (map piece_fmt ?ps)) (concat (map piece_args ?ps)) (lock_kernel s))"
    using le by (simp add: common_exception_def len Let_def)
  then obtain h where "common_exception n s = Some (Inl h)" "stopped_after s (concat (map piece_text ?ps)) h"
    using panic_after [OF m message_pieces [OF ps], of s] by metis
  moreover have "common_exception_ec n ec s = panic ?m [] (say (concat (map piece_fmt ?qs)) (concat (map piece_args ?qs)) (lock_kernel s))"
    using le by (simp add: common_exception_ec_def len Let_def bit_test table_name_def)
  then obtain k where "common_exception_ec n ec s = Some (Inl k)" "stopped_after s (concat (map piece_text ?qs)) k"
    using panic_after [OF m message_pieces [OF qs], of s] by metis
  ultimately show ?thesis using True by simp
next
  case False
  then show ?thesis by (simp add: common_exception_def common_exception_ec_def exception_names_def)
qed

end
