(* ===== verification/Boot.thy ===== *)
theory Boot
  imports Delay Vectors
begin

text \<open>
  The start of the kernel: setup_trad and setup_grub of kernel/setup.c, which find the memory and hand it
  to the page allocator, setup_processor of kernel/processor.c, console_init of kernel/console.c, and
  start_kernel, kernel_init and system_idle of init/main.c.  The addresses the linker script defines and
  the entry points of the two processes are fields of the state, as are the answers of the processor:
  \<open>sticky_flags\<close> are the bits of EFLAGS a program can change, \<open>cpuid_regs\<close> what cpuid leaves in
  eax, ebx, ecx and edx, and \<open>bochs_id\<close> what the debug port of the emulator reads.
\<close>

declare One_nat_def [simp del]

section \<open>State\<close>

record cpuinfo =
  x86 :: u8
  x86_model :: u8
  x86_mask :: u8
  cpuid_level :: u32
  x86_capability :: u32
  x86_vendor_id :: string

record kboot = kdelay +
  mbi :: u32
  memory_start :: u32
  memory_end :: u32
  boot_cpu_info :: cpuinfo
  ld_text :: u32
  ld_etext :: u32
  ld_edata :: u32
  ld_init_begin :: u32
  ld_init_end :: u32
  ld_bss_start :: u32
  ld_end :: u32
  kernel_init_entry :: u32
  perl_main_entry :: u32
  sticky_flags :: u32
  cpuid_regs :: "u32 \<Rightarrow> u32 \<times> u32 \<times> u32 \<times> u32"
  bochs_id :: u16

section \<open>Memory\<close>

definition memseg :: u32 where "memseg = 0x8e020"

text \<open>The two sizes are in kilobytes, \<open>oldsize\<close> a word behind \<open>memsize\<close>.\<close>

definition mem_size :: "mem \<Rightarrow> u32" where "mem_size m = load32 m memseg"
definition mem_oldsize :: "mem \<Rightarrow> u16" where "mem_oldsize m = load16 m (memseg + 4)"

definition setup_trad :: "'a kboot_scheme \<Rightarrow> 'a kboot_scheme option" where
  "setup_trad s =
     (let s = s\<lparr>memory_end := push_bit 20 1 + push_bit 10 (ucast (mem_oldsize (mem s)))\<rparr>;
          memory_alt_end = push_bit 20 1 + push_bit 10 (mem_size (mem s));
          s = (if memory_alt_end > memory_end s then s\<lparr>memory_end := memory_alt_end\<rparr> else s);
          s = s\<lparr>memory_start := (ld_end s + 4095) AND NOT 4095\<rparr>
      in kalloc_init (memory_start s) (memory_end s) s)"

text \<open>The members of \<open>struct multiboot_info\<close> that are read, at their offsets.\<close>

definition mb_flags :: "mem \<Rightarrow> u32 \<Rightarrow> u32" where "mb_flags m p = load32 m p"
definition mb_mem_lower :: "mem \<Rightarrow> u32 \<Rightarrow> u32" where "mb_mem_lower m p = load32 m (p + 4)"
definition mb_mem_upper :: "mem \<Rightarrow> u32 \<Rightarrow> u32" where "mb_mem_upper m p = load32 m (p + 8)"
definition mb_boot_device :: "mem \<Rightarrow> u32 \<Rightarrow> u32" where "mb_boot_device m p = load32 m (p + 12)"
definition mb_cmdline :: "mem \<Rightarrow> u32 \<Rightarrow> u32" where "mb_cmdline m p = load32 m (p + 16)"
definition mb_mods_count :: "mem \<Rightarrow> u32 \<Rightarrow> u32" where "mb_mods_count m p = load32 m (p + 20)"
definition mb_boot_loader_name :: "mem \<Rightarrow> u32 \<Rightarrow> u32" where "mb_boot_loader_name m p = load32 m (p + 64)"

text \<open>A pointer given to \<open>%s\<close>.\<close>

definition str_arg :: "mem \<Rightarrow> u32 \<Rightarrow> varg option" where
  "str_arg m a = (if a = 0 then Some (VStr None) else map_option (\<lambda>t. VStr (Some t)) (string_at m a))"

definition report_multiboot :: "'a kboot_scheme \<Rightarrow> 'a kboot_scheme option" where
  "report_multiboot s =
     (let m = mem s; p = mbi s;
          s = say (''Multiboot info:'' @ newline) [] s;
          s = say (''   flags: 0x%lx'' @ newline) [VInt (mb_flags m p)] s;
          s = say (''   mem_lower: %ld'' @ newline) [VInt (mb_mem_lower m p)] s;
          s = say (''   mem_upper: %ld'' @ newline) [VInt (mb_mem_upper m p)] s;
          s = say (''   boot_device: 0x%lx'' @ newline) [VInt (mb_boot_device m p)] s;
          s = say (''     %lx:%lx:%lx:%lx'' @ newline)
                [VInt (drop_bit 24 (mb_boot_device m p) AND 0xff), VInt (drop_bit 16 (mb_boot_device m p) AND 0xff),
                 VInt (drop_bit 8 (mb_boot_device m p) AND 0xff), VInt (mb_boot_device m p AND 0xff)] s;
          s = say (''   cmdline: 0x%lx'' @ newline) [VInt (mb_cmdline m p)] s;
          s = say (''   mods_count: 0x%lx'' @ newline) [VInt (mb_mods_count m p)] s
      in case (str_arg m (mb_cmdline m p), str_arg m (mb_boot_loader_name m p)) of
           (Some c, Some l) \<Rightarrow>
             Some (say (''   *boot_loader_name: %s'' @ newline) [l] (say (''   *cmdline: %s'' @ newline) [c] s))
         | _ \<Rightarrow> None)"

definition setup_grub :: "u32 \<Rightarrow> 'a kboot_scheme \<Rightarrow> 'a kboot_scheme option" where
  "setup_grub addr s =
     (let s = s\<lparr>mbi := addr\<rparr>;
          s = s\<lparr>memory_start := (ld_end s + 4095) AND NOT 4095\<rparr>;
          s = s\<lparr>memory_end := mb_mem_upper (mem s) (mbi s) * 1024\<rparr>
      in case kalloc_init (memory_start s) (memory_end s) s of
           None \<Rightarrow> None
         | Some s \<Rightarrow> report_multiboot s)"

section \<open>The processor\<close>

text \<open>
  Toggles a bit of EFLAGS and reads it back: the bits that differ from before.
\<close>

definition flags_test :: "u32 \<Rightarrow> 'a kboot_scheme \<Rightarrow> u32" where
  "flags_test b s = b AND sticky_flags s"

definition word_chars :: "u32 \<Rightarrow> string" where
  "word_chars w = map (\<lambda>k. char_of (unat (ucast (drop_bit (8 * k) w) :: u8))) [0, 1, 2, 3]"

definition put_chars :: "nat \<Rightarrow> string \<Rightarrow> string \<Rightarrow> string" where
  "put_chars k w t = take k t @ w @ drop (k + length w) t"

text \<open>cpuid with 0 in eax: the highest function and the name of the vendor.\<close>

definition cpuid_0 :: "'a kboot_scheme \<Rightarrow> cpuinfo \<Rightarrow> cpuinfo" where
  "cpuid_0 s c =
     (let (eax, ebx, ecx, edx) = cpuid_regs s 0
      in c\<lparr>cpuid_level := eax,
           x86_vendor_id := put_chars 4 (word_chars edx) (put_chars 8 (word_chars ecx) (put_chars 0 (word_chars ebx) (x86_vendor_id c)))\<rparr>)"

text \<open>cpuid with 1 in eax: \<open>ah AND 0xf\<close>, the high and the low half of \<open>al\<close>, and the capabilities.\<close>

definition cpuid_1 :: "'a kboot_scheme \<Rightarrow> cpuinfo \<Rightarrow> cpuinfo" where
  "cpuid_1 s c =
     (let (eax, ebx, ecx, edx) = cpuid_regs s 1;
          al = ucast eax :: u8; ah = ucast (drop_bit 8 eax) :: u8
      in c\<lparr>x86_capability := edx, x86 := ah AND 0xf, x86_model := drop_bit 4 (al AND 0xf0), x86_mask := al AND 0x0f\<rparr>)"

definition identify :: "'a kboot_scheme \<Rightarrow> cpuinfo \<Rightarrow> cpuinfo" where
  "identify s c =
     (let c = c\<lparr>cpuid_level := - 1\<rparr>; c = c\<lparr>x86 := 3\<rparr>
      in if flags_test 0x40000 s AND 0x40000 = 0 then c
         else
           let c = c\<lparr>x86 := 4\<rparr>
           in if flags_test 0x200000 s AND 0x200000 = 0 then c
              else
                let c = cpuid_0 s c
                in if cpuid_level c = 0 then c else cpuid_1 s c)"

definition setup_processor :: "'a kboot_scheme \<Rightarrow> 'a kboot_scheme" where
  "setup_processor s =
     (let s = s\<lparr>boot_cpu_info := identify s (boot_cpu_info s)\<rparr>;
          c = boot_cpu_info s;
          s = (if x86_capability c AND 0x10 \<noteq> 0 then s\<lparr>x86_udelay_tsc := 1\<rparr> else s)
      in say (''processor: %12.12s %d86 model%d mask%d cap%08x stepping%d tsc%s'' @ newline)
           [VStr (Some (takeWhile (\<lambda>c. c \<noteq> nul) (x86_vendor_id c))), VInt (ucast (x86 c)), VInt (ucast (x86_model c)),
            VInt (ucast (x86_mask c)), VInt (x86_capability c), VInt (cpuid_level c),
            VStr (Some (if x86_udelay_tsc s \<noteq> 0 then ''yes'' else ''no''))] s)"

section \<open>The console\<close>

definition sizeof_console :: u32 where "sizeof_console = 16"

definition vp_set_x :: "u32 \<Rightarrow> u8 \<Rightarrow> mem \<Rightarrow> mem" where "vp_set_x p v m = m(p := v)"
definition vp_set_y :: "u32 \<Rightarrow> u8 \<Rightarrow> mem \<Rightarrow> mem" where "vp_set_y p v m = m(p + 1 := v)"
definition vp_set_cols :: "u32 \<Rightarrow> u8 \<Rightarrow> mem \<Rightarrow> mem" where "vp_set_cols p v m = m(p + 5 := v)"
definition vp_set_lines :: "u32 \<Rightarrow> u8 \<Rightarrow> mem \<Rightarrow> mem" where "vp_set_lines p v m = m(p + 6 := v)"
definition vp_set_magic :: "u32 \<Rightarrow> u16 \<Rightarrow> mem \<Rightarrow> mem" where "vp_set_magic p v m = store16 m (p + 10) v"

text \<open>Grub leaves no video parameters: they are made up.\<close>

definition grub_params :: "'a kboot_scheme \<Rightarrow> (unit, 'a kboot_scheme) kresult" where
  "grub_params s =
     (if mbi s \<noteq> 0
      then
        (case kalloc sizeof_vidparams s of
           None \<Rightarrow> None
         | Some (Inl h) \<Rightarrow> Some (Inl h)
         | Some (Inr (p, s)) \<Rightarrow>
             Some (Inr ((), on_mem (\<lambda>m. vp_set_magic p 0x4321 (vp_set_cols p 80 (vp_set_lines p 25 (vp_set_y p 23 (vp_set_x p 0 m)))))
               (s\<lparr>params := p\<rparr>))))
      else Some (Inr ((), s)))"

text \<open>The last line of the screen is left to the status line, and the cursor moved off it.\<close>

definition reserve_line :: "u32 \<Rightarrow> mem \<Rightarrow> mem" where
  "reserve_line p m =
     (let m = scroll p m;
          m = vp_set_lines p (m (p + 6) - 1) m
      in if vp_y m p \<ge> vp_lines m p then vp_set_y p (scroll p m (p + 1) - 1) (scroll p m) else m)"

definition console_init :: "'a kboot_scheme \<Rightarrow> (unit, 'a kboot_scheme) kresult" where
  "console_init s =
     (case grub_params s of
        None \<Rightarrow> None
      | Some (Inl h) \<Rightarrow> Some (Inl h)
      | Some (Inr (_, s)) \<Rightarrow>
     (let s = on_mem (reserve_line (params s)) s
      in case kalloc sizeof_console s of
           None \<Rightarrow> None
         | Some (Inl h) \<Rightarrow> Some (Inl h)
         | Some (Inr (con, s)) \<Rightarrow>
     (let c = \<lparr>cwrite = Some Text_Console, cdata = params s, loglevel = 5\<rparr>;
          s = con_write (cdata c) (newline @ newline) s
      in case register_console c s of
           None \<Rightarrow> None
         | Some s \<Rightarrow> Some (Inr ((), s\<lparr>video_init := True\<rparr>)))))"

section \<open>init/main.c\<close>

definition do_int3 :: "'a kcpu_scheme \<Rightarrow> 'a kcpu_scheme" where
  "do_int3 s = say (kern_err @ ''Int3 occurred'' @ newline) [] s"

definition do_unexpected_int :: "'a kcpu_scheme \<Rightarrow> (unit, 'a kcpu_scheme) kresult" where
  "do_unexpected_int s = panic ''Unexpected interrupt'' [] s"

text \<open>The loop that clears the BSS.  The variables of the model are fields of the state, not bytes of it.\<close>

function clear_bss :: "u32 \<Rightarrow> u32 \<Rightarrow> mem \<Rightarrow> mem" where
  "clear_bss dst kend m = (if dst < kend then clear_bss (dst + 1) kend (m(dst := 0)) else m)"
  by pat_completeness auto
termination
proof (relation "measure (\<lambda>(dst, kend, m). unat kend - unat dst)")
  fix dst kend :: u32 and m :: mem
  assume l: "dst < kend"
  then have "unat dst + 1 < 4294967296" using unat_bounds(3) [of kend] unfolding word_less_nat_alt by linarith
  then have "unat (dst + 1) = unat dst + 1" using unat_add_nowrap [of dst 1] by simp
  then show "((dst + 1, kend, m(dst := 0)), dst, kend, m) \<in> measure (\<lambda>(dst, kend, m). unat kend - unat dst)"
    using l by (simp add: word_less_nat_alt)
qed simp

declare clear_bss.simps [simp del]

definition multiboot_magic :: u32 where "multiboot_magic = 0x2BADB002"

definition and_then :: "('v, 's) kresult \<Rightarrow> ('s \<Rightarrow> ('w, 's) kresult) \<Rightarrow> ('w, 's) kresult" where
  "and_then r f = (case r of None \<Rightarrow> None | Some (Inl h) \<Rightarrow> Some (Inl h) | Some (Inr (_, s)) \<Rightarrow> f s)"

abbreviation proceed :: "'s option \<Rightarrow> (unit, 's) kresult" where
  "proceed r \<equiv> map_option (\<lambda>s. Inr ((), s)) r"

text \<open>start_kernel, in three parts: up to the memory, up to the console, and the rest.\<close>

definition start_memory :: "u32 \<Rightarrow> u32 \<Rightarrow> 'a kboot_scheme \<Rightarrow> 'a kboot_scheme option" where
  "start_memory magic addr s =
     (let s = on_mem (clear_bss (ld_bss_start s) (ld_end s)) s;
          s = lock_kernel s;
          s = say (kernel_banner s) [] s
      in if magic = multiboot_magic then setup_grub addr s else setup_trad s)"

definition start_devices :: "'a kboot_scheme \<Rightarrow> (unit, 'a kboot_scheme) kresult" where
  "start_devices s =
     (let s = setup_processor s
      in and_then (proceed (setup_telemetry s)) (\<lambda>s.
         and_then (setup_interrupts (bochs_init (bochs_id s) s)) (\<lambda>s.
         and_then (proceed (setup_clock (setup_IRQs (setup_exceptions s)))) (\<lambda>s.
         and_then (proceed (setup_keyboard s)) console_init))))"

text \<open>The endless loop of system_idle is left out: the value is the state in which it is entered.\<close>

definition system_idle :: "'a ktask_scheme \<Rightarrow> 'a ktask_scheme" where
  "system_idle s =
     (let s = say (kern_debug @ ''idle: Idle loop started'' @ newline) [] s
      in at_task (current s) (timeslice_update (\<lambda>_. 0)) s)"

definition say_memory :: "'a kboot_scheme \<Rightarrow> 'a kboot_scheme" where
  "say_memory s =
     say (''Memory: %luk/%luk available (%dk kernel code, %dk data, %dk init, %dk bss, %dk other)'' @ newline)
       [VInt ((memory_end s - memory_start s) div 1024), VInt (memory_end s div 1024),
        VInt (word_of_int (sint (ld_etext s - ld_text s) sdiv 1024)),
        VInt (word_of_int (sint (ld_edata s - ld_etext s) sdiv 1024)),
        VInt (word_of_int (sint (ld_init_end s - ld_init_begin s) sdiv 1024)),
        VInt (word_of_int (sint (ld_end s - ld_bss_start s) sdiv 1024)),
        VInt (word_of_int (sint (memory_start s - ld_end s) sdiv 1024))] s"

definition start_tasks :: "'a kboot_scheme \<Rightarrow> (unit, 'a kboot_scheme) kresult" where
  "start_tasks s =
     (let s = unlock_kernel s
      in if klock s \<noteq> 0 then assert_fail ''_kernel_lock == 0'' ''main.c'' 134 ''start_kernel'' s
         else
           and_then (proceed (calibrate_delay s)) (\<lambda>s.
           and_then (create_process 1 (kernel_init_entry s) ''init'' 4092 (say_memory s)) (\<lambda>s.
             let s = say (''System Initialised.'' @ newline @ ''Entering idle loop'' @ newline) [] s
             in Some (Inr ((), system_idle s)))))"

definition start_kernel :: "u32 \<Rightarrow> u32 \<Rightarrow> 'a kboot_scheme \<Rightarrow> (unit, 'a kboot_scheme) kresult" where
  "start_kernel magic addr s =
     and_then (proceed (start_memory magic addr s)) (\<lambda>s. and_then (start_devices s) start_tasks)"

text \<open>The first process; \<open>q\<close> is the address of its queue, on its stack.\<close>

definition kernel_init :: "u32 \<Rightarrow> 'a kboot_scheme \<Rightarrow> (unit, 'a kboot_scheme) kresult" where
  "kernel_init q s =
     (let s = set_first q 0 s;
          s = say (''Freeing init memory'' @ newline) [] s
      in and_then (proceed (mem_free (ld_init_begin s) (ld_init_end s - ld_init_begin s) True s)) (\<lambda>s.
         let s = say (kern_debug @ ''creating perl process'' @ newline) [] s
         in and_then (create_process 2 (perl_main_entry s) ''perl main'' 16200 s) (\<lambda>s. proceed (block q s))))"

section \<open>The memory of the machine\<close>

text \<open>A partial page at the end is not handed out.\<close>

lemma kalloc_init_partial:
  assumes "unat ms = 4096 * lo" "unat me div 4096 = hi" "lo < hi"
  shows "kalloc_init ms me s = kalloc_init ms (of_nat (4096 * hi)) s"
proof -
  have me: "4096 * hi \<le> unat me" "unat me < 4096 * hi + 4096" using assms(2) by auto
  have "4096 * hi < 4294967296" using me(1) unat_bounds(3) [of me] by linarith
  then have h: "unat (of_nat (4096 * hi) :: u32) = 4096 * hi" by (intro unat_of_nat_small) simp
  have "unat (me - ms) = unat me - 4096 * lo" "unat (of_nat (4096 * hi) - ms) = 4096 * hi - 4096 * lo"
    using me assms(1,3) h by (simp_all add: unat_sub_nowrap)
  moreover have "(unat me - 4096 * lo) div 4096 = hi - lo" "(4096 * hi - 4096 * lo) div 4096 = hi - lo"
  proof -
    have "unat me - 4096 * lo = (unat me - 4096 * hi) + 4096 * (hi - lo)" using me assms(3) by (simp add: diff_mult_distrib2)
    moreover have "((unat me - 4096 * hi) + 4096 * (hi - lo)) div 4096 = hi - lo" using me by simp
    ultimately show "(unat me - 4096 * lo) div 4096 = hi - lo" by simp
  qed (simp flip: diff_mult_distrib2)
  ultimately have "(me - ms) div 4096 = (of_nat (4096 * hi) - ms) div 4096" "me div 4096 = of_nat (4096 * hi) div 4096"
    using assms(2) h by (simp_all add: word_unat_eq_iff unat_div)
  then show ?thesis unfolding kalloc_init_def by (simp only:)
qed

lemma printpages_loop_shape: "printpages_loop p s = Some s' \<Longrightarrow> \<exists>t. s' = s\<lparr>ktrace := t\<rparr>"
proof (rule printpages_loop.raw_induct [of "\<lambda>p s s'. \<exists>t. s' = s\<lparr>ktrace := t\<rparr>"])
  fix f p and s s' :: "'a kmem_scheme"
  assume ih: "\<And>p s s'. f p s = Some s' \<Longrightarrow> \<exists>t. s' = s\<lparr>ktrace := t\<rparr>"
    and e: "(if p = 0 then Some s
      else f (nxt (mem s) p)
        (say (kern_debug @ ''  Start = page %d, length = %d pages, next = page %d'' @ newline)
          [VInt (ucast (addr_to_page p)), VInt (ucast (load16 (mem s) p)),
           VInt (ucast (addr_to_page (nxt (mem s) p)))] s)) = Some s'"
  show "\<exists>t. s' = s\<lparr>ktrace := t\<rparr>"
  proof (cases "p = 0")
    case True
    then show ?thesis using e by (intro exI [of _ "ktrace s"]) simp
  next
    case False
    then show ?thesis using e ih by (fastforce simp: say_def)
  qed
qed

lemma kalloc_init_shape: "kalloc_init ms me s = Some s' \<Longrightarrow> \<exists>m t n. s' = s\<lparr>mem := m, ktrace := t, npages := n\<rparr>"
  using printpages_loop_shape
  by (fastforce simp: kalloc_init_def printpages_def say_def Let_def split: option.splits)

lemma first_page: "(x + 4095) AND NOT 4095 = node 4096 ((unat x + 4095) div 4096)" if "unat x + 4095 < 2 ^ 32" for x :: u32
  using align_up [OF that] by (simp add: add.commute)

definition boot_room :: "nat \<Rightarrow> nat \<Rightarrow> 'a kboot_scheme \<Rightarrow> bool" where
  "boot_room lo hi s \<longleftrightarrow> lo = (unat (ld_end s) + 4095) div 4096 \<and> 0 < lo \<and> lo < hi \<and> hi \<le> 65536
     \<and> ph s \<noteq> 0 \<and> unat (ph s) + 8 \<le> 4096 * lo \<and> load16 (mem s) (ph s) = 0"

lemma kalloc_init_boot:
  assumes "boot_room lo hi s" "unat me div 4096 = hi"
  shows "unat ((ld_end s + 4095) AND NOT 4095) = 4096 * lo"
    and "\<exists>m t n. kalloc_init ((ld_end s + 4095) AND NOT 4095) me s = Some (s\<lparr>mem := m, ktrace := t, npages := n\<rparr>)
      \<and> pages_ok lo [(lo, hi - lo)] (s\<lparr>mem := m, ktrace := t, npages := n\<rparr>)
      \<and> (\<forall>x. x \<notin> page_list_bytes [(lo, hi - lo)] s \<longrightarrow> m x = mem s x)"
proof -
  note b = assms(1) [unfolded boot_room_def]
  have "(unat (ld_end s) + 4095) div 4096 < 65536" using b by auto
  then have e: "unat (ld_end s) + 4095 < 2 ^ 32" by simp
  show ms: "unat ((ld_end s + 4095) AND NOT 4095) = 4096 * lo"
    unfolding first_page [OF e] using b by (auto simp: node_page)
  have "4096 * hi \<le> unat me" using assms(2) by auto
  then have "4096 * hi < 4294967296" using unat_bounds(3) [of me] by linarith
  then have "unat (of_nat (4096 * hi) :: u32) = 4096 * hi" by (intro unat_of_nat_small) simp
  then obtain s' where s': "kalloc_init ((ld_end s + 4095) AND NOT 4095) me s = Some s'" "pages_ok lo [(lo, hi - lo)] s'"
    "\<forall>x. x \<notin> span (ph s + 4) 4 \<union> ext_bytes 4096 [(lo, hi - lo)] \<longrightarrow> mem s' x = mem s x"
    using kalloc_init_spec [OF ms, of "of_nat (4096 * hi)" hi s] kalloc_init_partial [OF ms assms(2), of s] b by auto
  moreover obtain m t n where "s' = s\<lparr>mem := m, ktrace := t, npages := n\<rparr>" using kalloc_init_shape [OF s'(1)] by blast
  ultimately show "\<exists>m t n. kalloc_init ((ld_end s + 4095) AND NOT 4095) me s = Some (s\<lparr>mem := m, ktrace := t, npages := n\<rparr>)
      \<and> pages_ok lo [(lo, hi - lo)] (s\<lparr>mem := m, ktrace := t, npages := n\<rparr>)
      \<and> (\<forall>x. x \<notin> page_list_bytes [(lo, hi - lo)] s \<longrightarrow> m x = mem s x)"
    unfolding page_list_bytes_def by (intro exI [of _ m] exI [of _ t] exI [of _ n]) auto
qed

text \<open>The memory behind the sizes the boot loader reports, in pages from address 0.\<close>

definition reported_pages :: "mem \<Rightarrow> nat" where
  "reported_pages m = 256 + max (unat (mem_oldsize m)) (unat (mem_size m)) div 4"

lemma setup_trad_spec:
  assumes "hi = reported_pages (mem s)" and b: "boot_room lo hi s"
  shows "\<exists>me m t n. setup_trad s = Some (s\<lparr>memory_end := me, memory_start := of_nat (4096 * lo), mem := m, ktrace := t, npages := n\<rparr>)
    \<and> unat me = 2 ^ 20 + max (unat (mem_oldsize (mem s))) (unat (mem_size (mem s))) * 1024
    \<and> pages_ok lo [(lo, hi - lo)] (s\<lparr>mem := m\<rparr>)
    \<and> (\<forall>x. x \<notin> page_list_bytes [(lo, hi - lo)] s \<longrightarrow> m x = mem s x)"
proof -
  define k where "k = max (unat (mem_oldsize (mem s))) (unat (mem_size (mem s)))"
  let ?o = "push_bit 20 1 + push_bit 10 (ucast (mem_oldsize (mem s))) :: u32"
    and ?a = "push_bit 20 1 + push_bit 10 (mem_size (mem s)) :: u32"
  let ?me = "if ?a > ?o then ?a else ?o"
  have hi: "hi = 256 + k div 4" using assms(1) by (simp add: reported_pages_def k_def)
  have "hi \<le> 65536" using b by (simp add: boot_room_def)
  then have k: "k < 262144" using hi by linarith
  have "unat (push_bit 10 (ucast (mem_oldsize (mem s))) :: u32) = unat (mem_oldsize (mem s)) * 1024"
    using unat_bounds(2) [of "mem_oldsize (mem s)"] by (simp add: push_bit_eq_mult unat_word_ariths unat_ucast_up del: unat_bounds)
  then have o: "unat ?o = 2 ^ 20 + unat (mem_oldsize (mem s)) * 1024"
    using unat_bounds(2) [of "mem_oldsize (mem s)"] by (simp add: unat_word_ariths del: unat_bounds)
  have "unat (push_bit 10 (mem_size (mem s))) = unat (mem_size (mem s)) * 1024"
    using k_def k by (simp add: push_bit_eq_mult unat_word_ariths)
  then have a: "unat ?a = 2 ^ 20 + unat (mem_size (mem s)) * 1024"
    using k_def k by (simp add: unat_word_ariths)
  have me: "unat ?me = 2 ^ 20 + k * 1024" using o a k_def by (simp add: word_less_nat_alt max_def)
  then have d: "unat ?me div 4096 = hi" using hi by simp
  let ?s = "s\<lparr>memory_end := ?me, memory_start := (ld_end s + 4095) AND NOT 4095\<rparr>"
  have "boot_room lo hi ?s" using b by (simp add: boot_room_def)
  note i = kalloc_init_boot [OF this d]
  have ms: "(ld_end s + 4095) AND NOT 4095 = of_nat (4096 * lo)"
  proof -
    have "of_nat (unat ((ld_end ?s + 4095) AND NOT 4095)) = (of_nat (4096 * lo) :: u32)" unfolding i(1) ..
    then show ?thesis by simp
  qed
  obtain m t n where m: "kalloc_init (memory_start ?s) (memory_end ?s) ?s = Some (?s\<lparr>mem := m, ktrace := t, npages := n\<rparr>)"
    "pages_ok lo [(lo, hi - lo)] (?s\<lparr>mem := m, ktrace := t, npages := n\<rparr>)"
    "\<forall>x. x \<notin> page_list_bytes [(lo, hi - lo)] ?s \<longrightarrow> m x = mem ?s x"
    using i(2) by auto
  have st: "setup_trad s = kalloc_init (memory_start ?s) (memory_end ?s) ?s"
    by (simp add: setup_trad_def Let_def)
  have "setup_trad s = Some (s\<lparr>memory_end := ?me, memory_start := of_nat (4096 * lo), mem := m, ktrace := t, npages := n\<rparr>)"
    unfolding st m(1) unfolding ms ..
  moreover have "pages_ok lo [(lo, hi - lo)] (s\<lparr>mem := m\<rparr>)" using m(2) by (auto simp: pages_ok_def)
  moreover have "\<forall>x. x \<notin> page_list_bytes [(lo, hi - lo)] s \<longrightarrow> m x = mem s x"
    using m(3) by (simp add: page_list_bytes_def)
  ultimately show ?thesis using me unfolding k_def
    by (intro exI [of _ ?me] exI [of _ m] exI [of _ t] exI [of _ n] conjI)
qed

text \<open>
  Property C32.  The old boot loader's path: the memory ends where the larger of the two sizes it reports
  above the first megabyte says, and the page allocator starts with one run from the first page behind
  the kernel to the last whole page of that memory.
\<close>

theorem setup_trad_memory:
  assumes "k = max (unat (mem_oldsize (mem s))) (unat (mem_size (mem s)))"
    and "boot_room lo (256 + k div 4) s"
  shows "\<exists>s'. setup_trad s = Some s' \<and> unat (memory_start s') = 4096 * lo \<and> unat (memory_end s') = 2 ^ 20 + k * 1024
    \<and> pages_ok lo [(lo, 256 + k div 4 - lo)] s'
    \<and> (\<forall>x. x \<notin> page_list_bytes [(lo, 256 + k div 4 - lo)] s \<longrightarrow> mem s' x = mem s x)"
proof -
  have r: "256 + k div 4 = reported_pages (mem s)" by (simp add: reported_pages_def assms(1))
  have "4096 * lo < 4294967296" using assms(2) by (simp add: boot_room_def)
  then have "unat (of_nat (4096 * lo) :: u32) = 4096 * lo" by (intro unat_of_nat_small) simp
  then show ?thesis
    using setup_trad_spec [OF r assms(2)] by (auto simp: assms(1) pages_ok_def)
qed

section \<open>The console\<close>

lemma vendor_name:
  assumes "length (x86_vendor_id c) = 16" "cpuid_regs s 0 = (eax, ebx, ecx, edx)"
  shows "x86_vendor_id (cpuid_0 s c) = word_chars ebx @ word_chars edx @ word_chars ecx @ drop 12 (x86_vendor_id c)"
proof -
  have w: "length (word_chars w) = 4" for w by (simp add: word_chars_def)
  show ?thesis using assms by (simp add: cpuid_0_def put_chars_def w take_drop)
qed

text \<open>A smaller screen at the same place.\<close>

lemma screen_mono: "n \<le> k \<Longrightarrow> screen n \<subseteq> screen k"
  by (auto simp: screen_def)

lemma geom_ok_lines:
  assumes "geom_ok L C p m" "0 < L'" "L' \<le> L" "vp_lines m' p = L'" "vp_cols m' p = C"
  shows "geom_ok L' C p m'"
proof -
  have "L' * C \<le> L * C" using assms(1,3) by (intro mult_right_mono) (auto simp: geom_ok_def)
  then have "screen (L' * C) \<subseteq> screen (L * C)" by (auto simp: screen_def)
  then show ?thesis using assms by (auto simp: geom_ok_def)
qed

lemma uint_pred: "1 \<le> uint w \<Longrightarrow> uint (w - 1) = uint w - 1" for w :: u8
proof -
  assume w: "1 \<le> uint w"
  then have "w \<noteq> 0" by auto
  then have "unat (w - 1) = unat w - 1" by (simp add: unat_minus_one)
  moreover have "1 \<le> unat w" using \<open>w \<noteq> 0\<close> by (simp add: unat_gt_0 Suc_le_eq One_nat_def)
  ultimately have "int (unat (w - 1)) = int (unat w) - 1" by simp
  then show ?thesis by simp
qed

lemma reserve_line_spec:
  assumes g: "geom_ok L C p m" and L: "2 \<le> L" and xy: "vp_x m p < C" "vp_y m p < L"
  defines "m' \<equiv> reserve_line p m"
  shows "geom_ok (L - 1) C p m'" "vp_x m' p < C" "vp_y m' p < L - 1"
    and "\<And>a. a \<notin> screen (L * C) \<union> span p 12 \<Longrightarrow> m' a = m a"
proof -
  let ?m1 = "scroll p m"
  let ?m2 = "vp_set_lines p (?m1 (p + 6) - 1) ?m1"
  note ps = param_span [of p]
  have out: "p \<notin> screen (L * C)" "p + 1 \<notin> screen (L * C)" "p + 5 \<notin> screen (L * C)" "p + 6 \<notin> screen (L * C)"
    using g ps by (auto simp: geom_ok_def)
  have d: "p \<noteq> p + 6" "p + 1 \<noteq> p + 6" "p + 5 \<noteq> p + 6" "p + 5 \<noteq> p + 1" "p \<noteq> p + 1" "p + 6 \<noteq> p + 1" by simp_all
  have m1: "?m1 a = m a" if "a \<notin> screen (L * C)" for a using scroll_cells [OF g] that by blast
  have l: "uint (m (p + 6)) = L" using g by (simp add: geom_ok_def vp_lines_def)
  have l1: "uint (m (p + 6) - 1) = L - 1" using uint_pred [of "m (p + 6)"] l L by simp
  have v2: "vp_lines ?m2 p = L - 1" "vp_cols ?m2 p = C" "vp_x ?m2 p = vp_x m p" "vp_y ?m2 p = vp_y m p"
    using g l1 m1 out d by (simp_all add: vp_lines_def vp_cols_def vp_x_def vp_y_def vp_set_lines_def geom_ok_def)
  have g2: "geom_ok (L - 1) C p ?m2" by (rule geom_ok_lines [OF g]) (use L v2 in simp_all)
  have m2: "?m2 a = m a" if "a \<notin> screen (L * C) \<union> span p 12" for a
    using that m1 ps by (auto simp: vp_set_lines_def)
  have "geom_ok (L - 1) C p m' \<and> vp_x m' p < C \<and> vp_y m' p < L - 1
    \<and> (\<forall>a. a \<notin> screen (L * C) \<union> span p 12 \<longrightarrow> m' a = m a)"
  proof (cases "vp_y ?m2 p \<ge> vp_lines ?m2 p")
    case False
    then have "m' = ?m2" by (simp add: m'_def reserve_line_def Let_def)
    then show ?thesis using g2 v2 xy False m2 by simp
  next
    case True
    let ?m3 = "scroll p ?m2"
    let ?m4 = "vp_set_y p (?m3 (p + 1) - 1) ?m3"
    have e: "m' = ?m4" using True by (simp add: m'_def reserve_line_def Let_def)
    have y: "vp_y m p = L - 1" using True v2 xy by simp
    have sub: "screen ((L - 1) * C) \<subseteq> screen (L * C)"
      by (rule screen_mono, rule mult_right_mono) (use g in \<open>auto simp: geom_ok_def\<close>)
    have m3: "?m3 b = ?m2 b" if "b \<notin> screen (L * C)" for b using scroll_cells [OF g2] that sub by blast
    have y3: "?m3 (p + 1) = m (p + 1)" using m3 [OF out(2)] m1 out d by (simp add: vp_set_lines_def)
    have "uint (m (p + 1) - 1) = L - 2" using uint_pred [of "m (p + 1)"] y L by (simp add: vp_y_def)
    then have v4: "vp_lines ?m4 p = L - 1" "vp_cols ?m4 p = C" "vp_x ?m4 p = vp_x m p" "vp_y ?m4 p = L - 2"
      using v2 m3 out d y3 by (simp_all add: vp_lines_def vp_cols_def vp_x_def vp_y_def vp_set_y_def)
    moreover have "geom_ok (L - 1) C p ?m4" by (rule geom_ok_lines [OF g]) (use L v4 in simp_all)
    moreover have "?m4 a = m a" if "a \<notin> screen (L * C) \<union> span p 12" for a
      using that m2 [OF that] m3 ps by (auto simp: vp_set_y_def)
    ultimately show ?thesis unfolding e using xy by auto
  qed
  then show "geom_ok (L - 1) C p m'" "vp_x m' p < C" "vp_y m' p < L - 1"
    "\<And>a. a \<notin> screen (L * C) \<union> span p 12 \<Longrightarrow> m' a = m a" by blast+
qed

text \<open>
  The text console at work: from \<open>s\<close> to \<open>t\<close> only the screen and the video parameters have changed, the
  cursor is on the screen, and only the ports of the display have been written.
\<close>

definition on_screen :: "int \<Rightarrow> int \<Rightarrow> u32 \<Rightarrow> 'a kmem_scheme \<Rightarrow> 'b kmem_scheme \<Rightarrow> bool" where
  "on_screen L C p s t \<longleftrightarrow> geom_ok L C p (mem t) \<and> vp_x (mem t) p < C \<and> vp_y (mem t) p < L
     \<and> (\<forall>a. a \<notin> screen (L * C) \<union> span p 12 \<longrightarrow> mem t a = mem s a)
     \<and> ph t = ph s \<and> bh t = bh s \<and> klock t = klock s
     \<and> (\<exists>ws. kports t = kports s @ ws \<and> fst ` set ws \<subseteq> {0x3d4, 0x3d5, 0x80})"

lemma con_write_heads: "ph (con_write p cs s) = ph s" "bh (con_write p cs s) = bh s"
  by (simp_all add: con_write_def Let_def case_prod_beta outb_p_def outp_def lock_kernel_def unlock_kernel_def)

lemma on_screen_write:
  assumes "on_screen L C p s t" "CHR 0x0D \<notin> set cs"
  shows "on_screen L C p s (con_write p cs t)"
proof -
  have g: "geom_ok L C p (mem t)" "vp_x (mem t) p < C" "vp_y (mem t) p < L"
    and fr: "\<forall>a. a \<notin> screen (L * C) \<union> span p 12 \<longrightarrow> mem t a = mem s a"
    and sel: "ph t = ph s" "bh t = bh s" "klock t = klock s"
    and w: "\<exists>ws. kports t = kports s @ ws \<and> fst ` set ws \<subseteq> {0x3d4, 0x3d5, 0x80}"
    using assms(1) by (simp_all add: on_screen_def)
  obtain ws where ws: "kports t = kports s @ ws" "fst ` set ws \<subseteq> {0x3d4, 0x3d5, 0x80}" using w by blast
  define r where "r = fold (term_char L C) cs (vp_x (mem t) p, vp_y (mem t) p, \<lambda>i. load16 (mem t) (cell_at i))"
  note c = con_write_shows [OF g assms(2), folded r_def, unfolded Let_def]
  let ?vs = "ws @ cursor_ports (fst r + C * fst (snd r))" and ?t = "con_write p cs t"
  have 1: "fst ` set ?vs \<subseteq> {0x3d4, 0x3d5, 0x80}" using ws(2) by (auto simp: cursor_ports_def Let_def)
  have 2: "kports ?t = kports s @ ?vs" using c ws(1) by simp
  have o: "\<forall>a. a \<notin> screen (L * C) \<union> {p, p + 1} \<longrightarrow> mem ?t a = mem t a"
    and 4: "geom_ok L C p (mem ?t)" "vp_x (mem ?t) p = fst r" "fst r < C" "vp_y (mem ?t) p = fst (snd r)" "fst (snd r) < L"
    and 5: "klock ?t = klock t"
    using c by - (elim conjE, assumption)+
  have 3: "mem ?t a = mem s a" if "a \<notin> screen (L * C) \<union> span p 12" for a
  proof -
    have "a \<notin> screen (L * C) \<union> {p, p + 1}" using that param_span [of p] by blast
    then have "mem ?t a = mem t a" by (rule o [rule_format])
    also have "\<dots> = mem s a" by (rule fr [rule_format, OF that])
    finally show ?thesis .
  qed
  show ?thesis
    unfolding on_screen_def con_write_heads
    unfolding 4(2,4) 5
    by (intro conjI exI [of _ ?vs] allI impI) (rule 4 3 sel 2 1 | assumption)+
qed

lemma replay_pieces_chars:
  "(l, q) \<in> set (replay_pieces cs chunk lvl) \<Longrightarrow> set q \<subseteq> set chunk \<union> set cs"
proof (induction cs chunk lvl rule: replay_pieces.induct)
  case (2 c cs chunk lvl)
  show ?case
  proof (cases "c \<noteq> CHR 0x0A \<and> cs \<noteq> [] \<and> length (chunk @ [c]) < 15")
    case True
    then have "(l, q) \<in> set (replay_pieces cs (chunk @ [c]) lvl)" using "2.prems" by (simp add: replay_pieces.simps)
    then show ?thesis using "2.IH" (1) [OF refl True] by simp
  next
    case False
    define e where "e = (if lvl < 0 then if \<not> no_level (chunk @ [c]) then (char_val ((chunk @ [c]) ! 1) - char_val (CHR ''0''), drop 3 (chunk @ [c]))
       else (LOGLEVEL_DEFAULT, chunk @ [c]) else (lvl, chunk @ [c]))"
    have r: "replay_pieces (c # cs) chunk lvl = e # replay_pieces cs [] (if c = CHR 0x0A then -1 else fst e)"
      by (subst replay_pieces.simps(2)) (use False in \<open>auto simp: Let_def e_def\<close>)
    have "set (snd e) \<subseteq> set chunk \<union> set (c # cs)"
      by (auto simp: e_def dest: in_set_dropD split: if_splits)
    moreover have "set q \<subseteq> set cs" if "(l, q) \<in> set (replay_pieces cs [] (if c = CHR 0x0A then -1 else fst e))"
      using that "2.IH" (2) [OF refl False e_def, of "fst e" "snd e"] by simp
    ultimately show ?thesis using "2.prems" unfolding r by auto
  qed
qed simp

lemma fold_send_screen:
  assumes "\<forall>(l, q) \<in> set ps. CHR 0x0D \<notin> set q" "on_screen L C (cdata con) s t"
  shows "on_screen L C (cdata con) s (fold (send con Text_Console) ps t)"
  using assms
proof (induction ps arbitrary: t)
  case (Cons e ps)
  have "on_screen L C (cdata con) s (send con Text_Console e t)"
    using Cons.prems on_screen_write [OF Cons.prems(2)] by (auto simp: send_def dispatch_def split: prod.splits)
  then show ?case using Cons by simp
qed simp

lemma on_screen_truncate: "on_screen L C p s (kmem.truncate t) = on_screen L C p s t"
  by (simp add: on_screen_def kmem.defs)

text \<open>Registering a console: what the machine goes through, and the list.\<close>

lemma register_frame:
  assumes "cwrite con = Some d"
  obtains t where "register_console con s = Some (unlock_flags (intr s) t)"
    "kmem.more t = kmem.more (s\<lparr>consoles := con # consoles s\<rparr>)"
    "kmem.truncate t = fold (send con d) (replay_pieces (log.contents s) [] (-1)) (kmem.truncate (lock_kernel s))"
proof -
  define s0 where "s0 = (lock_kernel s)\<lparr>consoles := con # consoles s\<rparr>"
  define t where "t = replay con d 0 (log_start s0 AND LOG_BUF_MASK) [] (-1) s0"
  have f0: "log_buf s0 = log_buf s" "log_start s0 = log_start s" "log_size s0 = log_size s"
    "kmem.truncate s0 = kmem.truncate (lock_kernel s)" "kmem.more s0 = kmem.more (s\<lparr>consoles := con # consoles s\<rparr>)"
    by (simp_all add: s0_def lock_kernel_def kmem.defs) (cases s, simp)
  have r: "kmem.truncate t = fold (send con d) (replay_pieces (log.contents s0) [] (-1)) (kmem.truncate s0)"
    "kmem.more t = kmem.more s0"
    using replay_spec [of "log_start s0 AND LOG_BUF_MASK" s0 0 con d "[]" "-1"] by (simp_all add: t_def log_mask)
  have "register_console con s = Some (unlock_flags (intr s) t)"
    using assms by (simp add: register_console_def lock_flags_def Let_def t_def s0_def lock_kernel_def)
  then show ?thesis using that r f0(4,5) log_contents_cong [OF f0(1-3)] by simp
qed

lemma register_text:
  assumes con: "cwrite con = Some Text_Console" and cr: "CHR 0x0D \<notin> set (log.contents s)" and s: "on_screen L C (cdata con) u s"
  obtains t where "register_console con s = Some t" "kmem.more t = kmem.more (s\<lparr>consoles := con # consoles s\<rparr>)"
    "on_screen L C (cdata con) u t" "intr t = intr s"
proof -
  obtain t where t: "register_console con s = Some (unlock_flags (intr s) t)"
    "kmem.more t = kmem.more (s\<lparr>consoles := con # consoles s\<rparr>)"
    "kmem.truncate t = fold (send con Text_Console) (replay_pieces (log.contents s) [] (-1)) (kmem.truncate (lock_kernel s))"
    by (rule register_frame [OF con])
  have l: "on_screen L C (cdata con) (lock_kernel u) (kmem.truncate (lock_kernel s))"
    using s unfolding on_screen_truncate by (simp add: on_screen_def lock_kernel_def)
  have "CHR 0x0D \<notin> set q" if "(l, q) \<in> set (replay_pieces (log.contents s) [] (-1))" for l q
    using replay_pieces_chars [OF that] cr by auto
  then have "on_screen L C (cdata con) (lock_kernel u) (kmem.truncate t)"
    unfolding t(3) by (intro fold_send_screen l) blast
  then have "on_screen L C (cdata con) u (unlock_flags (intr s) t)"
    unfolding on_screen_truncate
    by (simp add: on_screen_def lock_kernel_def unlock_flags_def unlock_kernel_def Let_def)
  moreover have "kmem.more (unlock_flags (intr s) t) = kmem.more t" "intr (unlock_flags (intr s) t) = intr s"
    by (simp_all add: unlock_flags_def unlock_kernel_def Let_def)
  ultimately show ?thesis using that t(1,2) by simp
qed

lemma on_screen_frame:
  assumes "on_screen L C p s t" "x \<notin> screen (L * C) \<union> span p 12"
  shows "mem t x = mem s x"
  using assms by (simp add: on_screen_def)

lemma no_cr: "CHR 0x0D \<notin> set (newline @ newline)"
  by code_simp

text \<open>console_init on the old boot loader's path, when the allocator has room for the console.\<close>

lemma console_stage:
  assumes ok: "heap_ok lo ps bs s" and lock: "unat (klock s) < 2 ^ 32 - 2" and ab: "abs_kalloc 20 ps bs = Some (a, ps', bs')"
    and cr: "CHR 0x0D \<notin> set (log.contents s)" and mbi: "mbi s = 0"
    and g: "geom_ok L C (params s) (mem s)" "2 \<le> L" "vp_x (mem s) (params s) < C" "vp_y (mem s) (params s) < L"
    and dis: "(screen (L * C) \<union> span (params s) 12) \<inter> heap_bytes ps bs s = {}"
  obtains t where "console_init s = Some (Inr ((), t))" "heap_ok lo ps' bs' t"
    "kmem.more t = kmem.more (s\<lparr>consoles := \<lparr>cwrite = Some Text_Console, cdata = params s, loglevel = 5\<rparr> # consoles s, video_init := True\<rparr>)"
    "geom_ok (L - 1) C (params s) (mem t)" "vp_x (mem t) (params s) < C" "vp_y (mem t) (params s) < L - 1"
    "\<forall>x. x \<notin> heap_bytes ps bs s \<union> screen (L * C) \<union> span (params s) 12 \<longrightarrow> mem t x = mem s x"
    "ph t = ph s" "bh t = bh s" "klock t = klock s" "intr t = (klock s = 0)"
    "\<exists>ws. kports t = kports s @ ws \<and> fst ` set ws \<subseteq> {0x3d4, 0x3d5, 0x80}"
    "ext_bytes 4096 ps' \<union> ext_bytes 1 bs' \<subseteq> ext_bytes 4096 ps \<union> ext_bytes 1 bs"
proof -
  let ?p = "params s" and ?c = "\<lparr>cwrite = Some Text_Console, cdata = params s, loglevel = 5\<rparr>"
  let ?S = "screen (L * C) \<union> span ?p 12"
  define s1 where "s1 = on_mem (reserve_line ?p) s"
  note rl = reserve_line_spec [OF g(1,2,3,4)]
  have sub: "screen ((L - 1) * C) \<subseteq> screen (L * C)"
    by (rule screen_mono, rule mult_right_mono) (use g(1) in \<open>auto simp: geom_ok_def\<close>)
  have s1: "mem s1 = reserve_line ?p (mem s)" "ph s1 = ph s" "bh s1 = bh s" "klock s1 = klock s" "kports s1 = kports s"
    "kmem.more s1 = kmem.more s" by (simp_all add: s1_def)
  have fr1: "mem s1 x = mem s x" if "x \<notin> ?S" for x using rl(4) [OF that] by (simp add: s1)
  have hb: "heap_bytes ps bs s1 = heap_bytes ps bs s" by (simp add: heap_bytes_def s1)
  have ok1: "heap_ok lo ps bs s1"
    by (rule heap_ok_agree [OF ok s1(2,3)]) (use fr1 dis in blast)
  have n: "unat sizeof_console + 4 \<le> 65535 * 4096" "unat sizeof_console + 4 = 20" by (simp_all add: sizeof_console_def)
  have lock1: "unat (klock s1) < 2 ^ 32 - 2" using lock by (simp add: s1)
  obtain b s2 where k: "kalloc sizeof_console s1 = Some (Inr (b, s2))" and ok2: "heap_ok lo ps' bs' s2"
    and r: "klock s2 = klock s" "ph s2 = ph s" "bh s2 = bh s" "kmem.more s2 = kmem.more s" "intr s2 = (klock s = 0)" "kports s2 = kports s"
    and fr2: "\<And>x. x \<notin> heap_bytes ps bs s \<Longrightarrow> mem s2 x = mem s1 x"
    and reg: "ext_bytes 4096 ps' \<union> ext_bytes 1 bs' \<subseteq> ext_bytes 4096 ps \<union> ext_bytes 1 bs"
    by (rule kalloc_block [OF ok1 n(1) lock1]) (use ab kalloc_spec [OF ok1 n(1) lock1] in \<open>auto simp: n(2) s1 hb\<close>)
  have S2: "mem s2 x = mem s1 x" if "x \<in> ?S" for x using that dis by (intro fr2) blast
  have geo: "geom_ok (L - 1) C ?p (mem s2)" "vp_x (mem s2) ?p < C" "vp_y (mem s2) ?p < L - 1"
  proof -
    have e: "mem s2 ?p = mem s1 ?p" "mem s2 (?p + 1) = mem s1 (?p + 1)" "mem s2 (?p + 5) = mem s1 (?p + 5)" "mem s2 (?p + 6) = mem s1 (?p + 6)"
      using S2 param_span [of ?p] by blast+
    show "geom_ok (L - 1) C ?p (mem s2)" using rl(1) e by (simp add: geom_ok_def vp_lines_def vp_cols_def s1)
    show "vp_x (mem s2) ?p < C" "vp_y (mem s2) ?p < L - 1" using rl(2,3) e by (simp_all add: vp_x_def vp_y_def s1)
  qed
  have os: "on_screen (L - 1) C ?p s2 s2" using geo by (simp add: on_screen_def)
  define s3 where "s3 = con_write ?p (newline @ newline) s2"
  have os3: "on_screen (L - 1) C (cdata ?c) s2 s3" using on_screen_write [OF os no_cr] by (simp add: s3_def)
  have m3: "kmem.more s3 = kmem.more s" by (simp add: s3_def kmem_view_write r)
  have "log.contents s3 = log.contents s" using klog_more_sel [OF m3] by (intro log_contents_cong) simp_all
  then have cr3: "CHR 0x0D \<notin> set (log.contents s3)" using cr by simp
  obtain t where t: "register_console ?c s3 = Some t" "kmem.more t = kmem.more (s3\<lparr>consoles := ?c # consoles s3\<rparr>)"
    "on_screen (L - 1) C (cdata ?c) s2 t" "intr t = intr s3"
    by (rule register_text [OF _ cr3 os3]) simp
  let ?t = "t\<lparr>video_init := True\<rparr>"
  have pm: "params s2 = params s" using r(4) by (cases s; cases s2) simp
  have "params s1 = params s" using s1(6) by (cases s; cases s1) simp
  then have ci: "console_init s = Some (Inr ((), ?t))"
    using t(1) k pm by (simp add: console_init_def grub_params_def mbi s1_def [symmetric] Let_def s3_def)
  have more: "kmem.more ?t = kmem.more (s\<lparr>consoles := ?c # consoles s, video_init := True\<rparr>)"
    using t(2) m3 by (cases s; cases s3; cases t) simp
  have fr3: "mem t x = mem s2 x" if "x \<notin> ?S" for x
    using that sub by (intro on_screen_frame [OF t(3)]) auto
  have sel: "ph t = ph s" "bh t = bh s" "klock t = klock s" using t(3) r by (simp_all add: on_screen_def)
  have hok: "heap_ok lo ps' bs' ?t"
  proof (rule heap_ok_agree [OF ok2])
    show "ph ?t = ph s2" "bh ?t = bh s2" using sel r by simp_all
    fix x assume "x \<in> heap_bytes ps' bs' s2"
    then have "x \<in> heap_bytes ps bs s" using reg r by (auto simp: heap_bytes_def)
    then show "mem ?t x = mem s2 x" using dis by (simp, intro fr3) blast
  qed
  have int: "intr ?t = (klock s = 0)"
    using t(4) con_write_shows [OF geo no_cr] r by (simp add: s3_def Let_def)
  show ?thesis
    by (rule that [OF ci hok more])
      (use t(3) fr1 fr2 fr3 sel int r reg in \<open>auto simp: on_screen_def\<close>)
qed

text \<open>
  console_init on the old boot loader's path, with the parameters of a screen the boot code
  has left and no carriage return in the log: it halts only for lack of memory.  Otherwise the
  console has one line less, the cursor is on it, the console is the first of the list, and no other byte
  than those of the screen, of its parameters and of the heap has been written; the heap stays well formed.
\<close>

theorem console_init_ready:
  assumes "heap_ok lo ps bs s" and "unat (klock s) < 2 ^ 32 - 2" and "CHR 0x0D \<notin> set (log.contents s)" and "mbi s = 0"
    and "geom_ok L C (params s) (mem s)" and "2 \<le> L" and "vp_x (mem s) (params s) < C" and "vp_y (mem s) (params s) < L"
    and "(screen (L * C) \<union> span (params s) 12) \<inter> heap_bytes ps bs s = {}"
  shows "case console_init s of
      None \<Rightarrow> False
    | Some (Inl _) \<Rightarrow> abs_kalloc 20 ps bs = None
    | Some (Inr (_, t)) \<Rightarrow> (\<exists>ps' bs'. heap_ok lo ps' bs' t) \<and> params t = params s \<and> geom_ok (L - 1) C (params t) (mem t)
        \<and> vp_x (mem t) (params t) < C \<and> vp_y (mem t) (params t) < L - 1
        \<and> consoles t = \<lparr>cwrite = Some Text_Console, cdata = params s, loglevel = 5\<rparr> # consoles s \<and> video_init t
        \<and> klock t = klock s \<and> (\<forall>x. x \<notin> heap_bytes ps bs s \<union> screen (L * C) \<union> span (params s) 12 \<longrightarrow> mem t x = mem s x)"
proof (cases "abs_kalloc 20 ps bs")
  case None
  let ?s = "on_mem (reserve_line (params s)) s"
  have "heap_ok lo ps bs ?s"
  proof (rule heap_ok_agree [OF assms(1)])
    fix x assume "x \<in> heap_bytes ps bs s"
    then have "x \<notin> screen (L * C) \<union> span (params s) 12" using assms(9) by blast
    then show "mem ?s x = mem s x" using reserve_line_spec(4) [OF assms(5-8)] by simp
  qed simp_all
  moreover have n: "unat sizeof_console + 4 \<le> 65535 * 4096" "unat sizeof_console + 4 = 20" by (simp_all add: sizeof_console_def)
  moreover have "unat (klock ?s) < 2 ^ 32 - 2" using assms(2) by simp
  ultimately have "\<exists>h. kalloc sizeof_console ?s = Some (Inl h)"
    using kalloc_spec [of lo ps bs ?s sizeof_console] None by simp
  then show ?thesis using None assms(4) by (auto simp: console_init_def grub_params_def Let_def)
next
  case (Some r)
  then obtain a ps' bs' where ab: "abs_kalloc 20 ps bs = Some (a, ps', bs')" by (cases r) auto
  obtain t where t: "console_init s = Some (Inr ((), t))" "heap_ok lo ps' bs' t"
    "kmem.more t = kmem.more (s\<lparr>consoles := \<lparr>cwrite = Some Text_Console, cdata = params s, loglevel = 5\<rparr> # consoles s, video_init := True\<rparr>)"
    "geom_ok (L - 1) C (params s) (mem t)" "vp_x (mem t) (params s) < C" "vp_y (mem t) (params s) < L - 1"
    "\<forall>x. x \<notin> heap_bytes ps bs s \<union> screen (L * C) \<union> span (params s) 12 \<longrightarrow> mem t x = mem s x" "klock t = klock s"
    by (rule console_stage [OF assms(1,2) ab assms(3-9)]) (rule that; assumption)
  have "params t = params s" "video_init t" using t(3) by (cases s; cases t; simp)+
  moreover have "consoles t = \<lparr>cwrite = Some Text_Console, cdata = params s, loglevel = 5\<rparr> # consoles s"
    using klog_more_sel(1) [OF t(3)] by simp
  ultimately show ?thesis using t(2,4-8) unfolding t(1) by auto
qed

section \<open>A machine as the boot code leaves it\<close>

definition powered :: kboot where
  "powered = kdelay.extend (timed\<lparr>tsk := (\<lambda>_. idle_task_init), current := 0x2000,
       mem := (\<lambda>_. 0)(0x8e001 := 24, 0x8e005 := 80, 0x8e006 := 25, 0x8e021 := 0x10), ph := 0x101000, bh := 0x101010\<rparr>)
     \<lparr>mbi = 0, memory_start = 0, memory_end = 0,
      boot_cpu_info = \<lparr>x86 = 0, x86_model = 0, x86_mask = 0, cpuid_level = 0, x86_capability = 0, x86_vendor_id = ''Unknown''\<rparr>,
      ld_text = 0x100000, ld_etext = 0x100800, ld_edata = 0x100c00, ld_init_begin = 0x100c00, ld_init_end = 0x101000,
      ld_bss_start = 0x101000, ld_end = 0x102000, kernel_init_entry = 0x100100, perl_main_entry = 0x100200,
      sticky_flags = 0, cpuid_regs = (\<lambda>_. (0, 0, 0, 0)), bochs_id = 0\<rparr>"

lemma powered_sel:
  "ph powered = 0x101000" "bh powered = 0x101010" "ld_end powered = 0x102000" "ld_bss_start powered = 0x101000"
  "mem powered = (\<lambda>_. 0)(0x8e001 := 24, 0x8e005 := 80, 0x8e006 := 25, 0x8e021 := 0x10)"
  "klock powered = 0" "tsk powered = (\<lambda>_. idle_task_init)" "current powered = 0x2000" "idle powered = 0x2000"
  "qfirst powered = (\<lambda>_. 0)" "log_size powered = 0" "params powered = 0x8e000" "mbi powered = 0"
  "timer_int powered = 0x7000" "keyboard_int powered = 0x7100" "hnd powered = (\<lambda>_. timer_handler)(0x7100 := keyboard_handler)"
  "cached_irq_mask powered = 0xffff" "x86_udelay_tsc powered = 0" "jiffies_at powered t = of_nat (t div 10000)"
  "sticky_flags powered = 0" "x86_capability (boot_cpu_info powered) = 0"
  by (simp_all add: powered_def kdelay.defs timed_def kirq.defs wired_def init_8259A_eq outs_def kkbd.defs typist_def kpic.defs
      pic_reset_def klog.defs quiet_def ktask.defs booted_def kmem.defs four_pages_def)

lemma powered_room: "boot_room 258 1280 powered" "reported_pages (mem powered) = 1280"
  by (simp_all add: boot_room_def powered_sel reported_pages_def mem_size_def mem_oldsize_def memseg_def load16_def load32_def push_bit_eq_mult)

theorem setup_trad_memory_witness:
  "\<exists>s'. setup_trad powered = Some s' \<and> unat (memory_start s') = 4096 * 258 \<and> unat (memory_end s') = 2 ^ 20 + 4096 * 1024
    \<and> pages_ok 258 [(258, 1022)] s'"
proof -
  have k: "4096 = max (unat (mem_oldsize (mem powered))) (unat (mem_size (mem powered)))"
    by (simp add: powered_sel mem_size_def mem_oldsize_def memseg_def load16_def load32_def push_bit_eq_mult)
  have "boot_room 258 (256 + 4096 div 4) powered" using powered_room(1) by simp
  from setup_trad_memory [OF k this] show ?thesis by auto
qed

text \<open>What lies below the two heads and below the managed memory is not of the heap.\<close>

lemma heap_bytes_low:
  assumes "heap_ok lo ps bs s" "x \<in> heap_bytes ps bs s"
  shows "x \<in> span (ph s) 8 \<union> span (bh s) 8 \<or> 4096 * lo \<le> unat x"
proof -
  note d = pages_okD [OF heap_okD(1) [OF assms(1)]] blocks_okD [OF heap_okD(2) [OF assms(1)]]
  have "ext_set ps \<subseteq> {lo..}" "ext_set bs \<subseteq> {4096 * lo..}"
    using ext_ok_bound [OF d(4)] ext_ok_bound [OF d(9)] by auto
  then have "lo \<le> unat x div 4096 \<or> 4096 * lo \<le> unat x" if "x \<in> ext_bytes 4096 ps \<union> ext_bytes 1 bs"
    using that by (auto simp: ext_bytes_def)
  then show ?thesis using assms(2) by (auto simp: heap_bytes_def less_eq_div_iff_mult_less_eq mult.commute)
qed

lemma span_above: "unat a + n < 2 ^ 32 \<Longrightarrow> x \<in> span a n \<Longrightarrow> unat a \<le> unat x \<and> unat x < unat a + n"
  using in_span_iff [of a n x] by simp

definition half_way :: kboot where
  "half_way = powered\<lparr>mem := (mem powered)(0x101005 := 0x20, 0x101006 := 0x10, 0x102000 := 4)\<rparr>"

lemma half_way_sel: "ph half_way = 0x101000" "bh half_way = 0x101010" "params half_way = 0x8e000" "mbi half_way = 0"
  "klock half_way = 0" "log.contents half_way = []"
  "mem half_way = (mem powered)(0x101005 := 0x20, 0x101006 := 0x10, 0x102000 := 4)"
  by (simp_all add: half_way_def powered_sel log.contents_def)

lemma half_way_heap: "heap_ok 258 [(258, 4)] [] half_way"
proof -
  have "pages_ok 258 [(258, 4)] half_way"
    by (simp add: pages_ok_def half_way_sel powered_sel node_def nxt_def load32_def load16_def pg_size_def push_bit_eq_mult)
  moreover have "blocks_ok 258 [] half_way"
    by (simp add: blocks_ok_def half_way_sel powered_sel nxt_def load32_def)
  moreover have "span 0x101000 8 \<inter> span (0x101010 :: u32) 8 = {}"
    by (rule span_disjoint) simp_all
  ultimately show ?thesis by (simp add: heap_ok_def half_way_sel ext_bytes_def)
qed

theorem console_init_ready_witness:
  "\<exists>t. console_init half_way = Some (Inr ((), t)) \<and> geom_ok 24 80 0x8e000 (mem t) \<and> vp_y (mem t) 0x8e000 < 24 \<and> video_init t"
proof -
  have low: "uint x < 0x101000" if "x \<in> screen (25 * 80) \<union> span 0x8e000 12" for x
    using that param_below [of x] by (auto simp: screen_def)
  have "x \<notin> heap_bytes [(258, 4)] [] half_way" if "x \<in> screen (25 * 80) \<union> span 0x8e000 12" for x
  proof
    assume "x \<in> heap_bytes [(258, 4)] [] half_way"
    from heap_bytes_low [OF half_way_heap this] have "0x101000 \<le> unat x"
      using span_above [of "0x101000" 8 x] span_above [of "0x101010" 8 x] by (auto simp: half_way_sel)
    then have "0x101000 \<le> uint x" by (metis of_nat_le_iff of_nat_numeral uint_nat)
    then show False using low [OF that] by simp
  qed
  then have d: "(screen (25 * 80) \<union> span (params half_way) 12) \<inter> heap_bytes [(258, 4)] [] half_way = {}"
    by (auto simp: half_way_sel)
  have "x \<notin> screen (25 * 80)" if "x \<in> span 0x8e000 12" for x
    using param_below [OF that] by (simp add: screen_def)
  then have g: "geom_ok 25 80 (params half_way) (mem half_way)"
    by (auto simp: geom_ok_def half_way_sel powered_sel vp_lines_def vp_cols_def)
  have a: "abs_kalloc 20 [(258, 4)] [] \<noteq> None"
    by (simp add: abs_kalloc_def abs_search.simps pages_for_def ext_insert_def attach_def)
  have "unat (klock half_way) < 2 ^ 32 - 2" "CHR 0x0D \<notin> set (log.contents half_way)" "mbi half_way = 0"
    "vp_x (mem half_way) (params half_way) < 80" "vp_y (mem half_way) (params half_way) < 25"
    by (simp_all add: half_way_sel powered_sel vp_x_def vp_y_def)
  from console_init_ready [OF half_way_heap this(1-3) g _ this(4,5) d] a show ?thesis
    by (auto simp: half_way_sel split: option.splits sum.splits)
qed

end
