(* ===== verification/Startup.thy ===== *)
theory Startup
  imports Boot
begin

text \<open>
  The start of the kernel as a whole: from the state the old boot loader leaves, start_kernel of
  init/main.c reaches the idle loop, with everything it has set up in order.  \<open>erase\<close> takes away what the
  start-up changes; each stage is shown to keep the rest.
\<close>

declare One_nat_def [simp del]

section \<open>What stays as it is\<close>

definition erase :: "'a kboot_scheme \<Rightarrow> 'a kboot_scheme" where
  "erase s = s\<lparr>klock := 0, intr := False, ktrace := [], kports := [], kbochs := False, mem := (\<lambda>_. 0), npages := 0,
     consoles := [], video_init := False, cached_irq_mask := 0, hnd := (\<lambda>_. timer_handler), irq_handlers := (\<lambda>_. 0),
     idt := 0, memory_start := 0, memory_end := 0, now := 0, loops_per_jiffy := 0,
     boot_cpu_info := \<lparr>x86 = 0, x86_model = 0, x86_mask = 0, cpuid_level = 0, x86_capability = 0, x86_vendor_id = ''''\<rparr>\<rparr>"

lemma erase_sel:
  assumes "erase t = erase s"
  shows "ph t = ph s" "bh t = bh s" "tsk t = tsk s" "current t = current s" "idle t = idle s" "qfirst t = qfirst s"
    "restore t = restore s" "log_buf t = log_buf s" "log_start t = log_start s" "log_size t = log_size s"
    "params t = params s" "mbi t = mbi s" "jiffies_at t = jiffies_at s" "x86_udelay_tsc t = x86_udelay_tsc s"
    "timer_int t = timer_int s" "keyboard_int t = keyboard_int s" "kernel_init_entry t = kernel_init_entry s"
    "ld_bss_start t = ld_bss_start s" "entry_of t = entry_of s"
  using arg_cong [OF assms, of ph] arg_cong [OF assms, of bh] arg_cong [OF assms, of tsk] arg_cong [OF assms, of current]
    arg_cong [OF assms, of idle] arg_cong [OF assms, of qfirst] arg_cong [OF assms, of restore] arg_cong [OF assms, of log_buf]
    arg_cong [OF assms, of log_start] arg_cong [OF assms, of log_size] arg_cong [OF assms, of params] arg_cong [OF assms, of mbi]
    arg_cong [OF assms, of jiffies_at] arg_cong [OF assms, of x86_udelay_tsc] arg_cong [OF assms, of timer_int]
    arg_cong [OF assms, of keyboard_int] arg_cong [OF assms, of kernel_init_entry] arg_cong [OF assms, of ld_bss_start]
    arg_cong [OF assms, of interrupts] arg_cong [OF assms, of exception_funcs] arg_cong [OF assms, of syscall_entry]
    arg_cong [OF assms, of unexpected_int]
  by (simp_all add: erase_def entry_of_def fun_eq_iff)

lemma erase_more:
  fixes s t :: "'a kboot_scheme"
  assumes "kmem.more t = kmem.more s" "ph t = ph s" "bh t = bh s"
  shows "erase t = erase s"
  using assms by (cases s; cases t) (simp add: erase_def)

lemma erase_upd [simp]:
  "erase (s\<lparr>consoles := c\<rparr>) = erase s" "erase (s\<lparr>video_init := v\<rparr>) = erase s" "erase (s\<lparr>idt := d\<rparr>) = erase s"
  "erase (s\<lparr>mem := m\<rparr>) = erase s" "erase (s\<lparr>klock := k\<rparr>) = erase s" "erase (s\<lparr>intr := i\<rparr>) = erase s"
  "erase (s\<lparr>ktrace := r\<rparr>) = erase s" "erase (s\<lparr>kports := p\<rparr>) = erase s" "erase (s\<lparr>kbochs := b\<rparr>) = erase s"
  "erase (s\<lparr>npages := n\<rparr>) = erase s" "erase (s\<lparr>cached_irq_mask := w\<rparr>) = erase s" "erase (s\<lparr>hnd := f\<rparr>) = erase s"
  "erase (s\<lparr>irq_handlers := g\<rparr>) = erase s" "erase (s\<lparr>memory_start := a\<rparr>) = erase s" "erase (s\<lparr>memory_end := a\<rparr>) = erase s"
  "erase (s\<lparr>now := t\<rparr>) = erase s" "erase (s\<lparr>loops_per_jiffy := a\<rparr>) = erase s" "erase (s\<lparr>boot_cpu_info := q\<rparr>) = erase s"
  by (simp_all add: erase_def)

lemma erase_steps [simp]:
  "erase (say f as s) = erase s" "erase (on_mem h s) = erase s" "erase (lock_kernel s) = erase s"
  "erase (unlock_kernel s) = erase s" "erase (unlock_flags b s) = erase s" "erase (outs ws s) = erase s"
  "erase (bochs_init r s) = erase s"
  by (simp_all add: say_def on_mem_def lock_kernel_def unlock_kernel_def unlock_flags_def outs_def bochs_init_def outp_def Let_def)

text \<open>\<open>at_stage\<close>: from \<open>s\<close> to \<open>t\<close> the start-up has kept the lower memory, holds the kernel lock, and the heap is \<open>ps\<close>, \<open>bs\<close>.\<close>

definition at_stage :: "nat \<Rightarrow> ext list \<Rightarrow> ext list \<Rightarrow> 'a kboot_scheme \<Rightarrow> 'a kboot_scheme \<Rightarrow> bool" where
  "at_stage lo ps bs s t \<longleftrightarrow> heap_ok lo ps bs t \<and> erase t = erase s \<and> klock t = 1
     \<and> (\<forall>x < ld_bss_start s. mem t x = mem s x)"

lemma at_stageD:
  assumes "at_stage lo ps bs s t"
  shows "heap_ok lo ps bs t" "erase t = erase s" "klock t = 1" "x < ld_bss_start s \<Longrightarrow> mem t x = mem s x"
    "unat (klock t) < 2 ^ 32 - 2"
  using assms by (simp_all add: at_stage_def)

lemma at_stage_same:
  assumes "at_stage lo ps bs s t" "mem u = mem t" "ph u = ph t" "bh u = bh t" "erase u = erase t" "klock u = klock t"
  shows "at_stage lo ps bs s u"
  using assms by (simp add: at_stage_def heap_ok_def pages_ok_def blocks_ok_def)

section \<open>The machine at the start\<close>

text \<open>
  What the kernel finds: the screen and its parameters, and the sizes of the memory, below the BSS; the two
  list heads in it; at least three pages behind the kernel.
\<close>

definition fresh_machine :: "nat \<Rightarrow> nat \<Rightarrow> int \<Rightarrow> int \<Rightarrow> 'a kboot_scheme \<Rightarrow> bool" where
  "fresh_machine lo hi L C s \<longleftrightarrow>
     hi = reported_pages (mem s) \<and> lo = (unat (ld_end s) + 4095) div 4096 \<and> lo + 2 < hi \<and> hi \<le> 65536
     \<and> 0 < ld_bss_start s \<and> ld_bss_start s \<le> ph s \<and> unat (ph s) + 8 \<le> unat (ld_end s)
     \<and> ld_bss_start s \<le> bh s \<and> unat (bh s) + 8 \<le> unat (ld_end s) \<and> span (ph s) 8 \<inter> span (bh s) 8 = {}
     \<and> (\<forall>x \<in> span memseg 6 \<union> screen (L * C) \<union> span (params s) 12. x < ld_bss_start s)
     \<and> geom_ok L C (params s) (mem s) \<and> 2 \<le> L \<and> vp_x (mem s) (params s) < C \<and> vp_y (mem s) (params s) < L
     \<and> mbi s = 0 \<and> klock s = 0 \<and> CHR 0x0D \<notin> set (log.contents s)"

text \<open>The scheduler at the start: one task, the idle task, below the managed memory.\<close>

definition lone_task :: "'a ktask_scheme \<Rightarrow> bool" where
  "lone_task s \<longleftrightarrow> sched_ok [] (\<lambda>_. []) s \<and> tasks_ok [] s"

text \<open>The handlers the drivers bring, and all lines masked.\<close>

definition drivers_ready :: "'a kirq_scheme \<Rightarrow> bool" where
  "drivers_ready s \<longleftrightarrow> hnd s (timer_int s) = timer_handler \<and> hnd s (keyboard_int s) = keyboard_handler
     \<and> timer_int s \<noteq> 0 \<and> keyboard_int s \<noteq> 0 \<and> cached_irq_mask s = 0xffff"

section \<open>Up to the memory\<close>

lemma clear_bss_at: "clear_bss d e m x = (if d \<le> x \<and> x < e then 0 else m x)"
proof (induction d e m rule: clear_bss.induct)
  case (1 d e m)
  show ?case
  proof (cases "d < e")
    case True
    then have "unat d + 1 < 4294967296" using unat_bounds(3) [of e] unfolding word_less_nat_alt by linarith
    then have u: "unat (d + 1) = unat d + 1" using unat_add_nowrap [of d 1] by simp
    have "d + 1 \<le> x \<longleftrightarrow> d \<le> x \<and> x \<noteq> d" by (auto simp: word_le_nat_alt u One_nat_def word_unat_eq_iff)
    moreover have "clear_bss (d + 1) e (m(d := 0)) x = (if d + 1 \<le> x \<and> x < e then 0 else (m(d := 0)) x)"
      by (rule "1.IH" [OF True])
    moreover have "clear_bss d e m x = clear_bss (d + 1) e (m(d := 0)) x" using True by (subst clear_bss.simps) simp
    ultimately show ?thesis using True by auto
  next
    case False
    then show ?thesis by (subst clear_bss.simps) auto
  qed
qed

lemma pages_low: "lo \<le> unat x div 4096 \<Longrightarrow> 4096 * lo \<le> unat x" for x :: u32
  by (simp add: less_eq_div_iff_mult_less_eq mult.commute)

lemma span_before:
  fixes a e :: u32
  assumes "unat a + 8 \<le> unat e" "x \<in> span a 8"
  shows "unat a \<le> unat x" "unat x < unat a + 8"
proof -
  have "unat a + 8 < 4294967296" using assms(1) unat_bounds(3) [of e] by linarith
  then have "unat a + 8 < 2 ^ 32" by simp
  from span_above [OF this assms(2)] show "unat a \<le> unat x" "unat x < unat a + 8" by simp_all
qed

lemma memory_stage:
  assumes f: "fresh_machine lo hi L C s" and mg: "magic \<noteq> multiboot_magic"
  obtains t where "start_memory magic addr s = Some t" "at_stage lo [(lo, hi - lo)] [] s t"
    "hnd t = hnd s" "cached_irq_mask t = cached_irq_mask s" "boot_cpu_info t = boot_cpu_info s" "consoles t = consoles s"
    "sticky_flags t = sticky_flags s" "cpuid_regs t = cpuid_regs s"
proof -
  note F = f [unfolded fresh_machine_def]
  define m0 where "m0 = clear_bss (ld_bss_start s) (ld_end s) (mem s)"
  define s1 where "s1 = say (kernel_banner s) [] (lock_kernel (on_mem (clear_bss (ld_bss_start s) (ld_end s)) s))"
  have s1: "mem s1 = m0" "ph s1 = ph s" "bh s1 = bh s" "klock s1 = 1" "ld_end s1 = ld_end s" "erase s1 = erase s"
    using F by (simp_all add: s1_def m0_def) (simp_all add: say_def lock_kernel_def on_mem_def)
  have low: "m0 x = mem s x" if "x < ld_bss_start s" for x using that by (auto simp: m0_def clear_bss_at)
  have zero: "m0 x = 0" if "x \<in> span h 8" "ld_bss_start s \<le> h" "unat h + 8 \<le> unat (ld_end s)" for x h
  proof -
    from span_before [OF that(3,1)] have "ld_bss_start s \<le> x" "x < ld_end s"
      using that(2,3) by (simp_all add: word_le_nat_alt word_less_nat_alt)
    then show ?thesis by (simp add: m0_def clear_bss_at)
  qed
  have zp: "m0 x = 0" if "x \<in> span (ph s) 8" for x by (rule zero [OF that]) (use F in blast)+
  have zb: "m0 x = 0" if "x \<in> span (bh s) 8" for x by (rule zero [OF that]) (use F in blast)+
  have le: "unat (ld_end s) \<le> 4096 * lo"
  proof -
    have "unat (ld_end s) + 4095 < 4096 + (unat (ld_end s) + 4095) div 4096 * 4096" by (rule dividend_less_div_times) simp
    then have "unat (ld_end s) < 1 + (unat (ld_end s) + 4095) div 4096 * 4096" by linarith
    moreover have "lo = (unat (ld_end s) + 4095) div 4096" using F by blast
    ultimately show ?thesis by simp
  qed
  have ms: "mem_size m0 = mem_size (mem s)" "mem_oldsize m0 = mem_oldsize (mem s)"
  proof -
    have "m0 (memseg + of_nat k) = mem s (memseg + of_nat k)" if "k < 6" for k
    proof (rule low)
      have "memseg + of_nat k \<in> span memseg 6" using that by (auto simp: span_def)
      then show "memseg + of_nat k < ld_bss_start s" using F by blast
    qed
    from this [of 0] this [of 1] this [of 2] this [of 3] this [of 4] this [of 5]
    show "mem_size m0 = mem_size (mem s)" "mem_oldsize m0 = mem_oldsize (mem s)"
      by (simp_all add: mem_size_def mem_oldsize_def load32_def load16_def add.assoc)
  qed
  have hi: "hi = reported_pages (mem s1)" using F ms by (simp add: reported_pages_def s1)
  have z16: "load16 m0 (ph s) = 0"
    using zp [of "ph s"] zp [of "ph s + 1"] span_mem [of 0 8 "ph s"] span_mem [of 1 8 "ph s"]
    by (simp add: load16_def)
  have b: "boot_room lo hi s1"
    using F le z16 by (auto simp: boot_room_def s1 word_less_nat_alt word_le_nat_alt)
  obtain me m t n where st: "setup_trad s1 = Some (s1\<lparr>memory_end := me, memory_start := of_nat (4096 * lo), mem := m, ktrace := t, npages := n\<rparr>)"
    and pg: "pages_ok lo [(lo, hi - lo)] (s1\<lparr>mem := m\<rparr>)"
    and fr: "\<forall>x. x \<notin> page_list_bytes [(lo, hi - lo)] s1 \<longrightarrow> m x = mem s1 x"
    using setup_trad_spec [OF hi b] by blast
  let ?t = "s1\<lparr>memory_end := me, memory_start := of_nat (4096 * lo), mem := m, ktrace := t, npages := n\<rparr>"
  have out: "x \<notin> page_list_bytes [(lo, hi - lo)] s1" if "x \<notin> span (ph s) 8" "unat x < 4096 * lo" for x
    using that span_shift [of 4 4 8 "ph s"] pages_low [of lo x]
    by (auto simp: page_list_bytes_def s1 ext_bytes_def)
  have mb: "m x = 0" if "x \<in> span (bh s) 8" for x
  proof -
    have "unat (bh s) + 8 \<le> unat (ld_end s)" using F by blast
    from span_before(2) [OF this that] this have "unat x < 4096 * lo" using le by linarith
    moreover have "x \<notin> span (ph s) 8" using that F by blast
    ultimately show ?thesis using fr out zb [OF that] by (simp add: s1)
  qed
  have "blocks_ok lo [] ?t"
    using F le mb span8 [of "bh s"] by (auto simp: blocks_ok_def nxt_def s1 intro!: load32_zero)
  moreover have "pages_ok lo [(lo, hi - lo)] ?t" using pg by (auto simp: pages_ok_def)
  ultimately have "heap_ok lo [(lo, hi - lo)] [] ?t" using F by (simp add: heap_ok_def s1 ext_bytes_def)
  moreover have "m x = mem s x" if x: "x < ld_bss_start s" for x
  proof -
    have p: "unat (ph s) + 8 \<le> unat (ld_end s)" using F by blast
    have "x \<notin> span (ph s) 8" using span_before(1) [OF p, of x] x F by (auto simp: word_less_nat_alt word_le_nat_alt)
    moreover have "unat x < 4096 * lo" using x F le by (auto simp: word_less_nat_alt word_le_nat_alt)
    ultimately show ?thesis using fr out low [OF x] by (simp add: s1)
  qed
  ultimately have "at_stage lo [(lo, hi - lo)] [] s ?t" by (simp add: at_stage_def s1)
  moreover have "kernel_banner (lock_kernel (on_mem h s)) = kernel_banner s" for h by (simp add: lock_kernel_def on_mem_def)
  then have "start_memory magic addr s = Some ?t"
    unfolding st [symmetric] using mg by (simp add: start_memory_def Let_def s1_def)
  moreover have "hnd ?t = hnd s" "cached_irq_mask ?t = cached_irq_mask s" "boot_cpu_info ?t = boot_cpu_info s" "consoles ?t = consoles s"
    "sticky_flags ?t = sticky_flags s" "cpuid_regs ?t = cpuid_regs s"
    by (simp_all add: s1_def say_def lock_kernel_def on_mem_def)
  ultimately show ?thesis using that by blast
qed

section \<open>Up to the console\<close>

text \<open>The lower memory stays out of the heap.\<close>

lemma low_memory:
  assumes "fresh_machine lo hi L C s" "at_stage lo ps bs s t" "x < ld_bss_start s"
  shows "x \<notin> heap_bytes ps bs t" "unat x < 4096 * lo"
proof -
  note F = assms(1) [unfolded fresh_machine_def] and sel = erase_sel(1,2) [OF at_stageD(2) [OF assms(2)]]
  have hd: "ld_bss_start s \<le> ph s" "unat (ph s) + 8 \<le> unat (ld_end s)" "ld_bss_start s \<le> bh s" "unat (bh s) + 8 \<le> unat (ld_end s)"
    using F by blast+
  have "unat (ld_end s) < 4096 + (unat (ld_end s) + 4095) div 4096 * 4096 - 4095"
    using dividend_less_div_times [of 4096 "unat (ld_end s) + 4095"] by linarith
  moreover have "lo = (unat (ld_end s) + 4095) div 4096" using F by blast
  ultimately have "unat (ld_end s) \<le> 4096 * lo" by simp
  then show lo: "unat x < 4096 * lo" using assms(3) hd(1,2) by (simp add: word_less_nat_alt word_le_nat_alt)
  have "x \<notin> span (ph s) 8" "x \<notin> span (bh s) 8"
    using span_before(1) [OF hd(2), of x] span_before(1) [OF hd(4), of x] assms(3) hd(1,3)
    by (auto simp: word_less_nat_alt word_le_nat_alt)
  then show "x \<notin> heap_bytes ps bs t"
    using heap_bytes_low [OF at_stageD(1) [OF assms(2)], of x] lo by (auto simp: sel)
qed

lemma setup_processor_shape:
  assumes "x86_capability (identify s (boot_cpu_info s)) AND 0x10 = 0"
  shows "\<exists>r. setup_processor s = s\<lparr>boot_cpu_info := identify s (boot_cpu_info s), ktrace := r\<rparr>"
  by (rule exI [of _ "ktrace (setup_processor s)"]) (use assms in \<open>simp add: setup_processor_def Let_def say_def\<close>)

lemma send_parallel:
  "mem (send con Parallel e s) = mem s" "ph (send con Parallel e s) = ph s" "bh (send con Parallel e s) = bh s"
  "klock (send con Parallel e s) = klock s" "intr (send con Parallel e s) = intr s"
proof -
  have m: "kcpu.more (send con Parallel e s) = kcpu.more s" "klock (send con Parallel e s) = klock s" "intr (send con Parallel e s) = intr s"
    by (simp_all add: send_def dispatch_def par_write_sel split: prod.split)
  then show "klock (send con Parallel e s) = klock s" "intr (send con Parallel e s) = intr s" by simp_all
  show "mem (send con Parallel e s) = mem s" "ph (send con Parallel e s) = ph s" "bh (send con Parallel e s) = bh s"
    using m(1) by (cases s; cases "send con Parallel e s"; simp)+
qed

lemma fold_parallel:
  "mem (fold (send con Parallel) es s) = mem s" "ph (fold (send con Parallel) es s) = ph s"
  "bh (fold (send con Parallel) es s) = bh s" "klock (fold (send con Parallel) es s) = klock s"
  by (induction es arbitrary: s) (simp_all add: send_parallel)

lemma telemetry_stage:
  obtains t where "setup_telemetry s = Some t" "mem t = mem s" "ph t = ph s" "bh t = bh s" "klock t = klock s"
    "kmem.more t = kmem.more (s\<lparr>consoles := \<lparr>cwrite = Some Parallel, cdata = 0, loglevel = LOGLEVEL_MAX\<rparr> # consoles s\<rparr>)"
proof -
  let ?c = "\<lparr>cwrite = Some Parallel, cdata = 0, loglevel = LOGLEVEL_MAX\<rparr>"
  obtain t where t: "register_console ?c s = Some (unlock_flags (intr s) t)"
    "kmem.more t = kmem.more (s\<lparr>consoles := ?c # consoles s\<rparr>)"
    "kmem.truncate t = fold (send ?c Parallel) (replay_pieces (log.contents s) [] (-1)) (kmem.truncate (lock_kernel s))"
    by (rule register_frame [of ?c]) simp
  have "mem (kmem.truncate t) = mem s" "ph (kmem.truncate t) = ph s" "bh (kmem.truncate t) = bh s" "klock (kmem.truncate t) = klock s + 1"
    unfolding t(3) fold_parallel by (simp_all add: kmem.defs lock_kernel_def)
  then have "mem t = mem s" "ph t = ph s" "bh t = bh s" "klock t = klock s + 1" by (simp_all add: kmem.defs)
  then have "mem (unlock_flags (intr s) t) = mem s" "ph (unlock_flags (intr s) t) = ph s" "bh (unlock_flags (intr s) t) = bh s"
    "klock (unlock_flags (intr s) t) = klock s" "kmem.more (unlock_flags (intr s) t) = kmem.more t"
    by (simp_all add: unlock_flags_def unlock_kernel_def Let_def)
  then show ?thesis using that [of "unlock_flags (intr s) t"] t(1,2) by (simp add: setup_telemetry_def)
qed

text \<open>The interrupt system: the table, the chips, the clock and the keyboard.\<close>

lemma register_irq_handler_frame:
  fixes s :: "'a kboot_scheme"
  assumes "register_irq_handler h s = Some t"
  shows "mem t = mem s" "ph t = ph s" "bh t = bh s" "erase t = erase s" "consoles t = consoles s" "idt t = idt s"
proof -
  have n: "unat (irq (hnd s h)) < 16" using assms by (simp add: register_irq_handler_def Let_def split: if_splits)
  have "enable_irq q u = outs (snd (w q u)) (u\<lparr>cached_irq_mask := fst (w q u)\<rparr>)"
    if "w = (\<lambda>q u. let m = cached_irq_mask u AND NOT (irq_bit q) in (m, if q AND 8 \<noteq> 0 then [(0xA1, ucast (byte_nr 1 m))] else [(0x21, ucast (byte_nr 0 m))]))"
    for q and u :: "'a kboot_scheme" and w
    by (simp add: that Let_def mask_ops_eq write_mask_def outb_def outp_outs)
  then obtain w where w: "\<And>q (u :: 'a kboot_scheme). enable_irq q u = outs (snd (w q u)) (u\<lparr>cached_irq_mask := fst (w q u)\<rparr>)" by blast
  show "mem t = mem s" "ph t = ph s" "bh t = bh s" "erase t = erase s" "consoles t = consoles s" "idt t = idt s"
    using assms unfolding register_irq_handler_eq [OF n] option.inject w link_handler_eq
    by (auto simp: lock_kernel_def unlock_kernel_def outs_def Let_def)
qed

lemma erase_IRQs: "erase (setup_IRQs s) = erase s" "consoles (setup_IRQs s) = consoles s"
  by (simp_all add: setup_IRQs_def init_syscalls_def init_irq_vectors_def vectors_loop_eq init_8259A_eq Let_def)
    (simp_all add: outs_def on_mem_def say_def)

lemma erase_exceptions: "erase (setup_exceptions s) = erase s" "consoles (setup_exceptions s) = consoles s"
  "hnd (setup_exceptions s) = hnd s" "timer_int (setup_exceptions s) = timer_int s" "keyboard_int (setup_exceptions s) = keyboard_int s"
  "cached_irq_mask (setup_exceptions s) = cached_irq_mask s" "klock (setup_exceptions s) = klock s"
  by (simp_all add: setup_exceptions_def exceptions_loop_eq) (simp_all add: on_mem_def)

text \<open>The gates of the table.\<close>

definition table_ready :: "'a kirq_scheme \<Rightarrow> 'b kirq_scheme \<Rightarrow> bool" where
  "table_ready s t \<longleftrightarrow> (\<forall>k < 256. idt_gate (idt t) k (mem t) = (entry_of s (unat k), KERNEL_CODE, 14, 0, True))"

lemma irq_stage:
  assumes f: "fresh_machine lo hi L C s" and st: "at_stage lo ps bs s t" and dr: "drivers_ready t"
    and ab: "abs_kalloc 2052 ps bs = Some (a, ps', bs')"
  obtains u v w where "setup_interrupts t = Some (Inr ((), u))" "setup_clock (setup_IRQs (setup_exceptions u)) = Some v"
    "setup_keyboard v = Some w" "at_stage lo ps' bs' s w" "masks_ok w" "\<forall>n < 16. masked w n = (n \<noteq> 0 \<and> n \<noteq> 1)"
    "chains_ok ((\<lambda>_. [])(0 := [timer_int s], 1 := [keyboard_int s])) w"
    "consoles w = consoles t" "table_ready t w" "span (idt w) 2048 \<inter> heap_bytes ps' bs' w = {}"
    "\<forall>x \<in> span (idt w) 2048. 4096 * lo \<le> unat x" "idt w = node 1 (a + 4)"
proof -
  note D = at_stageD [OF st]
  obtain u where u: "setup_interrupts t = Some (Inr ((), u))" "kmem.more u = kmem.more (t\<lparr>idt := node 1 (a + 4)\<rparr>)"
    "ph u = ph t" "bh u = bh t" "klock u = klock t"
    and d: "idt (setup_IRQs (setup_exceptions u)) = node 1 (a + 4)"
    and g: "\<forall>k < 256. idt_gate (node 1 (a + 4)) k (mem (setup_IRQs (setup_exceptions u))) = (entry_of t (unat k), KERNEL_CODE, 14, 0, True)"
    and hp: "heap_ok lo ps' bs' (setup_IRQs (setup_exceptions u))" and out: "span (node 1 (a + 4)) 2048 \<inter> heap_bytes ps' bs' t = {}"
    and fr: "\<forall>x. x \<notin> heap_bytes ps bs t \<longrightarrow> mem (setup_IRQs (setup_exceptions u)) x = mem t x"
    and sub: "span (node 1 (a + 4)) 2048 \<subseteq> ext_bytes 4096 ps \<union> ext_bytes 1 bs"
    by (rule table_stage [OF D(1,5) ab]) (rule that; blast)
  have eu: "erase u = erase t" using erase_more [OF u(2)] u(3,4) by simp
  have ku: "hnd u = hnd t" "timer_int u = timer_int t" "keyboard_int u = keyboard_int t" "cached_irq_mask u = cached_irq_mask t" "consoles u = consoles t"
    using u(2) by (cases t; cases u; simp)+
  let ?i = "setup_exceptions u"
  note ex = erase_exceptions [of u]
  have "hnd ?i (timer_int ?i) = timer_handler" "hnd ?i (keyboard_int ?i) = keyboard_handler" "timer_int ?i \<noteq> 0"
    "keyboard_int ?i \<noteq> 0" "cached_irq_mask ?i = 0xffff"
    using dr unfolding drivers_ready_def ex ku by blast+
  from boot_lines_spec [OF this] obtain v w where v: "setup_clock (setup_IRQs ?i) = Some v" and w: "setup_keyboard v = Some w"
    and m: "masks_ok w" "\<forall>n < 16. masked w n = (n \<noteq> 0 \<and> n \<noteq> 1)"
    and ch: "chains_ok ((\<lambda>_. [])(0 := [timer_int ?i], 1 := [keyboard_int ?i])) w" and kl: "klock w = klock ?i"
    by blast
  note v' = register_irq_handler_frame [OF v [unfolded setup_clock_eq]] and w' = register_irq_handler_frame [OF w [unfolded setup_keyboard_def]]
  have o: "mem (outs clock_ports z) = mem z" "ph (outs clock_ports z) = ph z" "bh (outs clock_ports z) = bh z"
    "consoles (outs clock_ports z) = consoles z" "idt (outs clock_ports z) = idt z" for z :: "'a kboot_scheme"
    by (simp_all add: outs_def)
  have sel: "mem w = mem (setup_IRQs ?i)" "ph w = ph t" "bh w = bh t" "erase w = erase t" "consoles w = consoles t" "idt w = node 1 (a + 4)"
    by (simp_all add: v' w' o setup_IRQs_sel(8,9) exceptions_sel(3,4) u(3,4) erase_IRQs ex eu ku d)
  have hw: "heap_ok lo ps' bs' w"
    by (rule heap_ok_agree [OF hp]) (simp_all add: sel setup_IRQs_sel(8,9) exceptions_sel(3,4) u(3,4))
  have lw: "mem w x = mem s x" if "x < ld_bss_start s" for x
    using fr low_memory(1) [OF f st that] D(4) [OF that] by (simp add: sel(1))
  have "at_stage lo ps' bs' s w"
    using hw lw D(2,3) kl sel(4) by (simp add: at_stage_def ex(7) u(5))
  moreover have "table_ready t w" using g by (simp add: table_ready_def sel)
  moreover have "span (idt w) 2048 \<inter> heap_bytes ps' bs' w = {}" using out by (simp add: sel heap_bytes_def)
  moreover have "\<forall>x \<in> span (idt w) 2048. 4096 * lo \<le> unat x"
  proof
    fix x assume "x \<in> span (idt w) 2048"
    then have x: "x \<in> ext_bytes 4096 ps \<union> ext_bytes 1 bs" using sub by (auto simp: sel)
    then have "x \<in> heap_bytes ps bs t" by (auto simp: heap_bytes_def)
    then show "4096 * lo \<le> unat x"
      using heap_bytes_low [OF D(1)] heads_outside [OF D(1)] x by blast
  qed
  moreover have "timer_int ?i = timer_int s" "keyboard_int ?i = keyboard_int s"
    using erase_sel(15,16) [OF D(2)] by (simp_all add: ex ku)
  ultimately show ?thesis using u(1) v w m ch sel(5,6) by (intro that [of u v w]) simp_all
qed

text \<open>The four requests of the start-up, answered from the last two pages.\<close>

lemma boot_allocs:
  assumes "lo + 2 < hi"
  defines "x \<equiv> 4096 * (hi - 1)" and "c \<equiv> 4096 * (hi - 2)"
  shows "abs_kalloc 2052 [(lo, hi - lo)] [] = Some (x + 2044, [(lo, hi - lo - 1)], [(x, 2044)])"
    and "abs_kalloc 20 [(lo, hi - lo - 1)] [(x, 2044)] = Some (x + 2024, [(lo, hi - lo - 1)], [(x, 2024)])"
    and "abs_kalloc 4096 [(lo, hi - lo - 1)] [(x, 2024)] = Some (c + 2024, [(lo, hi - lo - 2)], [(c, 2024)])"
    and "abs_kalloc 68 [(lo, hi - lo - 2)] [(c, 2024)] \<noteq> None"
proof -
  define m where "m = hi - lo - 3"
  have hi: "hi = lo + m + 3" using assms(1) by (simp add: m_def)
  have x: "x = 4096 * (lo + m + 2)" "c = 4096 * (lo + m + 1)" by (simp_all add: x_def c_def hi)
  show "abs_kalloc 2052 [(lo, hi - lo)] [] = Some (x + 2044, [(lo, hi - lo - 1)], [(x, 2044)])"
    by (simp add: abs_kalloc_def abs_search.simps pages_for_def ext_insert_def attach_def x hi One_nat_def)
  show "abs_kalloc 20 [(lo, hi - lo - 1)] [(x, 2044)] = Some (x + 2024, [(lo, hi - lo - 1)], [(x, 2024)])"
    by (simp add: abs_kalloc_def abs_search.simps)
  show "abs_kalloc 4096 [(lo, hi - lo - 1)] [(x, 2024)] = Some (c + 2024, [(lo, hi - lo - 2)], [(c, 2024)])"
    by (simp add: abs_kalloc_def abs_search.simps pages_for_def ext_insert_def attach_def x hi One_nat_def)
  show "abs_kalloc 68 [(lo, hi - lo - 2)] [(c, 2024)] \<noteq> None"
    by (simp add: abs_kalloc_def abs_search.simps)
qed

lemma last_out_None: "p \<notin> fst ` set ws \<Longrightarrow> last_out p ws = None"
  by (induction ws) auto

lemma masks_ok_append:
  assumes "masks_ok s" "cached_irq_mask t = cached_irq_mask s" "kports t = kports s @ ws" "fst ` set ws \<subseteq> {0x3d4, 0x3d5, 0x80}"
  shows "masks_ok t"
proof -
  have "last_out 0x21 ws = None" "last_out 0xa1 ws = None" by (rule last_out_None; use assms(4) in auto)+
  then show ?thesis using assms(1-3) by (simp add: masks_ok_def)
qed

lemma table_ready_frame:
  assumes "table_ready s t" "idt_fits (idt t)" "idt u = idt t" "\<forall>x \<in> span (idt t) 2048. mem u x = mem t x"
  shows "table_ready s u"
proof -
  have "idt_gate (idt t) k (mem u) = idt_gate (idt t) k (mem t)" if "k < 256" for k
    unfolding idt_gate_def
  proof (rule gate_cong)
    fix x assume x: "x \<in> span (idt t + 8 * ucast k) 8"
    have n: "unat k < 256" using that by (simp add: word_less_nat_alt)
    have "(ucast k :: u32) = of_nat (unat k)" by (rule unsigned_word_eqI) (use n in \<open>simp add: unat_of_nat_small unat_ucast_up\<close>)
    then have "span (idt t + 8 * ucast k) 8 \<subseteq> span (idt t) 2048" using span_shift [of "8 * unat k" 8 2048 "idt t"] n by simp
    then show "mem u x = mem t x" using assms(4) x by blast
  qed
  then show ?thesis using assms(1,3) by (simp add: table_ready_def)
qed

lemma bochs_init_sel:
  "mem (bochs_init r s) = mem s" "ph (bochs_init r s) = ph s" "bh (bochs_init r s) = bh s" "klock (bochs_init r s) = klock s"
  "hnd (bochs_init r s) = hnd s" "cached_irq_mask (bochs_init r s) = cached_irq_mask s" "consoles (bochs_init r s) = consoles s"
  by (simp_all add: bochs_init_def outp_def Let_def say_def)

lemma drivers_ready_same:
  assumes "drivers_ready s" "erase t = erase s" "hnd t = hnd s" "cached_irq_mask t = cached_irq_mask s"
  shows "drivers_ready t"
  using assms erase_sel(15,16) [OF assms(2)] by (simp add: drivers_ready_def)

lemma identify_cong: "sticky_flags t = sticky_flags s \<Longrightarrow> cpuid_regs t = cpuid_regs s \<Longrightarrow> identify t c = identify s c"
proof -
  assume "sticky_flags t = sticky_flags s" "cpuid_regs t = cpuid_regs s"
  then have "flags_test b t = flags_test b s" "cpuid_0 t d = cpuid_0 s d" "cpuid_1 t d = cpuid_1 s d" for b d
    by (simp_all add: cpuid_0_def cpuid_1_def flags_test_def)
  then show ?thesis by (simp add: identify_def Let_def cong: if_cong)
qed

definition text_console :: "'a kkbd_scheme \<Rightarrow> console" where
  "text_console s = \<lparr>cwrite = Some Text_Console, cdata = params s, loglevel = 5\<rparr>"

definition parallel_console :: console where
  "parallel_console = \<lparr>cwrite = Some Parallel, cdata = 0, loglevel = LOGLEVEL_MAX\<rparr>"

text \<open>What start_devices leaves: everything but the first process.\<close>

definition devices_ready :: "nat \<Rightarrow> nat \<Rightarrow> int \<Rightarrow> int \<Rightarrow> 'a kboot_scheme \<Rightarrow> 'a kboot_scheme \<Rightarrow> bool" where
  "devices_ready lo hi L C s u \<longleftrightarrow>
     heap_ok lo [(lo, hi - lo - 1)] [(4096 * (hi - 1), 2024)] u \<and> erase u = erase s \<and> klock u = 1
     \<and> masks_ok u \<and> (\<forall>n < 16. masked u n = (n \<noteq> 0 \<and> n \<noteq> 1))
     \<and> chains_ok ((\<lambda>_. [])(0 := [timer_int s], 1 := [keyboard_int s])) u
     \<and> table_ready s u \<and> idt_fits (idt u) \<and> span (idt u) 2048 \<inter> heap_bytes [(lo, hi - lo - 1)] [(4096 * (hi - 1), 2024)] u = {}
     \<and> consoles u = text_console s # parallel_console # consoles s \<and> video_init u
     \<and> geom_ok (L - 1) C (params s) (mem u) \<and> vp_x (mem u) (params s) < C \<and> vp_y (mem u) (params s) < L - 1"

lemma console_after_irqs:
  assumes f: "fresh_machine lo hi L C s" and st: "at_stage lo [(lo, hi - lo - 1)] [(4096 * (hi - 1), 2044)] s w"
    and m: "masks_ok w" "\<forall>n < 16. masked w n = (n \<noteq> 0 \<and> n \<noteq> 1)"
    and ch: "chains_ok ((\<lambda>_. [])(0 := [timer_int s], 1 := [keyboard_int s])) w"
    and co: "consoles w = parallel_console # consoles s" and tb: "table_ready s w"
    and sp: "span (idt w) 2048 \<inter> heap_bytes [(lo, hi - lo - 1)] [(4096 * (hi - 1), 2044)] w = {}"
    and hi: "\<forall>x \<in> span (idt w) 2048. 4096 * lo \<le> unat x" and fit: "idt_fits (idt w)"
  shows "\<exists>u. console_init w = Some (Inr ((), u)) \<and> devices_ready lo hi L C s u"
proof -
  note F = f [unfolded fresh_machine_def] and D = at_stageD [OF st] and sel = erase_sel [OF at_stageD(2) [OF st]]
  let ?ps = "[(lo, hi - lo - 1)]" and ?bs = "[(4096 * (hi - 1), 2044)]" and ?bs' = "[(4096 * (hi - 1), 2024)]"
  let ?S = "screen (L * C) \<union> span (params s) 12"
  have ab: "abs_kalloc 20 ?ps ?bs = Some (4096 * (hi - 1) + 2024, ?ps, ?bs')"
    using boot_allocs(2) [of lo hi] F by simp
  have S: "x < ld_bss_start s" if "x \<in> ?S" for x using that F by blast
  have mS: "mem w x = mem s x" if "x \<in> ?S" for x using D(4) [OF S [OF that]] .
  have e: "mem w (params s) = mem s (params s)" "mem w (params s + 1) = mem s (params s + 1)"
    "mem w (params s + 5) = mem s (params s + 5)" "mem w (params s + 6) = mem s (params s + 6)"
    using mS param_span [of "params s"] by blast+
  have g: "geom_ok L C (params w) (mem w)" "vp_x (mem w) (params w) < C" "vp_y (mem w) (params w) < L" "2 \<le> L"
    using F e by (simp_all add: sel geom_ok_def vp_lines_def vp_cols_def vp_x_def vp_y_def)
  have dis: "(screen (L * C) \<union> span (params w) 12) \<inter> heap_bytes ?ps ?bs w = {}"
    using low_memory(1) [OF f st S] by (auto simp: sel(11))
  have "log.contents w = log.contents s" by (rule log_contents_cong) (simp_all add: sel)
  then have cr: "CHR 0x0D \<notin> set (log.contents w)" "mbi w = 0" using F by (simp_all add: sel)
  obtain u where u: "console_init w = Some (Inr ((), u))" "heap_ok lo ?ps ?bs' u"
    "kmem.more u = kmem.more (w\<lparr>consoles := \<lparr>cwrite = Some Text_Console, cdata = params w, loglevel = 5\<rparr> # consoles w, video_init := True\<rparr>)"
    "geom_ok (L - 1) C (params w) (mem u)" "vp_x (mem u) (params w) < C" "vp_y (mem u) (params w) < L - 1"
    and fr: "\<forall>x. x \<notin> heap_bytes ?ps ?bs w \<union> screen (L * C) \<union> span (params w) 12 \<longrightarrow> mem u x = mem w x"
    and h: "ph u = ph w" "bh u = bh w" "klock u = klock w"
    and p: "\<exists>ws. kports u = kports w @ ws \<and> fst ` set ws \<subseteq> {0x3d4, 0x3d5, 0x80}"
    and inc: "ext_bytes 4096 ?ps \<union> ext_bytes 1 ?bs' \<subseteq> ext_bytes 4096 ?ps \<union> ext_bytes 1 ?bs"
    by (rule console_stage [OF D(1,5) ab cr g(1,4,2,3) dis]) (rule that; assumption)
  have k: "idt u = idt w" "hnd u = hnd w" "irq_handlers u = irq_handlers w" "cached_irq_mask u = cached_irq_mask w"
    using kirq_sel_more [OF u(3)] by simp_all
  have c: "consoles u = text_console s # parallel_console # consoles s" "video_init u"
    using klog_more_sel(1) [OF u(3)] kmem_more_sel(5) [OF u(3)] co by (simp_all add: text_console_def sel)
  have er: "erase u = erase s" using erase_more [OF u(3)] h(1,2) D(2) by simp
  obtain ws where ws: "kports u = kports w @ ws" "fst ` set ws \<subseteq> {0x3d4, 0x3d5, 0x80}" using p by blast
  have mu: "masks_ok u" by (rule masks_ok_append [OF m(1) k(4) ws])
  have "\<forall>x \<in> span (idt w) 2048. mem u x = mem w x"
  proof
    fix x assume x: "x \<in> span (idt w) 2048"
    have "x \<notin> ?S" using low_memory(2) [OF f st S, of x] hi x by force
    then show "mem u x = mem w x" using fr sp x sel(11) by auto
  qed
  then have tu: "table_ready s u" by (rule table_ready_frame [OF tb fit k(1)])
  have "heap_bytes ?ps ?bs' u \<subseteq> heap_bytes ?ps ?bs w" using inc h by (auto simp: heap_bytes_def)
  then have spu: "span (idt u) 2048 \<inter> heap_bytes ?ps ?bs' u = {}" using sp k(1) by auto
  have "chains_ok ((\<lambda>_. [])(0 := [timer_int s], 1 := [keyboard_int s])) u"
    by (rule chains_ok_agree [OF ch]) (simp_all add: k)
  then have "devices_ready lo hi L C s u"
    unfolding devices_ready_def using u(2,4-6) er h(3) D(3) mu m(2) tu fit spu c k sel(11) by (simp add: masked_def)
  then show ?thesis using u(1) by blast
qed

lemma devices_stage:
  assumes f: "fresh_machine lo hi L C s" and mg: "magic \<noteq> multiboot_magic" and dr: "drivers_ready s"
    and tsc: "x86_capability (identify s (boot_cpu_info s)) AND 0x10 = 0"
  obtains t u where "start_memory magic addr s = Some t" "start_devices t = Some (Inr ((), u))" "devices_ready lo hi L C s u"
proof -
  note F = f [unfolded fresh_machine_def]
  have lh: "lo + 2 < hi" "hi \<le> 65536" using F by blast+
  obtain t where t: "start_memory magic addr s = Some t" "at_stage lo [(lo, hi - lo)] [] s t"
    "hnd t = hnd s" "cached_irq_mask t = cached_irq_mask s" "boot_cpu_info t = boot_cpu_info s" "consoles t = consoles s"
    "sticky_flags t = sticky_flags s" "cpuid_regs t = cpuid_regs s"
    by (rule memory_stage [OF f mg])
  obtain r where r: "setup_processor t = t\<lparr>boot_cpu_info := identify t (boot_cpu_info t), ktrace := r\<rparr>"
    using setup_processor_shape [of t] tsc by (auto simp: identify_cong [OF t(7,8)] t(5))
  obtain t2 where t2: "setup_telemetry (setup_processor t) = Some t2" "mem t2 = mem (setup_processor t)" "ph t2 = ph (setup_processor t)"
    "bh t2 = bh (setup_processor t)" "klock t2 = klock (setup_processor t)"
    "kmem.more t2 = kmem.more ((setup_processor t)\<lparr>consoles := \<lparr>cwrite = Some Parallel, cdata = 0, loglevel = LOGLEVEL_MAX\<rparr> # consoles (setup_processor t)\<rparr>)"
    by (rule telemetry_stage)
  let ?t3 = "bochs_init (bochs_id t2) t2"
  have e2: "erase t2 = erase t" using erase_more [OF t2(6)] t2(3,4) by (simp add: r)
  have c2: "consoles t2 = parallel_console # consoles s" "hnd t2 = hnd s" "cached_irq_mask t2 = cached_irq_mask s"
    using klog_more_sel(1) [OF t2(6)] kirq_sel_more(7,9) [OF t2(6)] t(3,4,6) by (simp_all add: r parallel_console_def)
  have st: "at_stage lo [(lo, hi - lo)] [] s ?t3"
    by (rule at_stage_same [OF t(2)]) (simp_all add: bochs_init_sel t2(2-5) r e2)
  have dr3: "drivers_ready ?t3"
    by (rule drivers_ready_same [OF dr]) (simp_all add: bochs_init_sel c2 e2 at_stageD(2) [OF t(2)])
  obtain u v w where iq: "setup_interrupts ?t3 = Some (Inr ((), u))" "setup_clock (setup_IRQs (setup_exceptions u)) = Some v"
    "setup_keyboard v = Some w" "at_stage lo [(lo, hi - lo - 1)] [(4096 * (hi - 1), 2044)] s w" "masks_ok w" "\<forall>n < 16. masked w n = (n \<noteq> 0 \<and> n \<noteq> 1)"
    "chains_ok ((\<lambda>_. [])(0 := [timer_int s], 1 := [keyboard_int s])) w"
    "consoles w = consoles ?t3" "table_ready ?t3 w" "span (idt w) 2048 \<inter> heap_bytes [(lo, hi - lo - 1)] [(4096 * (hi - 1), 2044)] w = {}"
    "\<forall>x \<in> span (idt w) 2048. 4096 * lo \<le> unat x" "idt w = node 1 (4096 * (hi - 1) + 2044 + 4)"
    by (rule irq_stage [OF f st dr3 boot_allocs(1) [OF lh(1)]])
  have "4096 * (hi - 1) + 2048 < 2 ^ 28" using lh(2) by simp
  then have fit: "idt_fits (idt w)" using lh by (simp add: iq(12) idt_fits_def node1_unat)
  have "table_ready s w" using iq(9) erase_sel(19) [OF at_stageD(2) [OF st]] by (simp add: table_ready_def)
  moreover have "consoles w = parallel_console # consoles s" using iq(8) c2(1) by (simp add: bochs_init_sel)
  ultimately obtain x where x: "console_init w = Some (Inr ((), x))" "devices_ready lo hi L C s x"
    using console_after_irqs [OF f iq(4-7) _ _ iq(10,11) fit] by blast
  have "start_devices t = Some (Inr ((), x))"
    using t2(1) iq(1-3) x(1) by (simp add: start_devices_def and_then_def Let_def)
  then show ?thesis using that t(1) x(2) by blast
qed

section \<open>Up to the idle loop\<close>

lemma timeslice_ok:
  assumes "sched_ok xs W s" "tasks_ok as s"
  shows "sched_ok xs W (at_task a (timeslice_update g) s)" "tasks_ok as (at_task a (timeslice_update g) s)"
proof -
  let ?t = "at_task a (timeslice_update g) s"
  note D = sched_okD [OF assms(1)]
  have f: "run_next (tsk ?t b) = run_next (tsk s b)" "run_prev (tsk ?t b) = run_prev (tsk s b)"
    "task_next (tsk ?t b) = task_next (tsk s b)" "task_prev (tsk ?t b) = task_prev (tsk s b)"
    "queue_next (tsk ?t b) = queue_next (tsk s b)" "queue_prev (tsk ?t b) = queue_prev (tsk s b)"
    "state (tsk ?t b) = state (tsk s b)" "tname (tsk ?t b) = tname (tsk s b)" for b
    by (simp_all add: at_task_def edit_apply)
  have sel: "idle ?t = idle s" "current ?t = current s" "qfirst ?t = qfirst s" by (simp_all add: at_task_def)
  have r: "run_ok xs ?t" by (rule run_ok_cong [OF D(1)]) (simp_all add: f sel edit_apply)
  have q: "queue_ok q (W q) ?t" for q by (rule queue_ok_cong [OF D(2)]) (simp_all add: f sel edit_apply)
  show "sched_ok xs W ?t"
    using assms(1) r q unfolding sched_ok_def f sel by blast
  show "tasks_ok as ?t"
  proof -
    have "tasks.ring (tsk ?t) (idle s # as)" if "tasks.ring (tsk s) (idle s # as)"
      by (rule tasks.ring_cong [OF that]) (simp add: f edit_apply)
    then show ?thesis using assms(2) unfolding tasks_ok_def f sel by blast
  qed
qed

lemma system_idle_sel:
  "klock (system_idle s) = klock s" "intr (system_idle s) = intr s" "mem (system_idle s) = mem s" "ph (system_idle s) = ph s"
  "bh (system_idle s) = bh s" "kports (system_idle s) = kports s" "ktask.more (system_idle s) = ktask.more s"
  "current (system_idle s) = current s" "idle (system_idle s) = idle s"
  "tsk (system_idle s) = edit (current s) (timeslice_update (\<lambda>_. 0)) (tsk s)"
  by (simp_all add: system_idle_def Let_def at_task_def say_def)

lemma more_sel:
  fixes s t :: "'a kboot_scheme"
  assumes "ktask.more t = ktask.more s"
  shows "idt t = idt s" "hnd t = hnd s" "irq_handlers t = irq_handlers s" "cached_irq_mask t = cached_irq_mask s"
    "consoles t = consoles s" "loops_per_jiffy t = loops_per_jiffy s"
  using assms by (cases s; cases t; simp)+

text \<open>
  The kernel at rest: unlocked, interrupts on, the idle task current and the process init ready to run.
\<close>

definition at_rest :: "nat \<Rightarrow> nat \<Rightarrow> 'a kboot_scheme \<Rightarrow> 'a kboot_scheme \<Rightarrow> bool" where
  "at_rest lo tick s t \<longleftrightarrow> klock t = 0 \<and> intr t \<and> (\<exists>ps bs. heap_ok lo ps bs t)
     \<and> current t = idle t \<and> idle t = idle s \<and> timeslice (tsk t (idle t)) = 0
     \<and> (\<exists>x. sched_ok [x] (\<lambda>_. []) t \<and> tasks_ok [x] t \<and> pid (tsk t x) = 1 \<and> tname (tsk t x) = ''init''
          \<and> (\<forall>k < 18. load32 (mem t) (esp (tsk t x) + of_nat (4 * k)) = stack_words (restore s) (kernel_init_entry s) ! k))
     \<and> masks_ok t \<and> (\<forall>n < 16. masked t n = (n \<noteq> 0 \<and> n \<noteq> 1))
     \<and> chains_ok ((\<lambda>_. [])(0 := [timer_int s], 1 := [keyboard_int s])) t
     \<and> table_ready s t \<and> consoles t = text_console s # parallel_console # consoles s
     \<and> (let l = unat (loops_per_jiffy t) in if tick \<le> 4097 then l = 4096 else l + 1 < tick \<and> (tick - 1 - l) * 256 \<le> l)"

lemma tasks_stage:
  assumes d: "devices_ready lo hi L C s u" and lh: "lo + 2 < hi" and one: "lone_task s" and id: "unat (idle s) < 4096 * lo"
    and reg: "regular tick s" "0 < tick" "tick \<le> 2 ^ 31"
  shows "\<exists>t. start_tasks u = Some (Inr ((), t)) \<and> at_rest lo tick s t"
proof -
  let ?ps = "[(lo, hi - lo - 1)]" and ?bs = "[(4096 * (hi - 1), 2024)]"
  note D = d [unfolded devices_ready_def] and one' = one [unfolded lone_task_def]
  have hp: "heap_ok lo ?ps ?bs u" and er: "erase u = erase s" and kl: "klock u = 1" using D by blast+
  define v where "v = unlock_kernel u"
  have v: "klock v = 0" "intr v" "mem v = mem u" "ph v = ph u" "bh v = bh u" "kports v = kports u" "kmem.more v = kmem.more u" "erase v = erase s"
    using kl er by (simp_all add: v_def unlock_kernel_def Let_def)
  have "regular tick v" using reg(1) erase_sel(13,14) [OF v(8)] by (simp add: regular_def)
  from calibrate_spec [OF this reg(2,3)] obtain n l r where c: "calibrate_delay v = Some (v\<lparr>now := n, loops_per_jiffy := l, ktrace := r\<rparr>)"
    and l: "if tick \<le> 4097 then unat l = 4096 else unat l + 1 < tick \<and> (tick - 1 - unat l) * 256 \<le> unat l" by blast
  define c0 where "c0 = v\<lparr>now := n, loops_per_jiffy := l, ktrace := r\<rparr>"
  define c1 where "c1 = say_memory c0"
  have c1: "klock c1 = 0" "intr c1" "mem c1 = mem u" "ph c1 = ph u" "bh c1 = bh u" "kports c1 = kports u" "erase c1 = erase s"
    "idt c1 = idt v" "hnd c1 = hnd v" "irq_handlers c1 = irq_handlers v" "cached_irq_mask c1 = cached_irq_mask v" "consoles c1 = consoles v"
    "loops_per_jiffy c1 = l"
    using v by (simp_all add: c1_def c0_def say_memory_def) (simp_all add: say_def)
  have vu: "idt v = idt u" "hnd v = hnd u" "irq_handlers v = irq_handlers u" "cached_irq_mask v = cached_irq_mask u" "consoles v = consoles u"
    using kirq_sel_more [OF v(7)] klog_more_sel(1) [OF v(7)] by simp_all
  note sel = erase_sel [OF c1(7)]
  have hc: "heap_ok lo ?ps ?bs c1" by (rule heap_ok_agree [OF hp c1(4,5)]) (simp add: c1(3))
  have sc: "sched_ok [] (\<lambda>_. []) c1" "tasks_ok [] c1"
    using one' sched_ok_agree [of "[]" "\<lambda>_. []" s c1] by (simp_all add: sel tasks_ok_def)
  have nm: "name_ok ''init''" by (simp add: name_ok_def nul_def)
  have sz: "72 \<le> unat (4092 :: u32)" "unat (4092 :: u32) + 4 \<le> 65535 * 4096" "unat (klock c1) < 2 ^ 32 - 2"
    "unat (4092 :: u32) + 4 = 4096" "unat sizeof_task + 4 = 68" by (simp_all add: c1(1) sizeof_task_def)
  have us: "\<forall>a \<in> set (idle c1 # [] @ []) \<union> (\<Union>q. set []). a \<notin> ext_bytes 4096 ?ps \<union> ext_bytes 1 ?bs"
  proof -
    have "idle s \<notin> ext_bytes 4096 ?ps \<union> ext_bytes 1 ?bs"
      using id pages_low [of lo "idle s"] lh by (auto simp: ext_bytes_def)
    then show ?thesis by (simp add: sel)
  qed
  have "Option.bind (abs_kalloc (unat (4092 :: u32) + 4) ?ps ?bs) (\<lambda>(a, ps1, bs1). abs_kalloc (unat sizeof_task + 4) ps1 bs1) \<noteq> None"
    unfolding sz(4,5) using boot_allocs(3,4) [OF lh] by simp
  with create_process_spec [OF sc hc sz(1-3) nm us, of 1 "kernel_init_entry s"]
  obtain x w sp ps' bs' where w: "create_process 1 (kernel_init_entry s) ''init'' 4092 c1 = Some (Inr (x, w))"
    and ok: "sched_ok ([] @ [x]) (\<lambda>_. []) w" "tasks_ok ([] @ [x]) w" "heap_ok lo ps' bs' w"
    and wc: "current w = current c1" "klock w = klock c1" "intr w = (klock c1 = 0)" "ktask.more w = ktask.more c1" "idle w = idle c1"
      "kports w = kports c1"
    and fr: "\<forall>a. a \<notin> heap_bytes ?ps ?bs c1 \<longrightarrow> mem w a = mem c1 a"
    and px: "pid (tsk w x) = 1" "tname (tsk w x) = ''init''" "esp (tsk w x) = sp"
    and sw: "\<forall>k < 18. load32 (mem w) (sp + of_nat (4 * k)) = stack_words (restore c1) (kernel_init_entry s) ! k" by blast
  define w1 where "w1 = say (''System Initialised.'' @ newline @ ''Entering idle loop'' @ newline) [] w"
  let ?t = "system_idle w1"
  have st: "start_tasks u = Some (Inr ((), ?t))"
  proof -
    have "kernel_init_entry c0 = kernel_init_entry s" using erase_sel(17) [OF v(8)] by (simp add: c0_def)
    then show ?thesis
      using w c v(1) by (simp add: start_tasks_def Let_def v_def [symmetric] and_then_def c0_def [symmetric] c1_def [symmetric] w1_def)
  qed
  have w1: "klock w1 = klock w" "intr w1 = intr w" "mem w1 = mem w" "ph w1 = ph w" "bh w1 = bh w" "kports w1 = kports w"
    "tsk w1 = tsk w" "current w1 = current w" "idle w1 = idle w" "qfirst w1 = qfirst w" "ktask.more w1 = ktask.more w"
    by (simp_all add: w1_def) (simp_all add: say_def)
  note t = system_idle_sel [of w1, unfolded w1]
  note m = more_sel [of ?t w, OF t(7)] more_sel [OF wc(4)]
  have cur: "current w = idle w" "idle w = idle s"
  proof -
    show "idle w = idle s" by (simp add: wc sel)
    have "current s = idle s" using sched_okD(3) one' by fastforce
    then show "current w = idle w" by (simp add: wc sel)
  qed
  have "sched_ok [x] (\<lambda>_. []) w1" "tasks_ok [x] w1"
    using ok(1,2) sched_ok_agree [of "[x]" "\<lambda>_. []" w w1] by (simp_all add: w1 tasks_ok_def)
  then have sk: "sched_ok [x] (\<lambda>_. []) ?t" "tasks_ok [x] ?t"
    using timeslice_ok [of "[x]" "\<lambda>_. []" "say (kern_debug @ ''idle: Idle loop started'' @ newline) [] w1" "[x]"]
      sched_ok_agree [of "[x]" "\<lambda>_. []" w1 "say (kern_debug @ ''idle: Idle loop started'' @ newline) [] w1"]
    by (simp_all add: system_idle_def Let_def tasks_ok_def say_def)
  have "x \<noteq> idle w" using ok(2) by (auto simp: tasks_ok_def tasks.ring_def)
  then have tx: "tsk ?t x = tsk w x" "timeslice (tsk ?t (idle ?t)) = 0" by (simp_all add: t edit_apply cur)
  have ht: "heap_ok lo ps' bs' ?t" by (rule heap_ok_agree [OF ok(3)]) (simp_all add: t)
  have "idt c1 = idt u" by (simp add: c1(8) vu)
  have tb: "table_ready s ?t"
  proof (rule table_ready_frame [of s u])
    show "idt ?t = idt u" by (simp add: m c1 vu)
    show "\<forall>a \<in> span (idt u) 2048. mem ?t a = mem u a"
    proof
      fix a assume "a \<in> span (idt u) 2048"
      then have "a \<notin> heap_bytes ?ps ?bs u" using D by blast
      then have "a \<notin> heap_bytes ?ps ?bs c1" by (simp add: heap_bytes_def c1)
      then show "mem ?t a = mem u a" using fr by (simp add: t c1)
    qed
  qed (use D in blast)+
  have mk: "masks_ok ?t" using D by (simp add: masks_ok_def t wc c1 m vu)
  have ch: "chains_ok ((\<lambda>_. [])(0 := [timer_int s], 1 := [keyboard_int s])) ?t"
    by (rule chains_ok_agree [of _ u]) (use D in \<open>simp_all add: m c1 vu\<close>)
  have "at_rest lo tick s ?t"
    unfolding at_rest_def Let_def
  proof (intro conjI)
    show "klock ?t = 0" "intr ?t" by (simp_all add: t wc c1)
    show "\<exists>ps bs. heap_ok lo ps bs ?t" using ht by blast
    show "current ?t = idle ?t" "idle ?t = idle s" by (simp_all add: t cur)
    show "\<forall>n < 16. masked ?t n = (n \<noteq> 0 \<and> n \<noteq> 1)" using D by (simp add: masked_def m c1 vu)
    show "consoles ?t = text_console s # parallel_console # consoles s" using D by (simp add: m c1 vu)
    show "if tick \<le> 4097 then unat (loops_per_jiffy ?t) = 4096
      else unat (loops_per_jiffy ?t) + 1 < tick \<and> (tick - 1 - unat (loops_per_jiffy ?t)) * 256 \<le> unat (loops_per_jiffy ?t)"
      using l by (simp add: m c1 diff_diff_left [symmetric] del: diff_diff_left)
    show "\<exists>x. sched_ok [x] (\<lambda>_. []) ?t \<and> tasks_ok [x] ?t \<and> pid (tsk ?t x) = 1 \<and> tname (tsk ?t x) = ''init''
      \<and> (\<forall>k < 18. load32 (mem ?t) (esp (tsk ?t x) + of_nat (4 * k)) = stack_words (restore s) (kernel_init_entry s) ! k)"
      using sk px sw by (intro exI [of _ x]) (simp add: tx t(3) sel)
  qed (fact tx tb mk ch)+
  then show ?thesis using st by blast
qed

section \<open>The start of the kernel\<close>

text \<open>
  Property C1.  On a machine the old boot loader has started, with at least three pages of memory behind
  the kernel, a clock that ticks and no time stamp counter, start_kernel neither halts nor hangs: it
  reaches the idle loop with the kernel unlocked and interrupts on.  Then the heap is well formed, init is
  the only runnable process beside the idle task, and its stack starts it at kernel_init; exactly the
  lines of the clock and of the keyboard are open, each with its handler; all gates of the interrupt table
  are in place; both consoles are registered; and the delay loop is calibrated.
\<close>

theorem start_kernel_reaches_idle:
  assumes "fresh_machine lo hi L C s" and "lone_task s" and "unat (idle s) < 4096 * lo" and "drivers_ready s"
    and "magic \<noteq> multiboot_magic" and "x86_capability (identify s (boot_cpu_info s)) AND 0x10 = 0"
    and "regular tick s" and "0 < tick" and "tick \<le> 2 ^ 31"
  shows "\<exists>t. start_kernel magic addr s = Some (Inr ((), t)) \<and> at_rest lo tick s t"
proof -
  obtain t u where "start_memory magic addr s = Some t" "start_devices t = Some (Inr ((), u))" and u: "devices_ready lo hi L C s u"
    by (rule devices_stage [OF assms(1,5,4,6)])
  then have "start_kernel magic addr s = start_tasks u" by (simp add: start_kernel_def and_then_def)
  moreover have "lo + 2 < hi" using assms(1) by (simp add: fresh_machine_def)
  ultimately show ?thesis using tasks_stage [OF u _ assms(2,3,7-9)] by simp
qed

lemma powered_fresh: "fresh_machine 258 1280 25 80 powered"
proof -
  have low: "x < 0x101000" if "x \<in> span memseg 6 \<union> screen (25 * 80) \<union> span 0x8e000 12" for x
  proof -
    have "unat x < 0x101000" if "x \<in> span (0x8e020 :: u32) 6" using span_above [OF _ that] by simp
    moreover have "unat x < 0x101000" if "x \<in> span (0x8e000 :: u32) 12" using span_above [OF _ that] by simp
    moreover have "unat x < 0x101000" if "x \<in> screen (25 * 80)" 
    proof -
      have "int (unat x) < 0x101000" using that by (simp add: screen_def)
      then show ?thesis by linarith
    qed
    ultimately show ?thesis using that by (auto simp: memseg_def word_less_nat_alt)
  qed
  have "span 0x101000 8 \<inter> span (0x101010 :: u32) 8 = {}" by (rule span_disjoint) simp_all
  moreover have "x \<notin> screen (25 * 80)" if "x \<in> span 0x8e000 12" for x
    using param_below [OF that] by (simp add: screen_def)
  then have "geom_ok 25 80 (params powered) (mem powered)"
    by (auto simp: geom_ok_def powered_sel vp_lines_def vp_cols_def)
  ultimately show ?thesis
    unfolding fresh_machine_def powered_room(2)
    using low by (simp add: powered_sel vp_x_def vp_y_def log.contents_def)
qed

theorem start_kernel_reaches_idle_witness:
  "\<exists>t. start_kernel 0 0 powered = Some (Inr ((), t)) \<and> klock t = 0 \<and> intr t \<and> \<not> masked t 0 \<and> masked t 9
    \<and> length (consoles t) = length (consoles powered) + 2"
proof -
  have "lone_task powered"
    by (simp add: lone_task_def sched_ok_def run_ok_def queue_ok_def tasks_ok_def powered_sel idle_task_init_def name_ok_def nul_def)
  moreover have "drivers_ready powered" by (simp add: drivers_ready_def powered_sel)
  moreover have "x86_capability (identify powered (boot_cpu_info powered)) AND 0x10 = 0"
    by (simp add: identify_def flags_test_def powered_sel Let_def)
  moreover have "regular 10000 powered" by (simp add: regular_def powered_sel)
  moreover have "(0 :: u32) \<noteq> multiboot_magic" by (simp add: multiboot_magic_def)
  ultimately obtain t where "start_kernel 0 0 powered = Some (Inr ((), t))" "at_rest 258 10000 powered t"
    using start_kernel_reaches_idle [OF powered_fresh, of 0 10000 0] by (auto simp: powered_sel)
  then show ?thesis by (intro exI [of _ t]) (simp add: at_rest_def)
qed

end
