(* ===== verification/Stubs.thy ===== *)
theory Stubs
  imports Boot Libc
begin

text \<open>
  The rest of kernel/perlwrap.c: the C library functions that perl is linked against and that the kernel
  does not have.  Nearly all of them say how they were called, set \<open>errno\<close> to \<open>ENOSYS\<close> and return a
  failure.  Words stand for pointers, integers and file handles alike; a \<open>double\<close> is its bit pattern.
  A string argument with no NUL is a loop that never ends, and the result is \<open>None\<close>.
\<close>

declare One_nat_def [simp del]

section \<open>State\<close>

record kperl = kboot +
  errno :: u32
  dev_null_name :: u32

text \<open>
  \<open>dev_null_name\<close> is where the compiler put the literal \<open>''/dev/null''\<close> that fopen compares with.
\<close>

definition ENOSYS :: u32 where "ENOSYS = 38"
definition eof :: u32 where "eof = - 1"

definition stdin :: u32 where "stdin = 0x01"
definition stdout :: u32 where "stdout = 0x02"
definition stderr :: u32 where "stderr = 0x03"
definition devnull :: u32 where "devnull = 0x04"

text \<open>
  \<open>debugf\<close>: what is printed needs the text of every string argument.  A \<open>double\<close> takes two words of the
  argument list, the low one first, and vsprintf, which knows no \<open>%f\<close>, takes neither.
\<close>

definition debugf :: "string \<Rightarrow> varg option list \<Rightarrow> 'a kcpu_scheme \<Rightarrow> 'a kcpu_scheme option" where
  "debugf fmt args s = (if None \<in> set args then None else Some (say (''++ wrap: '' @ fmt) (map the args) s))"

definition double :: "u64 \<Rightarrow> varg option list" where
  "double x = [Some (VInt (ucast x)), Some (VInt (ucast (drop_bit 32 x)))]"

text \<open>The two ways a stub ends: with \<open>errno\<close> set, and without.\<close>

definition nosys :: "string \<Rightarrow> varg option list \<Rightarrow> 'v \<Rightarrow> 'a kperl_scheme \<Rightarrow> ('v, 'a kperl_scheme) kresult" where
  "nosys fmt args r s = map_option (\<lambda>s. Inr (r, s\<lparr>errno := ENOSYS\<rparr>)) (debugf fmt args s)"

definition answer :: "string \<Rightarrow> varg option list \<Rightarrow> 'v \<Rightarrow> 'a kperl_scheme \<Rightarrow> ('v, 'a kperl_scheme) kresult" where
  "answer fmt args r s = map_option (\<lambda>s. Inr (r, s)) (debugf fmt args s)"

section \<open>Processes, the environment and signals\<close>

definition chdir :: "u32 \<Rightarrow> 'a kperl_scheme \<Rightarrow> (u32, 'a kperl_scheme) kresult" where
  "chdir path s =
     nosys (''chdir(%s)'' @ newline) [str_arg (mem s) path] (- 1) s"

definition sleep :: "u32 \<Rightarrow> 'a kperl_scheme \<Rightarrow> (u32, 'a kperl_scheme) kresult" where
  "sleep seconds s =
     nosys (''sleep(%d)'' @ newline) [Some (VInt seconds)] (- 1) s"

definition chmod :: "u32 \<Rightarrow> u32 \<Rightarrow> 'a kperl_scheme \<Rightarrow> (u32, 'a kperl_scheme) kresult" where
  "chmod path md s =
     nosys (''chmod(%s, %o)'' @ newline) [str_arg (mem s) path, Some (VInt md)] (- 1) s"

definition fork :: "'a kperl_scheme \<Rightarrow> (u32, 'a kperl_scheme) kresult" where
  "fork s =
     nosys (''fork()'' @ newline) [] (- 1) s"

definition time_wrap :: "u32 \<Rightarrow> 'a kperl_scheme \<Rightarrow> (u32, 'a kperl_scheme) kresult" where
  "time_wrap t s =
     nosys (''time(%p)'' @ newline) [Some (VInt t)] (- 1) s"

definition localtime :: "u32 \<Rightarrow> 'a kperl_scheme \<Rightarrow> (u32, 'a kperl_scheme) kresult" where
  "localtime timep s =
     nosys (''localtime(%p [%ld])'' @ newline) [Some (VInt timep), Some (VInt (load32 (mem s) timep))] 0 s"

definition gmtime :: "u32 \<Rightarrow> 'a kperl_scheme \<Rightarrow> (u32, 'a kperl_scheme) kresult" where
  "gmtime timep s =
     nosys (''gmtime(%p [%ld])'' @ newline) [Some (VInt timep), Some (VInt (load32 (mem s) timep))] 0 s"

definition execl :: "u32 \<Rightarrow> u32 \<Rightarrow> 'a kperl_scheme \<Rightarrow> (u32, 'a kperl_scheme) kresult" where
  "execl path ar s =
     nosys (''execl(%s, %s, ...)'' @ newline) [str_arg (mem s) path, str_arg (mem s) ar] (- 1) s"

text \<open>The loop of execv and execvp, which prints the arguments up to the null pointer.\<close>

partial_function (option) print_args :: "u32 \<Rightarrow> 'a kperl_scheme \<Rightarrow> 'a kperl_scheme option" where
  "print_args argv s =
     (if load32 (mem s) argv = 0 then Some s
      else if str_arg (mem s) (load32 (mem s) argv) = None then None
      else print_args (argv + 4)
        (let s = say ''%s'' [the (str_arg (mem s) (load32 (mem s) argv))] s
         in if load32 (mem s) (argv + 4) \<noteq> 0 then say '', '' [] s else s))"

definition execv :: "u32 \<Rightarrow> u32 \<Rightarrow> 'a kperl_scheme \<Rightarrow> (u32, 'a kperl_scheme) kresult" where
  "execv path argv s =
     (case debugf ''execv(%s, ['' [str_arg (mem s) path] s of
        None \<Rightarrow> None
      | Some s \<Rightarrow>
          (case print_args argv s of
             None \<Rightarrow> None
           | Some s \<Rightarrow> Some (Inr (- 1, (say ('']);'' @ newline) [] s)\<lparr>errno := ENOSYS\<rparr>))))"

definition execvp :: "u32 \<Rightarrow> u32 \<Rightarrow> 'a kperl_scheme \<Rightarrow> (u32, 'a kperl_scheme) kresult" where
  "execvp path argv s =
     (case debugf ''execvp(%s, ['' [str_arg (mem s) path] s of
        None \<Rightarrow> None
      | Some s \<Rightarrow>
          (case print_args argv s of
             None \<Rightarrow> None
           | Some s \<Rightarrow> Some (Inr (- 1, (say ('']);'' @ newline) [] s)\<lparr>errno := ENOSYS\<rparr>))))"

definition kill :: "u32 \<Rightarrow> u32 \<Rightarrow> 'a kperl_scheme \<Rightarrow> (u32, 'a kperl_scheme) kresult" where
  "kill pr sig s =
     nosys (''kill(%d, %d)'' @ newline) [Some (VInt pr), Some (VInt sig)] (- 1) s"

definition rand :: "'a kperl_scheme \<Rightarrow> (u32, 'a kperl_scheme) kresult" where
  "rand s =
     nosys (''rand()'' @ newline) [] 1 s"

definition srand :: "u32 \<Rightarrow> 'a kperl_scheme \<Rightarrow> (unit, 'a kperl_scheme) kresult" where
  "srand sd s =
     nosys (''srand(%u)'' @ newline) [Some (VInt sd)] () s"

definition link_wrap :: "u32 \<Rightarrow> u32 \<Rightarrow> 'a kperl_scheme \<Rightarrow> (u32, 'a kperl_scheme) kresult" where
  "link_wrap oldpath newpath s =
     nosys (''link(%s, %s)'' @ newline) [str_arg (mem s) oldpath, str_arg (mem s) newpath] (- 1) s"

definition unlink :: "u32 \<Rightarrow> 'a kperl_scheme \<Rightarrow> (u32, 'a kperl_scheme) kresult" where
  "unlink pathname s =
     nosys (''unlink(%s)'' @ newline) [str_arg (mem s) pathname] (- 1) s"

definition umask :: "u32 \<Rightarrow> 'a kperl_scheme \<Rightarrow> (u32, 'a kperl_scheme) kresult" where
  "umask msk s =
     nosys (''umask(%d)'' @ newline) [Some (VInt msk)] 0 s"

definition wait_wrap :: "u32 \<Rightarrow> 'a kperl_scheme \<Rightarrow> (u32, 'a kperl_scheme) kresult" where
  "wait_wrap st s =
     nosys (''wait(%p)'' @ newline) [Some (VInt st)] (- 1) s"

definition tmpfile :: "'a kperl_scheme \<Rightarrow> (u32, 'a kperl_scheme) kresult" where
  "tmpfile s =
     nosys (''tmpfile()'' @ newline) [] 0 s"

definition getenv :: "u32 \<Rightarrow> 'a kperl_scheme \<Rightarrow> (u32, 'a kperl_scheme) kresult" where
  "getenv nm s =
     nosys (''getenv(%s)'' @ newline) [str_arg (mem s) nm] 0 s"

definition putenv :: "u32 \<Rightarrow> 'a kperl_scheme \<Rightarrow> (u32, 'a kperl_scheme) kresult" where
  "putenv str s =
     nosys (''putenv(%s)'' @ newline) [str_arg (mem s) str] (- 1) s"

definition getpid :: "'a kperl_scheme \<Rightarrow> (u32, 'a kperl_scheme) kresult" where
  "getpid s =
     nosys (''getpid()'' @ newline) [] (- 1) s"

definition getuid :: "'a kperl_scheme \<Rightarrow> (u32, 'a kperl_scheme) kresult" where
  "getuid s =
     nosys (''getuid()'' @ newline) [] (- 1) s"

definition geteuid :: "'a kperl_scheme \<Rightarrow> (u32, 'a kperl_scheme) kresult" where
  "geteuid s =
     nosys (''geteuid()'' @ newline) [] (- 1) s"

definition setgid :: "u32 \<Rightarrow> 'a kperl_scheme \<Rightarrow> (u32, 'a kperl_scheme) kresult" where
  "setgid gid s =
     nosys (''setgid(%d)'' @ newline) [Some (VInt gid)] (- 1) s"

definition setuid :: "u32 \<Rightarrow> 'a kperl_scheme \<Rightarrow> (u32, 'a kperl_scheme) kresult" where
  "setuid uid s =
     nosys (''setuid(%d)'' @ newline) [Some (VInt uid)] (- 1) s"

definition getgid :: "'a kperl_scheme \<Rightarrow> (u32, 'a kperl_scheme) kresult" where
  "getgid s =
     nosys (''getgid()'' @ newline) [] (- 1) s"

definition getegid :: "'a kperl_scheme \<Rightarrow> (u32, 'a kperl_scheme) kresult" where
  "getegid s =
     nosys (''getegid()'' @ newline) [] (- 1) s"

definition signal_wrap :: "u32 \<Rightarrow> u32 \<Rightarrow> 'a kperl_scheme \<Rightarrow> (u32, 'a kperl_scheme) kresult" where
  "signal_wrap sig h s =
     nosys (''signal(%d, %p)'' @ newline) [Some (VInt sig), Some (VInt h)] (- 1) s"

definition isatty :: "u32 \<Rightarrow> 'a kperl_scheme \<Rightarrow> (u32, 'a kperl_scheme) kresult" where
  "isatty fd s =
     answer (''isatty(%d)'' @ newline) [Some (VInt fd)] 1 s"

definition rename :: "u32 \<Rightarrow> u32 \<Rightarrow> 'a kperl_scheme \<Rightarrow> (u32, 'a kperl_scheme) kresult" where
  "rename oldpath newpath s =
     nosys (''rename(%s, %s)'' @ newline) [str_arg (mem s) oldpath, str_arg (mem s) newpath] (- 1) s"

definition exit_wrap :: "u32 \<Rightarrow> 'a kperl_scheme \<Rightarrow> (unit, 'a kperl_scheme) kresult" where
  "exit_wrap st s =
     and_then (nosys (''exit(%d)'' @ newline) [Some (VInt st)] () s) (panic ''program tried to exit: %d'' [VInt st])"

definition exit_now :: "u32 \<Rightarrow> 'a kperl_scheme \<Rightarrow> (unit, 'a kperl_scheme) kresult" where
  "exit_now st s =
     and_then (nosys (''_exit(%d)'' @ newline) [Some (VInt st)] () s) (panic ''program tried to _exit: %d'' [VInt st])"

definition strerror :: "u32 \<Rightarrow> 'a kperl_scheme \<Rightarrow> (string, 'a kperl_scheme) kresult" where
  "strerror errnum s = nosys (''strerror(%d)'' @ newline) [Some (VInt errnum)] ''Unknown error'' s"

section \<open>Files\<close>

definition open_wrap :: "u32 \<Rightarrow> u32 \<Rightarrow> u32 \<Rightarrow> 'a kperl_scheme \<Rightarrow> (u32, 'a kperl_scheme) kresult" where
  "open_wrap nm fl md s =
     nosys (''open(%s, %x, %o)'' @ newline) [str_arg (mem s) nm, Some (VInt fl), Some (VInt md)] (- 1) s"

definition close_wrap :: "u32 \<Rightarrow> 'a kperl_scheme \<Rightarrow> (u32, 'a kperl_scheme) kresult" where
  "close_wrap fd s =
     nosys (''close(%d)'' @ newline) [Some (VInt fd)] (- 1) s"

definition dup :: "u32 \<Rightarrow> 'a kperl_scheme \<Rightarrow> (u32, 'a kperl_scheme) kresult" where
  "dup oldfd s =
     nosys (''dup(%d)'' @ newline) [Some (VInt oldfd)] (- 1) s"

definition fopen :: "u32 \<Rightarrow> u32 \<Rightarrow> 'a kperl_scheme \<Rightarrow> (u32, 'a kperl_scheme) kresult" where
  "fopen path md s =
     (case debugf (''fopen(%s, %s)'' @ newline) [str_arg (mem s) path, str_arg (mem s) md] s of
        None \<Rightarrow> None
      | Some s \<Rightarrow>
          (case strcmp path (dev_null_name s) (mem s) of
             None \<Rightarrow> None
           | Some d \<Rightarrow>
               if d = 0 then answer (''  opening devnull'' @ newline) [] devnull s
               else Some (Inr (0, s\<lparr>errno := ENOSYS\<rparr>))))"

definition fclose :: "u32 \<Rightarrow> 'a kperl_scheme \<Rightarrow> (u32, 'a kperl_scheme) kresult" where
  "fclose fp s =
     nosys (''fclose(%p)'' @ newline) [Some (VInt fp)] eof s"

definition stat :: "u32 \<Rightarrow> u32 \<Rightarrow> 'a kperl_scheme \<Rightarrow> (u32, 'a kperl_scheme) kresult" where
  "stat nm bf s =
     nosys (''stat(%s, %p)'' @ newline) [str_arg (mem s) nm, Some (VInt bf)] (- 1) s"

definition xstat :: "u32 \<Rightarrow> u32 \<Rightarrow> u32 \<Rightarrow> 'a kperl_scheme \<Rightarrow> (u32, 'a kperl_scheme) kresult" where
  "xstat vr nm bf s =
     nosys (''__xstat(%d, %s, %p)'' @ newline) [Some (VInt vr), str_arg (mem s) nm, Some (VInt bf)] (- 1) s"

definition fstat :: "u32 \<Rightarrow> u32 \<Rightarrow> 'a kperl_scheme \<Rightarrow> (u32, 'a kperl_scheme) kresult" where
  "fstat fd bf s =
     nosys (''fstat(%d, %p)'' @ newline) [Some (VInt fd), Some (VInt bf)] (- 1) s"

definition fxstat :: "u32 \<Rightarrow> u32 \<Rightarrow> u32 \<Rightarrow> 'a kperl_scheme \<Rightarrow> (u32, 'a kperl_scheme) kresult" where
  "fxstat vr fd bf s =
     nosys (''__fxstat(%d, %d, %p)'' @ newline) [Some (VInt vr), Some (VInt fd), Some (VInt bf)] (- 1) s"

definition ftell :: "u32 \<Rightarrow> 'a kperl_scheme \<Rightarrow> (u32, 'a kperl_scheme) kresult" where
  "ftell fp s =
     nosys (''ftell(%p)'' @ newline) [Some (VInt fp)] (- 1) s"

definition rewind :: "u32 \<Rightarrow> 'a kperl_scheme \<Rightarrow> (unit, 'a kperl_scheme) kresult" where
  "rewind fp s =
     nosys (''rewind(%p)'' @ newline) [Some (VInt fp)] () s"

definition fseek :: "u32 \<Rightarrow> u32 \<Rightarrow> u32 \<Rightarrow> 'a kperl_scheme \<Rightarrow> (u32, 'a kperl_scheme) kresult" where
  "fseek fp off whence s =
     nosys (''fseek(%p, %ld, %d)'' @ newline) [Some (VInt fp), Some (VInt off), Some (VInt whence)] (- 1) s"

definition fileno :: "u32 \<Rightarrow> 'a kperl_scheme \<Rightarrow> (u32, 'a kperl_scheme) kresult" where
  "fileno fp s =
     nosys (''fileno(%p)'' @ newline) [Some (VInt fp)] (- 1) s"

definition clearerr :: "u32 \<Rightarrow> 'a kperl_scheme \<Rightarrow> (unit, 'a kperl_scheme) kresult" where
  "clearerr fp s =
     nosys (''clearerr(%p)'' @ newline) [Some (VInt fp)] () s"

definition ferror :: "u32 \<Rightarrow> 'a kperl_scheme \<Rightarrow> (u32, 'a kperl_scheme) kresult" where
  "ferror fp s =
     nosys (''ferror(%p)'' @ newline) [Some (VInt fp)] (- 1) s"

definition feof :: "u32 \<Rightarrow> 'a kperl_scheme \<Rightarrow> (u32, 'a kperl_scheme) kresult" where
  "feof fp s =
     nosys (''feof(%p)'' @ newline) [Some (VInt fp)] (- 1) s"

definition opendir :: "u32 \<Rightarrow> 'a kperl_scheme \<Rightarrow> (u32, 'a kperl_scheme) kresult" where
  "opendir nm s =
     nosys (''opendir(%s)'' @ newline) [str_arg (mem s) nm] 0 s"

definition readdir :: "u32 \<Rightarrow> 'a kperl_scheme \<Rightarrow> (u32, 'a kperl_scheme) kresult" where
  "readdir d s =
     nosys (''readdir(%p)'' @ newline) [Some (VInt d)] 0 s"

definition closedir :: "u32 \<Rightarrow> 'a kperl_scheme \<Rightarrow> (u32, 'a kperl_scheme) kresult" where
  "closedir d s =
     nosys (''closedir(%p)'' @ newline) [Some (VInt d)] (- 1) s"

definition fdopen :: "u32 \<Rightarrow> u32 \<Rightarrow> 'a kperl_scheme \<Rightarrow> (u32, 'a kperl_scheme) kresult" where
  "fdopen fd md s =
     nosys (''fdopen(%d, %s)'' @ newline) [Some (VInt fd), str_arg (mem s) md] 0 s"

definition freopen :: "u32 \<Rightarrow> u32 \<Rightarrow> u32 \<Rightarrow> 'a kperl_scheme \<Rightarrow> (u32, 'a kperl_scheme) kresult" where
  "freopen path md fp s =
     nosys (''freopen(%s, %s, %p)'' @ newline) [str_arg (mem s) path, str_arg (mem s) md, Some (VInt fp)] 0 s"

definition fread :: "u32 \<Rightarrow> u32 \<Rightarrow> u32 \<Rightarrow> u32 \<Rightarrow> 'a kperl_scheme \<Rightarrow> (u32, 'a kperl_scheme) kresult" where
  "fread p sz nmemb fp s =
     nosys (''fread(%p, %d, %d, %p)'' @ newline) [Some (VInt p), Some (VInt sz), Some (VInt nmemb), Some (VInt fp)] 0 s"

definition fflush :: "u32 \<Rightarrow> 'a kperl_scheme \<Rightarrow> (u32, 'a kperl_scheme) kresult" where
  "fflush fp s =
     nosys (''fflush(%p)'' @ newline) [Some (VInt fp)] eof s"

definition read_wrap :: "u32 \<Rightarrow> u32 \<Rightarrow> u32 \<Rightarrow> 'a kperl_scheme \<Rightarrow> (u32, 'a kperl_scheme) kresult" where
  "read_wrap fd bf n s =
     nosys (''read(%d, %p, %d)'' @ newline) [Some (VInt fd), Some (VInt bf), Some (VInt n)] (- 1) s"

definition write_wrap :: "u32 \<Rightarrow> u32 \<Rightarrow> u32 \<Rightarrow> 'a kperl_scheme \<Rightarrow> (u32, 'a kperl_scheme) kresult" where
  "write_wrap fd bf n s =
     nosys (''write(%d, %p, %d)'' @ newline) [Some (VInt fd), Some (VInt bf), Some (VInt n)] (- 1) s"

definition lseek :: "u32 \<Rightarrow> u32 \<Rightarrow> u32 \<Rightarrow> 'a kperl_scheme \<Rightarrow> (u32, 'a kperl_scheme) kresult" where
  "lseek fd off whence s =
     nosys (''lseek(%d, %ld, %d)'' @ newline) [Some (VInt fd), Some (VInt off), Some (VInt whence)] (- 1) s"

definition pipe :: "u32 \<Rightarrow> 'a kperl_scheme \<Rightarrow> (u32, 'a kperl_scheme) kresult" where
  "pipe fd s =
     nosys (''pipe([%d, %d])'' @ newline) [Some (VInt (load32 (mem s) fd)), Some (VInt (load32 (mem s) (fd + 4)))] (- 1) s"

definition setvbuf :: "u32 \<Rightarrow> u32 \<Rightarrow> u32 \<Rightarrow> u32 \<Rightarrow> 'a kperl_scheme \<Rightarrow> (u32, 'a kperl_scheme) kresult" where
  "setvbuf fp bf md sz s =
     nosys (''setvbuf(%p, %s, %d, %d)'' @ newline) [Some (VInt fp), str_arg (mem s) bf, Some (VInt md), Some (VInt sz)] (- 1) s"

section \<open>Floating point\<close>

definition exp :: "u64 \<Rightarrow> 'a kperl_scheme \<Rightarrow> (u64, 'a kperl_scheme) kresult" where
  "exp x s =
     answer (''exp(%f)'' @ newline) (double x) 0 s"

definition log_wrap :: "u64 \<Rightarrow> 'a kperl_scheme \<Rightarrow> (u64, 'a kperl_scheme) kresult" where
  "log_wrap x s =
     answer (''log(%f)'' @ newline) (double x) 0 s"

definition pow :: "u64 \<Rightarrow> u64 \<Rightarrow> 'a kperl_scheme \<Rightarrow> (u64, 'a kperl_scheme) kresult" where
  "pow x y s =
     answer (''pow(%f, %f)'' @ newline) (double x @ double y) 0 s"

definition floor :: "u64 \<Rightarrow> 'a kperl_scheme \<Rightarrow> (u64, 'a kperl_scheme) kresult" where
  "floor x s =
     answer (''floor(%f)'' @ newline) (double x) 0 s"

definition fmod :: "u64 \<Rightarrow> u64 \<Rightarrow> 'a kperl_scheme \<Rightarrow> (u64, 'a kperl_scheme) kresult" where
  "fmod x y s =
     answer (''fmod(%f, %f)'' @ newline) (double x @ double y) 0 s"

definition atan2 :: "u64 \<Rightarrow> u64 \<Rightarrow> 'a kperl_scheme \<Rightarrow> (u64, 'a kperl_scheme) kresult" where
  "atan2 y x s =
     answer (''atan2(%f, %f)'' @ newline) (double y @ double x) 0 s"

definition sin :: "u64 \<Rightarrow> 'a kperl_scheme \<Rightarrow> (u64, 'a kperl_scheme) kresult" where
  "sin x s =
     answer (''sin(%f)'' @ newline) (double x) 0 s"

definition cos :: "u64 \<Rightarrow> 'a kperl_scheme \<Rightarrow> (u64, 'a kperl_scheme) kresult" where
  "cos x s =
     answer (''cos(%f)'' @ newline) (double x) 0 s"

definition sqrt :: "u64 \<Rightarrow> 'a kperl_scheme \<Rightarrow> (u64, 'a kperl_scheme) kresult" where
  "sqrt x s =
     answer (''sqrt(%f)'' @ newline) (double x) 0 s"

definition ceil :: "u64 \<Rightarrow> 'a kperl_scheme \<Rightarrow> (u64, 'a kperl_scheme) kresult" where
  "ceil x s =
     answer (''ceil(%f)'' @ newline) (double x) 0 s"

definition modf :: "u64 \<Rightarrow> u32 \<Rightarrow> 'a kperl_scheme \<Rightarrow> (u64, 'a kperl_scheme) kresult" where
  "modf x iptr s =
     answer (''modf(%f, %p)'' @ newline) (double x @ [Some (VInt iptr)]) 0 s"

definition frexp :: "u64 \<Rightarrow> u32 \<Rightarrow> 'a kperl_scheme \<Rightarrow> (u64, 'a kperl_scheme) kresult" where
  "frexp x ex s =
     answer (''frexp(%f, %p)'' @ newline) (double x @ [Some (VInt ex)]) 0 s"

section \<open>Sorting and jumps\<close>

definition qsort :: "u32 \<Rightarrow> u32 \<Rightarrow> u32 \<Rightarrow> u32 \<Rightarrow> 'a kperl_scheme \<Rightarrow> (unit, 'a kperl_scheme) kresult" where
  "qsort bs nmemb sz compar s =
     and_then (answer (''qsort(%p, %d, %d, %p)'' @ newline) [Some (VInt bs), Some (VInt nmemb), Some (VInt sz), Some (VInt compar)] () s)
       (\<lambda>s. case kalloc sz s of
              None \<Rightarrow> None
            | Some (Inl h) \<Rightarrow> Some (Inl h)
            | Some (Inr (temp, s)) \<Rightarrow> proceed (kfree temp (say (''BUBBLE!'' @ newline) [] s)))"

definition setjmp :: "u32 \<Rightarrow> 'a kperl_scheme \<Rightarrow> (u32, 'a kperl_scheme) kresult" where
  "setjmp ev s =
     answer (''_setjmp(%p)'' @ newline) [Some (VInt ev)] 0 s"

definition longjmp :: "u32 \<Rightarrow> u32 \<Rightarrow> 'a kperl_scheme \<Rightarrow> (unit, 'a kperl_scheme) kresult" where
  "longjmp ev v s =
     answer (''longjmp(%p, %d)'' @ newline) [Some (VInt ev), Some (VInt v)] () s"

definition sysconf :: "u32 \<Rightarrow> 'a kperl_scheme \<Rightarrow> (u32, 'a kperl_scheme) kresult" where
  "sysconf k s =
     answer (''__sysconf(%d)'' @ newline) [Some (VInt k)] (of_nat HZ) s"

section \<open>Output and input\<close>

definition vfprintf :: "u32 \<Rightarrow> u32 \<Rightarrow> 'a kperl_scheme \<Rightarrow> (u32, 'a kperl_scheme) kresult" where
  "vfprintf fp fm s =
     nosys (''vfprintf(%p, %s, ...)'' @ newline) [Some (VInt fp), str_arg (mem s) fm] (- 1) s"

definition ungetc :: "u32 \<Rightarrow> u32 \<Rightarrow> 'a kperl_scheme \<Rightarrow> (u32, 'a kperl_scheme) kresult" where
  "ungetc c fp s =
     nosys (''ungetc(%c, %p)'' @ newline) [Some (VInt c), Some (VInt fp)] eof s"

definition fwrite :: "u32 \<Rightarrow> u32 \<Rightarrow> u32 \<Rightarrow> u32 \<Rightarrow> 'a kperl_scheme \<Rightarrow> (u32, 'a kperl_scheme) kresult" where
  "fwrite p sz nmemb fp s =
     and_then (answer (''fwrite(%p, %d, %d, %p)'' @ newline) [Some (VInt p), Some (VInt sz), Some (VInt nmemb), Some (VInt fp)] () s)
       (\<lambda>s. nosys (''  %d bytes: %s'' @ newline) [Some (VInt (sz * nmemb)), str_arg (mem s) p] eof s)"

definition fputc :: "u32 \<Rightarrow> u32 \<Rightarrow> 'a kperl_scheme \<Rightarrow> (u32, 'a kperl_scheme) kresult" where
  "fputc c fp s =
     nosys (''fputc(%c, %p)'' @ newline) [Some (VInt c), Some (VInt fp)] eof s"

definition fputs :: "u32 \<Rightarrow> u32 \<Rightarrow> 'a kperl_scheme \<Rightarrow> (u32, 'a kperl_scheme) kresult" where
  "fputs str fp s =
     nosys (''fputs(%s, %p)'' @ newline) [str_arg (mem s) str, Some (VInt fp)] eof s"

definition fprintf :: "u32 \<Rightarrow> u32 \<Rightarrow> 'a kperl_scheme \<Rightarrow> (u32, 'a kperl_scheme) kresult" where
  "fprintf fp fm s =
     nosys (''vfprintf(%p, %s, ...)'' @ newline) [Some (VInt fp), str_arg (mem s) fm] (- 1) s"

definition fgetc :: "u32 \<Rightarrow> 'a kperl_scheme \<Rightarrow> (u32, 'a kperl_scheme) kresult" where
  "fgetc fp s =
     nosys (''fgetc(%p)'' @ newline) [Some (VInt fp)] (- 1) s"

section \<open>What the stubs do\<close>

text \<open>
  Property C39.  fopen never opens a file.  The comparison with /dev/null that should let one path through
  does not return when the path begins with a slash, so for such a path the call hangs; every other call
  fails with the null pointer and ENOSYS, and changes nothing but errno and the log.
\<close>

theorem fopen_never_opens:
  assumes "mem s (dev_null_name s) = 47" and "str_arg (mem s) path = Some a" and "str_arg (mem s) md = Some b"
  shows "fopen path md s = (if mem s path = 47 then None
    else Some (Inr (0, (say (''++ wrap: fopen(%s, %s)'' @ newline) [a, b] s)\<lparr>errno := ENOSYS\<rparr>)))"
proof -
  have d: "debugf (''fopen(%s, %s)'' @ newline) [str_arg (mem s) path, str_arg (mem s) md] s
      = Some (say (''++ wrap: fopen(%s, %s)'' @ newline) [a, b] s)"
    using assms(2,3) by (simp add: debugf_def)
  have say: "mem (say f vs s) = mem s" "dev_null_name (say f vs s) = dev_null_name s" for f vs by (simp_all add: say_def)
  have "sgn (sint (mem s path) - sint (47 :: u8)) = 0 \<longleftrightarrow> mem s path = 47"
    using signed_word_eqI [of "mem s path" "47 :: u8"] by (auto simp: sgn_0_0)
  then show ?thesis
    unfolding fopen_def d option.case by (simp add: say strcmp_at assms(1) del: append.simps)
qed

text \<open>
  What modf and frexp print for their pointer is not the pointer: vsprintf skips the unknown conversion
  \<open>%f\<close> without taking the two words of the \<open>double\<close>, so \<open>%p\<close> shows the low one of them, here that of 1.5.
\<close>

lemma modf_prints_low_word:
  "map_option fst (sprintf ''modf(%f, %p)'' (map the (double 0x3ff8000000000000 @ [Some (VInt 0x1234)])))
    = Some (''modf(%f, 00000000)'' @ [nul])"
  by code_simp

text \<open>
  Property C40.  qsort sorts nothing: for elements of 4 to 4095 bytes it stops for lack of memory, or returns
  with every byte outside the free memory as it was, the array included, whatever the comparison function;
  the block it takes is free again when it returns.
\<close>

theorem qsort_sorts_nothing:
  assumes ok: "heap_ok lo ps bs s" and n: "4 \<le> unat sz" "unat sz < 4096" and lock: "unat (klock s) < 2 ^ 32 - 2"
  shows "if abs_kalloc (unat sz + 4) ps bs = None then \<exists>h. qsort base nmemb sz compar s = Some (Inl h)
    else \<exists>t ps' bs'. qsort base nmemb sz compar s = Some (Inr ((), t)) \<and> heap_ok lo ps' bs' t
      \<and> ext_bytes 4096 ps' \<union> ext_bytes 1 bs' = ext_bytes 4096 ps \<union> ext_bytes 1 bs
      \<and> (\<forall>x. x \<notin> heap_bytes ps bs s \<longrightarrow> mem t x = mem s x)"
proof -
  define s0 where "s0 = say (''++ wrap: qsort(%p, %d, %d, %p)'' @ newline) [VInt base, VInt nmemb, VInt sz, VInt compar] s"
  have s0: "mem s0 = mem s" "ph s0 = ph s" "bh s0 = bh s" "klock s0 = klock s" "heap_bytes ps bs s0 = heap_bytes ps bs s"
    by (simp_all add: s0_def say_def heap_bytes_def)
  have q: "qsort base nmemb sz compar s = (case kalloc sz s0 of None \<Rightarrow> None | Some (Inl h) \<Rightarrow> Some (Inl h)
      | Some (Inr (temp, s)) \<Rightarrow> proceed (kfree temp (say (''BUBBLE!'' @ newline) [] s)))"
    by (simp add: qsort_def answer_def and_then_def debugf_def s0_def)
  have ok0: "heap_ok lo ps bs s0" by (rule heap_ok_agree [OF ok s0(2,3)]) (simp add: s0)
  have n': "unat sz + 4 \<le> 65535 * 4096" and l0: "unat (klock s0) < 2 ^ 32 - 2" using n lock s0 by simp_all
  show ?thesis
  proof (cases "abs_kalloc (unat sz + 4) ps bs")
    case None
    then show ?thesis using kalloc_spec [OF ok0 n' l0] by (auto simp: q)
  next
    case (Some e)
    obtain a ps1 bs1 where e: "e = (a, ps1, bs1)" by (cases e)
    then obtain s1 where k: "kalloc sz s0 = Some (Inr (node 1 (a + 4), s1))"
      and fr: "\<forall>x. x \<notin> heap_bytes ps bs s0 \<longrightarrow> mem s1 x = mem s0 x"
      using kalloc_spec [OF ok0 n' l0] Some by auto
    let ?t = "say (''BUBBLE!'' @ newline) [] s1"
    obtain s2 ps' bs' where s2: "kfree (node 1 (a + 4)) ?t = Some s2" "heap_ok lo ps' bs' s2"
      "ext_bytes 4096 ps' \<union> ext_bytes 1 bs' = ext_bytes 4096 ps \<union> ext_bytes 1 bs" "heap_step (heap_bytes ps bs s0) ?t s2"
      using kalloc_kfree [OF ok0 n l0 k, of ?t] by auto
    have "mem s2 x = mem s x" if "x \<notin> heap_bytes ps bs s" for x
      using heap_step_mem [OF s2(4)] fr that s0 by simp
    then show ?thesis using s2(1-3) Some by (auto simp: q k)
  qed
qed

definition idle_perl :: kperl where
  "idle_perl = kboot.extend half_way (kperl.fields 0 0x8f000)"

lemma idle_perl_sel:
  "mem idle_perl = mem half_way" "ph idle_perl = ph half_way" "bh idle_perl = bh half_way" "klock idle_perl = klock half_way"
  "dev_null_name idle_perl = 0x8f000"
  by (simp_all add: idle_perl_def kboot.defs kperl.defs)

theorem qsort_sorts_nothing_witness:
  "\<exists>t. qsort 0x8e000 16 16 0x7000 idle_perl = Some (Inr ((), t)) \<and> mem t 0x8e005 = 80"
proof -
  have ok: "heap_ok 258 [(258, 4)] [] idle_perl"
    by (rule heap_ok_agree [OF half_way_heap]) (simp_all add: idle_perl_sel)
  have n: "4 \<le> unat (16 :: u32)" "unat (16 :: u32) < 4096" "unat (klock idle_perl) < 2 ^ 32 - 2"
    by (simp_all add: idle_perl_sel half_way_sel)
  have a: "abs_kalloc (unat (16 :: u32) + 4) [(258, 4)] [] \<noteq> None"
    by (simp add: abs_kalloc_def abs_search.simps pages_for_def ext_insert_def attach_def)
  have "(0x8e005 :: u32) \<notin> heap_bytes [(258, 4)] [] half_way"
  proof
    assume "(0x8e005 :: u32) \<in> heap_bytes [(258, 4)] [] half_way"
    from heap_bytes_low [OF half_way_heap this] show False
      using span_above [of "0x101000" 8 "0x8e005"] span_above [of "0x101010" 8 "0x8e005"] by (auto simp: half_way_sel)
  qed
  then have x: "(0x8e005 :: u32) \<notin> heap_bytes [(258, 4)] [] idle_perl"
    by (simp add: heap_bytes_def idle_perl_sel)
  have m: "mem idle_perl 0x8e005 = 80" by (simp add: idle_perl_sel half_way_sel powered_sel)
  from qsort_sorts_nothing [OF ok n, of "0x8e000" 16 "0x7000"] a x m show ?thesis by auto
qed

theorem fopen_never_opens_witness:
  "\<exists>(s :: kperl) t. fopen 0x9000 0 s = Some (Inr (0, t)) \<and> errno t = 38"
proof -
  let ?s = "idle_perl\<lparr>mem := (\<lambda>_. 0)(0x8f000 := 47, 0x9000 := 65)\<rparr>"
  have "char_of (65 :: nat) = CHR ''A''" by code_simp
  then have "string_at (mem ?s) 0x9000 = Some ''A''"
    by (subst string_at.simps, subst string_at.simps) simp
  then have a: "str_arg (mem ?s) 0x9000 = Some (VStr (Some ''A''))" "str_arg (mem ?s) 0 = Some (VStr None)"
    by (simp_all add: str_arg_def)
  have "mem ?s (dev_null_name ?s) = 47" by (simp add: idle_perl_sel)
  from fopen_never_opens [OF this a] have "\<exists>t. fopen 0x9000 0 ?s = Some (Inr (0, t)) \<and> errno t = 38"
    by (simp add: ENOSYS_def)
  then show ?thesis ..
qed

end
