(* ===== verification/Perl.thy ===== *)
theory Perl
  imports Stubs
begin

text \<open>
  kernel/perl.c: the process that runs the interpreter.  The interpreter itself is not part of the
  repository: its entry points are the fields of \<open>perl_lib\<close>, a parameter of the definitions, and each may
  return, halt the kernel or never return.  The endless loop at the end of perl_main is left out: the
  value is the state in which it is entered.
\<close>

record kinterp = kperl +
  my_perl :: u32
  PL_perl_destruct_level :: u32
  PL_exit_flags :: u32

record 's perl_lib =
  PERL_SYS_INIT3 :: "u32 \<times> u32 \<times> u32 \<Rightarrow> 's \<Rightarrow> (u32 \<times> u32 \<times> u32, 's) kresult"
  perl_alloc :: "'s \<Rightarrow> (u32, 's) kresult"
  perl_construct :: "u32 \<Rightarrow> 's \<Rightarrow> (unit, 's) kresult"
  perl_parse :: "u32 \<Rightarrow> u32 \<Rightarrow> u32 \<Rightarrow> u32 \<Rightarrow> 's \<Rightarrow> (u32, 's) kresult"
  perl_run :: "u32 \<Rightarrow> 's \<Rightarrow> (u32, 's) kresult"
  perl_destruct :: "u32 \<Rightarrow> 's \<Rightarrow> (u32, 's) kresult"
  perl_free :: "u32 \<Rightarrow> 's \<Rightarrow> (unit, 's) kresult"
  PERL_SYS_TERM :: "'s \<Rightarrow> (unit, 's) kresult"
  PERL_EXIT_DESTRUCT_END :: u32

definition with_value :: "('v, 's) kresult \<Rightarrow> ('v \<Rightarrow> 's \<Rightarrow> ('w, 's) kresult) \<Rightarrow> ('w, 's) kresult" where
  "with_value r f = (case r of None \<Rightarrow> None | Some (Inl h) \<Rightarrow> Some (Inl h) | Some (Inr (v, s)) \<Rightarrow> f v s)"

text \<open>do_perl up to the end of the program, and the destruction of the interpreter.\<close>

definition run_program :: "'a kinterp_scheme perl_lib \<Rightarrow> u32 \<times> u32 \<times> u32 \<Rightarrow> 'a kinterp_scheme \<Rightarrow> (unit, 'a kinterp_scheme) kresult" where
  "run_program L = (\<lambda>(argc, argv, env) s.
     with_value (perl_parse L (my_perl s) argc argv env s) (\<lambda>exitstatus s.
       if exitstatus = 0 then with_value (perl_run L (my_perl s) s) (\<lambda>_ s. Some (Inr ((), s))) else Some (Inr ((), s))))"

definition end_program :: "'a kinterp_scheme perl_lib \<Rightarrow> 'a kinterp_scheme \<Rightarrow> (u32, 'a kinterp_scheme) kresult" where
  "end_program L s =
     with_value (perl_destruct L (my_perl s) s) (\<lambda>exitstatus s.
     with_value (perl_free L (my_perl s) s) (\<lambda>_ s.
     with_value (PERL_SYS_TERM L s) (\<lambda>_ s.
       Some (Inr (exitstatus, s\<lparr>debug_phase := 4\<rparr>)))))"

definition do_perl :: "'a kinterp_scheme perl_lib \<Rightarrow> u32 \<Rightarrow> u32 \<Rightarrow> u32 \<Rightarrow> 'a kinterp_scheme \<Rightarrow> (u32, 'a kinterp_scheme) kresult" where
  "do_perl L argc argv env s =
     (let s = say (''do_perl(%d, %p, %p)'' @ newline) [VInt argc, VInt argv, VInt env] s;
          s = s\<lparr>debug_phase := 1\<rparr>
      in with_value (PERL_SYS_INIT3 L (argc, argv, env) s) (\<lambda>args s.
         with_value (perl_alloc L s) (\<lambda>p s.
           let s = s\<lparr>my_perl := p\<rparr>
           in with_value (perl_construct L (my_perl s) s) (\<lambda>_ s.
                let s = s\<lparr>PL_perl_destruct_level := 0\<rparr>;
                    s = s\<lparr>PL_exit_flags := PL_exit_flags s OR PERL_EXIT_DESTRUCT_END L\<rparr>;
                    s = s\<lparr>debug_phase := 2\<rparr>
                in with_value (run_program L args s) (\<lambda>_ s. end_program L (s\<lparr>debug_phase := 3\<rparr>))))))"

text \<open>\<open>argv\<close> and \<open>env\<close> are the addresses of the two arrays on the stack of perl_main.\<close>

definition perl_main :: "'a kinterp_scheme perl_lib \<Rightarrow> u32 \<Rightarrow> u32 \<Rightarrow> 'a kinterp_scheme \<Rightarrow> (unit, 'a kinterp_scheme) kresult" where
  "perl_main L argv env s =
     (let argc = 3;
          s = say (newline @ newline) [] s;
          s = say (''-- Starting Perl'' @ newline) [] s
      in with_value (do_perl L argc argv env s) (\<lambda>exitstatus s.
           let s = say (''-- Exited with %d'' @ newline) [VInt exitstatus] s
           in Some (Inr ((), say (''-- Perl finished'' @ newline) [] s))))"

text \<open>
  The program runs only when it parses, and whatever perl_parse and perl_run return, the status that
  perl_main prints is the one of perl_destruct.
\<close>

lemma parse_error_skips_program:
  assumes "perl_parse L (my_perl s) argc argv env s = Some (Inr (r, t))" and "r \<noteq> 0"
  shows "run_program L (argc, argv, env) s = Some (Inr ((), t))"
  using assms by (simp add: run_program_def with_value_def)

lemma with_valueE:
  assumes "with_value r f = Some (Inr (w, t))"
  obtains v s where "r = Some (Inr (v, s))" "f v s = Some (Inr (w, t))"
  using assms by (auto simp: with_value_def split: option.splits sum.splits)

lemma end_program_status:
  assumes "end_program L s = Some (Inr (r, t))"
  shows "debug_phase t = 4 \<and> (\<exists>v. perl_destruct L (my_perl s) s = Some (Inr (r, v)))"
  using assms unfolding end_program_def by (elim with_valueE) auto

lemma status_of_destruct:
  assumes "do_perl L argc argv env s = Some (Inr (r, t))"
  shows "debug_phase t = 4 \<and> (\<exists>p u v. perl_destruct L p u = Some (Inr (r, v)))"
proof -
  obtain u where "end_program L u = Some (Inr (r, t))"
    using assms unfolding do_perl_def Let_def by (elim with_valueE) (rule that)
  from end_program_status [OF this] show ?thesis by blast
qed

end
