(* ===== verification/Bootmap.thy ===== *)
theory Bootmap
  imports Machine
begin

text \<open>
  tools/build.c: the program that puts the boot image together.  It checks the headers of the two loaders,
  writes the disk address of the second into the first, that of the map into the second and those of the
  kernel into the map, and writes all four one after the other.  The files are lists of bytes; what goes
  to stderr is left out.  \<open>None\<close> is a store outside a buffer, \<open>Inl\<close> the message of a refusal, with no image
  written.
\<close>

section \<open>Disk addresses\<close>

record sect_addr =
  sector :: u8
  track :: u8
  device :: u8
  head :: u8
  num_sect :: u8

definition CHUNKS :: u32 where "CHUNKS = 36"
definition SPT :: u32 where "SPT = 18"
definition HEADS :: u32 where "HEADS = 2"

definition inc_sector :: "sect_addr \<Rightarrow> u8 \<Rightarrow> sect_addr" where
  "inc_sector a count =
     (let a = a\<lparr>sector := sector a + count\<rparr>
      in if ucast (sector a) > SPT
         then
           let a = a\<lparr>sector := sector a - 1\<rparr>;
               a = a\<lparr>head := ucast (ucast (head a) + ucast (sector a) div SPT)\<rparr>;
               a = a\<lparr>sector := ucast (ucast (sector a) mod SPT)\<rparr>;
               a = a\<lparr>track := ucast (ucast (track a) + ucast (head a) div HEADS)\<rparr>;
               a = a\<lparr>head := ucast (ucast (head a) mod HEADS)\<rparr>
           in a\<lparr>sector := sector a + 1\<rparr>
         else a)"

text \<open>An address in memory: its five bytes in the order of the structure.\<close>

definition addr_bytes :: "sect_addr \<Rightarrow> u8 list" where
  "addr_bytes a = [sector a, track a, device a, head a, num_sect a]"

section \<open>Buffers\<close>

definition put :: "nat \<Rightarrow> u8 list \<Rightarrow> u8 list \<Rightarrow> u8 list option" where
  "put k w b = (if k + length w \<le> length b then Some (take k b @ w @ drop (k + length w) b) else None)"

definition word_at :: "u8 list \<Rightarrow> nat \<Rightarrow> u16" where
  "word_at b k = ucast (b ! k) OR push_bit 8 (ucast (b ! (k + 1)))"

text \<open>The test of a header: signature, id, check and version.  \<open>secaddr\<close> and \<open>mapaddr\<close> come at byte 16.\<close>

definition header_bad :: "u16 \<Rightarrow> u8 list \<Rightarrow> bool" where
  "header_bad n b \<longleftrightarrow> take 4 (drop 4 b) \<noteq> [66, 79, 79, 84] \<or> word_at b 8 \<noteq> n \<or> word_at b 10 \<noteq> 0x1234 \<or> word_at b 12 \<noteq> 1"

definition flag_at :: nat where "flag_at = 14"
definition secaddr_at :: nat where "secaddr_at = 16"

text \<open>The size of a buffer for a file of \<open>n\<close> bytes; the quotient goes through an \<open>int\<close>.\<close>

definition whole_sectors :: "nat \<Rightarrow> u32" where
  "whole_sectors n = (of_nat (n div 512) + 1) * 512"

section \<open>The program\<close>

partial_function (option) patch_bsect :: "u32 \<Rightarrow> nat \<Rightarrow> u32 \<Rightarrow> sect_addr \<Rightarrow> u8 list \<Rightarrow> (sect_addr \<times> u8 list) option" where
  "patch_bsect i j n a b =
     (if i < n
      then
        let e = a\<lparr>num_sect := ucast (min (n - i) CHUNKS)\<rparr>
        in case put (secaddr_at + 5 * j) (addr_bytes e) b of
             None \<Rightarrow> None
           | Some b \<Rightarrow> patch_bsect (i + CHUNKS) (j + 1) n (inc_sector a (num_sect e)) b
      else Some (a, b))"

definition chunk_size :: "sect_addr \<Rightarrow> u32" where
  "chunk_size a =
     (let chunks = CHUNKS; remaining = HEADS * SPT - (SPT * ucast (head a) + ucast (sector a)) + 1
      in if sint remaining < sint chunks then remaining else chunks)"

partial_function (option) patch_map :: "u32 \<Rightarrow> nat \<Rightarrow> u32 \<Rightarrow> sect_addr \<Rightarrow> u8 list \<Rightarrow> u8 list option" where
  "patch_map i j n a b =
     (if i < n
      then
        let chunks = chunk_size a;
            e = a\<lparr>num_sect := ucast (min (n - i) chunks)\<rparr>
        in case put (5 * j) (addr_bytes e) b of
             None \<Rightarrow> None
           | Some b \<Rightarrow> patch_map (i + chunks) (j + 1) n (inc_sector a (num_sect e)) b
      else Some b)"

definition mapsize :: u32 where "mapsize = 1024"

definition buffer :: "u32 \<Rightarrow> u8 list" where
  "buffer n = replicate (unat n) 0"

text \<open>The second half of main: the addresses are filled in and the image is written.\<close>

definition patch_image :: "u8 list \<Rightarrow> u8 list \<Rightarrow> u8 list \<Rightarrow> u8 list option" where
  "patch_image bsect second kern =
     (let nextsector = \<lparr>sector = 2, track = 0, device = 0x00, head = 0, num_sect = 0\<rparr>
      in case patch_bsect 0 0 (of_nat (length second) div 512) nextsector bsect of
           None \<Rightarrow> None
         | Some (nextsector, bsect) \<Rightarrow>
     (let e = nextsector\<lparr>num_sect := ucast (mapsize div 512)\<rparr>
      in case put secaddr_at (addr_bytes e) second of
           None \<Rightarrow> None
         | Some second \<Rightarrow>
     (case patch_map 0 0 (of_nat (length kern) div 512) (inc_sector nextsector (num_sect e)) (buffer mapsize) of
        None \<Rightarrow> None
      | Some m \<Rightarrow> Some (bsect @ second @ m @ kern))))"

definition build :: "u8 list \<Rightarrow> u8 list \<Rightarrow> u8 list \<Rightarrow> (string + u8 list) option" where
  "build bsect_file second_file kernel_file =
     (case put 0 (take 512 bsect_file) (buffer 512) of
        None \<Rightarrow> None
      | Some bsect \<Rightarrow>
     if header_bad 1 bsect then Some (Inl ''Invalid bootsect image'')
     else
       let bsect = bsect[flag_at := bsect ! flag_at AND NOT 0x01]
       in if length second_file > 1024 * 8 then Some (Inl ''second image too big'')
          else
            case put 0 second_file (buffer (whole_sectors (length second_file))) of
              None \<Rightarrow> None
            | Some second \<Rightarrow>
     if header_bad 2 second then Some (Inl ''Invalid second image'')
     else
       case put 0 kernel_file (buffer (whole_sectors (length kernel_file))) of
         None \<Rightarrow> None
       | Some kern \<Rightarrow> map_option Inr (patch_image bsect second kern))"

section \<open>Sectors by number\<close>

text \<open>The number of a sector, counted over the heads of a track and then the tracks.\<close>

definition lba :: "sect_addr \<Rightarrow> nat" where
  "lba a = 36 * unat (track a) + 18 * unat (head a) + unat (sector a) - 1"

definition chs_ok :: "sect_addr \<Rightarrow> bool" where
  "chs_ok a \<longleftrightarrow> 1 \<le> unat (sector a) \<and> unat (sector a) \<le> 18 \<and> unat (head a) < 2"

lemma unat_up: "unat (ucast (x :: u8) :: u32) = unat x"
  by (simp add: unat_ucast_up)

lemma unat_down: "unat (x :: u32) < 256 \<Longrightarrow> unat (ucast x :: u8) = unat x"
  by (simp add: unsigned_ucast_eq unsigned_take_bit_eq take_bit_nat_eq_self)

lemma lba_mod:
  assumes "chs_ok a"
  shows "lba a mod 36 = 18 * unat (head a) + unat (sector a) - 1" "lba a div 36 = unat (track a)"
proof -
  define r where "r = 18 * unat (head a) + unat (sector a) - 1"
  have "lba a = 36 * unat (track a) + r" "r < 36" using assms by (auto simp: chs_ok_def lba_def r_def)
  then show "lba a mod 36 = 18 * unat (head a) + unat (sector a) - 1" "lba a div 36 = unat (track a)"
    by (simp_all add: r_def)
qed

lemma carry_over:
  fixes A B E F l t h d s c :: nat
  assumes "l = 36 * (t + E) + 18 * F + B" "h = d + A" "18 * A + B = s + c - 1" "2 * E + F = h" "1 \<le> s"
  shows "l = 36 * t + 18 * d + s - 1 + c"
  using assms by simp

lemma inc_sector_lba:
  assumes ok: "chs_ok a" and c: "unat c \<le> 36" and room: "lba a + unat c < 9000"
  shows "lba (inc_sector a c) = lba a + unat c" "chs_ok (inc_sector a c)" "device (inc_sector a c) = device a"
proof -
  note ok' = ok [unfolded chs_ok_def]
  define t where "t = unat (sector a) + unat c"
  have s: "unat (sector a + c) = t" unfolding t_def using ok' c by (simp add: unat_add_nowrap)
  have t: "t \<le> 54" using ok' c by (simp add: t_def)
  then have td: "(t - 1) div 18 \<le> 3" by simp
  have tr: "unat (track a) < 250" using room ok' unfolding lba_def by linarith
  have bound: "unat x < 256" for x :: u8 using unat_bounds(1) [of x] by simp
  have lb: "lba a = 36 * unat (track a) + 18 * unat (head a) + unat (sector a) - 1" by (fact lba_def)
  have gt: "(ucast (sector a + c) :: u32) > SPT \<longleftrightarrow> 18 < t" by (simp add: word_less_nat_alt unat_up s SPT_def)
  show "lba (inc_sector a c) = lba a + unat c" "chs_ok (inc_sector a c)" "device (inc_sector a c) = device a"
  proof (atomize (full), cases "18 < t")
    case False
    then have "inc_sector a c = a\<lparr>sector := sector a + c\<rparr>" using gt by (simp add: inc_sector_def)
    then show "lba (inc_sector a c) = lba a + unat c \<and> chs_ok (inc_sector a c) \<and> device (inc_sector a c) = device a"
      using False ok' by (simp add: lba_def chs_ok_def s t_def)
  next
    case True
    define x where "x = sector a + c - 1"
    define h where "h = (ucast (ucast (head a) + ucast x div SPT :: u32) :: u8)"
    define q where "q = (ucast (ucast x mod SPT :: u32) :: u8)"
    define k where "k = (ucast (ucast (track a) + ucast h div HEADS :: u32) :: u8)"
    have x: "unat x = t - 1" unfolding x_def using True s by (simp add: unat_sub_nowrap)
    have "unat (ucast (head a) + ucast x div SPT :: u32) = unat (head a) + (t - 1) div 18"
      using ok' td by (subst unat_add_nowrap) (simp_all add: unat_up unat_div SPT_def x)
    then have h: "unat h = unat (head a) + (t - 1) div 18"
      unfolding h_def using ok' td by (subst unat_down) simp_all
    have q: "unat q = (t - 1) mod 18" unfolding q_def by (subst unat_down) (simp_all add: unat_mod unat_up SPT_def x)
    have h4: "unat h < 5" using h ok' td by simp
    have "unat (ucast (track a) + ucast h div HEADS :: u32) = unat (track a) + unat h div 2"
      using tr h4 by (subst unat_add_nowrap) (simp_all add: unat_up unat_div HEADS_def)
    then have k: "unat k = unat (track a) + unat h div 2"
      unfolding k_def using tr h4 by (subst unat_down) simp_all
    have hm: "unat (ucast (ucast h mod HEADS :: u32) :: u8) = unat h mod 2"
      by (subst unat_down) (simp_all add: unat_mod unat_up HEADS_def)
    have q1: "unat (q + 1) = (t - 1) mod 18 + 1" using q by (subst unat_add_nowrap) simp_all
    have "inc_sector a c = a\<lparr>sector := q + 1, head := ucast (ucast h mod HEADS :: u32), track := k\<rparr>"
      using True gt by (simp add: inc_sector_def Let_def x_def h_def q_def k_def)
    moreover obtain A B where AB: "(t - 1) div 18 = A" "(t - 1) mod 18 = B" "18 * A + B = t - 1" "B \<le> 17"
    proof (rule that [OF refl refl])
      show "(t - 1) mod 18 \<le> 17" using mod_less_divisor [of 18 "t - 1"] by simp
    qed simp
    moreover obtain E F where EF: "unat h div 2 = E" "unat h mod 2 = F" "2 * E + F = unat h" "F < 2"
      by (rule that [OF refl refl]) simp_all
    ultimately have I: "lba (inc_sector a c) = 36 * (unat (track a) + E) + 18 * F + B" "chs_ok (inc_sector a c)"
      "device (inc_sector a c) = device a"
      using q1 hm k unfolding AB EF by (simp_all add: lba_def chs_ok_def)
    have "unat h = unat (head a) + A" using h AB(1) by simp
    then have "lba (inc_sector a c) = lba a + unat c"
      unfolding lb using carry_over [OF I(1) _ AB(3) [unfolded t_def] EF(3)] ok' by blast
    then show "lba (inc_sector a c) = lba a + unat c \<and> chs_ok (inc_sector a c) \<and> device (inc_sector a c) = device a"
      using I(2,3) by simp
  qed
qed

text \<open>The sectors of an entry, and a good entry: no run of sectors crosses the end of a track of both heads.\<close>

definition extent :: "sect_addr \<Rightarrow> nat list" where
  "extent e = [lba e..<lba e + unat (num_sect e)]"

definition entry_ok :: "sect_addr \<Rightarrow> bool" where
  "entry_ok e \<longleftrightarrow> chs_ok e \<and> device e = 0 \<and> 0 < num_sect e \<and> lba e mod 36 + unat (num_sect e) \<le> 36"

lemma chunk_size_value: "chs_ok a \<Longrightarrow> unat (chunk_size a) = 36 - lba a mod 36"
proof -
  assume ok: "chs_ok a"
  define w where "w = (SPT * ucast (head a) + ucast (sector a) :: u32)"
  have w: "unat w = 18 * unat (head a) + unat (sector a)"
    using ok by (simp add: w_def chs_ok_def SPT_def unat_word_ariths unat_up)
  then have b: "1 \<le> unat w" "unat w \<le> 36" using ok by (auto simp: chs_ok_def)
  have "unat (HEADS * SPT - w) = 36 - unat w" using b by (simp add: HEADS_def SPT_def unat_sub_nowrap)
  then have r: "unat (HEADS * SPT - w + 1) = 37 - unat w" using b by (subst unat_add_nowrap) simp_all
  define x where "x = HEADS * SPT - w + 1"
  have x: "unat x = 37 - unat w" using r by (simp add: x_def)
  have "sint x = int (unat x)" using x b by (intro sint_small) simp
  then have "sint x < 36 \<longleftrightarrow> unat w \<noteq> 1" using x b by linarith
  moreover have "chunk_size a = (if sint x < 36 then x else 36)"
    by (simp add: chunk_size_def Let_def w_def [symmetric] x_def CHUNKS_def)
  ultimately have "unat (chunk_size a) = 37 - unat w" using x by simp
  then show ?thesis using w lba_mod(1) [OF ok] b by linarith
qed

lemma put_at: "length w + k \<le> length b \<Longrightarrow> put k w b = Some (take k b @ w @ drop (k + length w) b)"
  by (simp add: put_def)

text \<open>How many entries a run of \<open>k\<close> sectors from sector \<open>p\<close> on takes.\<close>

definition entries :: "nat \<Rightarrow> nat \<Rightarrow> nat" where
  "entries p k = (if k = 0 then 0 else (p + k - 1) div 36 - p div 36 + 1)"

lemma entries_last: "0 < k \<Longrightarrow> k \<le> 36 - p mod 36 \<Longrightarrow> entries p k = 1"
proof -
  assume "0 < k" "k \<le> 36 - p mod 36"
  then have "p mod 36 + (k - 1) < 36" by simp
  then have "(36 * (p div 36) + (p mod 36 + (k - 1))) div 36 = p div 36" by (simp only: div_mult_self4)
  moreover have "36 * (p div 36) + (p mod 36 + (k - 1)) = p + k - 1" using \<open>0 < k\<close> by simp
  ultimately show ?thesis using \<open>0 < k\<close> by (simp add: entries_def)
qed

lemma entries_next: "36 - p mod 36 < k \<Longrightarrow> entries p k = Suc (entries (p + (36 - p mod 36)) (k - (36 - p mod 36)))"
proof -
  assume k: "36 - p mod 36 < k"
  have next_end: "p' + (36 - r) = 36 * (d + 1)" if "p' = 36 * d + r" "r < 36" for p' d r :: nat using that by simp
  have "p + (36 - p mod 36) = 36 * (p div 36 + 1)" by (rule next_end) simp_all
  moreover have "p + (36 - p mod 36) + (k - (36 - p mod 36)) = p + k" using k by simp
  moreover have "(p + (36 - p mod 36)) div 36 \<le> (p + k - 1) div 36" using k by (intro div_le_mono) simp
  ultimately have "(p + k - 1) div 36 - p div 36 = Suc ((p + k - 1) div 36 - (p + (36 - p mod 36)) div 36)"
    "entries (p + (36 - p mod 36)) (k - (36 - p mod 36)) = (p + k - 1) div 36 - (p + (36 - p mod 36)) div 36 + 1"
    using k by (simp_all add: entries_def Suc_diff_Suc Suc_le_eq)
  then show ?thesis using k by (simp add: entries_def)
qed

lemma entry_num:
  assumes "chs_ok a" "unat i < unat n"
  shows "unat (ucast (min (n - i) (chunk_size a)) :: u8) = min (unat n - unat i) (36 - lba a mod 36)"
proof -
  have "unat (n - i) = unat n - unat i" using assms(2) by (simp add: unat_sub_nowrap)
  then have m: "unat (min (n - i) (chunk_size a)) = min (unat n - unat i) (36 - lba a mod 36)"
    using chunk_size_value [OF assms(1)] by (simp add: min_def word_le_nat_alt)
  show ?thesis by (subst unat_down) (simp_all add: m)
qed

lemma lba_num: "lba (a\<lparr>num_sect := x\<rparr>) = lba a" "chs_ok (a\<lparr>num_sect := x\<rparr>) = chs_ok a"
  by (simp_all add: lba_def chs_ok_def)

text \<open>The loop over the kernel: it stores the entries one after the other, and they cover the run of sectors.\<close>

definition map_entries :: "sect_addr \<Rightarrow> nat \<Rightarrow> sect_addr list \<Rightarrow> bool" where
  "map_entries a k es \<longleftrightarrow> length es = entries (lba a) k \<and> concat (map extent es) = [lba a..<lba a + k] \<and> (\<forall>e \<in> set es. entry_ok e)"

lemma map_entries_one:
  assumes "chs_ok a" "device a = 0" "unat x = k" "0 < k" "k \<le> 36 - lba a mod 36"
  shows "map_entries a k [a\<lparr>num_sect := x\<rparr>]"
  using assms entries_last [of k "lba a"]
  by (auto simp: map_entries_def extent_def entry_ok_def lba_num word_less_nat_alt)

lemma map_entries_Cons:
  assumes "chs_ok a" "device a = 0" "unat x = 36 - lba a mod 36" "36 - lba a mod 36 < k" "lba b = lba a + (36 - lba a mod 36)"
    and "map_entries b (k - (36 - lba a mod 36)) es"
  shows "map_entries a k (a\<lparr>num_sect := x\<rparr> # es)"
proof -
  have e: "length (a\<lparr>num_sect := x\<rparr> # es) = entries (lba a) k"
    using assms(4-6) entries_next [of "lba a" k] by (simp add: map_entries_def)
  have "lba b + (k - (36 - lba a mod 36)) = lba a + k" using assms(4,5) by simp
  then have "concat (map extent es) = [lba a + (36 - lba a mod 36)..<lba a + k]"
    using assms(5,6) by (simp add: map_entries_def)
  moreover have "[lba a..<lba a + k] = [lba a..<lba a + (36 - lba a mod 36)] @ [lba a + (36 - lba a mod 36)..<lba a + k]"
    using upt_add_eq_append [of "lba a" "lba a + (36 - lba a mod 36)" "k - (36 - lba a mod 36)"] assms(4) by simp
  ultimately have "concat (map extent (a\<lparr>num_sect := x\<rparr> # es)) = [lba a..<lba a + k]"
    using assms(3) by (simp add: extent_def lba_num)
  moreover have "entry_ok (a\<lparr>num_sect := x\<rparr>)"
    using assms(1-3) mod_less_divisor [of 36 "lba a"] by (auto simp: entry_ok_def lba_num word_less_nat_alt)
  ultimately show ?thesis using e assms(6) by (simp add: map_entries_def)
qed

lemma length_addr_bytes: "length (addr_bytes a) = 5"
  by (simp add: addr_bytes_def)

lemma patch_map_spec:
  assumes "chs_ok a" "device a = 0" "unat i < unat n" "unat n < 4000" "lba a + (unat n - unat i) < 8000"
    and "5 * (j + entries (lba a) (unat n - unat i)) \<le> length b"
  shows "\<exists>es. patch_map i j n a b = Some (take (5 * j) b @ concat (map addr_bytes es) @ drop (5 * (j + length es)) b)
    \<and> map_entries a (unat n - unat i) es"
  using assms
proof (induction "unat n - unat i" arbitrary: i j a b rule: less_induct)
  case less
  note A = less.prems
  let ?k = "unat n - unat i" and ?c = "36 - lba a mod 36"
  define e where "e = a\<lparr>num_sect := ucast (min (n - i) (chunk_size a))\<rparr>"
  have num: "unat (num_sect e) = min ?k ?c" using entry_num [OF A(1,3)] by (simp add: e_def)
  have c: "0 < ?c" "?c \<le> 36" by simp_all
  have ek: "entries (lba a) ?k \<noteq> 0" using A(3) by (simp add: entries_def)
  then have p: "put (5 * j) (addr_bytes e) b = Some (take (5 * j) b @ addr_bytes e @ drop (5 * j + 5) b)"
    using A(6) by (subst put_at) (simp_all add: length_addr_bytes)
  define b' where "b' = take (5 * j) b @ addr_bytes e @ drop (5 * j + 5) b"
  have i': "unat (i + chunk_size a) = unat i + ?c"
    using chunk_size_value [OF A(1)] A(3,4) c by (subst unat_add_nowrap) simp_all
  have step: "patch_map i j n a b = patch_map (i + chunk_size a) (j + 1) n (inc_sector a (num_sect e)) b'"
    using A(3) p by (subst patch_map.simps) (simp add: Let_def e_def [symmetric] word_less_nat_alt b'_def)
  show ?case
  proof (cases "?k \<le> ?c")
    case True
    then have "\<not> i + chunk_size a < n" using i' A(3) by (simp add: word_less_nat_alt)
    then have "patch_map i j n a b = Some (take (5 * j) b @ concat (map addr_bytes [e]) @ drop (5 * (j + length [e])) b)"
      by (subst step, subst patch_map.simps) (simp add: b'_def add.commute)
    moreover have "map_entries a ?k [e]"
      unfolding e_def by (rule map_entries_one) (use A True num e_def in auto)
    ultimately show ?thesis by blast
  next
    case False
    then have n: "unat (num_sect e) = ?c" using num by simp
    let ?a = "inc_sector a (num_sect e)"
    have a: "lba ?a = lba a + ?c" "chs_ok ?a" "device ?a = 0"
      using inc_sector_lba [OF A(1), of "num_sect e"] A(2,5) False n c by simp_all
    have len: "length b' = length b" using A(6) ek by (simp add: b'_def length_addr_bytes)
    have rest: "unat n - unat (i + chunk_size a) = ?k - ?c" by (simp add: i')
    have count: "j + 1 + entries (lba a + ?c) (?k - ?c) = j + entries (lba a) ?k"
      using entries_next [of "lba a" ?k] False by simp
    have smaller: "l - (k + c) < l - k \<and> k + c < l \<and> p + c + (l - (k + c)) < 8000"
      if "0 < c" "\<not> l - k \<le> c" "p + (l - k) < 8000" for c k l p :: nat using that by linarith
    note d = smaller [OF c(1) False A(5), folded i' a(1)]
    have "\<exists>es. patch_map (i + chunk_size a) (j + 1) n ?a b'
          = Some (take (5 * (j + 1)) b' @ concat (map addr_bytes es) @ drop (5 * (j + 1 + length es)) b')
        \<and> map_entries ?a (unat n - unat (i + chunk_size a)) es"
    proof (rule less.hyps)
      show "5 * (j + 1 + entries (lba ?a) (unat n - unat (i + chunk_size a))) \<le> length b'"
        unfolding rest a(1) len count using A(6) .
    qed (use A(4) d a(2,3) in auto)
    then obtain es where es: "patch_map (i + chunk_size a) (j + 1) n ?a b'
          = Some (take (5 * (j + 1)) b' @ concat (map addr_bytes es) @ drop (5 * (j + 1 + length es)) b')"
      "map_entries ?a (?k - ?c) es" by (auto simp: i')
    have "take (5 * (j + 1)) b' = take (5 * j) b @ addr_bytes e"
      "drop (5 * (j + 1 + length es)) b' = drop (5 * (j + length (e # es))) b"
      using A(6) ek by (simp_all add: b'_def length_addr_bytes min_def add_ac)
    then have "patch_map i j n a b = Some (take (5 * j) b @ concat (map addr_bytes (e # es)) @ drop (5 * (j + length (e # es))) b)"
      using es(1) step by simp
    moreover have "map_entries a ?k (e # es)"
      unfolding e_def by (rule map_entries_Cons [OF A(1,2) _ _ a(1) es(2)]) (use n False e_def in auto)
    ultimately show ?thesis by blast
  qed
qed

section \<open>What a loader reads\<close>

text \<open>The address at byte \<open>k\<close>, the sectors a disk address names, and the map up to the entry that is zero.\<close>

definition entry_at :: "u8 list \<Rightarrow> nat \<Rightarrow> sect_addr" where
  "entry_at b k = \<lparr>sector = b ! k, track = b ! (k + 1), device = b ! (k + 2), head = b ! (k + 3), num_sect = b ! (k + 4)\<rparr>"

definition read_disk :: "u8 list \<Rightarrow> sect_addr \<Rightarrow> u8 list" where
  "read_disk img e = take (512 * unat (num_sect e)) (drop (512 * lba e) img)"

definition loaded_entries :: "u8 list \<Rightarrow> sect_addr list" where
  "loaded_entries m = takeWhile (\<lambda>e. \<not> (sector e = 0 \<and> track e = 0 \<and> device e = 0 \<and> head e = 0))
     (map (\<lambda>k. entry_at m (5 * k)) [0..<204])"

lemma entry_at_mid: "k = length xs \<Longrightarrow> entry_at (xs @ addr_bytes e @ ys) k = e"
  by (simp add: entry_at_def addr_bytes_def nth_append)

lemma entry_at_map: "k < length es \<Longrightarrow> entry_at (concat (map addr_bytes es) @ ys) (5 * k) = es ! k"
proof -
  assume k: "k < length es"
  have "concat (map addr_bytes es) = concat (map addr_bytes (take k es)) @ addr_bytes (es ! k) @ concat (map addr_bytes (drop (Suc k) es))"
    using id_take_nth_drop [OF k] by (metis concat.simps(2) concat_append list.simps(9) map_append)
  moreover have "length (concat (map addr_bytes (take k es))) = 5 * k"
    using k by (simp add: length_concat length_addr_bytes comp_def sum_list_triv)
  ultimately show ?thesis by (simp add: entry_at_mid)
qed

lemma entry_at_zeros: "5 * k + 4 < length b \<Longrightarrow> drop (5 * k) b = replicate n 0 \<Longrightarrow> sector (entry_at b (5 * k)) = 0 \<and> track (entry_at b (5 * k)) = 0
    \<and> device (entry_at b (5 * k)) = 0 \<and> head (entry_at b (5 * k)) = 0"
proof -
  assume l: "5 * k + 4 < length b" and d: "drop (5 * k) b = replicate n 0"
  have n: "n = length b - 5 * k" using d by (metis length_drop length_replicate)
  have "b ! (5 * k + i) = 0" if "i < 4" for i
  proof -
    have "b ! (5 * k + i) = drop (5 * k) b ! i" using l that by simp
    also have "\<dots> = 0" using l that n unfolding d by simp
    finally show ?thesis .
  qed
  from this [of 0] this [of 1] this [of 2] this [of 3] show ?thesis by (simp add: entry_at_def)
qed

lemma loaded_map:
  assumes "length es < 204" "\<forall>e \<in> set es. entry_ok e"
  shows "loaded_entries (concat (map addr_bytes es) @ replicate (1024 - 5 * length es) 0) = es"
proof -
  let ?m = "concat (map addr_bytes es) @ replicate (1024 - 5 * length es) 0" and ?n = "length es"
  let ?P = "\<lambda>e. \<not> (sector e = 0 \<and> track e = 0 \<and> device e = 0 \<and> head e = 0)"
  have len: "length (concat (map addr_bytes es)) = 5 * ?n"
    by (simp add: length_concat length_addr_bytes comp_def sum_list_triv)
  have "[0..<204] = [0..<?n] @ ?n # [Suc ?n..<204]"
    using assms(1) upt_add_eq_append [of 0 ?n "204 - ?n"] upt_conv_Cons [of ?n 204] by simp
  moreover have "map (\<lambda>k. entry_at ?m (5 * k)) [0..<?n] = es"
    by (rule nth_equalityI) (simp_all add: entry_at_map)
  ultimately have "map (\<lambda>k. entry_at ?m (5 * k)) [0..<204] = es @ entry_at ?m (5 * ?n) # map (\<lambda>k. entry_at ?m (5 * k)) [Suc ?n..<204]"
    by simp
  moreover have "\<not> ?P (entry_at ?m (5 * ?n))"
    using entry_at_zeros [of ?n ?m "1024 - 5 * ?n"] assms(1) len by simp
  moreover have "?P e" if "e \<in> set es" for e using assms(2) that by (auto simp: entry_ok_def chs_ok_def)
  ultimately show ?thesis by (simp add: loaded_entries_def takeWhile_append)
qed

lemma read_sectors: "take (512 * n) (drop (512 * l) img) = concat (map (\<lambda>s. take 512 (drop (512 * s) img)) [l..<l + n])"
proof (induction n)
  case (Suc n)
  have "take (512 * Suc n) (drop (512 * l) img) = take (512 * n) (drop (512 * l) img) @ take 512 (drop (512 * (l + n)) img)"
    using take_add [of "512 * n" 512 "drop (512 * l) img"] by (simp add: algebra_simps)
  then show ?case using Suc by simp
qed simp

lemma read_entries:
  assumes "map_entries a k es"
  shows "concat (map (read_disk img) es) = take (512 * k) (drop (512 * lba a) img)"
proof -
  have "read_disk img e = concat (map (\<lambda>s. take 512 (drop (512 * s) img)) (extent e))" for e
    by (simp add: read_disk_def extent_def read_sectors)
  then have "concat (map (read_disk img) es) = concat (map (\<lambda>s. take 512 (drop (512 * s) img)) (concat (map extent es)))"
    by (induction es) simp_all
  then show ?thesis using assms by (simp add: map_entries_def read_sectors)
qed

section \<open>The image\<close>

text \<open>A file in a buffer of \<open>n\<close> bytes that was zero.\<close>

definition pad :: "nat \<Rightarrow> u8 list \<Rightarrow> u8 list" where
  "pad n f = f @ replicate (n - length f) 0"

lemma put_buffer: "length f \<le> unat n \<Longrightarrow> put 0 f (buffer n) = Some (pad (unat n) f)"
  by (simp add: put_def buffer_def pad_def)

lemma whole_sectors_value: "n div 512 < 4000 \<Longrightarrow> unat (whole_sectors n) = 512 * (n div 512 + 1)"
proof -
  assume n: "n div 512 < 4000"
  define x where "x = (of_nat (n div 512) + 1 :: u32)"
  have x: "unat x = n div 512 + 1"
    unfolding x_def using n unat_of_nat_small [where 'a = 32, of "n div 512"] by (subst unat_add_nowrap) simp_all
  have "unat (x * 512) = unat x * 512 mod 4294967296" by (simp add: unat_word_ariths)
  then show ?thesis using n x by (simp add: whole_sectors_def x_def)
qed

lemma sectors_of: "length b = 512 * k \<Longrightarrow> k < 4000 \<Longrightarrow> unat (of_nat (length b) div 512 :: u32) = k"
  using unat_of_nat_small [where 'a = 32, of "length b"] by (simp add: unat_div)

lemma patch_image_spec:
  assumes bs: "length bsect = 512" and sc: "length second = 512 * ls" "0 < ls" "ls \<le> 17"
    and kn: "length kern = 512 * lk" "0 < lk" "ls + 3 + lk \<le> 2880"
  shows "\<exists>e1 e2 a es. patch_image bsect second kern =
        Some ((take 16 bsect @ addr_bytes e1 @ drop 21 bsect) @ (take 16 second @ addr_bytes e2 @ drop 21 second)
          @ (concat (map addr_bytes es) @ replicate (1024 - 5 * length es) 0) @ kern)
    \<and> lba e1 = 1 \<and> unat (num_sect e1) = ls \<and> lba e2 = 1 + ls \<and> unat (num_sect e2) = 2
    \<and> lba a = ls + 3 \<and> map_entries a lk es \<and> length es < 204"
proof -
  let ?n = "of_nat (length second) div 512 :: u32" and ?k = "of_nat (length kern) div 512 :: u32"
  let ?a0 = "\<lparr>sector = 2, track = 0, device = 0x00, head = 0, num_sect = 0\<rparr>"
  have n: "unat ?n = ls" "unat ?k = lk" using sectors_of [OF sc(1)] sectors_of [OF kn(1)] sc kn by simp_all
  define e1 where "e1 = ?a0\<lparr>num_sect := ucast (min ?n CHUNKS)\<rparr>"
  have "min ?n CHUNKS = ?n" using n sc by (simp add: min_def CHUNKS_def word_le_nat_alt)
  then have num: "unat (num_sect e1) = ls" unfolding e1_def using n sc by (simp add: unat_down)
  have a0: "lba ?a0 = 1" "chs_ok ?a0" "lba e1 = 1" by (simp_all add: lba_def chs_ok_def e1_def)
  let ?a1 = "inc_sector ?a0 (num_sect e1)"
  have a1: "lba ?a1 = 1 + ls" "chs_ok ?a1" "device ?a1 = 0"
    using inc_sector_lba [OF a0(2), of "num_sect e1"] a0(1) num sc by simp_all
  define b1 where "b1 = take 16 bsect @ addr_bytes e1 @ drop 21 bsect"
  have "\<not> CHUNKS < ?n" using n sc by (simp add: CHUNKS_def word_less_nat_alt)
  then have "patch_bsect CHUNKS 1 ?n a b = Some (a, b)" for a b by (subst patch_bsect.simps) simp
  then have p1: "patch_bsect 0 0 ?n ?a0 bsect = Some (?a1, b1)"
    using bs n sc by (subst patch_bsect.simps) (simp add: Let_def e1_def secaddr_at_def put_at length_addr_bytes b1_def word_less_nat_alt)
  define e2 where "e2 = ?a1\<lparr>num_sect := ucast (mapsize div 512)\<rparr>"
  have e2: "lba e2 = 1 + ls" "unat (num_sect e2) = 2"
    using a1 by (simp_all add: e2_def lba_num mapsize_def)
  let ?a2 = "inc_sector ?a1 (num_sect e2)"
  have a2: "lba ?a2 = ls + 3" "chs_ok ?a2" "device ?a2 = 0"
    using inc_sector_lba [OF a1(2), of "num_sect e2"] a1 e2 sc by simp_all
  have p2: "put secaddr_at (addr_bytes e2) second = Some (take 16 second @ addr_bytes e2 @ drop 21 second)"
    using sc by (simp add: secaddr_at_def put_at length_addr_bytes)
  have "(ls + 3 + lk - 1) div 36 \<le> 79" using kn by simp
  then have en: "entries (ls + 3) lk \<le> 80" by (auto simp: entries_def intro: le_trans [OF diff_le_self])
  have "\<exists>es. patch_map 0 0 ?k ?a2 (buffer mapsize)
        = Some (take (5 * 0) (buffer mapsize) @ concat (map addr_bytes es) @ drop (5 * (0 + length es)) (buffer mapsize))
      \<and> map_entries ?a2 (unat ?k - unat (0 :: u32)) es"
    by (rule patch_map_spec) (use a2 n kn en in \<open>simp_all add: buffer_def mapsize_def\<close>)
  then obtain es where es: "patch_map 0 0 ?k ?a2 (buffer mapsize) = Some (concat (map addr_bytes es) @ replicate (1024 - 5 * length es) 0)"
    "map_entries ?a2 lk es" using n by (auto simp: buffer_def mapsize_def)
  have "length es < 204" using es(2) en a2(1) by (simp add: map_entries_def)
  moreover have "patch_image bsect second kern = Some (b1 @ (take 16 second @ addr_bytes e2 @ drop 21 second)
      @ (concat (map addr_bytes es) @ replicate (1024 - 5 * length es) 0) @ kern)"
    using p1 p2 es(1) by (simp add: patch_image_def Let_def e2_def [symmetric])
  ultimately show ?thesis
    using a0(3) num e2 a2(1) es(2) unfolding b1_def by blast
qed

text \<open>
  Property C14.  The image boots.  For two good loaders, the second of at most 8 KB, and a kernel that leaves
  the image within the 2880 sectors of the disk, build stores nothing outside its buffers and writes an
  image of whole sectors.  The first sector is the boot sector with its halt flag cleared; reading the
  disk at the address in it gives the second loader, reading at the address in that gives the map, and
  reading the sectors of the entries of the map, up to the zero entry, gives the kernel followed by zeros.
  No entry of the map reaches over the end of a cylinder.
\<close>

theorem boot_image_loads:
  assumes "\<not> header_bad 1 (pad 512 (take 512 f))" and "length g \<le> 8192"
    and "\<not> header_bad 2 (pad (512 * (length g div 512 + 1)) g)" and "length g div 512 + length h div 512 + 5 \<le> 2880"
  shows "\<exists>img s m. build f g h = Some (Inr img) \<and> length img = 512 * (length g div 512 + length h div 512 + 5)
    \<and> take 14 img = take 14 (pad 512 (take 512 f)) \<and> img ! 14 = pad 512 (take 512 f) ! 14 AND NOT 1
    \<and> drop 21 (take 512 img) = drop 21 (pad 512 (take 512 f))
    \<and> read_disk img (entry_at img 16) = s \<and> length s = 512 * (length g div 512 + 1)
    \<and> take 16 s = take 16 (pad (length s) g) \<and> drop 21 s = drop 21 (pad (length s) g)
    \<and> read_disk img (entry_at s 16) = m \<and> length m = 1024
    \<and> concat (map (read_disk img) (loaded_entries m)) = pad (512 * (length h div 512 + 1)) h
    \<and> (\<forall>e \<in> set (loaded_entries m). entry_ok e)"
proof -
  let ?ls = "length g div 512 + 1" and ?lk = "length h div 512 + 1"
  let ?b0 = "pad 512 (take 512 f)" and ?s0 = "pad (512 * ?ls) g" and ?k0 = "pad (512 * ?lk) h"
  define b where "b = ?b0[flag_at := ?b0 ! flag_at AND NOT 1]"
  have len: "length b = 512" "length ?b0 = 512" by (simp_all add: b_def pad_def)
  have gl: "length g \<le> 512 * ?ls" "length h \<le> 512 * ?lk" using div_mult_mod_eq [of "length g" 512] div_mult_mod_eq [of "length h" 512]
      mod_less_divisor [of 512 "length g", OF zero_less_numeral] mod_less_divisor [of 512 "length h", OF zero_less_numeral] by simp_all
  then have ls: "length ?s0 = 512 * ?ls" "length ?k0 = 512 * ?lk" by (simp_all add: pad_def)
  have l17: "?ls \<le> 17" using div_le_mono [OF assms(2), of 512] by simp
  have bf: "put 0 (take 512 f) (buffer 512) = Some ?b0"
    using put_buffer [of "take 512 f" 512] by simp
  have gf: "put 0 g (buffer (whole_sectors (length g))) = Some ?s0" "put 0 h (buffer (whole_sectors (length h))) = Some ?k0"
    using put_buffer [of g "whole_sectors (length g)"] put_buffer [of h "whole_sectors (length h)"] gl assms(4) l17
    by (simp_all add: whole_sectors_value)
  have bld: "build f g h = map_option Inr (patch_image b ?s0 ?k0)"
    using assms(1-3) by (simp add: build_def bf gf b_def Let_def)
  obtain e1 e2 a es where p: "patch_image b ?s0 ?k0 =
        Some ((take 16 b @ addr_bytes e1 @ drop 21 b) @ (take 16 ?s0 @ addr_bytes e2 @ drop 21 ?s0)
          @ (concat (map addr_bytes es) @ replicate (1024 - 5 * length es) 0) @ ?k0)"
    and e: "lba e1 = 1" "unat (num_sect e1) = ?ls" "lba e2 = 1 + ?ls" "unat (num_sect e2) = 2"
    and es: "lba a = ?ls + 3" "map_entries a ?lk es" "length es < 204"
    using patch_image_spec [OF len(1) ls(1) _ l17 ls(2)] assms(4) by auto
  define B S M where "B = take 16 b @ addr_bytes e1 @ drop 21 b" and "S = take 16 ?s0 @ addr_bytes e2 @ drop 21 ?s0"
    and "M = concat (map addr_bytes es) @ replicate (1024 - 5 * length es) 0"
  define img where "img = B @ S @ M @ ?k0"
  have L: "length B = 512" "length S = 512 * ?ls" "length M = 1024"
    using len ls es(3) by (simp_all add: B_def S_def M_def length_addr_bytes length_concat comp_def sum_list_triv)
  have "build f g h = Some (Inr img)" using bld p by (simp add: img_def B_def S_def M_def)
  moreover have "length img = 512 * (length g div 512 + length h div 512 + 5)" using L ls by (simp add: img_def)
  moreover have "take 14 img = take 14 ?b0" "drop 21 (take 512 img) = drop 21 ?b0" "img ! 14 = ?b0 ! 14 AND NOT 1"
    using L(1) len by (simp_all add: img_def B_def b_def flag_at_def length_addr_bytes nth_append min_def)
  moreover have i16: "entry_at img 16 = e1" "entry_at S 16 = e2"
    using entry_at_mid [of 16 "take 16 b" e1] entry_at_mid [of 16 "take 16 ?s0" e2] len ls by (simp_all add: img_def B_def S_def)
  moreover have "read_disk img e1 = S" "read_disk img e2 = M"
    using L e by (simp_all add: read_disk_def img_def)
  moreover have "take 16 S = take 16 ?s0" "drop 21 S = drop 21 ?s0" using ls by (simp_all add: S_def length_addr_bytes)
  moreover have "loaded_entries M = es" unfolding M_def by (rule loaded_map) (use es in \<open>auto simp: map_entries_def\<close>)
  moreover have "concat (map (read_disk img) es) = ?k0"
    unfolding read_entries [OF es(2)] es(1) using L ls by (simp add: img_def)
  moreover have "\<forall>e \<in> set es. entry_ok e" using es(2) by (simp add: map_entries_def)
  ultimately show ?thesis using L(2,3) by (intro exI [of _ img] exI [of _ S] exI [of _ M]) simp
qed

theorem boot_image_loads_witness:
  "\<exists>img. build [0, 0, 0, 0, 66, 79, 79, 84, 1, 0, 0x34, 0x12, 1, 0, 1] [0, 0, 0, 0, 66, 79, 79, 84, 2, 0, 0x34, 0x12, 1, 0] [7, 8]
      = Some (Inr img) \<and> length img = 2560 \<and> img ! 14 = 0"
proof -
  let ?f = "[0, 0, 0, 0, 66, 79, 79, 84, 1, 0, 0x34, 0x12, 1, 0, 1] :: u8 list"
    and ?g = "[0, 0, 0, 0, 66, 79, 79, 84, 2, 0, 0x34, 0x12, 1, 0] :: u8 list"
  have "\<not> header_bad 1 (pad 512 (take 512 ?f))" "\<not> header_bad 2 (pad (512 * (length ?g div 512 + 1)) ?g)"
    by (simp_all add: header_bad_def pad_def word_at_def push_bit_eq_mult)
  from boot_image_loads [OF this(1) _ this(2), of "[7, 8]"] show ?thesis by (auto simp: pad_def)
qed

end
