(* ===== verification/Spec2Isabelle.thy ===== *)
theory Spec2Isabelle
  imports Race Libc Scan Startup Perl Bootmap
begin

text \<open>
  A verification development for bootperl, a small i386 kernel that boots from a floppy disk and runs a
  Perl interpreter as its second process.

  The program.  tools/build.c puts the boot image together.  The loaders in boot/ read it and jump to
  start_kernel (init/main.c), which finds the memory (kernel/setup.c, kernel/memory.c), detects the
  processor, sets up the consoles and the log (kernel/console.c, kernel/telemetry.c, kernel/printk.c), the
  interrupt table and the interrupt controllers (kernel/setup.c, kernel/irq.c, kernel/exception.c,
  kernel/i8259.c), the clock and the keyboard, calibrates the delay loop, creates the process init
  (kernel/task.c) and becomes the idle task.  init starts the process that runs Perl (kernel/perl.c), which
  is linked against the C library of kernel/perlwrap.c.  Everything prints through printk, allocates with
  kalloc and kfree, and is guarded by one counting lock that disables interrupts.

  The model.  The state is a record that grows along the imports, one extension per component: kcpu (lock,
  interrupt flag, ports, printed messages), kmem (bytes of memory and the two free lists), ktask (tasks,
  queues, the running task, the interrupt flag each suspended task returns to), klog (consoles and log), kpic, kkbd, kirq, kdelay, kboot, kperl, kinterp.  Where
  the layout matters (free blocks, descriptors, video memory, boot structures, strings) data are bytes of a
  32-bit memory; task and handler structures are records in a store indexed by address.  Machine
  integers are words of their width, and a signed comparison of the source is one of \<open>sint\<close>.  An operation
  that can stop the kernel returns \<open>Some (Inl h)\<close> with the halted state \<open>h\<close>, one that returns
  \<open>Some (Inr (v, s))\<close>, and a loop that never ends gives \<open>None\<close>: such loops are \<open>partial_function (option)\<close>, so
  that every theorem saying what an operation returns also says that it does return.  No definition
  has fuel; the loops that end for every input are structural or have a termination proof.  Every call of
  printk outside kernel/printk.c itself is an entry in a trace (format and arguments); theories Vsprintf
  and Printk model what becomes of such a call, and con_puts and con_write what reaches the screen.

  The theories, lowest first, and what their lemmas show.
    Prelude    C types and arithmetic, the lock of include/asm/lock.h, printk as a trace.
    Ctype      kernel/ctype.c, include/kernel/ctype.h: the table and the character classes.
    Strtoul, Vsprintf, Format
               kernel/vsprintf.c.  The scanners, the formatter with all its flags, and that the text of a
               number is its sign, its zeros and its digits, that a format is the concatenation of its
               pieces, and that scanning reads back what was printed.
    Panic      kernel/panic.c, kernel/bochs.c.
    Machine    bytes, loads and stores; memset and memcpy of init/main.c.
    Extents, Pages, Kalloc
               kernel/memory.c.  Free lists abstractly and in memory (locale \<open>free_list\<close>, interpreted for
               pages and for blocks); the page allocator keeps its list sorted and coalesced; kalloc refines
               a first-fit allocator over lists of extents, hands out free memory only and is undone by
               kfree; kfree of blocks below 4 bytes writes past them, and of large blocks gives pages to
               both lists.
    Links, Task, Sched, Process
               kernel/task.c, switch_to, block and the return from an interrupt of kernel/entry.S (which task
               runs, and with which interrupt flag), do_timer_int of kernel/clock.c.  Rings
               of nodes (locale \<open>dlink\<close>, interpreted for the run list, the task list and the wait queues);
               schedule is round robin and fair, blocking and waking move tasks between lists, and
               create_process makes a well-formed runnable task.
    Screen, Console
               update_status of kernel/task.c, kernel/console.c: con_write refines a terminal that wraps and
               scrolls; the status line and the console leave each other alone.
    Ring, Printk
               kernel/printk.c, kernel/telemetry.c.  Byte rings (locales \<open>byte_ring\<close> and \<open>byte_queue\<close>,
               interpreted for the log and for the keyboard buffer); printk splits, logs and dispatches; a
               console registered late sees the same text.
    Pic        kernel/i8259.c: the controllers hold the cached masks.
    Keyboard, Typing, Race
               kernel/keyboard.c, kernel/reboot.c: the handler returns, a letter key types its character, and,
               as a step relation, getch against the interrupt: the reader is never lost, but can
               sleep on a full buffer.
    Desc, Irq, Vectors
               include/kernel/bitmap.h, include/kernel/gdt.h, include/asm/system.h, kernel/irq.c,
               kernel/exception.c, kernel/syscall.c, the table of kernel/setup.c: chains of handlers, what
               handle_irq serves, the 256 gates, the lines that are open, how an exception ends.
    Delay      kernel/delay.c and calibrate_delay of init/main.c: how far a delay is off.
    Boot, Startup
               setup_trad and setup_grub of kernel/setup.c, kernel/processor.c, console_init, start_kernel and
               kernel_init: start_kernel reaches the idle loop with all of the above in order.
    Libc, Scan, Stubs
               kernel/perlwrap.c: allocation and strings, strtoul and atoi, and the functions that only
               report a failure.
    Perl       kernel/perl.c, over the entry points of the interpreter as a parameter.
    Bootmap    tools/build.c: the image can be loaded by following its disk addresses.

  Bounds.  The page list has 16-bit page numbers, so memory ends at 256 MB (\<open>2 ^ 28\<close>); a request to kalloc
  is at most 65535 pages; the lock counter stays below \<open>2 ^ 32 - 2\<close>.  These are hypotheses wherever they
  are needed.

  Not modelled.  The assembly of boot/ and of kernel/entry.S (but for the parts named above), since it
  has no C semantics to translate; the interpreter itself, which is not in the repository; perl/wrap.c,
  perl/kwrap.c and perl/embed.c, which run on the host and forward to the C library of the host through
  dlsym; the register dump of kernel/panic.c behind an unconditional goto; the two test system calls at the
  end of init_syscalls, which enter the kernel by a software interrupt; the unused constants and structures
  of include/asm/processor.h and include/kernel/multiboot.h; and the build and linkage macros.
\<close>

end
